(* ===== verification/Secmem_Prelude.thy ===== *)
theory Secmem_Prelude
  imports Main "HOL-Library.Word" "HOL-Library.Monad_Syntax"
begin

text \<open>
  Shared vocabulary of the development: bytes and byte strings, the sentinel errors of
  \<^verbatim>\<open>errors.go\<close> with the \<^verbatim>\<open>errors.Is\<close> and \<^verbatim>\<open>errors.Join\<close> of the
  Go standard library, Go's \<^verbatim>\<open>copy\<close> on slices, and the generic list facts the
  component theories use.
\<close>

section \<open>Bytes and byte strings\<close>

type_synonym byte = "8 word"
type_synonym bytes = "byte list"

abbreviation zeros :: "nat \<Rightarrow> bytes" where
  "zeros n \<equiv> replicate n 0"

definition all_zero :: "bytes \<Rightarrow> bool" where
  "all_zero b \<longleftrightarrow> list_all (\<lambda>x. x = 0) b"

lemma all_zero_zeros [simp]: "all_zero (zeros n)"
  by (simp add: all_zero_def list_all_iff)

lemma all_zero_iff: "all_zero b \<longleftrightarrow> zeros (length b) = b"
  by (induction b) (auto simp: all_zero_def)

lemma all_zero_nth: "all_zero b \<Longrightarrow> i < length b \<Longrightarrow> b ! i = 0"
  by (simp add: all_zero_def list_all_length)

named_theorems frame_simps \<open>what an operation leaves unchanged\<close>
named_theorems op_defs \<open>definitions of the operations of the program\<close>

section \<open>Errors\<close>

text \<open>
  The sentinel errors of \<^verbatim>\<open>errors.go\<close>, an error returned by the operating system, and an
  error built from a message only. The text a call adds with \<^verbatim>\<open>fmt.Errorf("...: %w", err)\<close>
  is dropped: wrapping changes no \<^verbatim>\<open>errors.Is\<close> answer. \<open>ErrJoin\<close> is the value of
  \<^verbatim>\<open>errors.Join\<close> on two errors. \<open>ErrWiped\<close> wraps \<open>ErrDestroyed\<close>.
\<close>

datatype err =
    ErrDestroyed
  | ErrWiped
  | ErrSealed
  | ErrReadOnly
  | ErrArenaFull
  | ErrSlotReleased
  | ErrNoSecureMemory
  | ErrIntegrity
  | ErrCanaryViolation
  | ErrKeyCollision
  | ErrWipeSkipped
  | ErrEOF
  | ErrOS
  | ErrMsg string
  | ErrJoin err err

type_synonym error = "err option"

primrec errIs :: "err \<Rightarrow> err \<Rightarrow> bool" where
  "errIs ErrDestroyed t \<longleftrightarrow> t = ErrDestroyed"
| "errIs ErrWiped t \<longleftrightarrow> t = ErrWiped \<or> t = ErrDestroyed"
| "errIs ErrSealed t \<longleftrightarrow> t = ErrSealed"
| "errIs ErrReadOnly t \<longleftrightarrow> t = ErrReadOnly"
| "errIs ErrArenaFull t \<longleftrightarrow> t = ErrArenaFull"
| "errIs ErrSlotReleased t \<longleftrightarrow> t = ErrSlotReleased"
| "errIs ErrNoSecureMemory t \<longleftrightarrow> t = ErrNoSecureMemory"
| "errIs ErrIntegrity t \<longleftrightarrow> t = ErrIntegrity"
| "errIs ErrCanaryViolation t \<longleftrightarrow> t = ErrCanaryViolation"
| "errIs ErrKeyCollision t \<longleftrightarrow> t = ErrKeyCollision"
| "errIs ErrWipeSkipped t \<longleftrightarrow> t = ErrWipeSkipped"
| "errIs ErrEOF t \<longleftrightarrow> t = ErrEOF"
| "errIs ErrOS t \<longleftrightarrow> t = ErrOS"
| "errIs (ErrMsg m) t \<longleftrightarrow> t = ErrMsg m"
| "errIs (ErrJoin a b) t \<longleftrightarrow> t = ErrJoin a b \<or> errIs a t \<or> errIs b t"

fun errorIs :: "error \<Rightarrow> err \<Rightarrow> bool" where
  "errorIs None t \<longleftrightarrow> False"
| "errorIs (Some e) t \<longleftrightarrow> errIs e t"

fun errorsJoin :: "error \<Rightarrow> error \<Rightarrow> error" where
  "errorsJoin None e = e"
| "errorsJoin (Some a) None = Some a"
| "errorsJoin (Some a) (Some b) = Some (ErrJoin a b)"

lemma errorsJoin_None [simp]: "errorsJoin e None = e"
  by (cases e) auto

lemma errorsJoin_eq_None [simp]: "errorsJoin a b = None \<longleftrightarrow> a = None \<and> b = None"
  by (cases a; cases b) auto

lemma errorIs_errorsJoin:
  assumes "\<And>a b. t \<noteq> ErrJoin a b"
  shows "errorIs (errorsJoin x y) t \<longleftrightarrow> errorIs x t \<or> errorIs y t"
  using assms by (cases x; cases y) auto

section \<open>Slices\<close>

text \<open>
  \<open>goCopy off src dst\<close> is the subslice \<open>dst\<close> after \<^verbatim>\<open>copy(dst[off:], src)\<close>:
  the number of bytes copied is the smaller of the two lengths.
\<close>

definition goCopyLen :: "nat \<Rightarrow> bytes \<Rightarrow> bytes \<Rightarrow> nat" where
  "goCopyLen off src dst = min (length src) (length dst - off)"

definition goCopy :: "nat \<Rightarrow> bytes \<Rightarrow> bytes \<Rightarrow> bytes" where
  "goCopy off src dst =
     take off dst @ take (length dst - off) src @ drop (off + length src) dst"

lemma length_goCopy [simp]: "off \<le> length dst \<Longrightarrow> length (goCopy off src dst) = length dst"
  by (auto simp: goCopy_def)

lemma take_goCopy: "off \<le> length dst \<Longrightarrow> take off (goCopy off src dst) = take off dst"
  by (simp add: goCopy_def)

lemma nth_goCopy:
  assumes "i < length dst" "off \<le> length dst"
  shows "goCopy off src dst ! i =
    (if off \<le> i \<and> i < off + length src then src ! (i - off) else dst ! i)"
  using assms by (auto simp: goCopy_def nth_append min_def)

lemma goCopy_whole: "length src = length dst \<Longrightarrow> goCopy 0 src dst = src"
  by (simp add: goCopy_def)

lemma goCopy_goCopy_read:
  assumes "off + length src \<le> length dst"
  shows "take (length src) (drop off (goCopy off src dst)) = src"
  using assms by (simp add: goCopy_def)

text \<open>A range of a byte string, \<^verbatim>\<open>b[lo:hi]\<close>, and the string with that range replaced.\<close>

definition subslice :: "nat \<Rightarrow> nat \<Rightarrow> 'a list \<Rightarrow> 'a list" where
  "subslice lo hi b = take (hi - lo) (drop lo b)"

definition patch :: "nat \<Rightarrow> 'a list \<Rightarrow> 'a list \<Rightarrow> 'a list" where
  "patch lo new b = take lo b @ new @ drop (lo + length new) b"

lemma length_subslice [simp]: "hi \<le> length b \<Longrightarrow> length (subslice lo hi b) = hi - lo"
  by (simp add: subslice_def)

lemma subslice_whole [simp]: "subslice 0 (length b) b = b"
  by (simp add: subslice_def)

lemma subslice_0_take: "subslice 0 n b = take n b"
  by (simp add: subslice_def)

lemma length_patch [simp]: "lo + length new \<le> length b \<Longrightarrow> length (patch lo new b) = length b"
  by (simp add: patch_def)

lemma nth_patch:
  assumes "i < length b" "lo + length new \<le> length b"
  shows "patch lo new b ! i =
    (if lo \<le> i \<and> i < lo + length new then new ! (i - lo) else b ! i)"
  using assms by (auto simp: patch_def nth_append)

lemma nth_subslice: "i < hi - lo \<Longrightarrow> hi \<le> length b \<Longrightarrow> subslice lo hi b ! i = b ! (lo + i)"
  by (simp add: subslice_def)

lemma patch_whole: "length new = length b \<Longrightarrow> patch 0 new b = new"
  by (simp add: patch_def)

lemma subslice_patch_same:
  "lo + length new \<le> length b \<Longrightarrow> subslice lo (lo + length new) (patch lo new b) = new"
  by (simp add: subslice_def patch_def)

lemma subslice_patch_before:
  assumes "hi \<le> lo" "lo + length new \<le> length b"
  shows "subslice l hi (patch lo new b) = subslice l hi b"
  using assms by (intro nth_equalityI) (auto simp: nth_subslice nth_patch)

lemma subslice_patch_after:
  assumes "lo + length new \<le> l" "hi \<le> length b" "lo + length new \<le> length b"
  shows "subslice l hi (patch lo new b) = subslice l hi b"
  using assms by (intro nth_equalityI) (auto simp: nth_subslice nth_patch)

lemma subslice_eq_all_nth:
  assumes "hi \<le> length b" "hi \<le> length c"
  shows "subslice lo hi b = subslice lo hi c \<longleftrightarrow> (\<forall>i. lo \<le> i \<and> i < hi \<longrightarrow> b ! i = c ! i)"
proof
  assume eq: "subslice lo hi b = subslice lo hi c"
  show "\<forall>i. lo \<le> i \<and> i < hi \<longrightarrow> b ! i = c ! i"
  proof (intro allI impI)
    fix i assume i: "lo \<le> i \<and> i < hi"
    with assms have "subslice lo hi b ! (i - lo) = subslice lo hi c ! (i - lo)" using eq by simp
    with i assms show "b ! i = c ! i" by (auto simp: subslice_def)
  qed
next
  assume "\<forall>i. lo \<le> i \<and> i < hi \<longrightarrow> b ! i = c ! i"
  with assms show "subslice lo hi b = subslice lo hi c"
    by (intro nth_equalityI) (auto simp: nth_subslice)
qed

end
