(* ===== verification/Buf_Lock.thy ===== *)
theory Buf_Lock
  imports Secmem_Prelude
begin

text \<open>
  The reader-writer lock of \<^verbatim>\<open>buflock.go\<close>. The state is the struct \<^verbatim>\<open>bufferRWLock\<close>
  together with the program counter of every goroutine inside one of its methods. A step
  is one atomic operation on \<^verbatim>\<open>readers\<close> or one action on the mutex and the fields it
  guards, so every interleaving of the fast paths with the slow paths is a run of the
  relation. The theory shows mutual exclusion, writer preference, the bounds of the biased
  counter at its 32-bit width, that no wake-up is lost, and that the whole protocol refines
  an abstract reader-writer lock.
\<close>

section \<open>State\<close>

type_synonym tid = nat

text \<open>
  The points a goroutine can be at. \<open>RHold\<close> and \<open>WHold\<close> are the critical sections;
  \<open>RPark\<close> and \<open>WPark\<close> are \<^verbatim>\<open>cond.Wait\<close>; the names with an initial \<open>R\<close>,
  \<open>W\<close> and \<open>T\<close> belong to \<^verbatim>\<open>rLock/rUnlock\<close>, \<^verbatim>\<open>lock/unlock\<close> and
  \<^verbatim>\<open>tryLock\<close>.
\<close>

datatype lpc =
    Idle
  | RSlow | RUndo | RUndoBcast | RTest | RPark | RWake | RRetest | REnroll | REnrolled
  | RHold | RDrain | RDrainBcast
  | WEnter | WArrive | WTest | WWait | WPark | WWake | WTake
  | WHold | WLeave | WClear | WBcast
  | TEnter | TTry

record bufferRWLock =
  mu :: "tid option"
  readers :: "32 word"
  writersWaiting :: nat
  writerActive :: bool
  readersWaiting :: nat

record lock_sys = bufferRWLock +
  pc :: "tid \<Rightarrow> lpc"

definition bufMaxReaders :: "32 word" where
  "bufMaxReaders = push_bit 30 1"

definition newBufferRWLock :: lock_sys where
  "newBufferRWLock = \<lparr>mu = None, readers = 0, writersWaiting = 0, writerActive = False,
     readersWaiting = 0, pc = (\<lambda>_. Idle)\<rparr>"

text \<open>\<^verbatim>\<open>cond.Broadcast\<close> moves every parked goroutine to the point where it takes the
  mutex again.\<close>

fun wake :: "lpc \<Rightarrow> lpc" where
  "wake RPark = RWake"
| "wake WPark = WWake"
| "wake p = p"

definition broadcast :: "lock_sys \<Rightarrow> lock_sys" where
  "broadcast s = s\<lparr>pc := (\<lambda>u. wake (pc s u))\<rparr>"

definition goto :: "tid \<Rightarrow> lpc \<Rightarrow> lock_sys \<Rightarrow> lock_sys" where
  "goto t p s = s\<lparr>pc := (pc s)(t := p)\<rparr>"

section \<open>The methods, as one function per goroutine\<close>

text \<open>
  \<open>rLock\<close>: \<^verbatim>\<open>if l.readers.Add(1) > 0 { return }; l.rLockSlow()\<close>. The comparison is on the
  signed 32-bit value.
\<close>

definition rLock :: "tid \<Rightarrow> lock_sys \<Rightarrow> lock_sys" where
  "rLock t s = (let r = readers s + 1 in
     goto t (if 0 < sint r then RHold else RSlow) (s\<lparr>readers := r\<rparr>))"

text \<open>
  \<open>rLockSlow\<close> from the point after \<^verbatim>\<open>l.mu.Lock()\<close>, one clause per atomic action; the
  loop \<^verbatim>\<open>for l.writerActive || l.writersWaiting > 0 { l.cond.Wait() }\<close> is the pair of
  tests \<open>RTest\<close> and \<open>RRetest\<close>.
\<close>

fun rLockSlow :: "lpc \<Rightarrow> tid \<Rightarrow> lock_sys \<Rightarrow> lock_sys" where
  "rLockSlow RUndo t s = (let r = readers s + - 1 in
     goto t (if r = - bufMaxReaders then RUndoBcast else RTest) (s\<lparr>readers := r\<rparr>))"
| "rLockSlow RUndoBcast t s = goto t RTest (broadcast s)"
| "rLockSlow RTest t s =
     (if writerActive s \<or> 0 < writersWaiting s
      then goto t RPark (s\<lparr>readersWaiting := readersWaiting s + 1, mu := None\<rparr>)
      else goto t REnroll (s\<lparr>readersWaiting := readersWaiting s + 1\<rparr>))"
| "rLockSlow RRetest t s =
     (if writerActive s \<or> 0 < writersWaiting s
      then goto t RPark (s\<lparr>mu := None\<rparr>)
      else goto t REnroll s)"
| "rLockSlow REnroll t s =
     goto t REnrolled (s\<lparr>readersWaiting := readersWaiting s - 1, readers := readers s + 1\<rparr>)"
| "rLockSlow REnrolled t s = goto t RHold (s\<lparr>mu := None\<rparr>)"
| "rLockSlow p t s = s"

text \<open>
  \<open>rUnlock\<close>: \<^verbatim>\<open>if r := l.readers.Add(-1); r < 0 && r == -bufMaxReaders\<close> then take the
  mutex and broadcast.
\<close>

definition rUnlock :: "tid \<Rightarrow> lock_sys \<Rightarrow> lock_sys" where
  "rUnlock t s = (let r = readers s + - 1 in
     goto t (if sint r < 0 \<and> r = - bufMaxReaders then RDrain else Idle) (s\<lparr>readers := r\<rparr>))"

definition rUnlockBcast :: "tid \<Rightarrow> lock_sys \<Rightarrow> lock_sys" where
  "rUnlockBcast t s = goto t Idle ((broadcast s)\<lparr>mu := None\<rparr>)"

text \<open>
  \<open>lock\<close> from the point after \<^verbatim>\<open>l.mu.Lock()\<close>. The load of \<^verbatim>\<open>readers\<close> in the loop
  condition and the wait are two steps: readers keep moving between them.
\<close>

fun lockBody :: "lpc \<Rightarrow> tid \<Rightarrow> lock_sys \<Rightarrow> lock_sys" where
  "lockBody WArrive t s = (let w = writersWaiting s + 1 in
     goto t WTest (if w = 1 \<and> \<not> writerActive s
       then s\<lparr>writersWaiting := w, readers := readers s + - bufMaxReaders\<rparr>
       else s\<lparr>writersWaiting := w\<rparr>))"
| "lockBody WTest t s =
     goto t (if writerActive s \<or> readers s \<noteq> - bufMaxReaders then WWait else WTake) s"
| "lockBody WWait t s = goto t WPark (s\<lparr>mu := None\<rparr>)"
| "lockBody WTake t s =
     goto t WHold (s\<lparr>writersWaiting := writersWaiting s - 1, writerActive := True, mu := None\<rparr>)"
| "lockBody p t s = s"

text \<open>\<open>tryLock\<close> from the point after \<^verbatim>\<open>l.mu.Lock()\<close>, and \<open>unlock\<close> likewise.\<close>

definition tryLock :: "tid \<Rightarrow> lock_sys \<Rightarrow> lock_sys" where
  "tryLock t s =
     (if writerActive s \<or> 0 < writersWaiting s then goto t Idle (s\<lparr>mu := None\<rparr>)
      else if readers s = 0
        then goto t WHold (s\<lparr>readers := - bufMaxReaders, writerActive := True, mu := None\<rparr>)
        else goto t Idle (s\<lparr>mu := None\<rparr>))"

fun unlockBody :: "lpc \<Rightarrow> tid \<Rightarrow> lock_sys \<Rightarrow> lock_sys" where
  "unlockBody WClear t s =
     goto t WBcast (if writersWaiting s = 0
       then s\<lparr>writerActive := False, readers := readers s + bufMaxReaders\<rparr>
       else s\<lparr>writerActive := False\<rparr>)"
| "unlockBody WBcast t s = goto t Idle ((broadcast s)\<lparr>mu := None\<rparr>)"
| "unlockBody p t s = s"

section \<open>Steps\<close>

text \<open>The points that hold the mutex, and for each point that waits for it the point
  reached by taking it.\<close>

definition holds_mu :: "lpc set" where
  "holds_mu = {RUndo, RUndoBcast, RTest, RRetest, REnroll, REnrolled, RDrainBcast,
     WArrive, WTest, WWait, WTake, WClear, WBcast, TTry}"

fun after_mu :: "lpc \<Rightarrow> lpc option" where
  "after_mu RSlow = Some RUndo"
| "after_mu RWake = Some RRetest"
| "after_mu RDrain = Some RDrainBcast"
| "after_mu WEnter = Some WArrive"
| "after_mu WWake = Some WTest"
| "after_mu WLeave = Some WClear"
| "after_mu TEnter = Some TTry"
| "after_mu p = None"

text \<open>
  A call starts from \<open>Idle\<close>; \<^verbatim>\<open>rUnlock\<close> and \<^verbatim>\<open>unlock\<close> start from the critical
  sections. \<open>internal\<close> steps are the ones a goroutine inside a method takes by itself.
\<close>

inductive internal :: "nat \<Rightarrow> lock_sys \<Rightarrow> lock_sys \<Rightarrow> bool" for N where
  i_mutex: "t < N \<Longrightarrow> mu s = None \<Longrightarrow> after_mu (pc s t) = Some p \<Longrightarrow>
     internal N s (goto t p (s\<lparr>mu := Some t\<rparr>))"
| i_slow: "t < N \<Longrightarrow> pc s t = p \<Longrightarrow>
     p \<in> {RUndo, RUndoBcast, RTest, RRetest, REnroll, REnrolled} \<Longrightarrow>
     internal N s (rLockSlow p t s)"
| i_drain: "t < N \<Longrightarrow> pc s t = RDrainBcast \<Longrightarrow> internal N s (rUnlockBcast t s)"
| i_lock: "t < N \<Longrightarrow> pc s t = p \<Longrightarrow> p \<in> {WArrive, WTest, WWait, WTake} \<Longrightarrow>
     internal N s (lockBody p t s)"
| i_unlock: "t < N \<Longrightarrow> pc s t = p \<Longrightarrow> p \<in> {WClear, WBcast} \<Longrightarrow>
     internal N s (unlockBody p t s)"
| i_try: "t < N \<Longrightarrow> pc s t = TTry \<Longrightarrow> internal N s (tryLock t s)"

inductive lstep :: "nat \<Rightarrow> lock_sys \<Rightarrow> lock_sys \<Rightarrow> bool" for N where
  call_rLock: "t < N \<Longrightarrow> pc s t = Idle \<Longrightarrow> lstep N s (rLock t s)"
| call_rUnlock: "t < N \<Longrightarrow> pc s t = RHold \<Longrightarrow> lstep N s (rUnlock t s)"
| call_lock: "t < N \<Longrightarrow> pc s t = Idle \<Longrightarrow> lstep N s (goto t WEnter s)"
| call_unlock: "t < N \<Longrightarrow> pc s t = WHold \<Longrightarrow> lstep N s (goto t WLeave s)"
| call_tryLock: "t < N \<Longrightarrow> pc s t = Idle \<Longrightarrow> lstep N s (goto t TEnter s)"
| progress: "internal N s s' \<Longrightarrow> lstep N s s'"

inductive lreach :: "nat \<Rightarrow> lock_sys \<Rightarrow> bool" for N where
  start: "lreach N newBufferRWLock"
| step: "lreach N s \<Longrightarrow> lstep N s s' \<Longrightarrow> lreach N s'"

section \<open>Counting goroutines\<close>

definition cnt :: "lpc set \<Rightarrow> lock_sys \<Rightarrow> nat" where
  "cnt X s = card {t. pc s t \<in> X}"

text \<open>
  \<open>counted\<close>: the points whose goroutine is included in \<^verbatim>\<open>readers\<close>, the phantom
  increments of the slow path too. \<open>enrolled\<close>: the ones that really hold the lock.
  \<open>wwaiting\<close> and \<open>wactive\<close>: the ones \<^verbatim>\<open>writersWaiting\<close> and \<^verbatim>\<open>writerActive\<close>
  stand for. \<open>bcast_due\<close>: the ones that are about to broadcast.
\<close>

definition counted :: "lpc set" where "counted = {RHold, RSlow, RUndo, REnrolled}"
definition enrolled :: "lpc set" where "enrolled = {RHold, REnrolled}"
definition wwaiting :: "lpc set" where "wwaiting = {WTest, WWait, WPark, WWake, WTake}"
definition wactive :: "lpc set" where "wactive = {WHold, WLeave, WClear}"
definition rwaiting :: "lpc set" where "rwaiting = {RPark, RWake, RRetest, REnroll}"
definition bcast_due :: "lpc set" where "bcast_due = {RUndoBcast, RDrain, RDrainBcast, WBcast}"

lemmas pc_sets = counted_def enrolled_def wwaiting_def wactive_def rwaiting_def bcast_due_def

definition biased :: "lock_sys \<Rightarrow> bool" where
  "biased s \<longleftrightarrow> writerActive s \<or> 0 < writersWaiting s"

definition rcount :: "lock_sys \<Rightarrow> int" where
  "rcount s = int (cnt counted s) - (if biased s then 2 ^ 30 else 0)"

definition threads_ok :: "nat \<Rightarrow> lock_sys \<Rightarrow> bool" where
  "threads_ok N s \<longleftrightarrow>
     (\<forall>t\<ge>N. pc s t = Idle) \<and> (\<forall>t. mu s = Some t \<longleftrightarrow> pc s t \<in> holds_mu)"

definition counts_ok :: "lock_sys \<Rightarrow> bool" where
  "counts_ok s \<longleftrightarrow>
     writersWaiting s = cnt wwaiting s \<and>
     cnt wactive s = (if writerActive s then 1 else 0) \<and>
     readersWaiting s = cnt rwaiting s \<and>
     (writerActive s \<or> 0 < cnt {WTake} s \<longrightarrow> cnt enrolled s = 0) \<and>
     (0 < cnt {REnroll} s \<longrightarrow> \<not> writerActive s \<and> cnt wwaiting s = 0) \<and>
     (0 < cnt {WTake} s \<longrightarrow> \<not> writerActive s) \<and>
     (0 < cnt {WPark, WWait} s \<longrightarrow>
        writerActive s \<or> 0 < cnt counted s \<or> 0 < cnt bcast_due s) \<and>
     (0 < cnt {RPark} s \<longrightarrow> writerActive s \<or> 0 < cnt wwaiting s \<or> 0 < cnt {WBcast} s)"

definition lock_inv :: "nat \<Rightarrow> lock_sys \<Rightarrow> bool" where
  "lock_inv N s \<longleftrightarrow>
     threads_ok N s \<and> counts_ok s \<and> readers s = word_of_int (rcount s)"

lemma bufMaxReaders_eq: "bufMaxReaders = word_of_int (2 ^ 30)"
  by (simp add: bufMaxReaders_def)

lemma sint_small:
  assumes "- (2 ^ 31) \<le> x" "x < 2 ^ 31"
  shows "sint (word_of_int x :: 32 word) = x"
  using assms by (simp add: sint_sbintrunc' signed_take_bit_int_eq_self)

lemma word_eq_small:
  assumes "- (2 ^ 31) \<le> x" "x < 2 ^ 31" "- (2 ^ 31) \<le> y" "y < 2 ^ 31"
  shows "(word_of_int x :: 32 word) = word_of_int y \<longleftrightarrow> x = y"
  using assms sint_small by metis

lemma pcs_below:
  assumes "\<forall>t\<ge>N. pc s t = Idle" "Idle \<notin> X"
  shows "{t. pc s t \<in> X} \<subseteq> {..<N}"
proof
  fix t assume "t \<in> {t. pc s t \<in> X}"
  then have "pc s t \<noteq> Idle" using assms(2) by auto
  then have "\<not> N \<le> t" using assms(1) by auto
  then show "t \<in> {..<N}" by simp
qed

lemma finite_pcs:
  assumes "\<forall>t\<ge>N. pc s t = Idle" "Idle \<notin> X"
  shows "finite {t. pc s t \<in> X}"
  using pcs_below [OF assms] by (rule finite_subset) simp

lemma cnt_le:
  assumes "\<forall>t\<ge>N. pc s t = Idle" "Idle \<notin> X"
  shows "cnt X s \<le> N"
  using card_mono [OF _ pcs_below [OF assms]] by (simp add: cnt_def)

lemma cnt_pos_iff:
  assumes "\<forall>t\<ge>N. pc s t = Idle" "Idle \<notin> X"
  shows "0 < cnt X s \<longleftrightarrow> (\<exists>t. pc s t \<in> X)"
  using finite_pcs [OF assms] by (auto simp: cnt_def card_gt_0_iff)

lemma cnt_goto:
  assumes "\<forall>u\<ge>N. pc s u = Idle" "Idle \<notin> X"
  shows "cnt X (goto t p s) =
    (cnt X s - (if pc s t \<in> X then 1 else 0)) + (if p \<in> X then 1 else 0)"
proof -
  let ?A = "{u. pc s u \<in> X}"
  have fin: "finite ?A" by (rule finite_pcs [OF assms])
  have "{u. pc (goto t p s) u \<in> X} = (if p \<in> X then insert t (?A - {t}) else ?A - {t})"
    by (auto simp: goto_def)
  moreover have "card (?A - {t}) = card ?A - (if pc s t \<in> X then 1 else 0)"
    using fin by (simp add: card_Diff_singleton_if)
  moreover have "card (insert t (?A - {t})) = Suc (card (?A - {t}))"
    using fin by (intro card_insert_disjoint) auto
  ultimately show ?thesis by (simp add: cnt_def)
qed

lemma cnt_broadcast: "cnt X (broadcast s) = cnt {p. wake p \<in> X} s"
  by (simp add: cnt_def broadcast_def)

lemma cnt_update [simp]:
  "cnt X (s\<lparr>readers := r\<rparr>) = cnt X s"
  "cnt X (s\<lparr>mu := m\<rparr>) = cnt X s"
  "cnt X (s\<lparr>writersWaiting := w\<rparr>) = cnt X s"
  "cnt X (s\<lparr>writerActive := a\<rparr>) = cnt X s"
  "cnt X (s\<lparr>readersWaiting := q\<rparr>) = cnt X s"
  by (simp_all add: cnt_def)

lemma goto_fields [simp]:
  "readers (goto t p s) = readers s" "mu (goto t p s) = mu s"
  "writersWaiting (goto t p s) = writersWaiting s"
  "writerActive (goto t p s) = writerActive s"
  "readersWaiting (goto t p s) = readersWaiting s"
  "pc (goto t p s) = (pc s)(t := p)"
  by (simp_all add: goto_def)

lemma broadcast_fields [simp]:
  "readers (broadcast s) = readers s" "mu (broadcast s) = mu s"
  "writersWaiting (broadcast s) = writersWaiting s"
  "writerActive (broadcast s) = writerActive s"
  "readersWaiting (broadcast s) = readersWaiting s"
  "pc (broadcast s) u = wake (pc s u)"
  by (simp_all add: broadcast_def)

lemma pc_mem [simp]:
  "p \<in> counted \<longleftrightarrow> p = RHold \<or> p = RSlow \<or> p = RUndo \<or> p = REnrolled"
  "p \<in> enrolled \<longleftrightarrow> p = RHold \<or> p = REnrolled"
  "p \<in> wwaiting \<longleftrightarrow> p = WTest \<or> p = WWait \<or> p = WPark \<or> p = WWake \<or> p = WTake"
  "p \<in> wactive \<longleftrightarrow> p = WHold \<or> p = WLeave \<or> p = WClear"
  "p \<in> rwaiting \<longleftrightarrow> p = RPark \<or> p = RWake \<or> p = RRetest \<or> p = REnroll"
  "p \<in> bcast_due \<longleftrightarrow> p = RUndoBcast \<or> p = RDrain \<or> p = RDrainBcast \<or> p = WBcast"
  by (simp_all add: pc_sets)

lemma holds_mu_mem [simp]:
  "Idle \<notin> holds_mu" "RSlow \<notin> holds_mu" "RUndo \<in> holds_mu" "RUndoBcast \<in> holds_mu"
  "RTest \<in> holds_mu" "RPark \<notin> holds_mu" "RWake \<notin> holds_mu" "RRetest \<in> holds_mu"
  "REnroll \<in> holds_mu" "REnrolled \<in> holds_mu" "RHold \<notin> holds_mu" "RDrain \<notin> holds_mu"
  "RDrainBcast \<in> holds_mu" "WEnter \<notin> holds_mu" "WArrive \<in> holds_mu" "WTest \<in> holds_mu"
  "WWait \<in> holds_mu" "WPark \<notin> holds_mu" "WWake \<notin> holds_mu" "WTake \<in> holds_mu"
  "WHold \<notin> holds_mu" "WLeave \<notin> holds_mu" "WClear \<in> holds_mu" "WBcast \<in> holds_mu"
  "TEnter \<notin> holds_mu" "TTry \<in> holds_mu"
  by (simp_all add: holds_mu_def)

lemma wake_mem [simp]:
  "wake p \<in> counted \<longleftrightarrow> p \<in> counted" "wake p \<in> enrolled \<longleftrightarrow> p \<in> enrolled"
  "wake p \<in> wwaiting \<longleftrightarrow> p \<in> wwaiting" "wake p \<in> wactive \<longleftrightarrow> p \<in> wactive"
  "wake p \<in> rwaiting \<longleftrightarrow> p \<in> rwaiting" "wake p \<in> bcast_due \<longleftrightarrow> p \<in> bcast_due"
  "wake p \<in> holds_mu \<longleftrightarrow> p \<in> holds_mu"
  by (cases p; simp)+

lemma wake_eq [simp]:
  "wake p = Idle \<longleftrightarrow> p = Idle" "wake p = WTake \<longleftrightarrow> p = WTake" "wake p = REnroll \<longleftrightarrow> p = REnroll"
  "wake p = RHold \<longleftrightarrow> p = RHold" "wake p = REnrolled \<longleftrightarrow> p = REnrolled"
  "wake p = WBcast \<longleftrightarrow> p = WBcast" "wake p = WWait \<longleftrightarrow> p = WWait" "wake p \<noteq> RPark" "wake p \<noteq> WPark"
  by (cases p; simp)+

lemma cnt_broadcast_sets [simp]:
  "cnt counted (broadcast s) = cnt counted s" "cnt enrolled (broadcast s) = cnt enrolled s"
  "cnt wwaiting (broadcast s) = cnt wwaiting s" "cnt wactive (broadcast s) = cnt wactive s"
  "cnt rwaiting (broadcast s) = cnt rwaiting s" "cnt bcast_due (broadcast s) = cnt bcast_due s"
  "cnt {WTake} (broadcast s) = cnt {WTake} s" "cnt {REnroll} (broadcast s) = cnt {REnroll} s"
  "cnt {WBcast} (broadcast s) = cnt {WBcast} s" "cnt {RPark} (broadcast s) = 0"
  "cnt {WPark, WWait} (broadcast s) = cnt {WWait} s"
  by (simp_all add: cnt_def del: pc_mem)

section \<open>The invariant is kept by every step\<close>

lemma cnt_pos:
  assumes "\<forall>u\<ge>N. pc s u = Idle" "Idle \<notin> X" "pc s t \<in> X"
  shows "0 < cnt X s"
  using assms cnt_pos_iff by blast

lemma cnt_mono:
  assumes "\<forall>u\<ge>N. pc s u = Idle" "Idle \<notin> Y" "X \<subseteq> Y"
  shows "cnt X s \<le> cnt Y s"
  using finite_pcs [OF assms(1,2)] assms(3) by (auto simp: cnt_def intro: card_mono)

lemma cnt_mu_zero:
  assumes "\<forall>u. mu s = Some u \<longleftrightarrow> pc s u \<in> holds_mu" "X \<subseteq> holds_mu"
    and "\<And>t. mu s = Some t \<Longrightarrow> pc s t \<notin> X"
  shows "cnt X s = 0"
proof -
  have "{t. pc s t \<in> X} = {}" using assms by auto
  then show ?thesis by (simp add: cnt_def)
qed

lemma reader_word:
  "(word_of_int x :: 32 word) + 1 = word_of_int (x + 1)"
  "(word_of_int x :: 32 word) + - 1 = word_of_int (x - 1)"
  "(word_of_int x :: 32 word) - 1 = word_of_int (x - 1)"
  "(word_of_int x :: 32 word) + - bufMaxReaders = word_of_int (x - 2 ^ 30)"
  "(word_of_int x :: 32 word) - bufMaxReaders = word_of_int (x - 2 ^ 30)"
  "(word_of_int x :: 32 word) + bufMaxReaders = word_of_int (x + 2 ^ 30)"
  "- bufMaxReaders = word_of_int (- (2 ^ 30))"
  by (simp_all add: bufMaxReaders_eq)

lemma lock_invD:
  assumes "lock_inv N s"
  shows "threads_ok N s" "counts_ok s" "readers s = word_of_int (rcount s)"
    "\<forall>t\<ge>N. pc s t = Idle" "\<forall>t. mu s = Some t \<longleftrightarrow> pc s t \<in> holds_mu"
  using assms by (auto simp: lock_inv_def threads_ok_def)

lemma rcount_bounds:
  assumes "lock_inv N s" "N < 2 ^ 30"
  shows "- (2 ^ 30) \<le> rcount s" "rcount s < 2 ^ 30"
    "0 < rcount s + 1 \<longleftrightarrow> \<not> biased s"
    "rcount s - 1 = - (2 ^ 30) \<longleftrightarrow> biased s \<and> cnt counted s = 1"
    "rcount s = - (2 ^ 30) \<longleftrightarrow> biased s \<and> cnt counted s = 0"
    "rcount s = 0 \<longleftrightarrow> \<not> biased s \<and> cnt counted s = 0"
proof -
  have "cnt counted s \<le> N"
    by (rule cnt_le [OF lock_invD(4) [OF assms(1)]]) (simp add: counted_def)
  then have "int (cnt counted s) < 2 ^ 30" using assms(2) by simp
  then show "- (2 ^ 30) \<le> rcount s" "rcount s < 2 ^ 30"
    "0 < rcount s + 1 \<longleftrightarrow> \<not> biased s"
    "rcount s - 1 = - (2 ^ 30) \<longleftrightarrow> biased s \<and> cnt counted s = 1"
    "rcount s = - (2 ^ 30) \<longleftrightarrow> biased s \<and> cnt counted s = 0"
    "rcount s = 0 \<longleftrightarrow> \<not> biased s \<and> cnt counted s = 0"
    by (auto simp: rcount_def)
qed

text \<open>What the tests on the 32-bit word decide, in terms of the counts.\<close>

lemma readers_tests:
  assumes "lock_inv N s" "N < 2 ^ 30"
  shows "0 < sint (readers s + 1) \<longleftrightarrow> \<not> biased s"
    "readers s + - 1 = - bufMaxReaders \<longleftrightarrow> biased s \<and> cnt counted s = 1"
    "readers s = - bufMaxReaders \<longleftrightarrow> biased s \<and> cnt counted s = 0"
    "readers s = 0 \<longleftrightarrow> \<not> biased s \<and> cnt counted s = 0"
proof -
  note b = rcount_bounds [OF assms] and r = lock_invD(3) [OF assms(1)]
  have "sint (readers s + 1) = rcount s + 1"
    unfolding r reader_word by (rule sint_small) (use b(1,2) in simp_all)
  then show "0 < sint (readers s + 1) \<longleftrightarrow> \<not> biased s" using b(3) by simp
  have "readers s + - 1 = - bufMaxReaders \<longleftrightarrow> rcount s - 1 = - (2 ^ 30)"
    unfolding r reader_word by (rule word_eq_small) (use b(1,2) in simp_all)
  then show "readers s + - 1 = - bufMaxReaders \<longleftrightarrow> biased s \<and> cnt counted s = 1"
    using b(4) by simp
  have "readers s = - bufMaxReaders \<longleftrightarrow> rcount s = - (2 ^ 30)"
    unfolding r reader_word by (rule word_eq_small) (use b(1,2) in simp_all)
  then show "readers s = - bufMaxReaders \<longleftrightarrow> biased s \<and> cnt counted s = 0"
    using b(5) by simp
  have "readers s = word_of_int 0 \<longleftrightarrow> rcount s = 0"
    unfolding r by (rule word_eq_small) (use b(1,2) in simp_all)
  then show "readers s = 0 \<longleftrightarrow> \<not> biased s \<and> cnt counted s = 0"
    using b(6) by simp
qed

lemma lock_inv_init: "lock_inv N newBufferRWLock"
  by (simp add: lock_inv_def threads_ok_def counts_ok_def newBufferRWLock_def cnt_def pc_sets holds_mu_def rcount_def biased_def)

lemma cnt_move:
  assumes "threads_ok N s" "pc s' = (pc s)(t := p)" "Idle \<notin> X"
  shows "cnt X s' = (cnt X s - (if pc s t \<in> X then 1 else 0)) + (if p \<in> X then 1 else 0)"
proof -
  have "cnt X s' = cnt X (goto t p s)" using assms(2) by (simp add: cnt_def goto_def)
  then show ?thesis using cnt_goto [of N s X t p] assms(1,3) by (simp add: threads_ok_def)
qed

lemma cnt_pos_inv:
  assumes "threads_ok N s" "pc s t \<in> X" "Idle \<notin> X"
  shows "0 < cnt X s"
  using cnt_pos assms by (auto simp: threads_ok_def)

text \<open>A goroutine that holds the mutex is the only one at a point that holds it.\<close>

lemma cnt_mu_other:
  assumes "threads_ok N s" "pc s t \<in> holds_mu" "X \<subseteq> holds_mu" "pc s t \<notin> X"
  shows "cnt X s = 0"
  by (rule cnt_mu_zero) (use assms in \<open>auto simp: threads_ok_def\<close>, metis)

lemma cnt_le_inv:
  assumes "threads_ok N s"
  shows "cnt {WPark, WWait} s \<le> cnt wwaiting s" "cnt {WTake} s \<le> cnt wwaiting s"
    "cnt enrolled s \<le> cnt counted s" "cnt {WBcast} s \<le> cnt bcast_due s"
  using assms by (auto simp: threads_ok_def intro!: cnt_mono)

lemma threads_goto:
  assumes "threads_ok N s" "t < N" "pc s' = pc s"
    and "mu s' = (if p \<in> holds_mu then Some t else if pc s t \<in> holds_mu then None else mu s)"
    and "p \<in> holds_mu \<Longrightarrow> pc s t \<in> holds_mu \<or> mu s = None"
  shows "threads_ok N (goto t p s')"
  using assms unfolding threads_ok_def by (auto split: if_splits) (metis option.inject)+


text \<open>The moves that change no field.\<close>

definition quiet :: "(lpc \<times> lpc) set" where
  "quiet = {(Idle, WEnter), (Idle, TEnter), (WHold, WLeave), (RSlow, RUndo), (RWake, RRetest),
     (RDrain, RDrainBcast), (WEnter, WArrive), (WWake, WTest), (WLeave, WClear), (TEnter, TTry),
     (REnrolled, RHold), (WWait, WPark), (TTry, Idle)}"

lemma counts_quiet:
  assumes T: "threads_ok N s" "counts_ok s" and t: "(pc s t, p) \<in> quiet"
    and s': "writersWaiting s' = writersWaiting s" "writerActive s' = writerActive s"
      "readersWaiting s' = readersWaiting s" "pc s' = (pc s)(t := p)"
  shows "counts_ok s'" "rcount s' = rcount s"
proof -
  have E: "cnt X s' = cnt X s" if "pc s t \<in> X \<longleftrightarrow> p \<in> X" for X
    unfolding cnt_def s'(4) using that by (intro arg_cong [of _ _ card]) auto
  have E: "cnt counted s' = cnt counted s" "cnt enrolled s' = cnt enrolled s"
      "cnt wwaiting s' = cnt wwaiting s" "cnt wactive s' = cnt wactive s"
      "cnt rwaiting s' = cnt rwaiting s" "cnt bcast_due s' = cnt bcast_due s"
      "cnt {WTake} s' = cnt {WTake} s" "cnt {REnroll} s' = cnt {REnroll} s"
      "cnt {WPark, WWait} s' = cnt {WPark, WWait} s" "cnt {RPark} s' = cnt {RPark} s"
      "cnt {WBcast} s' = cnt {WBcast} s"
    by (rule E; use t in \<open>auto simp: quiet_def\<close>)+
  show "counts_ok s'" "rcount s' = rcount s"
    using T(2) s'(1-3) by (simp_all add: counts_ok_def rcount_def biased_def E)
qed

lemma counts_rLock:
  assumes T: "threads_ok N s" "counts_ok s" and t: "pc s t = Idle"
    and s': "writersWaiting s' = writersWaiting s" "writerActive s' = writerActive s"
      "readersWaiting s' = readersWaiting s"
      "pc s' = (pc s)(t := if biased s then RSlow else RHold)"
  shows "counts_ok s'" "rcount s' = rcount s + 1"
proof -
  note C = cnt_move [OF T(1) s'(4)] and L = cnt_le_inv [OF T(1)]
  show "counts_ok s'" using T(2) L s'(1-3) t
    by (cases "biased s") (auto simp: counts_ok_def C biased_def)
  show "rcount s' = rcount s + 1" using T(2) L s'(1-3) t
    by (cases "biased s") (auto simp: counts_ok_def C biased_def rcount_def)
qed

lemma counts_rUnlock:
  assumes T: "threads_ok N s" "counts_ok s" and t: "pc s t = RHold"
    and s': "writersWaiting s' = writersWaiting s" "writerActive s' = writerActive s"
      "readersWaiting s' = readersWaiting s"
      "pc s' = (pc s)(t := if biased s \<and> cnt counted s = 1 then RDrain else Idle)"
  shows "counts_ok s'" "rcount s' = rcount s - 1"
proof -
  note C = cnt_move [OF T(1) s'(4)] and L = cnt_le_inv [OF T(1)]
  have P: "0 < cnt counted s" "0 < cnt enrolled s"
    using t by (auto intro!: cnt_pos_inv [OF T(1), where t = t])
  show "counts_ok s'" using T(2) L P s'(1-3) t
    by (cases "biased s"; cases "cnt counted s = 1") (auto simp: counts_ok_def C biased_def)
  show "rcount s' = rcount s - 1" using T(2) L P s'(1-3) t
    by (cases "biased s"; cases "cnt counted s = 1") (auto simp: counts_ok_def C biased_def rcount_def)
qed

lemma counts_RUndo:
  assumes T: "threads_ok N s" "counts_ok s" and t: "pc s t = RUndo"
    and s': "writersWaiting s' = writersWaiting s" "writerActive s' = writerActive s"
      "readersWaiting s' = readersWaiting s"
      "pc s' = (pc s)(t := if biased s \<and> cnt counted s = 1 then RUndoBcast else RTest)"
  shows "counts_ok s'" "rcount s' = rcount s - 1"
proof -
  note C = cnt_move [OF T(1) s'(4)] and L = cnt_le_inv [OF T(1)]
  have P: "0 < cnt counted s"
    using t by (auto intro!: cnt_pos_inv [OF T(1), where t = t])
  show "counts_ok s'" using T(2) L P s'(1-3) t
    by (cases "biased s"; cases "cnt counted s = 1") (auto simp: counts_ok_def C biased_def)
  show "rcount s' = rcount s - 1" using T(2) L P s'(1-3) t
    by (cases "biased s"; cases "cnt counted s = 1") (auto simp: counts_ok_def C biased_def rcount_def)
qed

lemma counts_RTest:
  assumes T: "threads_ok N s" "counts_ok s" and t: "pc s t \<in> {RTest}"
    and s': "writersWaiting s' = writersWaiting s" "writerActive s' = writerActive s"
      "readersWaiting s' = readersWaiting s + 1"
      "pc s' = (pc s)(t := if biased s then RPark else REnroll)"
  shows "counts_ok s'" "rcount s' = rcount s"
proof -
  note C = cnt_move [OF T(1) s'(4)] and L = cnt_le_inv [OF T(1)]
  show "counts_ok s'" using T(2) L s'(1-3) t
    by (cases "biased s") (auto simp: counts_ok_def C biased_def)
  show "rcount s' = rcount s" using T(2) L s'(1-3) t
    by (cases "biased s") (auto simp: counts_ok_def C biased_def rcount_def)
qed

lemma counts_RRetest:
  assumes T: "threads_ok N s" "counts_ok s" and t: "pc s t \<in> {RRetest}"
    and s': "writersWaiting s' = writersWaiting s" "writerActive s' = writerActive s"
      "readersWaiting s' = readersWaiting s"
      "pc s' = (pc s)(t := if biased s then RPark else REnroll)"
  shows "counts_ok s'" "rcount s' = rcount s"
proof -
  note C = cnt_move [OF T(1) s'(4)] and L = cnt_le_inv [OF T(1)]
  have P: "0 < cnt rwaiting s"
    using t by (auto intro!: cnt_pos_inv [OF T(1), where t = t])
  show "counts_ok s'" using T(2) L P s'(1-3) t
    by (cases "biased s") (auto simp: counts_ok_def C biased_def)
  show "rcount s' = rcount s" using T(2) L P s'(1-3) t
    by (cases "biased s") (auto simp: counts_ok_def C biased_def rcount_def)
qed

lemma counts_REnroll:
  assumes T: "threads_ok N s" "counts_ok s" and t: "pc s t = REnroll"
    and s': "writersWaiting s' = writersWaiting s" "writerActive s' = writerActive s"
      "readersWaiting s' = readersWaiting s - 1"
      "pc s' = (pc s)(t := REnrolled)"
  shows "counts_ok s'" "rcount s' = rcount s + 1"
proof -
  note C = cnt_move [OF T(1) s'(4)] and L = cnt_le_inv [OF T(1)]
  have P: "0 < cnt rwaiting s" "0 < cnt {REnroll} s"
    using t by (auto intro!: cnt_pos_inv [OF T(1), where t = t])
  have M: "cnt {WTake} s = 0"
    using t by (auto intro!: cnt_mu_other [OF T(1), where t = t])
  show "counts_ok s'" using T(2) L P M s'(1-3) t
    by (auto simp: counts_ok_def C biased_def)
  show "rcount s' = rcount s + 1" using T(2) L P M s'(1-3) t
    by (auto simp: counts_ok_def C biased_def rcount_def)
qed

lemma counts_WArrive:
  assumes T: "threads_ok N s" "counts_ok s" and t: "pc s t = WArrive"
    and s': "writersWaiting s' = writersWaiting s + 1" "writerActive s' = writerActive s"
      "readersWaiting s' = readersWaiting s"
      "pc s' = (pc s)(t := WTest)"
  shows "counts_ok s'" "rcount s' = rcount s - (if biased s then 0 else 2 ^ 30)"
proof -
  note C = cnt_move [OF T(1) s'(4)] and L = cnt_le_inv [OF T(1)]
  have M: "cnt {REnroll} s = 0"
    using t by (auto intro!: cnt_mu_other [OF T(1), where t = t])
  show "counts_ok s'" using T(2) L M s'(1-3) t
    by (auto simp: counts_ok_def C biased_def)
  show "rcount s' = rcount s - (if biased s then 0 else 2 ^ 30)" using T(2) L M s'(1-3) t
    by (auto simp: counts_ok_def C biased_def rcount_def)
qed

lemma counts_WTest:
  assumes T: "threads_ok N s" "counts_ok s" and t: "pc s t = WTest"
    and s': "writersWaiting s' = writersWaiting s" "writerActive s' = writerActive s"
      "readersWaiting s' = readersWaiting s"
      "pc s' = (pc s)(t := if writerActive s \<or> cnt counted s \<noteq> 0 then WWait else WTake)"
  shows "counts_ok s'" "rcount s' = rcount s"
proof -
  note C = cnt_move [OF T(1) s'(4)] and L = cnt_le_inv [OF T(1)]
  have P: "0 < cnt wwaiting s"
    using t by (auto intro!: cnt_pos_inv [OF T(1), where t = t])
  have M: "cnt {REnroll} s = 0"
    using t by (auto intro!: cnt_mu_other [OF T(1), where t = t])
  show "counts_ok s'" using T(2) L P M s'(1-3) t
    by (cases "writerActive s \<or> cnt counted s \<noteq> 0") (auto simp: counts_ok_def C biased_def)
  show "rcount s' = rcount s" using T(2) L P M s'(1-3) t
    by (cases "writerActive s \<or> cnt counted s \<noteq> 0") (auto simp: counts_ok_def C biased_def rcount_def)
qed

lemma cnt_mu_self:
  assumes "threads_ok N s" "pc s t = p" "p \<in> holds_mu"
  shows "cnt {p} s = 1"
proof -
  have "mu s = Some t" using assms by (auto simp: threads_ok_def)
  then have "{u. pc s u = p} = {t}" using assms by (auto simp: threads_ok_def)
  then show ?thesis by (simp add: cnt_def)
qed

lemma counts_WTake:
  assumes T: "threads_ok N s" "counts_ok s" and t: "pc s t = WTake"
    and s': "writersWaiting s' = writersWaiting s - 1" "writerActive s' = True"
      "readersWaiting s' = readersWaiting s"
      "pc s' = (pc s)(t := WHold)"
  shows "counts_ok s'" "rcount s' = rcount s"
proof -
  note C = cnt_move [OF T(1) s'(4)] and L = cnt_le_inv [OF T(1)]
  have P: "0 < cnt wwaiting s" "cnt {WTake} s = 1"
    using cnt_mu_self [OF T(1) t] t by (auto intro!: cnt_pos_inv [OF T(1), where t = t])
  show "counts_ok s'" using T(2) L P s'(1-3) t
    by (auto simp: counts_ok_def C biased_def)
  show "rcount s' = rcount s" using T(2) L P s'(1-3) t
    by (auto simp: counts_ok_def C biased_def rcount_def)
qed

lemma counts_tryLock:
  assumes T: "threads_ok N s" "counts_ok s" and t: "pc s t = TTry" "\<not> biased s" "cnt counted s = 0"
    and s': "writersWaiting s' = writersWaiting s" "writerActive s' = True"
      "readersWaiting s' = readersWaiting s"
      "pc s' = (pc s)(t := WHold)"
  shows "counts_ok s'" "rcount s' = rcount s - 2 ^ 30"
proof -
  note C = cnt_move [OF T(1) s'(4)] and L = cnt_le_inv [OF T(1)]
  have M: "cnt {REnroll} s = 0" "cnt {WTake} s = 0"
    using t by (auto intro!: cnt_mu_other [OF T(1), where t = t])
  show "counts_ok s'" using T(2) L M s'(1-3) t
    by (auto simp: counts_ok_def C biased_def)
  show "rcount s' = rcount s - 2 ^ 30" using T(2) L M s'(1-3) t
    by (auto simp: counts_ok_def C biased_def rcount_def)
qed

lemma counts_WClear:
  assumes T: "threads_ok N s" "counts_ok s" and t: "pc s t = WClear"
    and s': "writersWaiting s' = writersWaiting s" "writerActive s' = False"
      "readersWaiting s' = readersWaiting s"
      "pc s' = (pc s)(t := WBcast)"
  shows "counts_ok s'" "rcount s' = rcount s + (if writersWaiting s = 0 then 2 ^ 30 else 0)"
proof -
  note C = cnt_move [OF T(1) s'(4)] and L = cnt_le_inv [OF T(1)]
  have P: "0 < cnt wactive s"
    using t by (auto intro!: cnt_pos_inv [OF T(1), where t = t])
  have M: "cnt {REnroll} s = 0" "cnt {WTake} s = 0"
    using t by (auto intro!: cnt_mu_other [OF T(1), where t = t])
  show "counts_ok s'" using T(2) L P M s'(1-3) t
    by (cases "writerActive s") (auto simp: counts_ok_def C biased_def)
  show "rcount s' = rcount s + (if writersWaiting s = 0 then 2 ^ 30 else 0)" using T(2) L P M s'(1-3) t
    by (cases "writerActive s") (auto simp: counts_ok_def C biased_def rcount_def)
qed


lemma counts_bcast:
  assumes T: "threads_ok N s" "counts_ok s"
    and t: "pc s t \<in> bcast_due \<inter> holds_mu" "p \<in> {Idle, RTest}"
    and s': "writersWaiting s' = writersWaiting s" "writerActive s' = writerActive s"
      "readersWaiting s' = readersWaiting s" "pc s' = (pc (broadcast s))(t := p)"
  shows "counts_ok s'" "rcount s' = rcount s"
proof -
  have E: "cnt X s' = cnt X (broadcast s)" if "pc s t \<notin> X" "p \<notin> X" for X
  proof -
    have "wake (pc s t) = pc s t" using t(1) by auto
    then show ?thesis unfolding cnt_def s'(4) using that by (intro arg_cong [of _ _ card]) auto
  qed
  have E: "cnt counted s' = cnt counted s" "cnt enrolled s' = cnt enrolled s"
      "cnt wwaiting s' = cnt wwaiting s" "cnt wactive s' = cnt wactive s"
      "cnt rwaiting s' = cnt rwaiting s" 
      "cnt {WTake} s' = cnt {WTake} s" "cnt {REnroll} s' = cnt {REnroll} s"
      "cnt {WPark, WWait} s' = cnt {WWait} s" "cnt {RPark} s' = 0"
    by (subst E; use t in \<open>force simp del: wake.simps\<close>)+
  have "cnt {WWait} s = 0" by (rule cnt_mu_other [OF T(1), where t = t]) (use t in auto)
  then show "counts_ok s'" "rcount s' = rcount s"
    using T(2) s'(1-3) by (simp_all add: counts_ok_def rcount_def biased_def E)
qed

text \<open>The methods with their tests on the word replaced by what the tests decide.\<close>

lemma readers_change:
  assumes "lock_inv N s"
  shows "readers s + 1 = word_of_int (rcount s + 1)" "readers s + - 1 = word_of_int (rcount s - 1)"
    "readers s + - bufMaxReaders = word_of_int (rcount s - 2 ^ 30)"
    "readers s + bufMaxReaders = word_of_int (rcount s + 2 ^ 30)"
  unfolding lock_invD(3) [OF assms] by (rule reader_word)+

lemma rLock_eq:
  assumes "lock_inv N s" "N < 2 ^ 30"
  shows "rLock t s = goto t (if biased s then RSlow else RHold)
    (s\<lparr>readers := word_of_int (rcount s + 1)\<rparr>)"
  unfolding rLock_def Let_def readers_tests(1) [OF assms] unfolding readers_change [OF assms(1)]
  by (cases "biased s") simp_all

lemma rUnlock_eq:
  assumes "lock_inv N s" "N < 2 ^ 30"
  shows "rUnlock t s = goto t (if biased s \<and> cnt counted s = 1 then RDrain else Idle)
    (s\<lparr>readers := word_of_int (rcount s - 1)\<rparr>)"
proof -
  have "sint (- bufMaxReaders) < 0" unfolding reader_word by (subst sint_small) simp_all
  then have "sint (readers s + - 1) < 0 \<and> readers s + - 1 = - bufMaxReaders
      \<longleftrightarrow> biased s \<and> cnt counted s = 1"
    using readers_tests(2) [OF assms] by metis
  then show ?thesis unfolding rUnlock_def Let_def readers_change [OF assms(1)] by presburger
qed

lemma RUndo_eq:
  assumes "lock_inv N s" "N < 2 ^ 30"
  shows "rLockSlow RUndo t s = goto t (if biased s \<and> cnt counted s = 1 then RUndoBcast else RTest)
    (s\<lparr>readers := word_of_int (rcount s - 1)\<rparr>)"
  unfolding rLockSlow.simps Let_def readers_tests(2) [OF assms]
  unfolding readers_change [OF assms(1)] ..

lemma WTest_eq:
  assumes "lock_inv N s" "N < 2 ^ 30" "pc s t = WTest"
  shows "lockBody WTest t s =
    goto t (if writerActive s \<or> cnt counted s \<noteq> 0 then WWait else WTake) s"
proof -
  have "0 < cnt wwaiting s"
    by (rule cnt_pos_inv [OF lock_invD(1) [OF assms(1)], of t]) (simp_all add: assms(3))
  then have "biased s" using lock_invD(2) [OF assms(1)] by (simp add: counts_ok_def biased_def)
  then show ?thesis
    unfolding lockBody.simps readers_tests(3) [OF assms(1,2)] by simp
qed

lemma inv_goto:
  assumes "lock_inv N s" "t < N" "pc s' = pc s" "counts_ok (goto t p s')" "rcount (goto t p s') = d"
    and "readers s' = word_of_int d"
    and "mu s' = (if p \<in> holds_mu then Some t else if pc s t \<in> holds_mu then None else mu s)"
    and "p \<in> holds_mu \<Longrightarrow> pc s t \<in> holds_mu \<or> mu s = None"
  shows "lock_inv N (goto t p s')"
  using threads_goto [OF lock_invD(1) [OF assms(1)] assms(2,3,7,8)] assms(4-6)
  by (simp only: lock_inv_def goto_fields)

lemma inv_quiet:
  assumes I: "lock_inv N s" and t: "t < N" "(pc s t, p) \<in> quiet"
    and m: "m = (if p \<in> holds_mu then Some t else if pc s t \<in> holds_mu then None else mu s)"
      "p \<in> holds_mu \<Longrightarrow> pc s t \<in> holds_mu \<or> mu s = None"
  shows "lock_inv N (goto t p (s\<lparr>mu := m\<rparr>))"
  by (rule inv_goto [OF I t(1)], simp,
      (rule counts_quiet [OF lock_invD(1,2) [OF I] t(2)]; simp add: goto_def)+)
    (use m lock_invD(3) [OF I] in simp_all)

lemma inv_bcast:
  assumes I: "lock_inv N s" and t: "t < N" "pc s t \<in> bcast_due \<inter> holds_mu"
    and p: "(p, m) \<in> {(Idle, None), (RTest, Some t)}"
  shows "lock_inv N (goto t p ((broadcast s)\<lparr>mu := m\<rparr>))"
proof -
  let ?s = "goto t p ((broadcast s)\<lparr>mu := m\<rparr>)"
  have "counts_ok ?s" "rcount ?s = rcount s"
    by (rule counts_bcast [OF lock_invD(1,2) [OF I] t(2), where p = p];
        use p in \<open>auto simp: goto_def\<close>)+
  moreover have "threads_ok N ?s"
    using lock_invD(1) [OF I] t p
    by (intro threads_goto [where s = "broadcast s"]) (auto simp: threads_ok_def)
  ultimately show ?thesis using lock_invD(3) [OF I] by (simp add: lock_inv_def)
qed

lemma inv_rLock:
  assumes I: "lock_inv N s" and N: "N < 2 ^ 30" and t: "t < N" "pc s t = Idle"
  shows "lock_inv N (rLock t s)"
  unfolding rLock_eq [OF I N]
  by (rule inv_goto [OF I t(1)], simp,
      (rule counts_rLock [OF lock_invD(1,2) [OF I]]; simp add: goto_def t)+)
    (use t(2) lock_invD(3) [OF I] in \<open>simp_all split: if_splits\<close>)

lemma inv_rUnlock:
  assumes I: "lock_inv N s" and N: "N < 2 ^ 30" and t: "t < N" "pc s t = RHold"
  shows "lock_inv N (rUnlock t s)"
  unfolding rUnlock_eq [OF I N]
  by (rule inv_goto [OF I t(1)], simp,
      (rule counts_rUnlock [OF lock_invD(1,2) [OF I]]; simp add: goto_def t)+)
    (use t(2) lock_invD(3) [OF I] in \<open>simp_all split: if_splits\<close>)

lemma inv_RUndo:
  assumes I: "lock_inv N s" and N: "N < 2 ^ 30" and t: "t < N" "pc s t = RUndo"
  shows "lock_inv N (rLockSlow RUndo t s)"
  unfolding RUndo_eq [OF I N]
  by (rule inv_goto [OF I t(1)], simp,
      (rule counts_RUndo [OF lock_invD(1,2) [OF I]]; simp add: goto_def t)+)
    (use t(2) lock_invD(3) [OF I] lock_invD(5) [OF I] in \<open>simp_all split: if_splits\<close>)

lemma inv_WTest:
  assumes I: "lock_inv N s" and N: "N < 2 ^ 30" and t: "t < N" "pc s t = WTest"
  shows "lock_inv N (lockBody WTest t s)"
  unfolding WTest_eq [OF I N t(2)]
  by (rule inv_goto [OF I t(1)], simp,
      (rule counts_WTest [OF lock_invD(1,2) [OF I]]; simp add: goto_def t)+)
    (use t(2) lock_invD(3) [OF I] lock_invD(5) [OF I] in \<open>simp_all split: if_splits\<close>)


lemma RTest_eq:
  "rLockSlow RTest t s = goto t (if biased s then RPark else REnroll)
     (s\<lparr>readersWaiting := readersWaiting s + 1, mu := if biased s then None else mu s\<rparr>)"
  "rLockSlow RRetest t s = goto t (if biased s then RPark else REnroll)
     (s\<lparr>mu := if biased s then None else mu s\<rparr>)"
  by (simp_all add: biased_def)

lemma WArrive_eq:
  assumes "lock_inv N s"
  shows "lockBody WArrive t s = goto t WTest (s\<lparr>writersWaiting := writersWaiting s + 1,
      readers := word_of_int (rcount s - (if biased s then 0 else 2 ^ 30))\<rparr>)"
  unfolding lockBody.simps Let_def readers_change [OF assms]
  using lock_invD(3) [OF assms] by (auto simp: biased_def)

lemma WClear_eq:
  assumes "lock_inv N s"
  shows "unlockBody WClear t s = goto t WBcast (s\<lparr>writerActive := False,
      readers := word_of_int (rcount s + (if writersWaiting s = 0 then 2 ^ 30 else 0))\<rparr>)"
  unfolding unlockBody.simps readers_change [OF assms]
  using lock_invD(3) [OF assms] by auto

lemma inv_RTest:
  assumes I: "lock_inv N s" and N: "N < 2 ^ 30" and t: "t < N" "pc s t = RTest"
  shows "lock_inv N (rLockSlow RTest t s)"
  unfolding RTest_eq
  by (rule inv_goto [OF I t(1)], simp,
      (rule counts_RTest [OF lock_invD(1,2) [OF I]]; simp add: goto_def t)+)
    (use t(2) lock_invD(3) [OF I] lock_invD(5) [OF I] in \<open>simp_all split: if_splits\<close>)

lemma inv_RRetest:
  assumes I: "lock_inv N s" and N: "N < 2 ^ 30" and t: "t < N" "pc s t = RRetest"
  shows "lock_inv N (rLockSlow RRetest t s)"
  unfolding RTest_eq
  by (rule inv_goto [OF I t(1)], simp,
      (rule counts_RRetest [OF lock_invD(1,2) [OF I]]; simp add: goto_def t)+)
    (use t(2) lock_invD(3) [OF I] lock_invD(5) [OF I] in \<open>simp_all split: if_splits\<close>)

lemma inv_REnroll:
  assumes I: "lock_inv N s" and N: "N < 2 ^ 30" and t: "t < N" "pc s t = REnroll"
  shows "lock_inv N (rLockSlow REnroll t s)"
  unfolding rLockSlow.simps readers_change [OF I]
  by (rule inv_goto [OF I t(1)], simp,
      (rule counts_REnroll [OF lock_invD(1,2) [OF I]]; simp add: goto_def t)+)
    (use t(2) lock_invD(3) [OF I] lock_invD(5) [OF I] in \<open>simp_all split: if_splits\<close>)

lemma inv_WArrive:
  assumes I: "lock_inv N s" and N: "N < 2 ^ 30" and t: "t < N" "pc s t = WArrive"
  shows "lock_inv N (lockBody WArrive t s)"
  unfolding WArrive_eq [OF I]
  by (rule inv_goto [OF I t(1)], simp,
      (rule counts_WArrive [OF lock_invD(1,2) [OF I]]; simp add: goto_def t)+)
    (use t(2) lock_invD(3) [OF I] lock_invD(5) [OF I] in \<open>simp_all split: if_splits\<close>)

lemma inv_WTake:
  assumes I: "lock_inv N s" and N: "N < 2 ^ 30" and t: "t < N" "pc s t = WTake"
  shows "lock_inv N (lockBody WTake t s)"
  unfolding lockBody.simps
  by (rule inv_goto [OF I t(1)], simp,
      (rule counts_WTake [OF lock_invD(1,2) [OF I]]; simp add: goto_def t)+)
    (use t(2) lock_invD(3) [OF I] lock_invD(5) [OF I] in \<open>simp_all split: if_splits\<close>)

lemma inv_WClear:
  assumes I: "lock_inv N s" and N: "N < 2 ^ 30" and t: "t < N" "pc s t = WClear"
  shows "lock_inv N (unlockBody WClear t s)"
  unfolding WClear_eq [OF I]
  by (rule inv_goto [OF I t(1)], simp,
      (rule counts_WClear [OF lock_invD(1,2) [OF I]]; simp add: goto_def t)+)
    (use t(2) lock_invD(3) [OF I] lock_invD(5) [OF I] in \<open>simp_all split: if_splits\<close>)

lemma inv_tryLock:
  assumes I: "lock_inv N s" and N: "N < 2 ^ 30" and t: "t < N" "pc s t = TTry"
  shows "lock_inv N (tryLock t s)"
proof (cases "\<not> biased s \<and> cnt counted s = 0")
  case True
  then have s: "tryLock t s = goto t WHold (s\<lparr>readers := word_of_int (rcount s - 2 ^ 30),
      writerActive := True, mu := None\<rparr>)"
    using readers_tests(4) [OF I N] by (auto simp: tryLock_def biased_def reader_word rcount_def)
  show ?thesis unfolding s
    by (rule inv_goto [OF I t(1)], simp,
        (rule counts_tryLock [OF lock_invD(1,2) [OF I]]; use True in \<open>simp add: goto_def t\<close>)+)
      (use t(2) in simp_all)
next
  case False
  then have "tryLock t s = goto t Idle (s\<lparr>mu := None\<rparr>)"
    using readers_tests(4) [OF I N] by (auto simp: tryLock_def biased_def)
  then show ?thesis using inv_quiet [OF I t(1), of Idle None] t(2) by (simp add: quiet_def)
qed

lemma after_mu_quiet: "after_mu p = Some q \<Longrightarrow> (p, q) \<in> quiet \<and> q \<in> holds_mu"
  by (cases p) (auto simp: quiet_def)

lemma inv_internal:
  assumes "lock_inv N s" "N < 2 ^ 30" "internal N s s'"
  shows "lock_inv N s'"
  using assms(3)
proof cases
  case (i_mutex t p)
  with after_mu_quiet show ?thesis using inv_quiet [OF assms(1), of t p "Some t"] by auto
next
  case (i_slow t p)
  have "lock_inv N (rLockSlow RUndoBcast t s)" if "pc s t = RUndoBcast"
  proof -
    have "mu s = Some t" using lock_invD(5) [OF assms(1)] that by simp
    then have "(broadcast s)\<lparr>mu := Some t\<rparr> = broadcast s" by (cases s) (simp add: broadcast_def)
    then show ?thesis using inv_bcast [OF assms(1) i_slow(2), of RTest "Some t"] that by simp
  qed
  moreover have "lock_inv N (rLockSlow REnrolled t s)" if "pc s t = REnrolled"
    using inv_quiet [OF assms(1) i_slow(2), of RHold None] that by (simp add: quiet_def)
  ultimately show ?thesis
    using i_slow inv_RUndo inv_RTest inv_RRetest inv_REnroll assms(1,2) by auto
next
  case (i_drain t)
  then show ?thesis
    using inv_bcast [OF assms(1), of t Idle None] by (simp add: rUnlockBcast_def)
next
  case (i_lock t p)
  have "lock_inv N (lockBody WWait t s)" if "pc s t = WWait"
    using inv_quiet [OF assms(1) i_lock(2), of WPark None] that by (simp add: quiet_def)
  then show ?thesis using i_lock inv_WArrive inv_WTest inv_WTake assms(1,2) by auto
next
  case (i_unlock t p)
  have "lock_inv N (unlockBody WBcast t s)" if "pc s t = WBcast"
    using inv_bcast [OF assms(1) i_unlock(2), of Idle None] that by simp
  then show ?thesis using i_unlock inv_WClear assms(1,2) by auto
next
  case (i_try t)
  then show ?thesis using inv_tryLock assms(1,2) by simp
qed

lemma inv_lstep:
  assumes "lock_inv N s" "N < 2 ^ 30" "lstep N s s'"
  shows "lock_inv N s'"
  using assms(3)
proof cases
  case (call_rLock t)
  then show ?thesis using inv_rLock assms by simp
next
  case (call_rUnlock t)
  then show ?thesis using inv_rUnlock assms by simp
next
  case (call_lock t)
  then show ?thesis using inv_quiet [OF assms(1), of t WEnter "mu s"] by (simp add: quiet_def)
next
  case (call_unlock t)
  then show ?thesis using inv_quiet [OF assms(1), of t WLeave "mu s"] by (simp add: quiet_def)
next
  case (call_tryLock t)
  then show ?thesis using inv_quiet [OF assms(1), of t TEnter "mu s"] by (simp add: quiet_def)
next
  case progress
  then show ?thesis by (rule inv_internal [OF assms(1,2)])
qed

lemma lreach_inv: "lreach N s \<Longrightarrow> N < 2 ^ 30 \<Longrightarrow> lock_inv N s"
  by (induction rule: lreach.induct) (auto intro: lock_inv_init inv_lstep)

section \<open>Progress\<close>

lemma holds_mu_step:
  assumes "t < N" "pc s t \<in> holds_mu"
  shows "\<exists>s'. internal N s s'"
proof -
  consider "pc s t \<in> {RUndo, RUndoBcast, RTest, RRetest, REnroll, REnrolled}"
    | "pc s t = RDrainBcast" | "pc s t \<in> {WArrive, WTest, WWait, WTake}"
    | "pc s t \<in> {WClear, WBcast}" | "pc s t = TTry"
    using assms(2) unfolding holds_mu_def by blast
  then show ?thesis
  proof cases
    case 1
    from i_slow [OF assms(1) refl this] show ?thesis by blast
  next
    case 2
    from i_drain [OF assms(1) this] show ?thesis by blast
  next
    case 3
    from i_lock [OF assms(1) refl this] show ?thesis by blast
  next
    case 4
    from i_unlock [OF assms(1) refl this] show ?thesis by blast
  next
    case 5
    from i_try [OF assms(1) this] show ?thesis by blast
  qed
qed

lemma mutex_step:
  assumes "t < N" "after_mu (pc s t) \<noteq> None" "threads_ok N s"
  shows "\<exists>s'. internal N s s'"
proof (cases "mu s")
  case None
  then show ?thesis using assms(1,2) i_mutex by blast
next
  case (Some u)
  then have "pc s u \<in> holds_mu" "u < N"
    using assms(3) by (auto simp: threads_ok_def) (metis holds_mu_mem(1) not_le)
  then show ?thesis using holds_mu_step by blast
qed

definition live :: "nat \<Rightarrow> lock_sys \<Rightarrow> bool" where
  "live N s \<longleftrightarrow> (\<exists>s'. internal N s s') \<or> (\<exists>u. pc s u = RHold \<or> pc s u = WHold)"

lemma live_point:
  assumes "threads_ok N s" "pc s t \<notin> {Idle, RPark, WPark}"
  shows "live N s"
proof -
  have "t < N" using assms by (auto simp: threads_ok_def not_le [symmetric])
  then have "pc s t \<in> holds_mu \<or> after_mu (pc s t) \<noteq> None \<or> pc s t = RHold \<or> pc s t = WHold"
    using assms(2) by (cases "pc s t") auto
  then show ?thesis
    using holds_mu_step mutex_step assms(1) \<open>t < N\<close> by (auto simp: live_def)
qed

lemma cnt_live:
  assumes "threads_ok N s" "0 < cnt X s" "X \<inter> {Idle, RPark, WPark} = {}"
  shows "live N s"
proof -
  have "Idle \<notin> X" using assms(3) by auto
  then obtain t where "pc s t \<in> X"
    using assms(1,2) cnt_pos_iff [of N s X] by (auto simp: threads_ok_def)
  then show ?thesis using live_point [OF assms(1)] assms(3) by blast
qed

lemma wpark_live:
  assumes I: "lock_inv N s" and t: "pc s t = WPark"
  shows "live N s"
proof -
  note T = lock_invD(1) [OF I]
  have "0 < cnt {WPark, WWait} s" using t by (auto intro: cnt_pos_inv [OF T])
  then have "0 < cnt wactive s \<or> 0 < cnt counted s \<or> 0 < cnt bcast_due s"
    using lock_invD(2) [OF I] by (auto simp: counts_ok_def)
  then show ?thesis using cnt_live [OF T] by (auto simp: pc_sets)
qed

lemma rpark_live:
  assumes I: "lock_inv N s" and t: "pc s t = RPark"
  shows "live N s"
proof -
  note T = lock_invD(1) [OF I]
  have "0 < cnt {RPark} s" using t by (auto intro: cnt_pos_inv [OF T])
  then have "0 < cnt wactive s \<or> 0 < cnt wwaiting s \<or> 0 < cnt {WBcast} s"
    using lock_invD(2) [OF I] by (auto simp: counts_ok_def)
  moreover have "live N s" if w: "0 < cnt wwaiting s"
  proof -
    obtain u where "pc s u \<in> wwaiting"
      using w cnt_pos_iff [of N s wwaiting] T by (auto simp: threads_ok_def)
    then show ?thesis using live_point [OF T, of u] wpark_live [OF I, of u] by auto
  qed
  ultimately show ?thesis using cnt_live [OF T] by (auto simp: pc_sets)
qed

lemma inv_live:
  assumes "lock_inv N s" "pc s t \<noteq> Idle"
  shows "live N s"
  using live_point [OF lock_invD(1), OF assms(1)] wpark_live rpark_live assms by blast

text \<open>
  A rank for every point, larger than the rank of every point a step leads to; a broadcast
  raises the rank of at most \<open>N\<close> parked goroutines by 3 and costs the broadcaster more.
\<close>

fun rank :: "nat \<Rightarrow> lpc \<Rightarrow> nat" where
  "rank N Idle = 0" | "rank N RHold = 0" | "rank N WHold = 0"
| "rank N RPark = 1" | "rank N REnrolled = 1" | "rank N REnroll = 2" | "rank N RRetest = 3"
| "rank N RTest = 3" | "rank N RWake = 4"
| "rank N RUndoBcast = 3 * N + 4" | "rank N RUndo = 3 * N + 5" | "rank N RSlow = 3 * N + 6"
| "rank N RDrainBcast = 3 * N + 1" | "rank N RDrain = 3 * N + 2"
| "rank N WPark = 1" | "rank N WTake = 1" | "rank N WWait = 2" | "rank N WTest = 3"
| "rank N WWake = 4" | "rank N WArrive = 4" | "rank N WEnter = 5"
| "rank N WBcast = 3 * N + 1" | "rank N WClear = 3 * N + 2" | "rank N WLeave = 3 * N + 3"
| "rank N TTry = 1" | "rank N TEnter = 2"

definition todo :: "nat \<Rightarrow> lock_sys \<Rightarrow> nat" where
  "todo N s = (\<Sum>t<N. rank N (pc s t))"

lemma todo_goto:
  assumes "t < N" "rank N p < rank N (pc s t)" "pc s' = pc s"
  shows "todo N (goto t p s') < todo N s"
  unfolding todo_def using assms
  by (intro sum_strict_mono_ex1) (auto simp: goto_def intro!: bexI [of _ t])

lemma rank_wake: "rank N (wake p) \<le> rank N p + 3"
  by (cases p) auto

lemma todo_bcast:
  assumes "t < N" "rank N p + 3 * N < rank N (pc s t)" "wake (pc s t) = pc s t" "pc s' = pc (broadcast s)"
  shows "todo N (goto t p s') < todo N s"
proof -
  have "todo N (goto t p s') = rank N p + (\<Sum>u\<in>{..<N} - {t}. rank N (wake (pc s u)))"
    unfolding todo_def using assms(1,4)
    by (subst sum.remove [of _ t]) (auto simp: goto_def intro!: sum.cong)
  also have "\<dots> \<le> rank N p + (\<Sum>u\<in>{..<N} - {t}. rank N (pc s u) + 3)"
    by (intro add_left_mono sum_mono rank_wake)
  also have "\<dots> \<le> rank N p + 3 * N + (\<Sum>u\<in>{..<N} - {t}. rank N (pc s u))"
    using assms(1) by (simp add: sum.distrib)
  also have "\<dots> < rank N (pc s t) + (\<Sum>u\<in>{..<N} - {t}. rank N (pc s u))" using assms(2) by simp
  also have "\<dots> = todo N s" unfolding todo_def using assms(1) by (subst (2) sum.remove [of _ t]) auto
  finally show ?thesis .
qed

lemma todo_internal:
  assumes "internal N s s'"
  shows "todo N s' < todo N s"
  using assms
proof cases
  case (i_mutex t p)
  have "rank N p < rank N (pc s t)" using i_mutex(4) by (cases "pc s t") auto
  then show ?thesis using i_mutex by (auto intro: todo_goto)
next
  case (i_slow t p)
  then show ?thesis
  proof (cases "p = RUndoBcast")
    case True
    then show ?thesis using i_slow by (auto intro!: todo_bcast)
  next
    case False
    then show ?thesis using i_slow by (auto simp: Let_def intro!: todo_goto)
  qed
next
  case (i_drain t)
  then show ?thesis by (auto simp: rUnlockBcast_def intro!: todo_bcast)
next
  case (i_lock t p)
  then show ?thesis by (auto simp: Let_def intro!: todo_goto)
next
  case (i_unlock t p)
  then show ?thesis
  proof (cases "p = WBcast")
    case True
    then show ?thesis using i_unlock by (auto intro!: todo_bcast)
  next
    case False
    then show ?thesis using i_unlock by (auto intro!: todo_goto)
  qed
next
  case (i_try t)
  then show ?thesis by (auto simp: tryLock_def intro!: todo_goto)
qed

lemma internal_run_bound: "(internal N ^^ k) s s' \<Longrightarrow> k + todo N s' \<le> todo N s"
proof (induction k arbitrary: s')
  case (Suc k)
  then obtain b where "(internal N ^^ k) s b" "internal N b s'" by auto
  then show ?case using Suc.IH [of b] todo_internal [of N b s'] by simp
qed simp

lemma lreach_internal: "(internal N)\<^sup>*\<^sup>* s s' \<Longrightarrow> lreach N s \<Longrightarrow> lreach N s'"
  by (induction rule: rtranclp_induct) (auto intro: lreach.step lstep.progress)

lemma internal_run_ends: "\<exists>s'. (internal N)\<^sup>*\<^sup>* s s' \<and> \<not> (\<exists>s''. internal N s' s'')"
proof (induction "todo N s" arbitrary: s rule: less_induct)
  case less
  show ?case
  proof (cases "\<exists>s1. internal N s s1")
    case True
    then obtain s1 where s1: "internal N s s1" ..
    then obtain s' where "(internal N)\<^sup>*\<^sup>* s1 s'" "\<not> (\<exists>s''. internal N s' s'')"
      using less [OF todo_internal [OF s1]] by auto
    then show ?thesis using s1 by (blast intro: converse_rtranclp_into_rtranclp)
  qed blast
qed

section \<open>The abstract lock\<close>

text \<open>
  What a reader-writer lock promises: the set of goroutines that hold it for reading and the
  set that hold it for writing, changed one acquisition or release at a time.
\<close>

inductive rw_step :: "tid set \<times> tid set \<Rightarrow> tid set \<times> tid set \<Rightarrow> bool" where
  acquire_read: "t \<notin> R \<Longrightarrow> rw_step (R, {}) (insert t R, {})"
| release_read: "t \<in> R \<Longrightarrow> rw_step (R, W) (R - {t}, W)"
| acquire_write: "rw_step ({}, {}) ({}, {t})"
| release_write: "rw_step (R, {t}) (R, {})"

definition holders :: "lock_sys \<Rightarrow> tid set \<times> tid set" where
  "holders s = ({t. pc s t \<in> enrolled}, {t. pc s t \<in> wactive})"

lemma holders_goto_same:
  "pc s' = pc s \<or> pc s' = pc (broadcast s) \<Longrightarrow> p \<in> enrolled \<longleftrightarrow> pc s t \<in> enrolled \<Longrightarrow>
   p \<in> wactive \<longleftrightarrow> pc s t \<in> wactive \<Longrightarrow> holders (goto t p s') = holders s"
  by (auto simp: holders_def goto_def simp del: pc_mem split: if_splits)

lemma no_readers:
  assumes "lock_inv N s" "cnt enrolled s = 0"
  shows "{t. pc s t \<in> enrolled} = {}"
proof -
  have "pc s t \<notin> enrolled" for t
    using cnt_pos_inv [OF lock_invD(1) [OF assms(1)], of t enrolled] assms(2) by auto
  then show ?thesis by simp
qed

lemma no_writer:
  assumes "lock_inv N s" "\<not> writerActive s"
  shows "{t. pc s t \<in> wactive} = {}"
proof -
  have "cnt wactive s = 0" using assms lock_invD(2) by (simp add: counts_ok_def)
  then have "pc s t \<notin> wactive" for t
    using cnt_pos_inv [OF lock_invD(1) [OF assms(1)], of t wactive] by auto
  then show ?thesis by simp
qed

lemma the_writer:
  assumes "lock_inv N s" "pc s t \<in> wactive"
  shows "{u. pc s u \<in> wactive} = {t}" "writerActive s"
proof -
  have "0 < cnt wactive s"
    by (rule cnt_pos_inv [OF lock_invD(1) [OF assms(1)] assms(2)]) simp
  moreover have "cnt wactive s = (if writerActive s then 1 else 0)"
    using lock_invD(2) [OF assms(1)] by (simp add: counts_ok_def)
  ultimately show "writerActive s" by (simp split: if_splits)
  then have "card {u. pc s u \<in> wactive} = 1"
    using lock_invD(2) [OF assms(1)] by (simp add: counts_ok_def cnt_def del: pc_mem)
  then obtain v where "{u. pc s u \<in> wactive} = {v}" by (rule card_1_singletonE)
  moreover have "t \<in> {u. pc s u \<in> wactive}" using assms(2) by (simp del: pc_mem)
  ultimately show "{u. pc s u \<in> wactive} = {t}" by (simp del: pc_mem)
qed

lemma enroll_writerless:
  assumes "lock_inv N s" "pc s t = REnroll"
  shows "\<not> writerActive s" "writersWaiting s = 0"
proof -
  have "0 < cnt {REnroll} s" using assms by (intro cnt_pos_inv [OF lock_invD(1)]) auto
  then show "\<not> writerActive s" "writersWaiting s = 0"
    using lock_invD(2) [OF assms(1)] by (auto simp: counts_ok_def)
qed
lemma rw_internal:
  assumes I: "lock_inv N s" and N: "N < 2 ^ 30" and "internal N s s'"
  shows "rw_step (holders s) (holders s') \<or> holders s' = holders s"
  using assms(3)
proof cases
  case (i_mutex t p)
  have "p \<in> enrolled \<longleftrightarrow> pc s t \<in> enrolled" "p \<in> wactive \<longleftrightarrow> pc s t \<in> wactive"
    using i_mutex(4) by (cases "pc s t"; auto)+
  then show ?thesis using i_mutex(1) by (simp add: holders_goto_same)
next
  case (i_slow t p)
  then consider "p = REnroll" | "p = RUndoBcast" | "p \<in> {RUndo, RTest, RRetest, REnrolled}" by blast
  then show ?thesis
  proof cases
    case 1
    then have "holders s = ({u. pc s u \<in> enrolled}, {})"
      using no_writer [OF I enroll_writerless(1) [OF I]] i_slow(3) by (simp add: holders_def)
    moreover have "holders s' = (insert t {u. pc s u \<in> enrolled}, {})"
      using no_writer [OF I enroll_writerless(1) [OF I]] i_slow 1
      by (auto simp: holders_def goto_def split: if_splits)
    moreover have "t \<notin> {u. pc s u \<in> enrolled}" using i_slow(3) 1 by simp
    ultimately show ?thesis using acquire_read by metis
  qed (use i_slow in \<open>auto simp: Let_def intro!: holders_goto_same\<close>)
next
  case (i_drain t)
  then show ?thesis by (auto simp: rUnlockBcast_def intro!: holders_goto_same)
next
  case (i_lock t p)
  then consider "p = WTake" | "p \<in> {WArrive, WTest, WWait}" by blast
  then show ?thesis
  proof cases
    case 1
    have "0 < cnt {WTake} s"
      using i_lock(3) 1 by (intro cnt_pos_inv [OF lock_invD(1) [OF I]]) auto
    then have "{u. pc s u \<in> enrolled} = {}" "{u. pc s u \<in> wactive} = {}"
      using no_readers [OF I] no_writer [OF I] lock_invD(2) [OF I] by (simp_all add: counts_ok_def)
    then have "holders s = ({}, {})" "holders s' = ({}, {t})"
      using i_lock(1) 1 by (auto simp: holders_def goto_def split: if_splits)
    then show ?thesis using acquire_write by metis
  qed (use i_lock in \<open>auto simp: Let_def intro!: holders_goto_same\<close>)
next
  case (i_unlock t p)
  then consider "p = WClear" | "p = WBcast" by blast
  then show ?thesis
  proof cases
    case 1
    then have "{u. pc s u \<in> wactive} = {t}" using the_writer [OF I, of t] i_unlock(3) by simp
    moreover have "holders s' = (fst (holders s), {u. pc s u \<in> wactive} - {t})"
      using i_unlock(1,3) 1 by (auto simp: holders_def goto_def split: if_splits)
    ultimately show ?thesis using release_write by (simp add: holders_def)
  qed (use i_unlock in \<open>auto intro!: holders_goto_same\<close>)
next
  case (i_try t)
  show ?thesis
  proof (cases "\<not> biased s \<and> cnt counted s = 0")
    case True
    then have "{u. pc s u \<in> enrolled} = {}" "{u. pc s u \<in> wactive} = {}"
      using no_readers [OF I] no_writer [OF I] cnt_le_inv(3) [OF lock_invD(1) [OF I]]
      by (simp_all add: biased_def)
    then have "holders s = ({}, {})" "holders s' = ({}, {t})"
      using i_try(1) True readers_tests(4) [OF I N]
      by (auto simp: holders_def goto_def tryLock_def biased_def split: if_splits)
    then show ?thesis using acquire_write by metis
  next
    case False
    then have "s' = goto t Idle (s\<lparr>mu := None\<rparr>)"
      using i_try(1) readers_tests(4) [OF I N] by (auto simp: tryLock_def biased_def)
    then show ?thesis using i_try(3) by (simp add: holders_goto_same)
  qed
qed
lemma rw_lstep:
  assumes I: "lock_inv N s" and N: "N < 2 ^ 30" and "lstep N s s'"
  shows "rw_step (holders s) (holders s') \<or> holders s' = holders s"
  using assms(3)
proof cases
  case (call_rLock t)
  show ?thesis
  proof (cases "biased s")
    case True
    then show ?thesis using call_rLock by (simp add: rLock_eq [OF I N] holders_goto_same)
  next
    case False
    then have "{u. pc s u \<in> wactive} = {}" using no_writer [OF I] by (simp add: biased_def)
    then have "holders s = ({u. pc s u \<in> enrolled}, {})"
      "holders s' = (insert t {u. pc s u \<in> enrolled}, {})"
      using call_rLock(1) False
      by (auto simp: rLock_eq [OF I N] holders_def goto_def split: if_splits)
    moreover have "t \<notin> {u. pc s u \<in> enrolled}" using call_rLock(3) by simp
    ultimately show ?thesis using acquire_read by metis
  qed
next
  case (call_rUnlock t)
  then have "holders s' = (fst (holders s) - {t}, snd (holders s))"
    by (auto simp: rUnlock_eq [OF I N] holders_def goto_def split: if_splits)
  moreover have "t \<in> fst (holders s)" using call_rUnlock(3) by (simp add: holders_def)
  ultimately show ?thesis using release_read by (metis prod.collapse)
next
  case progress
  then show ?thesis by (rule rw_internal [OF I N])
qed (simp_all add: holders_goto_same)

lemma enroll_step:
  assumes I: "lock_inv N s" and N: "N < 2 ^ 30" and "lstep N s s'"
    and t: "pc s t \<notin> enrolled" "pc s' t \<in> enrolled"
  shows "\<not> biased s"
  using assms(3)
proof cases
  case (call_rLock u)
  then show ?thesis using t by (auto simp: rLock_eq [OF I N] goto_def split: if_splits)
next
  case (call_rUnlock u)
  then show ?thesis using t by (auto simp: rUnlock_eq [OF I N] goto_def split: if_splits)
next
  case progress
  then show ?thesis
  proof cases
    case (i_mutex u p)
    then show ?thesis using t by (cases "pc s u") (auto simp: goto_def split: if_splits)
  next
    case (i_slow u p)
    then have "p = REnroll \<and> u = t"
      using t by (auto simp: goto_def Let_def broadcast_def wake_mem split: if_splits)
    then show ?thesis using enroll_writerless [OF I, of t] i_slow(3) by (simp add: biased_def)
  qed (use t in \<open>auto simp: goto_def Let_def rUnlockBcast_def tryLock_def split: if_splits\<close>)
qed (use t in \<open>auto simp: goto_def split: if_splits\<close>)

lemma todo_bound: "todo N s \<le> N * (3 * N + 6)"
proof -
  have "rank N p \<le> 3 * N + 6" for p by (cases p) auto
  then show ?thesis unfolding todo_def using sum_bounded_above [of "{..<N}" "\<lambda>t. rank N (pc s t)"] by simp
qed
section \<open>Correctness of the lock\<close>

text \<open>Two reachable states, for the examples: goroutine 0 in the write critical section,
  and goroutine 0 in the read critical section with goroutine 1 waiting to write.\<close>

definition ex_held :: lock_sys where
  "ex_held = tryLock 0 (goto 0 TTry ((goto 0 TEnter newBufferRWLock)\<lparr>mu := Some 0\<rparr>))"

definition ex_queued :: lock_sys where
  "ex_queued = lockBody WArrive 1
     (goto 1 WArrive ((goto 1 WEnter (rLock 0 newBufferRWLock))\<lparr>mu := Some 1\<rparr>))"

lemmas ex_defs = newBufferRWLock_def goto_def tryLock_def rLock_def

lemma ex_held_reach: "lreach 2 ex_held" "pc ex_held 0 = WHold"
proof -
  let ?s = "goto 0 TEnter newBufferRWLock"
  have "lreach 2 ?s" by (rule lreach.step [OF lreach.start], rule call_tryLock) (auto simp: ex_defs)
  then have "lreach 2 (goto 0 TTry (?s\<lparr>mu := Some 0\<rparr>))"
    by (rule lreach.step, intro progress i_mutex) (auto simp: ex_defs)
  then show "lreach 2 ex_held" unfolding ex_held_def
    by (rule lreach.step, intro progress i_try) (auto simp: ex_defs)
  show "pc ex_held 0 = WHold" by (simp add: ex_held_def ex_defs)
qed

lemma rLock_new: "rLock 0 newBufferRWLock = goto 0 RHold (newBufferRWLock\<lparr>readers := 1\<rparr>)"
proof -
  have "sint (1 :: 32 word) = 1" by simp
  then show ?thesis by (simp add: rLock_def newBufferRWLock_def)
qed

lemma ex_queued_reach: "lreach 2 ex_queued" "pc ex_queued 0 = RHold" "pc ex_queued 1 = WTest"
proof -
  let ?r = "rLock 0 newBufferRWLock" let ?s = "goto 1 WEnter ?r"
  have "lreach 2 ?r" by (rule lreach.step [OF lreach.start], rule call_rLock) (auto simp: ex_defs)
  then have "lreach 2 ?s" by (rule lreach.step, intro call_lock) (auto simp: ex_defs)
  then have "lreach 2 (goto 1 WArrive (?s\<lparr>mu := Some 1\<rparr>))"
    by (rule lreach.step, intro progress i_mutex) (auto simp: ex_defs)
  then show "lreach 2 ex_queued" unfolding ex_queued_def
    by (rule lreach.step, intro progress i_lock) (auto simp: ex_defs)
  show "pc ex_queued 0 = RHold" "pc ex_queued 1 = WTest"
    by (simp_all add: ex_queued_def rLock_new Let_def)
qed

text \<open>
  C34. Mutual exclusion: in every reachable state of every interleaving, while one goroutine
  is between \<^verbatim>\<open>lock\<close> (or a successful \<^verbatim>\<open>tryLock\<close>) and \<^verbatim>\<open>unlock\<close>, no other one is
  in a read or a write critical section.
\<close>

theorem lock_mutual_exclusion:
  assumes "lreach N s" "N < 2 ^ 30" "pc s t = WHold" "u \<noteq> t"
  shows "pc s u \<noteq> RHold \<and> pc s u \<noteq> WHold"
proof -
  note I = lreach_inv [OF assms(1,2)]
  have w: "{v. pc s v \<in> wactive} = {t}" "writerActive s"
    using the_writer [OF I, of t] assms(3) by simp_all
  then have "cnt enrolled s = 0" using lock_invD(2) [OF I] by (simp add: counts_ok_def)
  then have "u \<notin> {v. pc s v \<in> enrolled}" "u \<notin> {v. pc s v \<in> wactive}"
    using no_readers [OF I] w(1) assms(4) by auto
  then show ?thesis by simp
qed

theorem lock_mutual_exclusion_witness:
  "lreach 2 ex_held \<and> pc ex_held 0 = WHold \<and> pc ex_held 1 \<noteq> RHold"
  using lock_mutual_exclusion [of 2 ex_held 0 1] ex_held_reach by simp

text \<open>
  The 32-bit counter never wraps: with fewer than \<^verbatim>\<open>bufMaxReaders\<close> goroutines, the
  signed value of \<^verbatim>\<open>readers\<close> is the number of goroutines counted in it, less
  \<^verbatim>\<open>bufMaxReaders\<close> exactly while a writer is active or waiting.
\<close>

theorem lock_counter_exact:
  assumes "lreach N s" "N < 2 ^ 30"
  shows "sint (readers s) = int (cnt counted s)
      - (if writerActive s \<or> 0 < writersWaiting s then sint bufMaxReaders else 0)
    \<and> cnt counted s \<le> N"
proof -
  note I = lreach_inv [OF assms]
  have "sint (readers s) = rcount s"
    unfolding lock_invD(3) [OF I] by (rule sint_small) (use rcount_bounds(1,2) [OF I assms(2)] in simp_all)
  moreover have "sint bufMaxReaders = 2 ^ 30"
    unfolding bufMaxReaders_eq by (rule sint_small) simp_all
  moreover have "cnt counted s \<le> N" by (rule cnt_le [OF lock_invD(4) [OF I]]) simp
  ultimately show ?thesis by (simp add: rcount_def biased_def)
qed

theorem lock_counter_exact_witness:
  "lreach 2 ex_queued \<and> sint (readers ex_queued) = int (cnt counted ex_queued)
      - (if writerActive ex_queued \<or> 0 < writersWaiting ex_queued then sint bufMaxReaders else 0)"
  using lock_counter_exact [of 2 ex_queued] ex_queued_reach by simp

text \<open>
  Writer preference: the step by which a goroutine starts to hold the lock for reading,
  on the fast path or on the slow one, is never taken while a writer is active or waiting.
\<close>

theorem lock_writer_preference:
  assumes "lreach N s" "N < 2 ^ 30" "lstep N s s'" "pc s t \<notin> enrolled" "pc s' t \<in> enrolled"
  shows "\<not> writerActive s \<and> writersWaiting s = 0"
  using enroll_step [OF lreach_inv [OF assms(1,2)] assms(2-5)] by (simp add: biased_def)

theorem lock_writer_preference_witness:
  "lstep 2 newBufferRWLock (rLock 0 newBufferRWLock) \<and>
   pc (rLock 0 newBufferRWLock) 0 \<in> enrolled \<and> writersWaiting newBufferRWLock = 0"
proof -
  have *: "lstep 2 newBufferRWLock (rLock 0 newBufferRWLock)"
    by (rule call_rLock) (simp_all add: newBufferRWLock_def)
  moreover have "pc newBufferRWLock 0 \<notin> enrolled" "pc (rLock 0 newBufferRWLock) 0 \<in> enrolled"
    by (simp add: newBufferRWLock_def) (simp add: rLock_new)
  ultimately show ?thesis using lock_writer_preference [OF lreach.start _ *] by simp
qed

text \<open>
  C36. The protocol refines the abstract reader-writer lock: every atomic step of every
  goroutine either changes nothing in who holds the lock or is one of the four moves of
  \<open>rw_step\<close>, whose write acquisition needs an empty lock and whose read acquisition needs
  one without a writer.
\<close>

theorem lock_refines_rw:
  assumes "lreach N s" "N < 2 ^ 30" "lstep N s s'"
  shows "rw_step (holders s) (holders s') \<or> holders s' = holders s"
  by (rule rw_lstep [OF lreach_inv [OF assms(1,2)] assms(2,3)])

theorem lock_refines_rw_witness:
  "rw_step (holders newBufferRWLock) (holders (rLock 0 newBufferRWLock))"
proof -
  have "lstep 2 newBufferRWLock (rLock 0 newBufferRWLock)"
    by (rule call_rLock) (simp_all add: newBufferRWLock_def)
  moreover have "holders (rLock 0 newBufferRWLock) \<noteq> holders newBufferRWLock"
    unfolding rLock_new by (auto simp: holders_def goto_def newBufferRWLock_def)
  ultimately show ?thesis using lock_refines_rw [OF lreach.start, of 2] by auto
qed

text \<open>
  C35. No wake-up is lost and no call waits on the lock itself: from every reachable state the
  goroutines inside the lock's methods take at most \<open>N * (3 * N + 6)\<close> steps by themselves, and
  when none can move any more either some goroutine is in a critical section (the others may be
  waiting for it) or every call has returned.
\<close>

theorem lock_no_lost_wakeup:
  assumes "lreach N s" "N < 2 ^ 30"
  shows "(\<forall>k s'. (internal N ^^ k) s s' \<longrightarrow> k \<le> N * (3 * N + 6)) \<and>
    (\<exists>s'. (internal N)\<^sup>*\<^sup>* s s' \<and> \<not> (\<exists>s''. internal N s' s'')) \<and>
    (\<forall>s'. (internal N)\<^sup>*\<^sup>* s s' \<and> \<not> (\<exists>s''. internal N s' s'') \<longrightarrow>
      (\<exists>u. pc s' u = RHold \<or> pc s' u = WHold) \<or> (\<forall>u. pc s' u = Idle))"
proof (intro conjI allI impI)
  fix k s' assume "(internal N ^^ k) s s'"
  then show "k \<le> N * (3 * N + 6)"
    using internal_run_bound [of k N s s'] todo_bound [of N s] by simp
next
  fix s' assume s': "(internal N)\<^sup>*\<^sup>* s s' \<and> \<not> (\<exists>s''. internal N s' s'')"
  then have "lock_inv N s'" using lreach_internal lreach_inv assms by blast
  then show "(\<exists>u. pc s' u = RHold \<or> pc s' u = WHold) \<or> (\<forall>u. pc s' u = Idle)"
    using inv_live s' by (auto simp: live_def)
qed (rule internal_run_ends)

theorem lock_no_lost_wakeup_witness:
  "lreach 2 ex_queued \<and>
   (\<exists>s'. (internal 2)\<^sup>*\<^sup>* ex_queued s' \<and> \<not> (\<exists>s''. internal 2 s' s'') \<and>
      ((\<exists>u. pc s' u = RHold \<or> pc s' u = WHold) \<or> (\<forall>u. pc s' u = Idle)))"
proof -
  note P = lock_no_lost_wakeup [OF ex_queued_reach(1)]
  obtain s' where "(internal 2)\<^sup>*\<^sup>* ex_queued s' \<and> \<not> (\<exists>s''. internal 2 s' s'')"
    using P by auto
  moreover from this have "(\<exists>u. pc s' u = RHold \<or> pc s' u = WHold) \<or> (\<forall>u. pc s' u = Idle)"
    using P by simp
  ultimately show ?thesis using ex_queued_reach(1) by blast
qed

text \<open>
  \<^verbatim>\<open>tryLock\<close> never waits, and it takes the lock exactly when no writer is active or
  waiting and no goroutine is counted as a reader.
\<close>

theorem tryLock_exact:
  assumes "lreach N s" "N < 2 ^ 30" "pc s t = TTry"
  shows "pc (tryLock t s) t =
    (if \<not> writerActive s \<and> writersWaiting s = 0 \<and> (\<forall>u. pc s u \<notin> counted) then WHold else Idle)"
proof -
  note I = lreach_inv [OF assms(1,2)]
  have "cnt counted s = 0 \<longleftrightarrow> (\<forall>u. pc s u \<notin> counted)"
    using cnt_pos_iff [OF lock_invD(4) [OF I], of counted] by auto
  then show ?thesis
    using readers_tests(4) [OF I assms(2)] by (auto simp: tryLock_def biased_def)
qed

theorem tryLock_exact_witness:
  "\<exists>s. lreach 2 s \<and> pc s 0 = TTry \<and> pc (tryLock 0 s) 0 = WHold"
proof -
  let ?s = "goto 0 TEnter newBufferRWLock" let ?u = "goto 0 TTry (?s\<lparr>mu := Some 0\<rparr>)"
  have "lreach 2 ?s" by (rule lreach.step [OF lreach.start], rule call_tryLock) (auto simp: ex_defs)
  then have "lreach 2 ?u"
    by (rule lreach.step, intro progress i_mutex) (auto simp: ex_defs)
  moreover have "pc ?u 0 = TTry" by (simp add: goto_def)
  ultimately show ?thesis
    using tryLock_exact [of 2 ?u 0] by (intro exI [of _ ?u]) (simp add: ex_defs)
qed

end
