(* ===== verification/Canary.thy ===== *)
theory Canary
  imports Secmem_Prelude
begin

text \<open>
  The overflow canary of \<^verbatim>\<open>canary.go\<close>: the process-wide pattern and its one-time
  initialisation, the descriptor \<^verbatim>\<open>canaryLayout\<close> of the armed ranges of a region, and
  the two loops driven by it. The theory shows that the descriptor of a buffer and of an arena
  covers exactly the bytes that belong to no secret, that arming changes those bytes only, and
  that \<^verbatim>\<open>intact\<close> answers true exactly when every armed byte still holds the pattern.
\<close>

unbundle bit_operations_syntax

section \<open>The pattern\<close>

definition canaryLen :: nat where
  "canaryLen = 16"

record canary_pkg =
  canaryOnce :: bool
  canaryPattern :: bytes
  canaryInitErr :: error

definition canary_zero :: canary_pkg where
  "canary_zero = \<lparr>canaryOnce = False, canaryPattern = zeros canaryLen, canaryInitErr = None\<rparr>"

text \<open>
  \<open>rnd\<close> is the outcome of \<^verbatim>\<open>rand.Read\<close> on the 16 pattern bytes: the bytes read, or
  \<open>None\<close> for an error. The function runs once, so its outcome is asked for once.
\<close>

definition canaryInit :: "bytes option \<Rightarrow> canary_pkg \<Rightarrow> error \<times> canary_pkg" where
  "canaryInit rnd c =
     (if canaryOnce c then (canaryInitErr c, c)
      else case rnd of
        Some p \<Rightarrow> (canaryInitErr c, c\<lparr>canaryOnce := True, canaryPattern := p\<rparr>)
      | None \<Rightarrow> (Some ErrOS, c\<lparr>canaryOnce := True, canaryInitErr := Some ErrOS\<rparr>))"

definition canaryFill :: "bytes \<Rightarrow> nat \<Rightarrow> bytes" where
  "canaryFill p n = map (\<lambda>i. p ! (i mod canaryLen)) [0..<n]"

definition fillCanary :: "bytes option \<Rightarrow> bytes \<Rightarrow> canary_pkg \<Rightarrow> error \<times> bytes \<times> canary_pkg" where
  "fillCanary rnd b c = (case canaryInit rnd c of
     (Some e, c') \<Rightarrow> (Some e, b, c')
   | (None, c') \<Rightarrow> (None, canaryFill (canaryPattern c') (length b), c'))"

text \<open>The comparison accumulates the differences of all bytes and looks at the sum once.\<close>

definition canaryAcc :: "bytes \<Rightarrow> bytes \<Rightarrow> byte" where
  "canaryAcc p b = foldl (\<lambda>acc i. acc OR (b ! i XOR p ! (i mod canaryLen))) 0 [0..<length b]"

definition canaryIntact :: "bytes option \<Rightarrow> bytes \<Rightarrow> canary_pkg \<Rightarrow> bool \<times> canary_pkg" where
  "canaryIntact rnd b c =
     (if b = [] then (True, c)
      else case canaryInit rnd c of
        (Some e, c') \<Rightarrow> (False, c')
      | (None, c') \<Rightarrow> (canaryAcc (canaryPattern c') b = 0, c'))"

section \<open>The layout\<close>

record canaryLayout =
  stride :: int
  slotSize :: int
  count :: int
  tail :: "int \<times> int"

definition bufferCanary :: "int \<Rightarrow> int \<Rightarrow> canaryLayout" where
  "bufferCanary usable innerLen =
     (if innerLen \<le> usable then \<lparr>stride = 0, slotSize = 0, count = 0, tail = (0, 0)\<rparr>
      else \<lparr>stride = 0, slotSize = 0, count = 0, tail = (usable, innerLen)\<rparr>)"

definition arenaCanary :: "int \<Rightarrow> int \<Rightarrow> int \<Rightarrow> int \<Rightarrow> canaryLayout" where
  "arenaCanary strd sz cnt innerLen =
     (let l = \<lparr>stride = strd, slotSize = sz, count = cnt, tail = (0, 0)\<rparr>; used = cnt * strd
      in if used < innerLen then l\<lparr>tail := (used, innerLen)\<rparr> else l)"

text \<open>
  \<^verbatim>\<open>forEachZone\<close> with the closure's captured variables as an explicit state \<open>s\<close>; the
  closure returns the new state and whether to go on.
\<close>

function forStrips :: "canaryLayout \<Rightarrow> (int \<Rightarrow> int \<Rightarrow> 's \<Rightarrow> 's \<times> bool) \<Rightarrow> int \<Rightarrow> 's \<Rightarrow> 's \<times> bool" where
  "forStrips c fn i s =
     (if i < count c then
        let lo = i * stride c + slotSize c; hi = (i + 1) * stride c in
        if hi \<le> lo then forStrips c fn (i + 1) s
        else case fn lo hi s of
          (s', False) \<Rightarrow> (s', False)
        | (s', True) \<Rightarrow> forStrips c fn (i + 1) s'
      else (s, True))"
  by pat_completeness auto
termination by (relation "measure (\<lambda>(c, fn, i, s). nat (count c - i))") auto

declare forStrips.simps [simp del]

definition forEachZone :: "canaryLayout \<Rightarrow> (int \<Rightarrow> int \<Rightarrow> 's \<Rightarrow> 's \<times> bool) \<Rightarrow> 's \<Rightarrow> 's" where
  "forEachZone c fn s = (case forStrips c fn 0 s of
     (s', False) \<Rightarrow> s'
   | (s', True) \<Rightarrow> if fst (tail c) < snd (tail c) then fst (fn (fst (tail c)) (snd (tail c)) s') else s')"

definition inBounds :: "int \<Rightarrow> int \<Rightarrow> int \<Rightarrow> bool" where
  "inBounds lo hi len \<longleftrightarrow> 0 \<le> lo \<and> lo < hi \<and> hi \<le> len"

definition arm :: "bytes option \<Rightarrow> canaryLayout \<Rightarrow> bytes \<Rightarrow> canary_pkg \<Rightarrow> error \<times> bytes \<times> canary_pkg" where
  "arm rnd l inner c = forEachZone l (\<lambda>lo hi (er, b, c).
     if \<not> inBounds lo hi (int (length b)) then ((er, b, c), True)
     else case fillCanary rnd (subslice (nat lo) (nat hi) b) c of
       (Some e, z, c') \<Rightarrow> ((Some e, b, c'), False)
     | (None, z, c') \<Rightarrow> ((er, patch (nat lo) z b, c'), True)) (None, inner, c)"

definition intact :: "bytes option \<Rightarrow> canaryLayout \<Rightarrow> bytes \<Rightarrow> canary_pkg \<Rightarrow> bool \<times> canary_pkg" where
  "intact rnd l inner c = forEachZone l (\<lambda>lo hi (ok, c).
     if \<not> inBounds lo hi (int (length inner)) then ((ok, c), True)
     else case canaryIntact rnd (subslice (nat lo) (nat hi) inner) c of
       (False, c') \<Rightarrow> ((False, c'), False)
     | (True, c') \<Rightarrow> ((ok, c'), True)) (True, c)"

section \<open>The armed ranges as a list\<close>

text \<open>The ranges \<^verbatim>\<open>forEachZone\<close> visits, in order, and the loop over them.\<close>

definition strips :: "canaryLayout \<Rightarrow> int \<Rightarrow> (int \<times> int) list" where
  "strips c i = filter (\<lambda>(lo, hi). lo < hi)
     (map (\<lambda>k. (k * stride c + slotSize c, (k + 1) * stride c)) [i..count c - 1])"

definition zones :: "canaryLayout \<Rightarrow> (int \<times> int) list" where
  "zones c = strips c 0 @ (if fst (tail c) < snd (tail c) then [tail c] else [])"

fun walk :: "(int \<Rightarrow> int \<Rightarrow> 's \<Rightarrow> 's \<times> bool) \<Rightarrow> (int \<times> int) list \<Rightarrow> 's \<Rightarrow> 's \<times> bool" where
  "walk fn [] s = (s, True)"
| "walk fn ((lo, hi) # zs) s = (case fn lo hi s of
     (s', False) \<Rightarrow> (s', False)
   | (s', True) \<Rightarrow> walk fn zs s')"

lemma walk_append:
  "walk fn (xs @ ys) s = (case walk fn xs s of (s', False) \<Rightarrow> (s', False) | (s', True) \<Rightarrow> walk fn ys s')"
  by (induction fn xs s rule: walk.induct) (auto split: prod.splits bool.splits)

lemma forStrips_walk: "forStrips c fn i s = walk fn (strips c i) s"
proof (induction c fn i s rule: forStrips.induct)
  case (1 c fn i s)
  have step: "strips c i = (if i * stride c + slotSize c < (i + 1) * stride c
      then [(i * stride c + slotSize c, (i + 1) * stride c)] else []) @ strips c (i + 1)"
    if "i < count c"
    using that by (simp add: strips_def upto_rec1 [of i])
  show ?case
  proof (cases "i < count c")
    case True
    then show ?thesis
      using 1 step by (subst forStrips.simps) (auto simp: Let_def split: prod.splits bool.splits)
  qed (simp add: strips_def forStrips.simps [of c fn i])
qed

lemma walk_single: "fst (walk fn [z] s) = fst (fn (fst z) (snd z) s)"
  by (cases z) (auto split: prod.splits bool.splits)

lemma forEachZone_walk: "forEachZone c fn s = fst (walk fn (zones c) s)"
  unfolding forEachZone_def forStrips_walk zones_def walk_append
  by (cases "walk fn (strips c 0) s") (auto simp: walk_single split: bool.splits)

section \<open>Comparing with the pattern\<close>

lemma word_xor_eq_0: "(a :: byte) XOR b = 0 \<longleftrightarrow> a = b"
  by (auto simp: bit_eq_iff bit_simps)

lemma acc_zero:
  "foldl (\<lambda>acc i. acc OR (b ! i XOR p ! f i)) (a :: byte) is = 0 \<longleftrightarrow>
   a = 0 \<and> (\<forall>i\<in>set is. b ! i = p ! f i)"
proof (induction "is" arbitrary: a)
  case (Cons i "is")
  show ?case by (simp only: foldl_Cons Cons.IH or_eq_0_iff word_xor_eq_0 list.set) blast
qed simp

lemma length_canaryFill [simp]: "length (canaryFill p n) = n"
  by (simp add: canaryFill_def)

lemma nth_canaryFill [simp]: "i < n \<Longrightarrow> canaryFill p n ! i = p ! (i mod canaryLen)"
  by (simp add: canaryFill_def)

lemma canaryFill_Nil [simp]: "canaryFill p 0 = []"
  by (simp add: canaryFill_def)

lemma canaryFill_eq_iff:
  "canaryFill p n = b \<longleftrightarrow> length b = n \<and> (\<forall>i<n. p ! (i mod canaryLen) = b ! i)"
  by (metis length_canaryFill nth_canaryFill nth_equalityI)

lemma canaryAcc_zero: "canaryAcc p b = 0 \<longleftrightarrow> canaryFill p (length b) = b"
proof -
  have "canaryAcc p b = 0 \<longleftrightarrow> (\<forall>i<length b. b ! i = p ! (i mod canaryLen))"
    unfolding canaryAcc_def acc_zero [of b p "\<lambda>i. i mod canaryLen"] by auto
  then show ?thesis unfolding canaryFill_eq_iff by metis
qed

section \<open>Arming and verifying\<close>

definition canary_ready :: "canary_pkg \<Rightarrow> bool" where
  "canary_ready c \<longleftrightarrow> canaryOnce c \<and> canaryInitErr c = None \<and> length (canaryPattern c) = canaryLen"

lemma canaryInit_ready [simp]: "canary_ready c \<Longrightarrow> canaryInit rnd c = (None, c)"
  by (simp add: canary_ready_def canaryInit_def)

lemma fillCanary_ready [simp]:
  "canary_ready c \<Longrightarrow> fillCanary rnd b c = (None, canaryFill (canaryPattern c) (length b), c)"
  by (simp add: fillCanary_def)

lemma canaryIntact_ready [simp]:
  "canary_ready c \<Longrightarrow> canaryIntact rnd b c = (canaryFill (canaryPattern c) (length b) = b, c)"
  by (auto simp: canaryIntact_def canaryAcc_zero)

text \<open>What arming leaves behind, one range after the other.\<close>

definition armZone :: "bytes \<Rightarrow> bytes \<Rightarrow> int \<times> int \<Rightarrow> bytes" where
  "armZone p b z = (if inBounds (fst z) (snd z) (int (length b))
     then patch (nat (fst z)) (canaryFill p (nat (snd z) - nat (fst z))) b else b)"

lemma arm_ready:
  assumes "canary_ready c"
  shows "arm rnd l inner c = (None, foldl (armZone (canaryPattern c)) inner (zones l), c)"
proof -
  let ?fn = "\<lambda>lo hi (er, b, c). if \<not> inBounds lo hi (int (length b)) then ((er, b, c), True)
     else case fillCanary rnd (subslice (nat lo) (nat hi) b) c of
       (Some e, z, c') \<Rightarrow> ((Some e, b, c'), False)
     | (None, z, c') \<Rightarrow> ((er, patch (nat lo) z b, c'), True)"
  have "walk ?fn zs (None, b, c) = ((None, foldl (armZone (canaryPattern c)) b zs, c), True)" for zs b
    using assms by (induction zs arbitrary: b) (auto simp: armZone_def inBounds_def)
  then show ?thesis by (simp add: arm_def forEachZone_walk)
qed

definition zoneOk :: "bytes \<Rightarrow> bytes \<Rightarrow> int \<times> int \<Rightarrow> bool" where
  "zoneOk p b z \<longleftrightarrow> inBounds (fst z) (snd z) (int (length b)) \<longrightarrow>
     canaryFill p (nat (snd z) - nat (fst z)) = subslice (nat (fst z)) (nat (snd z)) b"

lemma intact_ready:
  assumes "canary_ready c"
  shows "intact rnd l inner c = (list_all (zoneOk (canaryPattern c) inner) (zones l), c)"
proof -
  let ?fn = "\<lambda>lo hi (ok, c). if \<not> inBounds lo hi (int (length inner)) then ((ok, c), True)
     else case canaryIntact rnd (subslice (nat lo) (nat hi) inner) c of
       (False, c') \<Rightarrow> ((False, c'), False)
     | (True, c') \<Rightarrow> ((ok, c'), True)"
  have "fst (walk ?fn zs (True, c)) = (list_all (zoneOk (canaryPattern c) inner) zs, c)" for zs
    using assms by (induction zs) (auto simp: zoneOk_def inBounds_def split: bool.splits)
  then show ?thesis by (simp add: intact_def forEachZone_walk)
qed

text \<open>Ranges in increasing order that do not overlap and end before \<open>n\<close>.\<close>

fun chain :: "int \<Rightarrow> (int \<times> int) list \<Rightarrow> int \<Rightarrow> bool" where
  "chain a [] n \<longleftrightarrow> a \<le> n"
| "chain a (z # zs) n \<longleftrightarrow> a \<le> fst z \<and> fst z < snd z \<and> chain (snd z) zs n"

definition covered :: "(int \<times> int) list \<Rightarrow> nat \<Rightarrow> bool" where
  "covered zs k \<longleftrightarrow> (\<exists>z\<in>set zs. fst z \<le> int k \<and> int k < snd z)"

lemma covered_simps [simp]:
  "\<not> covered [] k"
  "covered (z # zs) k \<longleftrightarrow> fst z \<le> int k \<and> int k < snd z \<or> covered zs k"
  by (auto simp: covered_def)

lemma chain_bounds:
  "chain a zs n \<Longrightarrow> 0 \<le> a \<Longrightarrow> z \<in> set zs \<Longrightarrow> inBounds (fst z) (snd z) n \<and> a \<le> fst z"
proof (induction a zs n rule: chain.induct)
  case (2 a y zs n)
  have "chain b xs n \<Longrightarrow> b \<le> n" for b xs by (induction b xs n rule: chain.induct) auto
  then show ?case using 2 by (fastforce simp: inBounds_def)
qed simp

lemma length_armZone [simp]: "length (armZone p b z) = length b"
  by (auto simp: armZone_def inBounds_def)

lemma length_arm_zones [simp]: "length (foldl (armZone p) b zs) = length b"
  by (induction zs arbitrary: b) auto

lemma nth_armZone:
  assumes "inBounds (fst z) (snd z) (int (length b))" "k < length b"
  shows "armZone p b z ! k = (if fst z \<le> int k \<and> int k < snd z
    then p ! ((k - nat (fst z)) mod canaryLen) else b ! k)"
  using assms by (auto simp: armZone_def nth_patch inBounds_def canaryFill_def nat_less_iff)

lemma arm_zones_other:
  assumes "k < length b" "\<not> covered zs k"
  shows "foldl (armZone p) b zs ! k = b ! k"
  using assms by (induction zs arbitrary: b) (auto simp: armZone_def nth_patch inBounds_def nat_less_iff)

lemma arm_zones_ok:
  assumes "chain a zs (int (length b))" "0 \<le> a" "z \<in> set zs"
  shows "zoneOk p (foldl (armZone p) b zs) z"
  using assms
proof (induction zs arbitrary: a b)
  case (Cons y zs)
  let ?b = "armZone p b y"
  show ?case
  proof (cases "z \<in> set zs")
    case True
    then show ?thesis using Cons.IH [of "snd y" ?b] Cons.prems by auto
  next
    case False
    then have z: "z = y" using Cons.prems(3) by simp
    have ch: "chain (snd y) zs (int (length b))" and y: "inBounds (fst y) (snd y) (int (length b))"
      using Cons.prems(1,2) chain_bounds [OF Cons.prems(1,2), of y] by auto
    have "\<not> covered zs k" if "int k < snd y" for k
      using chain_bounds [OF ch] y that by (force simp: covered_def inBounds_def)
    then have "foldl (armZone p) ?b zs ! k = p ! ((k - nat (fst y)) mod canaryLen)"
      if "nat (fst y) \<le> k" "k < nat (snd y)" for k
      using that y arm_zones_other [of k ?b zs p] nth_armZone [OF y, of k p]
      by (auto simp: inBounds_def)
    then show ?thesis
      using y by (auto simp: z zoneOk_def inBounds_def canaryFill_def nth_subslice intro!: nth_equalityI)
  qed
qed simp

text \<open>The pattern is generated at most once, and is 16 bytes long when there is one.\<close>

definition canary_ok :: "canary_pkg \<Rightarrow> bool" where
  "canary_ok c \<longleftrightarrow> (if canaryOnce c then canaryInitErr c = None \<longrightarrow> length (canaryPattern c) = canaryLen
     else canaryInitErr c = None)"

definition rand_ok :: "bytes option \<Rightarrow> bool" where
  "rand_ok rnd \<longleftrightarrow> (case rnd of Some p \<Rightarrow> length p = canaryLen | None \<Rightarrow> True)"

lemma canary_ok_zero [simp]: "canary_ok canary_zero"
  by (simp add: canary_ok_def canary_zero_def)

lemma canaryInit_cases:
  assumes "canary_ok c" "rand_ok rnd"
  obtains (ready) c1 where "canaryInit rnd c = (None, c1)" "canary_ready c1"
  | (failed) e c1 where "canaryInit rnd c = (Some e, c1)" "canary_ok c1" "canaryInit rnd c1 = (Some e, c1)"
  using assms
  by (cases rnd; cases "canaryOnce c"; cases "canaryInitErr c")
    (auto simp: canaryInit_def canary_ok_def rand_ok_def canary_ready_def)

lemma canary_ready_ok: "canary_ready c \<Longrightarrow> canary_ok c"
  by (simp add: canary_ready_def canary_ok_def)

lemma arm_eq:
  assumes "canary_ok c" "rand_ok rnd" and ch: "chain 0 (zones l) (int (length inner))"
  shows "arm rnd l inner c =
    (if zones l = [] then (None, inner, c)
     else case canaryInit rnd c of
       (Some e, c1) \<Rightarrow> (Some e, inner, c1)
     | (None, c1) \<Rightarrow> (None, foldl (armZone (canaryPattern c1)) inner (zones l), c1))"
proof (cases "zones l")
  case Nil
  then show ?thesis by (simp add: arm_def forEachZone_walk)
next
  case (Cons z zs)
  have b: "inBounds (fst z) (snd z) (int (length inner))"
    using chain_bounds [OF ch] Cons by simp
  from assms(1,2) show ?thesis
  proof (cases rule: canaryInit_cases)
    case (ready c1)
    then have "fillCanary rnd x c = fillCanary rnd x c1" for x by (simp add: fillCanary_def)
    then have "arm rnd l inner c = arm rnd l inner c1"
      using b by (cases z) (simp add: arm_def forEachZone_walk Cons)
    then show ?thesis using ready Cons by (simp add: arm_ready)
  next
    case (failed e c1)
    then show ?thesis
      using b by (cases z) (simp add: arm_def forEachZone_walk Cons fillCanary_def)
  qed
qed

lemma intact_eq:
  assumes "canary_ok c" "rand_ok rnd" and ch: "chain 0 (zones l) (int (length inner))"
  shows "intact rnd l inner c =
    (if zones l = [] then (True, c)
     else case canaryInit rnd c of
       (Some e, c1) \<Rightarrow> (False, c1)
     | (None, c1) \<Rightarrow> (list_all (zoneOk (canaryPattern c1) inner) (zones l), c1))"
proof (cases "zones l")
  case Nil
  then show ?thesis by (simp add: intact_def forEachZone_walk)
next
  case (Cons z zs)
  have b: "inBounds (fst z) (snd z) (int (length inner))"
    using chain_bounds [OF ch] Cons by simp
  then have ne: "subslice (nat (fst z)) (nat (snd z)) inner \<noteq> []"
    by (auto simp: inBounds_def subslice_def)
  from assms(1,2) show ?thesis
  proof (cases rule: canaryInit_cases)
    case (ready c1)
    then have "canaryIntact rnd x c = canaryIntact rnd x c1" if "x \<noteq> []" for x
      using that by (simp add: canaryIntact_def)
    then have "intact rnd l inner c = intact rnd l inner c1"
      using b ne by (cases z) (simp add: intact_def forEachZone_walk Cons)
    then show ?thesis using ready Cons by (simp add: intact_ready)
  next
    case (failed e c1)
    then show ?thesis
      using b ne by (cases z) (simp add: intact_def forEachZone_walk Cons canaryIntact_def)
  qed
qed

lemma zoneOk_iff:
  assumes "inBounds (fst z) (snd z) (int (length b))"
  shows "zoneOk p b z \<longleftrightarrow> (\<forall>k. fst z \<le> int k \<and> int k < snd z \<longrightarrow> b ! k = p ! ((k - nat (fst z)) mod canaryLen))"
proof -
  let ?lo = "nat (fst z)" and ?hi = "nat (snd z)"
  have "zoneOk p b z \<longleftrightarrow> (\<forall>i<?hi - ?lo. p ! (i mod canaryLen) = b ! (?lo + i))"
    using assms by (auto simp: zoneOk_def canaryFill_eq_iff nth_subslice inBounds_def)
  also have "\<dots> \<longleftrightarrow> (\<forall>k. fst z \<le> int k \<and> int k < snd z \<longrightarrow> b ! k = p ! ((k - ?lo) mod canaryLen))"
    (is "?l \<longleftrightarrow> ?r")
  proof
    assume l: ?l
    show ?r
    proof (intro allI impI)
      fix k assume "fst z \<le> int k \<and> int k < snd z"
      then have "k - ?lo < ?hi - ?lo" "?lo + (k - ?lo) = k" using assms by (auto simp: inBounds_def)
      then show "b ! k = p ! ((k - ?lo) mod canaryLen)" using l by metis
    qed
  next
    assume r: ?r
    show ?l
    proof (intro allI impI)
      fix i assume "i < ?hi - ?lo"
      then have "fst z \<le> int (?lo + i) \<and> int (?lo + i) < snd z" using assms by (auto simp: inBounds_def)
      then show "p ! (i mod canaryLen) = b ! (?lo + i)" using r by fastforce
    qed
  qed
  finally show ?thesis .
qed

text \<open>After arming, the check is true exactly of the contents that agree on every armed byte.\<close>

lemma zones_exact:
  assumes "chain 0 zs (int (length b))" "length b' = length b"
  shows "list_all (zoneOk p b') zs \<longleftrightarrow>
    (\<forall>k<length b. covered zs k \<longrightarrow> b' ! k = foldl (armZone p) b zs ! k)"
proof -
  let ?a = "foldl (armZone p) b zs"
  have bnd: "inBounds (fst z) (snd z) (int (length b))" if "z \<in> set zs" for z
    using chain_bounds [OF assms(1) _ that] by simp
  have a: "?a ! k = p ! ((k - nat (fst z)) mod canaryLen)"
    if "z \<in> set zs" "fst z \<le> int k" "int k < snd z" for z k
    using arm_zones_ok [OF assms(1) _ that(1), of p] bnd [OF that(1)] that zoneOk_iff [of z ?a p] by simp
  have eq: "zoneOk p b' z \<longleftrightarrow> (\<forall>k. fst z \<le> int k \<and> int k < snd z \<longrightarrow> b' ! k = ?a ! k)"
    if "z \<in> set zs" for z
    using zoneOk_iff [of z b' p] bnd [OF that] a [OF that] assms(2) by auto
  show ?thesis
  proof
    assume "list_all (zoneOk p b') zs"
    then show "\<forall>k<length b. covered zs k \<longrightarrow> b' ! k = ?a ! k"
      using eq unfolding list_all_iff covered_def by blast
  next
    assume k: "\<forall>k<length b. covered zs k \<longrightarrow> b' ! k = ?a ! k"
    show "list_all (zoneOk p b') zs"
      unfolding list_all_iff
    proof
      fix z assume z: "z \<in> set zs"
      have "b' ! k = ?a ! k" if kz: "fst z \<le> int k" "int k < snd z" for k
      proof -
        have "k < length b" using kz bnd [OF z] by (simp add: inBounds_def)
        moreover have "covered zs k" using z kz by (auto simp: covered_def)
        ultimately show ?thesis using k by simp
      qed
      then show "zoneOk p b' z" using eq [OF z] by blast
    qed
  qed
qed

section \<open>The layouts of buffers and arenas\<close>

lemma zones_bufferCanary:
  "zones (bufferCanary u n) = (if u < n then [(u, n)] else [])"
  by (auto simp: zones_def strips_def bufferCanary_def)

lemma chain_bufferCanary: "0 \<le> u \<Longrightarrow> 0 \<le> n \<Longrightarrow> chain 0 (zones (bufferCanary u n)) n"
  by (auto simp: zones_bufferCanary)

lemma covered_bufferCanary:
  "int k < n \<Longrightarrow> covered (zones (bufferCanary u n)) k \<longleftrightarrow> u \<le> int k"
  by (auto simp: zones_bufferCanary)

lemma chain_strips:
  assumes "0 \<le> slotSize c" "slotSize c \<le> stride c" "i \<le> count c" "chain (count c * stride c) zs n"
    "a \<le> i * stride c"
  shows "chain a (strips c i @ zs) n"
  using assms
proof (induction "nat (count c - i)" arbitrary: a i)
  case 0
  then have "i = count c" by simp
  moreover from this have "strips c i = []" by (simp add: strips_def)
  ultimately show ?case using 0 by (cases zs) auto
next
  case (Suc k)
  let ?lo = "i * stride c + slotSize c" and ?hi = "(i + 1) * stride c"
  have "strips c i = (if ?lo < ?hi then [(?lo, ?hi)] else []) @ strips c (i + 1)"
    using Suc(2) by (simp add: strips_def upto_rec1 [of i])
  moreover have "chain b (strips c (i + 1) @ zs) n" if "b \<le> ?hi" for b
    using Suc that by (intro Suc(1)) auto
  ultimately show ?case using Suc.prems by (auto simp: algebra_simps)
qed

lemma zones_arenaCanary:
  "zones (arenaCanary strd sz cnt n) = strips (arenaCanary strd sz cnt n) 0 @
     (if cnt * strd < n \<and> 0 \<le> cnt * strd then [(cnt * strd, n)] else [])"
  if "0 \<le> cnt" "0 \<le> strd"
  using that by (auto simp: zones_def arenaCanary_def Let_def)

lemma arenaCanary_fields [simp]:
  "stride (arenaCanary strd sz cnt n) = strd" "slotSize (arenaCanary strd sz cnt n) = sz"
  "count (arenaCanary strd sz cnt n) = cnt"
  by (simp_all add: arenaCanary_def Let_def)

lemma chain_arenaCanary:
  assumes "0 \<le> sz" "sz \<le> strd" "0 \<le> cnt" "cnt * strd \<le> n"
  shows "chain 0 (zones (arenaCanary strd sz cnt n)) n"
  unfolding zones_arenaCanary [OF assms(3) order.trans [OF assms(1,2)]]
  using assms by (intro chain_strips) auto

lemma strip_iff:
  fixes k strd i sz :: int
  assumes "0 < strd" "0 \<le> sz"
  shows "i * strd + sz \<le> k \<and> k < (i + 1) * strd \<longleftrightarrow> i = k div strd \<and> sz \<le> k mod strd"
proof
  assume l: "i * strd + sz \<le> k \<and> k < (i + 1) * strd"
  then have "k div strd = i"
    using assms by (intro int_div_pos_eq [of _ _ _ "k - i * strd"]) (auto simp: algebra_simps)
  moreover have "k mod strd = k - (k div strd) * strd" by (simp add: minus_div_mult_eq_mod)
  ultimately show "i = k div strd \<and> sz \<le> k mod strd" using l by simp
next
  assume r: "i = k div strd \<and> sz \<le> k mod strd"
  have "k mod strd < strd" using assms by simp
  then show "i * strd + sz \<le> k \<and> k < (i + 1) * strd"
    using r div_mult_mod_eq [of k strd] by (simp only: distrib_right) linarith
qed

lemma covered_append [simp]: "covered (xs @ ys) k \<longleftrightarrow> covered xs k \<or> covered ys k"
  by (auto simp: covered_def)

lemma covered_arenaCanary:
  assumes "0 \<le> sz" "sz \<le> strd" "0 < strd" "0 \<le> cnt" "int k < n"
  shows "covered (zones (arenaCanary strd sz cnt n)) k \<longleftrightarrow>
    \<not> (int k div strd < cnt \<and> int k mod strd < sz)"
proof -
  let ?i = "int k div strd"
  have "covered (strips (arenaCanary strd sz cnt n) 0) k \<longleftrightarrow>
      (\<exists>i. 0 \<le> i \<and> i < cnt \<and> i * strd + sz \<le> int k \<and> int k < (i + 1) * strd)"
    by (force simp: covered_def strips_def)
  also have "\<dots> \<longleftrightarrow> ?i < cnt \<and> sz \<le> int k mod strd"
    using strip_iff [OF assms(3,1)] assms(3) by (auto simp: pos_imp_zdiv_nonneg_iff)
  finally have 1: "covered (strips (arenaCanary strd sz cnt n) 0) k \<longleftrightarrow> ?i < cnt \<and> sz \<le> int k mod strd" .
  have "cnt * strd \<le> int k \<longleftrightarrow> cnt \<le> ?i"
  proof
    assume "cnt * strd \<le> int k"
    from zdiv_mono1 [OF this assms(3)] show "cnt \<le> ?i" using assms(3) by simp
  next
    assume "cnt \<le> ?i"
    then have "cnt * strd \<le> ?i * strd" using assms(3) by simp
    moreover have "?i * strd \<le> int k"
      using div_mult_mod_eq [of "int k" strd] pos_mod_sign [OF assms(3), of "int k"] by linarith
    ultimately show "cnt * strd \<le> int k" by linarith
  qed
  then have 2: "covered (if cnt * strd < n \<and> 0 \<le> cnt * strd then [(cnt * strd, n)] else []) k \<longleftrightarrow> cnt \<le> ?i"
    using assms by auto
  show ?thesis unfolding zones_arenaCanary [OF assms(4) less_imp_le [OF assms(3)]] covered_append 1 2
    by linarith
qed

text \<open>Arming succeeds or fails with the pattern; a later check is exact.\<close>

lemma canary_exact:
  assumes "canary_ok c" "rand_ok rnd" and ch: "chain 0 (zones l) (int (length inner))"
    and a: "arm rnd l inner c = (None, inner', c')" and n: "length inner'' = length inner"
  shows "length inner' = length inner"
    and "k < length inner \<Longrightarrow> \<not> covered (zones l) k \<Longrightarrow> inner' ! k = inner ! k"
    and "intact rnd' l inner'' c' =
      (\<forall>k<length inner. covered (zones l) k \<longrightarrow> inner'' ! k = inner' ! k, c')"
proof -
  have *: "length inner' = length inner \<and>
    (\<forall>k<length inner. \<not> covered (zones l) k \<longrightarrow> inner' ! k = inner ! k) \<and>
    intact rnd' l inner'' c' =
      (\<forall>k<length inner. covered (zones l) k \<longrightarrow> inner'' ! k = inner' ! k, c')"
  proof (cases "zones l = []")
    case True
    then show ?thesis using a by (auto simp: arm_def intact_def forEachZone_walk)
  next
    case False
    from assms(1,2) show ?thesis
    proof (cases rule: canaryInit_cases)
      case (ready c1)
      then have "inner' = foldl (armZone (canaryPattern c')) inner (zones l)" "c' = c1"
        using a False by (auto simp: arm_eq [OF assms(1-3)])
      then show ?thesis
        using ready zones_exact [OF ch n] arm_zones_other by (simp add: intact_ready)
    next
      case failed
      then show ?thesis using a False by (simp add: arm_eq [OF assms(1-3)])
    qed
  qed
  from * show "length inner' = length inner"
    "intact rnd' l inner'' c' =
      (\<forall>k<length inner. covered (zones l) k \<longrightarrow> inner'' ! k = inner' ! k, c')" by auto
  from * show "k < length inner \<Longrightarrow> \<not> covered (zones l) k \<Longrightarrow> inner' ! k = inner ! k" by auto
qed

section \<open>Correctness of the canary\<close>

text \<open>
  The canary of a buffer: arming changes no usable byte, and from then on the check
  answers true of exactly those contents in which no byte past the usable ones has changed.
\<close>

theorem buffer_canary_exact:
  assumes "canary_ok c" "rand_ok rnd" "0 \<le> usable" "length inner'' = length inner"
    and "arm rnd (bufferCanary usable (int (length inner))) inner c = (None, inner', c')"
  shows "(\<forall>k<length inner. int k < usable \<longrightarrow> inner' ! k = inner ! k) \<and>
    intact rnd' (bufferCanary usable (int (length inner))) inner'' c' =
      (\<forall>k<length inner. usable \<le> int k \<longrightarrow> inner'' ! k = inner' ! k, c')"
  using canary_exact [OF assms(1,2) chain_bufferCanary [OF assms(3)] assms(5,4)]
  by (auto simp: covered_bufferCanary)

definition ex_pkg :: canary_pkg where
  "ex_pkg = \<lparr>canaryOnce = True, canaryPattern = replicate canaryLen 7, canaryInitErr = None\<rparr>"

lemma ex_rand_ok: "rand_ok (Some (replicate canaryLen 7))"
  by (simp add: rand_ok_def)

theorem buffer_canary_exact_witness:
  "arm (Some (replicate canaryLen 7)) (bufferCanary 1 3) [5, 0, 0] canary_zero = (None, [5, 7, 7], ex_pkg)
   \<and> fst (intact None (bufferCanary 1 3) [9, 7, 7] ex_pkg)
   \<and> \<not> fst (intact None (bufferCanary 1 3) [5, 7, 6] ex_pkg)"
proof -
  have a: "arm (Some (replicate canaryLen 7)) (bufferCanary 1 3) [5, 0, 0] canary_zero
      = (None, [5, 7, 7], ex_pkg)"
    by code_simp
  note e = buffer_canary_exact [OF canary_ok_zero ex_rand_ok, of 1 _ "[5, 0, 0]", simplified, OF _ a]
  show ?thesis using a e [of "[9, 7, 7]" None] e [of "[5, 7, 6]" None]
    by (simp add: less_Suc_eq numeral_3_eq_3 all_conj_distrib)
qed

text \<open>
  C40. The canary of an arena: the armed bytes are exactly the ones that belong to no slot
  (the strip after every slot and the page-rounding tail), arming changes no slot byte, and the
  check answers true of exactly those contents in which no other byte has changed.
\<close>

theorem arena_canary_exact:
  assumes "canary_ok c" "rand_ok rnd" "length inner'' = length inner"
    and "0 \<le> sz" "sz \<le> strd" "0 < strd" "0 \<le> cnt" "cnt * strd \<le> int (length inner)"
    and "arm rnd (arenaCanary strd sz cnt (int (length inner))) inner c = (None, inner', c')"
  shows "(\<forall>k<length inner. int k div strd < cnt \<and> int k mod strd < sz \<longrightarrow> inner' ! k = inner ! k) \<and>
    intact rnd' (arenaCanary strd sz cnt (int (length inner))) inner'' c' =
      (\<forall>k<length inner. \<not> (int k div strd < cnt \<and> int k mod strd < sz) \<longrightarrow> inner'' ! k = inner' ! k, c')"
  using canary_exact [OF assms(1,2) chain_arenaCanary [OF assms(4,5,7,8)] assms(9,3)]
    covered_arenaCanary [OF assms(4-7)]
  by auto

theorem arena_canary_exact_witness:
  "arm (Some (replicate canaryLen 7)) (arenaCanary 2 1 2 5) [1, 0, 2, 0, 0] canary_zero
     = (None, [1, 7, 2, 7, 7], ex_pkg)
   \<and> fst (intact None (arenaCanary 2 1 2 5) [8, 7, 9, 7, 7] ex_pkg)
   \<and> \<not> fst (intact None (arenaCanary 2 1 2 5) [1, 7, 2, 0, 7] ex_pkg)"
proof -
  have a: "arm (Some (replicate canaryLen 7)) (arenaCanary 2 1 2 5) [1, 0, 2, 0, 0] canary_zero
      = (None, [1, 7, 2, 7, 7], ex_pkg)"
    by code_simp
  note e = arena_canary_exact [OF canary_ok_zero ex_rand_ok, of _ "[1, 0, 2, 0, 0]" 1 2 2, simplified, OF _ a]
  have five: "k < Suc (Suc (Suc (Suc (Suc 0)))) \<longleftrightarrow> k \<in> {0, 1, 2, 3, 4}" for k by auto
  show ?thesis using a e [of "[8, 7, 9, 7, 7]" None] e [of "[1, 7, 2, 0, 7]" None]
    by (auto simp: five)
qed

text \<open>
  A canary is never armed with a predictable pattern: when \<^verbatim>\<open>rand.Read\<close> fails,
  arming reports the error and writes nothing, now and on every later attempt, and the check of
  a non-empty zone answers false.
\<close>

theorem canary_fails_closed:
  assumes "canaryInit None canary_zero = (e, c)" "0 \<le> usable" "usable < int (length inner)"
  shows "arm rnd (bufferCanary usable (int (length inner))) inner c = (Some ErrOS, inner, c) \<and>
    fst (intact rnd (bufferCanary usable (int (length inner))) inner c) = False"
proof -
  have "canaryInit r c = (Some ErrOS, c)" for r
    using assms(1) by (auto simp: canaryInit_def canary_zero_def)
  moreover have "subslice (nat usable) (length inner) inner \<noteq> []"
    using assms(2,3) by (auto simp: subslice_def)
  ultimately show ?thesis
    using assms(2,3)
    by (simp add: arm_def intact_def forEachZone_walk zones_bufferCanary inBounds_def
      fillCanary_def canaryIntact_def)
qed

theorem canary_fails_closed_witness:
  "fst (arm (Some (replicate canaryLen 7)) (bufferCanary 1 3) [5, 0, 0] (snd (canaryInit None canary_zero)))
     = Some ErrOS"
  using canary_fails_closed [of _ _ 1 "[5, 0, 0]" "Some (replicate canaryLen 7)"]
  by (simp add: canaryInit_def)

end
