(* ===== verification/Sec_Memory.thy ===== *)
theory Sec_Memory
  imports Canary
begin

text \<open>
  The guarded secret mappings of \<^verbatim>\<open>region.go\<close> and of the four platform files
  \<^verbatim>\<open>mlock_linux.go\<close>, \<^verbatim>\<open>mlock_darwin.go\<close>, \<^verbatim>\<open>mlock_windows.go\<close> and
  \<^verbatim>\<open>mlock_stub.go\<close>, with the seal cipher of \<^verbatim>\<open>sealcipher_windows.go\<close> and
  \<^verbatim>\<open>sealcipher_other.go\<close>.

  The operating system is a parameter: the record \<open>kernel\<close> says of every system call whether
  it succeeds, which address a new mapping gets, what the random source returns, and what the
  seal cipher of Windows does to a block. The memory it acts on is an explicit store of mappings.
  Reading or writing a page without the right to do so kills the process: such an access is
  \<open>None\<close>, and the component theories prove that no operation of the library is ever \<open>None\<close>.
\<close>

section \<open>The operating system\<close>

datatype platform = Linux | Darwin | Windows | Stub

datatype errno = EINVAL | EOTHER

datatype prot = PROT_NONE | PROT_READ | PROT_RW

text \<open>Addresses chosen by the kernel, and the Go heap of the platforms without mappings.\<close>

datatype addr = Mapped nat | Heap nat

text \<open>
  \<open>reply\<close> is the outcome of the n-th call and \<open>place\<close> the address it maps at; \<open>tears\<close> says
  whether a failed \<^verbatim>\<open>MAP_FIXED\<close> replacement has already removed the old mapping.
  \<open>rand\<close> is \<^verbatim>\<open>crypto/rand\<close>; \<open>protectMemory\<close> and \<open>unprotectMemory\<close> are
  \<^verbatim>\<open>CryptProtectMemory\<close> and \<^verbatim>\<open>CryptUnprotectMemory\<close>. \<open>goarch64\<close> is
  \<^verbatim>\<open>GOARCH\<close> being amd64 or arm64 and \<open>intSize\<close> is \<^verbatim>\<open>strconv.IntSize\<close>.
\<close>

record kernel =
  platform :: platform
  pageSize :: int
  intSize :: nat
  goarch64 :: bool
  reply :: "nat \<Rightarrow> errno option"
  place :: "nat \<Rightarrow> nat"
  tears :: "nat \<Rightarrow> bool"
  rand :: "nat \<Rightarrow> nat \<Rightarrow> bytes option"
  protectMemory :: "nat \<Rightarrow> bytes \<Rightarrow> bytes"
  unprotectMemory :: "bytes \<Rightarrow> bytes"

text \<open>
  What the library relies on: a positive page size that divides into cipher blocks, random reads
  that fill the buffer they are given, and a cipher that keeps the length and is undone by its
  inverse.
\<close>

definition kernel_ok :: "kernel \<Rightarrow> bool" where
  "kernel_ok k \<longleftrightarrow>
     0 < pageSize k \<and> 16 dvd pageSize k \<and> (intSize k = 32 \<or> intSize k = 64) \<and>
     (\<forall>n l b. rand k n l = Some b \<longrightarrow> length b = l) \<and>
     (\<forall>n b. length (protectMemory k n b) = length b) \<and>
     (\<forall>b. length (unprotectMemory k b) = length b) \<and>
     (\<forall>n b. unprotectMemory k (protectMemory k n b) = b)"

text \<open>
  One mapping: the protection and the contents of its secret area, the length of the whole
  reservation with both guards, and whether the secret area is locked in memory. The guards are
  never accessible and have no contents. A reservation in quarantine has an empty secret area.
\<close>

record mapping =
  mprot :: prot
  mbytes :: bytes
  mtotal :: nat
  mlocked_in :: bool

text \<open>
  \<open>calls\<close> counts the calls made so far, \<open>fds\<close> the open descriptors of the allocator, and
  \<open>released\<close> logs the contents a mapping had when it was given back.
\<close>

record memory =
  calls :: nat
  maps :: "addr \<Rightarrow> mapping option"
  fds :: nat
  released :: "bytes list"

definition maxInt :: "kernel \<Rightarrow> int" where
  "maxInt k = 2 ^ (intSize k - 1) - 1"

definition sys :: "kernel \<Rightarrow> memory \<Rightarrow> errno option \<times> memory" where
  "sys k m = (reply k (calls m), m\<lparr>calls := Suc (calls m)\<rparr>)"

text \<open>A new inaccessible mapping. The kernel never places it over an existing one.\<close>

definition mmapNone :: "kernel \<Rightarrow> int \<Rightarrow> int \<Rightarrow> memory \<Rightarrow> (errno + addr) \<times> memory" where
  "mmapNone k rounded tot m = (case sys k m of
     (Some e, m') \<Rightarrow> (Inl e, m')
   | (None, m') \<Rightarrow>
       let a = Mapped (place k (calls m)) in
       if maps m a \<noteq> None then (Inl EOTHER, m')
       else (Inr a, m'\<lparr>maps := (maps m')(a \<mapsto>
         \<lparr>mprot = PROT_NONE, mbytes = zeros (nat rounded), mtotal = nat tot, mlocked_in = False\<rparr>)\<rparr>))"

definition upd_mapping :: "addr \<Rightarrow> (mapping \<Rightarrow> mapping) \<Rightarrow> memory \<Rightarrow> memory" where
  "upd_mapping a f m = m\<lparr>maps := (maps m)(a := map_option f (maps m a))\<rparr>"

text \<open>Windows drops the page lock when a page becomes inaccessible.\<close>

definition set_prot :: "kernel \<Rightarrow> prot \<Rightarrow> mapping \<Rightarrow> mapping" where
  "set_prot k p mp = mp\<lparr>mprot := p,
     mlocked_in := mlocked_in mp \<and> \<not> (platform k = Windows \<and> p = PROT_NONE)\<rparr>"

definition mprotect :: "kernel \<Rightarrow> addr \<Rightarrow> prot \<Rightarrow> memory \<Rightarrow> errno option \<times> memory" where
  "mprotect k a p m = (case sys k m of
     (Some e, m') \<Rightarrow> (Some e, m')
   | (None, m') \<Rightarrow> (None, upd_mapping a (set_prot k p) m'))"

definition mlock :: "kernel \<Rightarrow> addr \<Rightarrow> bool \<Rightarrow> memory \<Rightarrow> errno option \<times> memory" where
  "mlock k a on m = (case sys k m of
     (Some e, m') \<Rightarrow> (Some e, m')
   | (None, m') \<Rightarrow> (None, upd_mapping a (\<lambda>mp. mp\<lparr>mlocked_in := on\<rparr>) m'))"

text \<open>Advice that changes neither contents nor protection.\<close>

definition madvise :: "kernel \<Rightarrow> memory \<Rightarrow> errno option \<times> memory" where
  "madvise k m = sys k m"

definition drop_mapping :: "addr \<Rightarrow> memory \<Rightarrow> memory" where
  "drop_mapping a m = m\<lparr>maps := (maps m)(a := None),
     released := released m @ (case maps m a of Some mp \<Rightarrow> [mbytes mp] | None \<Rightarrow> [])\<rparr>"

definition munmap :: "kernel \<Rightarrow> addr \<Rightarrow> memory \<Rightarrow> errno option \<times> memory" where
  "munmap k a m = (case sys k m of
     (Some e, m') \<Rightarrow> (Some e, m')
   | (None, m') \<Rightarrow> (None, drop_mapping a m'))"

section \<open>Regions\<close>

record secRegion =
  base :: addr
  outerLen :: nat
  innerLen :: nat

record allocInfo =
  offHeap :: bool
  mlocked :: bool
  memfdSecret :: bool
  noDump :: bool
  noFork :: bool
  guardPages :: bool
  insecure :: bool
  unauthenticatedSeal :: bool
  closedAtRest :: bool

definition allocInfo_zero :: allocInfo where
  "allocInfo_zero = \<lparr>offHeap = False, mlocked = False, memfdSecret = False, noDump = False,
     noFork = False, guardPages = False, insecure = False, unauthenticatedSeal = False,
     closedAtRest = False\<rparr>"

type_synonym alloc_result = "err + (secRegion \<times> int \<times> allocInfo)"

definition platformHasSecureMemory :: "kernel \<Rightarrow> bool" where
  "platformHasSecureMemory k \<longleftrightarrow> platform k \<noteq> Stub"

definition osErr :: "errno option \<Rightarrow> error" where
  "osErr e = (case e of None \<Rightarrow> None | Some _ \<Rightarrow> Some ErrOS)"

text \<open>\<open>guardedSizes\<close>: page size, rounded size and size with guards. The stub rounds to 4096.\<close>

definition guardedSizes :: "kernel \<Rightarrow> int \<Rightarrow> err + (int \<times> int \<times> int)" where
  "guardedSizes k sz =
     (if sz \<le> 0 then Inl (ErrMsg ''invalid sz'')
      else let ps = (if platform k = Stub then 4096 else pageSize k) in
      if maxInt k - 3 * ps < sz then Inl (ErrMsg ''too large'')
      else let rounded = ((sz + ps - 1) div ps) * ps in Inr (ps, rounded, rounded + 2 * ps))"

definition mkRegion :: "addr \<Rightarrow> int \<Rightarrow> int \<Rightarrow> secRegion" where
  "mkRegion a rounded tot = \<lparr>base = a, outerLen = nat tot, innerLen = nat rounded\<rparr>"

definition unmapOnError :: "kernel \<Rightarrow> addr \<Rightarrow> memory \<Rightarrow> memory" where
  "unmapOnError k a m = snd (munmap k a m)"

definition allocMapAnonGuarded ::
    "kernel \<Rightarrow> int \<Rightarrow> int \<Rightarrow> memory \<Rightarrow> (err + (secRegion \<times> allocInfo)) \<times> memory" where
  "allocMapAnonGuarded k rounded tot m = (case mmapNone k rounded tot m of
     (Inl e, m1) \<Rightarrow> (Inl ErrOS, m1)
   | (Inr a, m1) \<Rightarrow> (case mprotect k a PROT_RW m1 of
       (Some e, m2) \<Rightarrow> (Inl ErrOS, unmapOnError k a m2)
     | (None, m2) \<Rightarrow> (case mlock k a True m2 of
         (Some e, m3) \<Rightarrow> (Inl ErrOS, unmapOnError k a m3)
       | (None, m3) \<Rightarrow>
           let (dump, m4) = madvise k m3; (fork, m5) = madvise k m4;
               (_, m6) = madvise k m5; (_, m7) = madvise k m6
           in (Inr (mkRegion a rounded tot, allocInfo_zero\<lparr>offHeap := True, mlocked := True,
                 noDump := dump = None, noFork := fork = None, guardPages := True\<rparr>), m7))))"

text \<open>
  \<open>allocMemfdSecret\<close>: the descriptor is opened close-on-exec (with a retry and \<^verbatim>\<open>fcntl\<close>
  when the kernel answers EINVAL), sized, mapped once, and closed on every path.
\<close>

definition memfdOpen :: "kernel \<Rightarrow> memory \<Rightarrow> err option \<times> memory" where
  "memfdOpen k m = (case sys k m of
     (None, m1) \<Rightarrow> (None, m1\<lparr>fds := fds m1 + 1\<rparr>)
   | (Some EINVAL, m1) \<Rightarrow> (case sys k m1 of
       (Some e, m2) \<Rightarrow> (Some ErrOS, m2)
     | (None, m2) \<Rightarrow> (let m3 = m2\<lparr>fds := fds m2 + 1\<rparr> in case sys k m3 of
         (None, m4) \<Rightarrow> (None, m4)
       | (Some e, m4) \<Rightarrow> (Some ErrOS, m4\<lparr>fds := fds m4 - 1\<rparr>)))
   | (Some e, m1) \<Rightarrow> (Some ErrOS, m1))"

definition allocMemfdSecret ::
    "kernel \<Rightarrow> int \<Rightarrow> int \<Rightarrow> memory \<Rightarrow> (err + (secRegion \<times> bool)) \<times> memory" where
  "allocMemfdSecret k rounded tot m =
     (if \<not> goarch64 k then (Inl (ErrMsg ''memfd_secret''), m)
      else case memfdOpen k m of
        (Some e, m1) \<Rightarrow> (Inl e, m1)
      | (None, m1) \<Rightarrow> (case sys k m1 of
          (Some e, m2) \<Rightarrow> (Inl ErrOS, m2\<lparr>fds := fds m2 - 1\<rparr>)
        | (None, m2) \<Rightarrow> (case mmapNone k rounded tot m2 of
            (r, m3) \<Rightarrow> (let m4 = m3\<lparr>fds := fds m3 - 1\<rparr> in case r of
              Inl e \<Rightarrow> (Inl ErrOS, m4)
            | Inr a \<Rightarrow> (case mprotect k a PROT_RW m4 of
                (Some e, m5) \<Rightarrow> (Inl ErrOS, unmapOnError k a m5)
              | (None, m5) \<Rightarrow>
                  let (_, m6) = madvise k m5; (fork, m7) = madvise k m6
                  in (Inr (mkRegion a rounded tot, fork = None),
                      upd_mapping a (\<lambda>mp. mp\<lparr>mlocked_in := True\<rparr>) m7))))))"

definition allocMapAnon_linux :: "kernel \<Rightarrow> int \<Rightarrow> memory \<Rightarrow> alloc_result \<times> memory" where
  "allocMapAnon_linux k sz m = (case guardedSizes k sz of
     Inl e \<Rightarrow> (Inl e, m)
   | Inr (ps, rounded, tot) \<Rightarrow> (case allocMapAnonGuarded k rounded tot m of
       (Inl e, m1) \<Rightarrow> (Inl e, m1)
     | (Inr (r, info), m1) \<Rightarrow> (Inr (r, sz, info), m1)))"

definition allocSecretMem_linux :: "kernel \<Rightarrow> int \<Rightarrow> memory \<Rightarrow> alloc_result \<times> memory" where
  "allocSecretMem_linux k sz m = (case guardedSizes k sz of
     Inl e \<Rightarrow> (Inl e, m)
   | Inr (ps, rounded, tot) \<Rightarrow> (case allocMemfdSecret k rounded tot m of
       (Inr (r, fork), m1) \<Rightarrow> (Inr (r, sz, allocInfo_zero\<lparr>offHeap := True, mlocked := True,
          memfdSecret := True, noDump := True, noFork := fork, guardPages := True\<rparr>), m1)
     | (Inl _, m1) \<Rightarrow> (case allocMapAnonGuarded k rounded tot m1 of
         (Inl e, m2) \<Rightarrow> (Inl e, m2)
       | (Inr (r, info), m2) \<Rightarrow> (Inr (r, sz, info), m2))))"

definition allocSecretMem_darwin :: "kernel \<Rightarrow> int \<Rightarrow> memory \<Rightarrow> alloc_result \<times> memory" where
  "allocSecretMem_darwin k sz m = (case guardedSizes k sz of
     Inl e \<Rightarrow> (Inl e, m)
   | Inr (ps, rounded, tot) \<Rightarrow> (case mmapNone k rounded tot m of
       (Inl e, m1) \<Rightarrow> (Inl ErrOS, m1)
     | (Inr a, m1) \<Rightarrow> (case mprotect k a PROT_RW m1 of
         (Some e, m2) \<Rightarrow> (Inl ErrOS, snd (munmap k a m2))
       | (None, m2) \<Rightarrow> (case mlock k a True m2 of
           (Some e, m3) \<Rightarrow> (Inl ErrOS, snd (munmap k a m3))
         | (None, m3) \<Rightarrow>
             let (_, m4) = madvise k m3
             in (Inr (mkRegion a rounded tot, sz,
                   allocInfo_zero\<lparr>offHeap := True, mlocked := True, guardPages := True\<rparr>), m4)))))"

text \<open>Reserve, commit the middle read-write, lock it; the exclusion from error-report dumps is
  two calls, finding the procedure and calling it, and is skipped for areas above 32 bits.\<close>

definition werExcludeFromDumps :: "kernel \<Rightarrow> nat \<Rightarrow> memory \<Rightarrow> bool \<times> memory" where
  "werExcludeFromDumps k n m =
     (if n = 0 \<or> 2 ^ 32 - 1 < n then (False, m)
      else case sys k m of
        (Some e, m1) \<Rightarrow> (False, m1)
      | (None, m1) \<Rightarrow> (case sys k m1 of (hr, m2) \<Rightarrow> (hr = None, m2)))"

definition werUnexclude :: "kernel \<Rightarrow> nat \<Rightarrow> memory \<Rightarrow> memory" where
  "werUnexclude k n m =
     (if n = 0 then m
      else case sys k m of
        (Some e, m1) \<Rightarrow> m1
      | (None, m1) \<Rightarrow> snd (sys k m1))"

definition allocSecretMem_windows :: "kernel \<Rightarrow> int \<Rightarrow> memory \<Rightarrow> alloc_result \<times> memory" where
  "allocSecretMem_windows k sz m = (case guardedSizes k sz of
     Inl e \<Rightarrow> (Inl e, m)
   | Inr (ps, rounded, tot) \<Rightarrow> (case mmapNone k rounded tot m of
       (Inl e, m1) \<Rightarrow> (Inl ErrOS, m1)
     | (Inr a, m1) \<Rightarrow> (case mprotect k a PROT_RW m1 of
         (Some e, m2) \<Rightarrow> (Inl ErrOS, snd (munmap k a m2))
       | (None, m2) \<Rightarrow> (case mlock k a True m2 of
           (Some e, m3) \<Rightarrow> (Inl ErrOS, snd (munmap k a m3))
         | (None, m3) \<Rightarrow>
             let (dump, m4) = werExcludeFromDumps k (nat rounded) m3
             in (Inr (mkRegion a rounded tot, sz, allocInfo_zero\<lparr>offHeap := True,
                   mlocked := True, noDump := dump, guardPages := True\<rparr>), m4)))))"

definition allocSecretMem_stub :: "kernel \<Rightarrow> int \<Rightarrow> memory \<Rightarrow> alloc_result \<times> memory" where
  "allocSecretMem_stub k sz m = (case guardedSizes k sz of
     Inl e \<Rightarrow> (Inl e, m)
   | Inr (ps, rounded, tot) \<Rightarrow>
       let a = Heap (calls m) in
       (Inr (\<lparr>base = a, outerLen = nat rounded, innerLen = nat rounded\<rparr>, sz,
          allocInfo_zero\<lparr>insecure := True\<rparr>),
        m\<lparr>calls := Suc (calls m), maps := (maps m)(a \<mapsto> \<lparr>mprot = PROT_RW,
          mbytes = zeros (nat rounded), mtotal = nat rounded, mlocked_in = False\<rparr>)\<rparr>))"

definition allocSecretMem :: "kernel \<Rightarrow> int \<Rightarrow> memory \<Rightarrow> alloc_result \<times> memory" where
  "allocSecretMem k sz m = (case platform k of
     Linux \<Rightarrow> allocSecretMem_linux k sz m
   | Darwin \<Rightarrow> allocSecretMem_darwin k sz m
   | Windows \<Rightarrow> allocSecretMem_windows k sz m
   | Stub \<Rightarrow> allocSecretMem_stub k sz m)"

definition allocMapAnon :: "kernel \<Rightarrow> int \<Rightarrow> memory \<Rightarrow> alloc_result \<times> memory" where
  "allocMapAnon k sz m =
     (if platform k = Linux then allocMapAnon_linux k sz m else allocSecretMem k sz m)"

section \<open>Operations on a region\<close>

definition freeSecretMem :: "kernel \<Rightarrow> secRegion \<Rightarrow> memory \<Rightarrow> error \<times> memory" where
  "freeSecretMem k r m =
     (if outerLen r = 0 then (None, m)
      else case platform k of
        Linux \<Rightarrow> (case mlock k (base r) False m of (_, m1) \<Rightarrow>
            case munmap k (base r) m1 of (e, m2) \<Rightarrow> (osErr e, m2))
      | Darwin \<Rightarrow> (case munmap k (base r) m of (e, m1) \<Rightarrow> (osErr e, m1))
      | Windows \<Rightarrow> (case mlock k (base r) False (werUnexclude k (innerLen r) m) of (_, m1) \<Rightarrow>
            case munmap k (base r) m1 of (e, m2) \<Rightarrow> (osErr e, m2))
      | Stub \<Rightarrow> (None, m))"

definition madviseBeforeFree :: "kernel \<Rightarrow> secRegion \<Rightarrow> memory \<Rightarrow> error \<times> memory" where
  "madviseBeforeFree k r m =
     (if platform k = Linux then case madvise k m of (e, m1) \<Rightarrow> (osErr e, m1) else (None, m))"

definition mprotectSecretMem :: "kernel \<Rightarrow> secRegion \<Rightarrow> prot \<Rightarrow> memory \<Rightarrow> error \<times> memory" where
  "mprotectSecretMem k r p m =
     (if platform k = Stub \<or> (platform k = Windows \<and> innerLen r = 0) then (None, m)
      else case mprotect k (base r) p m of (e, m1) \<Rightarrow> (osErr e, m1))"

definition relockSecretMem :: "kernel \<Rightarrow> secRegion \<Rightarrow> memory \<Rightarrow> error \<times> memory" where
  "relockSecretMem k r m =
     (if platform k = Windows \<and> innerLen r \<noteq> 0
      then case mlock k (base r) True m of (e, m1) \<Rightarrow> (osErr e, m1)
      else (None, m))"

section \<open>Access\<close>

text \<open>Reading and writing the secret area; \<open>None\<close> is the fault that kills the process.\<close>

definition readMem :: "secRegion \<Rightarrow> memory \<Rightarrow> bytes option" where
  "readMem r m = (case maps m (base r) of
     Some mp \<Rightarrow> if mprot mp = PROT_NONE \<or> length (mbytes mp) \<noteq> innerLen r then None else Some (mbytes mp)
   | None \<Rightarrow> None)"

definition writeMem :: "secRegion \<Rightarrow> bytes \<Rightarrow> memory \<Rightarrow> memory option" where
  "writeMem r b m = (case maps m (base r) of
     Some mp \<Rightarrow> if mprot mp \<noteq> PROT_RW \<or> length (mbytes mp) \<noteq> innerLen r \<or> length b \<noteq> innerLen r then None
       else Some (upd_mapping (base r) (\<lambda>mp. mp\<lparr>mbytes := b\<rparr>) m)
   | None \<Rightarrow> None)"

text \<open>
  \<open>secureWipe\<close> of the portable build: every byte is overwritten with the zero loaded from
  \<^verbatim>\<open>wipeZero\<close>, then all are read back into an accumulator that is published.
\<close>

definition secureWipe :: "bytes \<Rightarrow> bytes \<times> byte" where
  "secureWipe b = (let z = map (\<lambda>_. 0) b in (z, foldl (OR) 0 z))"

definition secureWipeSlice :: "secRegion \<Rightarrow> nat \<Rightarrow> nat \<Rightarrow> memory \<Rightarrow> memory option" where
  "secureWipeSlice r lo hi m =
     (if hi \<le> lo then Some m
      else do {
        b \<leftarrow> readMem r m;
        writeMem r (patch lo (fst (secureWipe (subslice lo hi b))) b) m
      })"

section \<open>The seal cipher\<close>

definition sealCipherLen :: "int \<Rightarrow> err + int" where
  "sealCipherLen n =
     (if n mod 16 \<noteq> 0 then Inl (ErrMsg ''not a multiple'')
      else if n < 0 \<or> 2 ^ 32 - 1 < n then Inl (ErrMsg ''exceeds the limit'')
      else Inr n)"

text \<open>One call of the cipher over the secret area; \<open>f\<close> is what it does to the bytes.\<close>

definition sealCipherCall :: "kernel \<Rightarrow> (nat \<Rightarrow> bytes \<Rightarrow> bytes) \<Rightarrow> secRegion \<Rightarrow> memory \<Rightarrow> (error \<times> memory) option" where
  "sealCipherCall k f r m =
     (if innerLen r = 0 then Some (None, m)
      else case sealCipherLen (int (innerLen r)) of
        Inl e \<Rightarrow> Some (Some e, m)
      | Inr n \<Rightarrow> (case sys k m of
          (Some e, m1) \<Rightarrow> Some (Some ErrOS, m1)
        | (None, m1) \<Rightarrow> do {
            b \<leftarrow> readMem r m1;
            m2 \<leftarrow> writeMem r (f (calls m) b) m1;
            Some (None, m2)
          }))"

definition sealEncrypt :: "kernel \<Rightarrow> secRegion \<Rightarrow> memory \<Rightarrow> (bool \<times> error \<times> memory) option" where
  "sealEncrypt k r m =
     (if platform k = Windows then do {
        (e, m1) \<leftarrow> sealCipherCall k (protectMemory k) r m;
        Some (e = None, e, m1)
      } else Some (False, None, m))"

definition sealDecrypt :: "kernel \<Rightarrow> secRegion \<Rightarrow> memory \<Rightarrow> (error \<times> memory) option" where
  "sealDecrypt k r m =
     (if platform k = Windows then sealCipherCall k (\<lambda>_. unprotectMemory k) r m
      else Some (None, m))"

section \<open>What the operations on a region do\<close>

lemma secureWipe_zero [simp]: "secureWipe b = (zeros (length b), 0)"
proof -
  have "foldl (OR) 0 (zeros n) = (0 :: byte)" for n by (induction n) auto
  then show ?thesis by (simp add: secureWipe_def map_replicate_const)
qed

lemma upd_mapping_simps [simp]:
  "maps (upd_mapping a f m) = (maps m)(a := map_option f (maps m a))"
  "calls (upd_mapping a f m) = calls m" "fds (upd_mapping a f m) = fds m"
  "released (upd_mapping a f m) = released m"
  by (simp_all add: upd_mapping_def)

lemma set_prot_simps [simp]:
  "mprot (set_prot k p mp) = p" "mbytes (set_prot k p mp) = mbytes mp" "mtotal (set_prot k p mp) = mtotal mp"
  by (simp_all add: set_prot_def)

text \<open>Everything but the call counter, which no later result depends on by itself.\<close>

definition mem_upd :: "addr \<Rightarrow> (mapping \<Rightarrow> mapping) \<Rightarrow> memory \<Rightarrow> memory \<Rightarrow> bool" where
  "mem_upd a f m m' \<longleftrightarrow> maps m' = (maps m)(a := map_option f (maps m a)) \<and>
     fds m' = fds m \<and> released m' = released m \<and> calls m \<le> calls m'"

lemma mem_upd_self [simp]: "mem_upd a (\<lambda>mp. mp) m m"
  by (simp add: mem_upd_def option.map_ident)

lemma mem_upd_calls: "calls m \<le> n \<Longrightarrow> mem_upd a (\<lambda>mp. mp) m (m\<lparr>calls := n\<rparr>)"
  by (simp add: mem_upd_def option.map_ident)

lemma mem_updD:
  assumes "mem_upd a f m m'"
  shows "maps m' a = map_option f (maps m a)" "b \<noteq> a \<Longrightarrow> maps m' b = maps m b"
    "fds m' = fds m" "released m' = released m" "calls m \<le> calls m'" "dom (maps m') = dom (maps m)"
  using assms by (auto simp: mem_upd_def dom_def)

lemma mem_upd_trans:
  "mem_upd a f m m1 \<Longrightarrow> mem_upd a g m1 m2 \<Longrightarrow> mem_upd a (g \<circ> f) m m2"
  by (auto simp: mem_upd_def option.map_comp)

lemma mprotectSecretMem_cases:
  assumes "mprotectSecretMem k r p m = (e, m')"
  obtains (ok) "e = None" "mem_upd (base r) (if platform k = Stub \<or> (platform k = Windows \<and> innerLen r = 0)
      then (\<lambda>mp. mp) else set_prot k p) m m'"
  | (failed) "e = Some ErrOS" "platform k \<noteq> Stub" "mem_upd (base r) (\<lambda>mp. mp) m m'"
  using assms
  by (auto simp: mprotectSecretMem_def mprotect_def sys_def osErr_def mem_upd_def option.map_ident
      split: if_splits option.splits prod.splits)

lemma relockSecretMem_cases:
  assumes "relockSecretMem k r m = (e, m')"
  obtains (ok) "e = None" "mem_upd (base r) (if platform k = Windows \<and> innerLen r \<noteq> 0
      then (\<lambda>mp. mp\<lparr>mlocked_in := True\<rparr>) else (\<lambda>mp. mp)) m m'"
  | (failed) "e = Some ErrOS" "mem_upd (base r) (\<lambda>mp. mp) m m'"
  using assms
  by (auto simp: relockSecretMem_def mlock_def sys_def osErr_def mem_upd_def option.map_ident
      split: if_splits option.splits prod.splits)

lemma madviseBeforeFree_upd: "madviseBeforeFree k r m = (e, m') \<Longrightarrow> mem_upd a (\<lambda>mp. mp) m m'"
  by (auto simp: madviseBeforeFree_def madvise_def sys_def mem_upd_def option.map_ident split: if_splits)

text \<open>Freeing a region removes its mapping, or fails and leaves it with its contents.\<close>

definition mem_drop :: "addr \<Rightarrow> memory \<Rightarrow> memory \<Rightarrow> bool" where
  "mem_drop a m m' \<longleftrightarrow> maps m' = (maps m)(a := None) \<and> fds m' = fds m \<and> calls m \<le> calls m' \<and>
     released m' = released m @ (case maps m a of Some mp \<Rightarrow> [mbytes mp] | None \<Rightarrow> [])"

lemma werUnexclude_upd: "mem_upd a (\<lambda>mp. mp) m (werUnexclude k n m)"
  by (auto simp: werUnexclude_def sys_def mem_upd_def option.map_ident split: option.splits)

lemma mlock_off_cases:
  assumes "mlock k a False m = (e, m')"
  shows "mem_upd a (\<lambda>mp. mp) m m' \<or> mem_upd a (\<lambda>mp. mp\<lparr>mlocked_in := False\<rparr>) m m'"
  using assms by (auto simp: mlock_def sys_def mem_upd_def option.map_ident split: option.splits)

lemma munmap_cases:
  assumes "munmap k a m = (e, m')"
  shows "e = None \<and> mem_drop a m m' \<or> e \<noteq> None \<and> mem_upd a (\<lambda>mp. mp) m m'"
  using assms
  by (auto simp: munmap_def sys_def mem_upd_def mem_drop_def drop_mapping_def option.map_ident
      split: option.splits)

lemma mem_drop_upd:
  assumes "mem_upd a f m m1" "mem_drop a m1 m2" "\<And>mp. mbytes (f mp) = mbytes mp"
  shows "mem_drop a m m2"
  using assms by (auto simp: mem_drop_def mem_upd_def split: option.splits)

lemma free_chain:
  assumes "mlock k a False m = (e1, m1)" "munmap k a m1 = (e, m')"
  shows "e = None \<and> mem_drop a m m' \<or>
    e \<noteq> None \<and> (mem_upd a (\<lambda>mp. mp) m m' \<or> mem_upd a (\<lambda>mp. mp\<lparr>mlocked_in := False\<rparr>) m m')"
  using mlock_off_cases [OF assms(1)] munmap_cases [OF assms(2)]
  by (auto intro: mem_drop_upd dest: mem_upd_trans simp: comp_def)

lemma freeSecretMem_cases:
  assumes "freeSecretMem k r m = (e, m')"
  obtains (dropped) "e = None" "platform k \<noteq> Stub" "0 < outerLen r" "mem_drop (base r) m m'"
  | (kept) "mem_upd (base r) (\<lambda>mp. mp) m m' \<or> mem_upd (base r) (\<lambda>mp. mp\<lparr>mlocked_in := False\<rparr>) m m'"
      "e \<noteq> None \<or> platform k = Stub \<or> outerLen r = 0"
proof (cases "outerLen r = 0 \<or> platform k = Stub")
  case True
  then show thesis using assms that by (auto simp: freeSecretMem_def split: platform.splits)
next
  case False
  define m0 where "m0 = (if platform k = Windows then werUnexclude k (innerLen r) m else m)"
  have m0: "mem_upd (base r) (\<lambda>mp. mp) m m0" by (simp add: m0_def werUnexclude_upd)
  obtain en where e: "e = osErr en" and
    "en = None \<and> mem_drop (base r) m0 m' \<or>
     en \<noteq> None \<and> (mem_upd (base r) (\<lambda>mp. mp) m0 m' \<or> mem_upd (base r) (\<lambda>mp. mp\<lparr>mlocked_in := False\<rparr>) m0 m')"
    using assms False
    by (cases "platform k") (auto simp: freeSecretMem_def m0_def split: prod.splits dest: free_chain munmap_cases)
  then consider "en = None" "mem_drop (base r) m m'" | "en \<noteq> None"
      "mem_upd (base r) (\<lambda>mp. mp) m m' \<or> mem_upd (base r) (\<lambda>mp. mp\<lparr>mlocked_in := False\<rparr>) m m'"
    using mem_drop_upd [OF m0] mem_upd_trans [OF m0] by (auto simp: comp_def)
  then show thesis using that False e by cases (auto simp: osErr_def)
qed

section \<open>Allocation\<close>

definition pageOf :: "kernel \<Rightarrow> int" where
  "pageOf k = (if platform k = Stub then 4096 else pageSize k)"

lemma pageOf_pos: "kernel_ok k \<Longrightarrow> 0 < pageOf k \<and> 16 dvd pageOf k"
  by (auto simp: pageOf_def kernel_ok_def)

lemma round_up:
  fixes s p :: int
  assumes "0 < p" "0 < s"
  shows "s \<le> ((s + p - 1) div p) * p" "((s + p - 1) div p) * p < s + p"
proof -
  have "(s + p - 1) mod p < p" "0 \<le> (s + p - 1) mod p" using assms by simp_all
  moreover have "((s + p - 1) div p) * p + (s + p - 1) mod p = s + p - 1" by (rule div_mult_mod_eq)
  ultimately show "s \<le> ((s + p - 1) div p) * p" "((s + p - 1) div p) * p < s + p" by linarith+
qed

lemma guardedSizes_Inr:
  assumes "kernel_ok k" "guardedSizes k sz = Inr (ps, rounded, tot)"
  shows "ps = pageOf k" "0 < sz" "sz \<le> rounded" "rounded < sz + ps" "ps dvd rounded"
    "tot = rounded + 2 * ps" "sz + ps - 1 \<le> maxInt k" "tot \<le> maxInt k"
proof -
  have ps: "ps = pageOf k" and sz: "0 < sz" "sz \<le> maxInt k - 3 * ps"
    and r: "rounded = ((sz + ps - 1) div ps) * ps" "tot = rounded + 2 * ps"
    using assms(2) by (auto simp: guardedSizes_def pageOf_def Let_def split: if_splits)
  then show "ps = pageOf k" "0 < sz" "ps dvd rounded" "tot = rounded + 2 * ps" by simp_all
  have p: "0 < ps" using pageOf_pos [OF assms(1)] ps by simp
  from round_up [OF p sz(1)] show "sz \<le> rounded" "rounded < sz + ps" by (simp_all add: r)
  then show "sz + ps - 1 \<le> maxInt k" "tot \<le> maxInt k" using sz p r(2) by linarith+
qed

text \<open>The heap addresses in use were handed out by earlier calls.\<close>

definition mem_ok :: "memory \<Rightarrow> bool" where
  "mem_ok m \<longleftrightarrow> (\<forall>n. maps m (Heap n) \<noteq> None \<longrightarrow> n < calls m)"

text \<open>
  No mapping disappears or changes, nothing but zeros is given back, and the addresses stay
  well-formed.
\<close>

definition mem_grow :: "memory \<Rightarrow> memory \<Rightarrow> bool" where
  "mem_grow m m' \<longleftrightarrow> (\<forall>a mp. maps m a = Some mp \<longrightarrow> maps m' a = Some mp) \<and>
     calls m \<le> calls m' \<and> (mem_ok m \<longrightarrow> mem_ok m') \<and>
     (\<exists>l. released m' = released m @ l \<and> list_all all_zero l)"

lemma mem_grow_refl [simp]: "mem_grow m m"
  by (auto simp: mem_grow_def)

lemma mem_grow_trans: "mem_grow m m1 \<Longrightarrow> mem_grow m1 m2 \<Longrightarrow> mem_grow m m2"
  unfolding mem_grow_def by (auto intro: order.trans)

lemma mem_growD:
  assumes "mem_grow m m'"
  shows "maps m a = Some mp \<Longrightarrow> maps m' a = Some mp" "calls m \<le> calls m'" "mem_ok m \<Longrightarrow> mem_ok m'"
    "maps m' a = None \<Longrightarrow> maps m a = None"
  using assms by (auto simp: mem_grow_def, cases "maps m a", auto, cases "maps m a", auto)

lemma mem_grow_same:
  "maps m' = maps m \<Longrightarrow> released m' = released m \<Longrightarrow> calls m \<le> calls m' \<Longrightarrow> mem_grow m m'"
  by (auto simp: mem_grow_def mem_ok_def intro: less_le_trans)

text \<open>A zeroed mapping of this call at the address \<open>a\<close>, on top of what was there.\<close>

definition mem_new :: "addr \<Rightarrow> mapping \<Rightarrow> memory \<Rightarrow> memory \<Rightarrow> bool" where
  "mem_new a mp m m' \<longleftrightarrow> maps m a = None \<and> maps m' = (maps m)(a \<mapsto> mp) \<and> (\<exists>x. a = Mapped x) \<and>
     calls m \<le> calls m' \<and> released m' = released m \<and> (\<exists>n. mbytes mp = zeros n)"

lemma mem_new_grow: "mem_new a mp m m' \<Longrightarrow> mem_grow m m'"
  by (auto simp: mem_new_def mem_grow_def mem_ok_def intro: less_le_trans)

lemma mmapNone_cases:
  assumes "mmapNone k rounded tot m = (res, m')"
  shows "fds m' = fds m" "res = Inl e \<Longrightarrow> mem_grow m m'"
    "res = Inr a \<Longrightarrow> mem_new a \<lparr>mprot = PROT_NONE, mbytes = zeros (nat rounded), mtotal = nat tot,
       mlocked_in = False\<rparr> m m'"
  using assms
  by (auto simp: mmapNone_def sys_def Let_def mem_new_def intro!: mem_grow_same
      split: option.splits if_splits)

lemma mprotect_new:
  assumes "mem_new a mp m m1" "mprotect k a p m1 = (e, m2)"
  shows "fds m2 = fds m1" "mem_new a (if e = None then set_prot k p mp else mp) m m2"
  using assms by (auto simp: mem_new_def mprotect_def sys_def split: option.splits)

lemma mlock_new:
  assumes "mem_new a mp m m1" "mlock k a on m1 = (e, m2)"
  shows "fds m2 = fds m1" "mem_new a (if e = None then mp\<lparr>mlocked_in := on\<rparr> else mp) m m2"
  using assms by (auto simp: mem_new_def mlock_def sys_def split: option.splits)

lemma sys_new:
  assumes "mem_new a mp m m1" "sys k m1 = (e, m2)"
  shows "fds m2 = fds m1" "mem_new a mp m m2"
  using assms by (auto simp: mem_new_def sys_def)

lemma munmap_new:
  assumes "mem_new a mp m m1"
  shows "fds (snd (munmap k a m1)) = fds m1" "mem_grow m (snd (munmap k a m1))"
proof -
  show "fds (snd (munmap k a m1)) = fds m1"
    by (auto simp: munmap_def sys_def drop_mapping_def split: option.splits)
  consider "munmap k a m1 = (None, drop_mapping a (m1\<lparr>calls := Suc (calls m1)\<rparr>))"
    | e where "munmap k a m1 = (Some e, m1\<lparr>calls := Suc (calls m1)\<rparr>)"
    by (cases "reply k (calls m1)") (auto simp: munmap_def sys_def)
  then show "mem_grow m (snd (munmap k a m1))"
  proof cases
    case 1
    obtain n where "mbytes mp = zeros n" using assms by (auto simp: mem_new_def)
    then show ?thesis using assms 1
      by (auto simp: mem_new_def mem_grow_def drop_mapping_def mem_ok_def intro: less_le_trans)
  next
    case 2
    then show ?thesis
      using mem_grow_trans [OF mem_new_grow [OF assms] mem_grow_same, of "m1\<lparr>calls := Suc (calls m1)\<rparr>"] by simp
  qed
qed

lemma mem_new_fds: "mem_new a mp m m1 \<Longrightarrow> mem_new a mp m (m1\<lparr>fds := n\<rparr>)"
  by (simp add: mem_new_def)

lemma mem_new_upd: "mem_new a mp m m1 \<Longrightarrow> mbytes (f mp) = mbytes mp \<Longrightarrow> mem_new a (f mp) m (upd_mapping a f m1)"
  by (auto simp: mem_new_def)

lemma mem_grow_new: "mem_grow m m1 \<Longrightarrow> mem_new a mp m1 m2 \<Longrightarrow> maps m a = None \<and> maps m2 a = Some mp \<and> mem_grow m m2"
  using mem_new_grow [of a mp m1 m2] mem_grow_trans [of m m1 m2] mem_growD(4) [of m m1 a]
  by (auto simp: mem_new_def)

text \<open>The state of a mapping an allocation hands out.\<close>

definition born :: "kernel \<Rightarrow> secRegion \<Rightarrow> mapping" where
  "born k r = \<lparr>mprot = PROT_RW, mbytes = zeros (innerLen r), mtotal = outerLen r,
     mlocked_in = (platform k \<noteq> Stub)\<rparr>"

lemma allocMapAnonGuarded_spec:
  assumes "allocMapAnonGuarded k rounded tot m = (res, m')" "platform k \<noteq> Stub"
  shows "fds m' = fds m"
    and "res = Inl e \<Longrightarrow> mem_grow m m'"
    and "res = Inr (r, info) \<Longrightarrow> r = mkRegion (base r) rounded tot \<and> mem_new (base r) (born k r) m m' \<and>
      \<not> insecure info \<and> guardPages info \<and> mlocked info \<and> offHeap info"
proof -
  obtain r1 m1 where 1: "mmapNone k rounded tot m = (r1, m1)" by fastforce
  note M = mmapNone_cases [OF 1]
  have "fds m' = fds m \<and> (case res of Inl e \<Rightarrow> mem_grow m m' | Inr (r, info) \<Rightarrow>
      r = mkRegion (base r) rounded tot \<and> mem_new (base r) (born k r) m m' \<and>
      \<not> insecure info \<and> guardPages info \<and> mlocked info \<and> offHeap info)"
  proof (cases r1)
    case (Inl e)
    then show ?thesis using assms 1 M by (auto simp: allocMapAnonGuarded_def)
  next
    case (Inr a)
    obtain e2 m2 where 2: "mprotect k a PROT_RW m1 = (e2, m2)" by fastforce
    note N = mprotect_new [OF M(3) [OF Inr] 2]
    show ?thesis
    proof (cases e2)
      case (Some e)
      then show ?thesis
        using assms 1 2 Inr M(1) N munmap_new [OF N(2)] by (auto simp: allocMapAnonGuarded_def unmapOnError_def)
    next
      case None
      obtain e3 m3 where 3: "mlock k a True m2 = (e3, m3)" by fastforce
      note L = mlock_new [OF N(2) 3]
      show ?thesis
      proof (cases e3)
        case (Some e)
        then show ?thesis
          using assms 1 2 3 None Inr M(1) N(1) L munmap_new [OF L(2)]
          by (auto simp: allocMapAnonGuarded_def unmapOnError_def)
      next
        case e3: None
        have "m' = m3\<lparr>calls := Suc (Suc (Suc (Suc (calls m3))))\<rparr>"
          using assms 1 2 3 None e3 Inr by (auto simp: allocMapAnonGuarded_def madvise_def sys_def)
        moreover have "mem_new a (born k (mkRegion a rounded tot)) m (m3\<lparr>calls := Suc (Suc (Suc (Suc (calls m3))))\<rparr>)"
          using L(2) e3 None assms(2) by (auto simp: mem_new_def born_def mkRegion_def set_prot_def)
        ultimately show ?thesis
          using assms(1) 1 2 3 None e3 Inr M(1) N(1) L(1)
          by (auto simp: allocMapAnonGuarded_def madvise_def sys_def mkRegion_def allocInfo_zero_def)
      qed
    qed
  qed
  then show "fds m' = fds m" "res = Inl e \<Longrightarrow> mem_grow m m'"
    "res = Inr (r, info) \<Longrightarrow> r = mkRegion (base r) rounded tot \<and> mem_new (base r) (born k r) m m' \<and>
      \<not> insecure info \<and> guardPages info \<and> mlocked info \<and> offHeap info" by auto
qed

lemma memfdOpen_spec:
  assumes "memfdOpen k m = (e, m')"
  shows "fds m' = fds m + (if e = None then 1 else 0)" "maps m' = maps m" "released m' = released m"
    "calls m \<le> calls m'"
  using assms
  by (auto simp: memfdOpen_def sys_def Let_def split: option.splits errno.splits)

lemma allocMemfdSecret_spec:
  assumes "allocMemfdSecret k rounded tot m = (res, m')" "platform k \<noteq> Stub"
  shows "fds m' = fds m"
    and "res = Inl e \<Longrightarrow> mem_grow m m'"
    and "res = Inr (r, fork) \<Longrightarrow> r = mkRegion (base r) rounded tot \<and>
      maps m (base r) = None \<and> maps m' (base r) = Some (born k r) \<and> mem_grow m m'"
proof -
  have "fds m' = fds m \<and> (case res of Inl e \<Rightarrow> mem_grow m m' | Inr (r, fork) \<Rightarrow>
      r = mkRegion (base r) rounded tot \<and> maps m (base r) = None \<and>
      maps m' (base r) = Some (born k r) \<and> mem_grow m m')"
  proof (cases "goarch64 k")
    case False
    then show ?thesis using assms by (auto simp: allocMemfdSecret_def)
  next
    case True
    obtain e1 m1 where 1: "memfdOpen k m = (e1, m1)" by fastforce
    note O = memfdOpen_spec [OF 1]
    have g1: "mem_grow m m1" using O by (intro mem_grow_same) auto
    show ?thesis
    proof (cases e1)
      case (Some e)
      then show ?thesis using assms 1 O True g1 by (auto simp: allocMemfdSecret_def)
    next
      case None
      obtain e2 m2 where 2: "sys k m1 = (e2, m2)" by fastforce
      then have m2: "m2 = m1\<lparr>calls := Suc (calls m1)\<rparr>" by (simp add: sys_def)
      have g2: "mem_grow m m2" using O m2 by (intro mem_grow_same) auto
      obtain r3 m3 where 3: "mmapNone k rounded tot m2 = (r3, m3)" by fastforce
      note M = mmapNone_cases [OF 3]
      show ?thesis
      proof (cases "e2 \<noteq> None \<or> (\<exists>e. r3 = Inl e)")
        case True
        have "mem_grow m (m3\<lparr>fds := fds m3 - 1\<rparr>)" if "r3 = Inl e" for e
          using mem_grow_trans [OF g2 mem_grow_trans [OF M(2) [OF that] mem_grow_same]] by simp
        moreover have "mem_grow m (m2\<lparr>fds := fds m2 - 1\<rparr>)"
          using mem_grow_trans [OF g2 mem_grow_same, of "m2\<lparr>fds := fds m2 - 1\<rparr>"] by simp
        ultimately show ?thesis
          using assms 1 2 3 None True \<open>goarch64 k\<close> O(1) M(1) m2
          by (auto simp: allocMemfdSecret_def Let_def split: option.splits sum.splits)
      next
        case False
        then obtain a where e2: "e2 = None" and a: "r3 = Inr a" by (cases r3) auto
        let ?m4 = "m3\<lparr>fds := fds m3 - 1\<rparr>"
        obtain e5 m5 where 5: "mprotect k a PROT_RW ?m4 = (e5, m5)" by fastforce
        note N = mprotect_new [OF mem_new_fds [OF M(3) [OF a]] 5]
        show ?thesis
        proof (cases e5)
          case (Some e)
          then show ?thesis
            using assms 1 2 3 5 None e2 a True O(1) M(1) m2 N(1) munmap_new [OF N(2)] mem_grow_trans [OF g2]
            by (auto simp: allocMemfdSecret_def Let_def unmapOnError_def)
        next
          case e5: None
          let ?m7 = "m5\<lparr>calls := Suc (Suc (calls m5))\<rparr>" let ?r = "mkRegion a rounded tot"
          have "mem_new a (born k ?r) m2 (upd_mapping a (\<lambda>mp. mp\<lparr>mlocked_in := True\<rparr>) ?m7)"
            using N(2) e5 assms(2) by (auto simp: mem_new_def born_def mkRegion_def set_prot_def)
          from mem_grow_new [OF g2 this] show ?thesis
            using assms 1 2 3 5 None e2 e5 a True O(1) M(1) m2 N(1)
            by (auto simp: allocMemfdSecret_def Let_def madvise_def sys_def mkRegion_def
                simp del: upd_mapping_simps(1))
        qed
      qed
    qed
  qed
  then show "fds m' = fds m" "res = Inl e \<Longrightarrow> mem_grow m m'"
    "res = Inr (r, fork) \<Longrightarrow> r = mkRegion (base r) rounded tot \<and>
      maps m (base r) = None \<and> maps m' (base r) = Some (born k r) \<and> mem_grow m m'" by auto
qed
text \<open>The contract of \<^verbatim>\<open>allocSecretMem\<close> and \<^verbatim>\<open>allocMapAnon\<close> on every platform.\<close>

definition alloc_spec :: "kernel \<Rightarrow> int \<Rightarrow> memory \<Rightarrow> alloc_result \<Rightarrow> memory \<Rightarrow> bool" where
  "alloc_spec k sz m res m' \<longleftrightarrow> fds m' = fds m \<and> mem_grow m m' \<and>
     (\<forall>r n info. res = Inr (r, n, info) \<longrightarrow>
        n = sz \<and> 0 < sz \<and> maps m (base r) = None \<and> maps m' (base r) = Some (born k r) \<and>
        sz \<le> int (innerLen r) \<and> int (innerLen r) < sz + pageOf k \<and> pageOf k dvd int (innerLen r) \<and>
        int (outerLen r) = int (innerLen r) + (if platform k = Stub then 0 else 2 * pageOf k) \<and>
        insecure info = (platform k = Stub) \<and> guardPages info = (platform k \<noteq> Stub) \<and>
        mlocked info = (platform k \<noteq> Stub) \<and> offHeap info = (platform k \<noteq> Stub))"

lemma region_sizes:
  assumes "kernel_ok k" "guardedSizes k sz = Inr (ps, rounded, tot)" "r = mkRegion a rounded tot"
  shows "0 < sz \<and> sz \<le> int (innerLen r) \<and> int (innerLen r) < sz + pageOf k \<and>
    pageOf k dvd int (innerLen r) \<and> int (outerLen r) = int (innerLen r) + 2 * pageOf k"
  using guardedSizes_Inr [OF assms(1,2)] pageOf_pos [OF assms(1)] by (simp add: assms(3) mkRegion_def)

lemma alloc_spec_Inl: "fds m' = fds m \<Longrightarrow> mem_grow m m' \<Longrightarrow> alloc_spec k sz m (Inl e) m'"
  by (simp add: alloc_spec_def)

lemma allocMapAnon_linux_spec:
  assumes "kernel_ok k" "platform k = Linux" "allocMapAnon_linux k sz m = (res, m')"
  shows "alloc_spec k sz m res m'"
proof (cases "guardedSizes k sz")
  case (Inl e)
  then show ?thesis using assms(3) by (auto simp: allocMapAnon_linux_def intro: alloc_spec_Inl)
next
  case (Inr t)
  then obtain ps rounded tot where g: "guardedSizes k sz = Inr (ps, rounded, tot)" by (cases t) auto
  obtain r1 m1 where 1: "allocMapAnonGuarded k rounded tot m = (r1, m1)" by fastforce
  note A = allocMapAnonGuarded_spec [OF 1] note S = region_sizes [OF assms(1) g]
  show ?thesis
  proof (cases r1)
    case (Inl e)
    then show ?thesis
      using assms(2,3) g 1 A by (auto simp: allocMapAnon_linux_def intro: alloc_spec_Inl)
  next
    case (Inr ri)
    then obtain r info where ri: "r1 = Inr (r, info)" by (cases ri) auto
    then show ?thesis
      using assms(2,3) g 1 A(1) A(3) [OF _ ri] S [of r "base r"] mem_grow_new [OF mem_grow_refl, of "base r" "born k r" m m1]
      by (auto simp: allocMapAnon_linux_def alloc_spec_def)
  qed
qed

lemma allocSecretMem_linux_spec:
  assumes "kernel_ok k" "platform k = Linux" "allocSecretMem_linux k sz m = (res, m')"
  shows "alloc_spec k sz m res m'"
proof (cases "guardedSizes k sz")
  case (Inl e)
  then show ?thesis using assms(3) by (auto simp: allocSecretMem_linux_def intro: alloc_spec_Inl)
next
  case (Inr t)
  then obtain ps rounded tot where g: "guardedSizes k sz = Inr (ps, rounded, tot)" by (cases t) auto
  obtain r1 m1 where 1: "allocMemfdSecret k rounded tot m = (r1, m1)" by fastforce
  obtain r2 m2 where 2: "allocMapAnonGuarded k rounded tot m1 = (r2, m2)" by fastforce
  note A = allocMemfdSecret_spec [OF 1] and B = allocMapAnonGuarded_spec [OF 2]
    and S = region_sizes [OF assms(1) g]
  show ?thesis
  proof (cases r1)
    case (Inr rf)
    then obtain r fork where "r1 = Inr (r, fork)" by (cases rf) auto
    then show ?thesis
      using assms(2,3) g 1 A(1) A(3) [of r fork] S [of r "base r"]
      by (auto simp: allocSecretMem_linux_def alloc_spec_def allocInfo_zero_def)
  next
    case r1: (Inl e)
    then have g1: "mem_grow m m1" using A(2) assms(2) by auto
    show ?thesis
    proof (cases r2)
      case (Inl e)
      then show ?thesis
        using assms(2,3) g 1 2 r1 A(1) B mem_grow_trans [OF g1]
        by (auto simp: allocSecretMem_linux_def intro!: alloc_spec_Inl)
    next
      case (Inr ri)
      then obtain r info where ri: "r2 = Inr (r, info)" by (cases ri) auto
      then show ?thesis
        using assms(2,3) g 1 2 r1 A(1) B(1) B(3) [OF _ ri] S [of r "base r"]
          mem_grow_new [OF g1, of "base r" "born k r" m2]
        by (auto simp: allocSecretMem_linux_def alloc_spec_def)
    qed
  qed
qed
text \<open>The three calls every other platform starts with, and what is undone when one fails.\<close>

lemma reserve_cases:
  assumes "platform k \<noteq> Stub"
  obtains (map_fails) e m1 where "mmapNone k rounded tot m = (Inl e, m1)" "fds m1 = fds m" "mem_grow m m1"
  | (protect_fails) a m1 e m2 where "mmapNone k rounded tot m = (Inr a, m1)"
      "mprotect k a PROT_RW m1 = (Some e, m2)" "fds (snd (munmap k a m2)) = fds m" "mem_grow m (snd (munmap k a m2))"
  | (lock_fails) a m1 m2 e m3 where "mmapNone k rounded tot m = (Inr a, m1)"
      "mprotect k a PROT_RW m1 = (None, m2)" "mlock k a True m2 = (Some e, m3)"
      "fds (snd (munmap k a m3)) = fds m" "mem_grow m (snd (munmap k a m3))"
  | (reserved) a m1 m2 m3 where "mmapNone k rounded tot m = (Inr a, m1)"
      "mprotect k a PROT_RW m1 = (None, m2)" "mlock k a True m2 = (None, m3)"
      "fds m3 = fds m" "mem_new a (born k (mkRegion a rounded tot)) m m3"
proof -
  obtain r1 m1 where 1: "mmapNone k rounded tot m = (r1, m1)" by fastforce
  note M = mmapNone_cases [OF 1]
  show thesis
  proof (cases r1)
    case (Inl e)
    then show thesis using map_fails 1 M by auto
  next
    case (Inr a)
    obtain e2 m2 where 2: "mprotect k a PROT_RW m1 = (e2, m2)" by fastforce
    note N = mprotect_new [OF M(3) [OF Inr] 2]
    show thesis
    proof (cases e2)
      case (Some e)
      then show thesis using protect_fails 1 2 Inr M(1) N munmap_new [OF N(2), of k] by auto
    next
      case None
      obtain e3 m3 where 3: "mlock k a True m2 = (e3, m3)" by fastforce
      note L = mlock_new [OF N(2) 3]
      show thesis
      proof (cases e3)
        case (Some e)
        then show thesis using lock_fails 1 2 3 Inr None M(1) N(1) L munmap_new [OF L(2), of k] by auto
      next
        case e3: None
        then have "mem_new a (born k (mkRegion a rounded tot)) m m3"
          using L(2) None assms by (simp add: born_def mkRegion_def set_prot_def)
        then show thesis using reserved 1 2 3 Inr None e3 M(1) N(1) L(1) by auto
      qed
    qed
  qed
qed

lemma mem_new_calls: "mem_new a mp m m1 \<Longrightarrow> calls m1 \<le> n \<Longrightarrow> mem_new a mp m (m1\<lparr>calls := n\<rparr>)"
  by (auto simp: mem_new_def)

lemma alloc_spec_new:
  assumes "kernel_ok k" "platform k \<noteq> Stub" "guardedSizes k sz = Inr (ps, rounded, tot)"
    and "mem_new a (born k (mkRegion a rounded tot)) m m'" "fds m' = fds m"
    and "\<not> insecure info" "guardPages info" "mlocked info" "offHeap info"
  shows "alloc_spec k sz m (Inr (mkRegion a rounded tot, sz, info)) m'"
  using mem_grow_new [OF mem_grow_refl assms(4)] region_sizes [OF assms(1,3) refl, of a] assms
  by (auto simp: alloc_spec_def mkRegion_def)

lemma allocSecretMem_darwin_spec:
  assumes "kernel_ok k" "platform k = Darwin" "allocSecretMem_darwin k sz m = (res, m')"
  shows "alloc_spec k sz m res m'"
proof (cases "guardedSizes k sz")
  case (Inl e)
  then show ?thesis using assms(3) by (auto simp: allocSecretMem_darwin_def intro: alloc_spec_Inl)
next
  case (Inr t)
  then obtain ps rounded tot where g: "guardedSizes k sz = Inr (ps, rounded, tot)" by (cases t) auto
  have p: "platform k \<noteq> Stub" using assms(2) by simp
  then show ?thesis
  proof (cases rule: reserve_cases [of k rounded tot m])
    case (reserved a m1 m2 m3)
    then have "res = Inr (mkRegion a rounded tot, sz,
        allocInfo_zero\<lparr>offHeap := True, mlocked := True, guardPages := True\<rparr>)"
      "m' = m3\<lparr>calls := Suc (calls m3)\<rparr>"
      using assms(3) g by (auto simp: allocSecretMem_darwin_def madvise_def sys_def)
    then show ?thesis
      using alloc_spec_new [OF assms(1) p g mem_new_calls [OF reserved(5)]] reserved(4)
      by (simp add: allocInfo_zero_def)
  qed (use assms(3) g in \<open>auto simp: allocSecretMem_darwin_def intro: alloc_spec_Inl\<close>)
qed

lemma werExclude_calls:
  "snd (werExcludeFromDumps k n m) = m\<lparr>calls := calls (snd (werExcludeFromDumps k n m))\<rparr> \<and>
   calls m \<le> calls (snd (werExcludeFromDumps k n m))"
  by (auto simp: werExcludeFromDumps_def sys_def split: option.splits)

lemma allocSecretMem_windows_spec:
  assumes "kernel_ok k" "platform k = Windows" "allocSecretMem_windows k sz m = (res, m')"
  shows "alloc_spec k sz m res m'"
proof (cases "guardedSizes k sz")
  case (Inl e)
  then show ?thesis using assms(3) by (auto simp: allocSecretMem_windows_def intro: alloc_spec_Inl)
next
  case (Inr t)
  then obtain ps rounded tot where g: "guardedSizes k sz = Inr (ps, rounded, tot)" by (cases t) auto
  have p: "platform k \<noteq> Stub" using assms(2) by simp
  then show ?thesis
  proof (cases rule: reserve_cases [of k rounded tot m])
    case (reserved a m1 m2 m3)
    obtain d m4 where w: "werExcludeFromDumps k (nat rounded) m3 = (d, m4)" by fastforce
    then have m4: "m4 = m3\<lparr>calls := calls m4\<rparr>" "calls m3 \<le> calls m4"
      using werExclude_calls [of k "nat rounded" m3] by simp_all
    have "res = Inr (mkRegion a rounded tot, sz,
        allocInfo_zero\<lparr>offHeap := True, mlocked := True, noDump := d, guardPages := True\<rparr>)" "m' = m4"
      using assms(3) g reserved w by (auto simp: allocSecretMem_windows_def)
    moreover have "mem_new a (born k (mkRegion a rounded tot)) m m4" "fds m4 = fds m"
      using mem_new_calls [OF reserved(5) m4(2)] m4(1) reserved(4) by (metis, metis memory.select_convs(3) memory.update_convs(1) memory.surjective)
    ultimately show ?thesis using alloc_spec_new [OF assms(1) p g] by (simp add: allocInfo_zero_def)
  qed (use assms(3) g in \<open>auto simp: allocSecretMem_windows_def intro: alloc_spec_Inl\<close>)
qed

lemma allocSecretMem_stub_spec:
  assumes "kernel_ok k" "platform k = Stub" "mem_ok m" "allocSecretMem_stub k sz m = (res, m')"
  shows "alloc_spec k sz m res m'"
proof (cases "guardedSizes k sz")
  case (Inl e)
  then show ?thesis using assms(4) by (auto simp: allocSecretMem_stub_def intro: alloc_spec_Inl)
next
  case (Inr t)
  then obtain ps rounded tot where g: "guardedSizes k sz = Inr (ps, rounded, tot)" by (cases t) auto
  have "maps m (Heap (calls m)) = None" using assms(3) by (auto simp: mem_ok_def)
  then have "mem_grow m m'"
    using assms(4) g by (auto simp: allocSecretMem_stub_def mem_grow_def mem_ok_def Let_def less_Suc_eq split: if_splits)
  then show ?thesis
    using assms(2,4) g \<open>maps m (Heap (calls m)) = None\<close>
      region_sizes [OF assms(1) g refl, of "Heap (calls m)"]
    by (auto simp: allocSecretMem_stub_def alloc_spec_def Let_def born_def mkRegion_def allocInfo_zero_def)
qed

text \<open>The contract, whatever the operating system answers.\<close>

lemma allocSecretMem_spec:
  assumes "kernel_ok k" "mem_ok m" "allocSecretMem k sz m = (res, m')"
  shows "alloc_spec k sz m res m'"
  using assms allocSecretMem_linux_spec allocSecretMem_darwin_spec allocSecretMem_windows_spec
    allocSecretMem_stub_spec
  by (cases "platform k") (auto simp: allocSecretMem_def)

lemma allocMapAnon_spec:
  assumes "kernel_ok k" "mem_ok m" "allocMapAnon k sz m = (res, m')"
  shows "alloc_spec k sz m res m'"
  using assms allocSecretMem_spec allocMapAnon_linux_spec
  by (auto simp: allocMapAnon_def split: if_splits)

section \<open>Access to a mapped region\<close>

text \<open>The mapping of a region, with the lengths the region records.\<close>

definition region_at :: "secRegion \<Rightarrow> memory \<Rightarrow> mapping \<Rightarrow> bool" where
  "region_at r m mp \<longleftrightarrow> maps m (base r) = Some mp \<and> length (mbytes mp) = innerLen r"

lemma readMem_Some [simp]: "region_at r m mp \<Longrightarrow> mprot mp \<noteq> PROT_NONE \<Longrightarrow> readMem r m = Some (mbytes mp)"
  by (simp add: region_at_def readMem_def)

lemma writeMem_Some:
  "region_at r m mp \<Longrightarrow> mprot mp = PROT_RW \<Longrightarrow> length b = innerLen r \<Longrightarrow>
   writeMem r b m = Some (upd_mapping (base r) (\<lambda>mp. mp\<lparr>mbytes := b\<rparr>) m)"
  by (simp add: region_at_def writeMem_def)

lemma secureWipeSlice_Some:
  assumes "region_at r m mp" "mprot mp = PROT_RW" "lo \<le> hi" "hi \<le> innerLen r"
  shows "\<exists>m'. secureWipeSlice r lo hi m = Some m' \<and>
    mem_upd (base r) (\<lambda>mp. mp\<lparr>mbytes := patch lo (zeros (hi - lo)) (mbytes mp)\<rparr>) m m'"
proof (cases "hi \<le> lo")
  case True
  then have "hi = lo" using assms(3) by simp
  then show ?thesis
    using True by (auto simp: secureWipeSlice_def mem_upd_def patch_def option.map_ident)
next
  case False
  let ?b = "patch lo (zeros (hi - lo)) (mbytes mp)"
  have len: "length (mbytes mp) = innerLen r" using assms(1) by (simp add: region_at_def)
  then have "writeMem r ?b m = Some (upd_mapping (base r) (\<lambda>mp. mp\<lparr>mbytes := ?b\<rparr>) m)"
    using assms False by (intro writeMem_Some) auto
  moreover have "mem_upd (base r) (\<lambda>mp. mp\<lparr>mbytes := patch lo (zeros (hi - lo)) (mbytes mp)\<rparr>) m
      (upd_mapping (base r) (\<lambda>mp. mp\<lparr>mbytes := ?b\<rparr>) m)"
    using assms(1) by (auto simp: mem_upd_def region_at_def)
  ultimately show ?thesis using assms False len by (auto simp: secureWipeSlice_def)
qed

lemma wipe_whole: "length b = n \<Longrightarrow> patch 0 (zeros n) b = zeros n"
  by (simp add: patch_def)

text \<open>The cipher calls: the contents change only on success, and never outside the region.\<close>

lemma sealCipherCall_cases:
  assumes "region_at r m mp" "mprot mp = PROT_RW" "\<And>n b. length (f n b) = length b"
  obtains (ok) m' n where "sealCipherCall k f r m = Some (None, m')"
      "mem_upd (base r) (\<lambda>mp. if innerLen r = 0 then mp else mp\<lparr>mbytes := f n (mbytes mp)\<rparr>) m m'"
  | (failed) e m' where "sealCipherCall k f r m = Some (Some e, m')" "mem_upd (base r) (\<lambda>mp. mp) m m'"
proof (cases "innerLen r = 0")
  case True
  then show thesis using ok [of m 0] by (simp add: sealCipherCall_def)
next
  case False
  show thesis
  proof (cases "sealCipherLen (int (innerLen r))")
    case (Inl e)
    then show thesis using failed [of e m] False by (simp add: sealCipherCall_def)
  next
    case (Inr n)
    let ?m1 = "m\<lparr>calls := Suc (calls m)\<rparr>"
    have r1: "region_at r ?m1 mp" using assms(1) by (simp add: region_at_def)
    show thesis
    proof (cases "reply k (calls m)")
      case (Some e)
      then show thesis
        using failed [of ErrOS ?m1] False Inr by (simp add: sealCipherCall_def sys_def mem_upd_calls)
    next
      case None
      let ?m2 = "upd_mapping (base r) (\<lambda>x. x\<lparr>mbytes := f (calls m) (mbytes mp)\<rparr>) ?m1"
      have "sealCipherCall k f r m = Some (None, ?m2)"
        using None False Inr r1 assms writeMem_Some [OF r1 assms(2), of "f (calls m) (mbytes mp)"]
        by (auto simp: sealCipherCall_def sys_def region_at_def)
      moreover have "mem_upd (base r) (\<lambda>x. if innerLen r = 0 then x
          else x\<lparr>mbytes := f (calls m) (mbytes x)\<rparr>) m ?m2"
        using assms(1) False by (auto simp: mem_upd_def region_at_def)
      ultimately show thesis by (rule ok)
    qed
  qed
qed

section \<open>The interface of an allocator\<close>

text \<open>
  What the constructors rely on, for each of the functions that hand out regions: the contract
  \<open>alloc_spec\<close>, in a well-formed memory.
\<close>

locale allocator =
  fixes alloc :: "kernel \<Rightarrow> int \<Rightarrow> memory \<Rightarrow> alloc_result \<times> memory"
  assumes alloc: "kernel_ok k \<Longrightarrow> mem_ok m \<Longrightarrow> alloc k sz m = (res, m') \<Longrightarrow> alloc_spec k sz m res m'"
begin

lemma grows: "kernel_ok k \<Longrightarrow> mem_ok m \<Longrightarrow> alloc k sz m = (res, m') \<Longrightarrow> mem_grow m m' \<and> fds m' = fds m"
  using alloc by (auto simp: alloc_spec_def)

lemma new_region:
  assumes "kernel_ok k" "mem_ok m" "alloc k sz m = (Inr (r, n, info), m')"
  shows "region_at r m' (born k r)" "maps m (base r) = None" "n = sz" "0 < sz" "sz \<le> int (innerLen r)"
    "int (innerLen r) < sz + pageOf k" "pageOf k dvd int (innerLen r)" "innerLen r \<le> outerLen r"
    "insecure info = (platform k = Stub)"
  using alloc [OF assms] pageOf_pos [OF assms(1)]
  by (auto simp: alloc_spec_def region_at_def born_def split: if_splits)

lemma keeps_mapped:
  assumes "kernel_ok k" "mem_ok m" "alloc k sz m = (res, m')" "maps m a = Some mp"
  shows "maps m' a = Some mp" "res = Inr (r, n, info) \<Longrightarrow> base r \<noteq> a"
  using mem_growD(1) [of m m' a mp] alloc [OF assms(1-3)] assms(4) by (auto simp: alloc_spec_def)

end

interpretation sec: allocator allocSecretMem
  by unfold_locales (rule allocSecretMem_spec)

interpretation anon: allocator allocMapAnon
  by unfold_locales (rule allocMapAnon_spec)

section \<open>Correctness of the allocator\<close>

text \<open>An operating system in which every call succeeds.\<close>

definition ex_kernel :: kernel where
  "ex_kernel = \<lparr>platform = Linux, pageSize = 32, intSize = 64, goarch64 = True, reply = (\<lambda>_. None),
     place = (\<lambda>n. n), tears = (\<lambda>_. False), rand = (\<lambda>n l. Some (replicate l 7)),
     protectMemory = (\<lambda>n b. b), unprotectMemory = (\<lambda>b. b)\<rparr>"

definition ex_memory :: memory where
  "ex_memory = \<lparr>calls = 0, maps = Map.empty, fds = 0, released = []\<rparr>"

lemma ex_kernel_ok [simp]: "kernel_ok ex_kernel"
  by (simp add: kernel_ok_def ex_kernel_def)

lemma ex_memory_ok [simp]: "mem_ok ex_memory"
  by (simp add: mem_ok_def ex_memory_def)

text \<open>
  \<^verbatim>\<open>guardedSizes\<close> accepts a size exactly when it is positive and leaves room for the
  rounding and both guards; then no intermediate sum exceeds the largest machine integer, and the
  rounded size is the least multiple of the page that holds the request.
\<close>

theorem guardedSizes_exact:
  assumes "kernel_ok k"
  shows "guardedSizes k sz = Inr (ps, rounded, tot) \<longleftrightarrow>
    0 < sz \<and> sz \<le> maxInt k - 3 * ps \<and> ps = pageOf k \<and> tot = rounded + 2 * ps \<and>
    ps dvd rounded \<and> sz \<le> rounded \<and> rounded < sz + ps \<and> sz + ps - 1 \<le> maxInt k \<and> tot \<le> maxInt k"
    (is "?l \<longleftrightarrow> ?r")
proof
  assume ?l
  then show ?r using guardedSizes_Inr [OF assms, of sz ps rounded tot]
    by (auto simp: guardedSizes_def pageOf_def Let_def split: if_splits)
next
  assume r: ?r
  then have p: "0 < ps" using pageOf_pos [OF assms] by simp
  obtain q where q: "rounded = q * ps" using r by (auto simp: dvd_def mult.commute)
  have "(sz + ps - 1) div ps = q"
    using r p q by (intro int_div_pos_eq [of _ _ _ "sz + ps - 1 - q * ps"]) auto
  then show ?l using r q by (auto simp: guardedSizes_def pageOf_def Let_def)
qed

theorem guardedSizes_exact_witness:
  "guardedSizes ex_kernel 33 = Inr (32, 64, 128)"
  using guardedSizes_exact [OF ex_kernel_ok, of 33 32 64 128]
  by (simp add: ex_kernel_def pageOf_def maxInt_def)

text \<open>
  C37. The allocator, on every platform and whatever the system calls answer: a region that is
  handed out is new, zeroed, writable, locked and guarded (on the heap fallback it says it is
  not), page-rounded around the requested size; every other mapping is left as it was; no
  descriptor stays open; and an error path gives back nothing but zeros.
\<close>

theorem allocSecretMem_correct:
  assumes "kernel_ok k" "mem_ok m" "allocSecretMem k sz m = (res, m')"
  shows "alloc_spec k sz m res m'"
  by (rule allocSecretMem_spec [OF assms])

theorem allocSecretMem_correct_witness:
  "\<exists>r info m'. allocSecretMem ex_kernel 5 ex_memory = (Inr (r, 5, info), m') \<and>
     alloc_spec ex_kernel 5 ex_memory (Inr (r, 5, info)) m' \<and> innerLen r = 32"
proof -
  obtain res m' where a: "allocSecretMem ex_kernel 5 ex_memory = (res, m')" by fastforce
  then obtain r info where r: "res = Inr (r, 5, info)" "innerLen r = 32"
    by (auto simp: allocSecretMem_def allocSecretMem_linux_def guardedSizes_def ex_kernel_def maxInt_def
        allocMemfdSecret_def memfdOpen_def sys_def mmapNone_def mprotect_def madvise_def mkRegion_def
        ex_memory_def Let_def)
  then show ?thesis
    using a allocSecretMem_correct [OF ex_kernel_ok ex_memory_ok, of 5] by blast
qed

end
