(* ===== verification/Quarantine.thy ===== *)
theory Quarantine
  imports Sec_Memory
begin

text \<open>
  The destroy-time quarantine of \<^verbatim>\<open>quarantine.go\<close> with its platform files
  \<^verbatim>\<open>quarantine_linux.go\<close>, \<^verbatim>\<open>quarantine_windows.go\<close> and
  \<^verbatim>\<open>quarantine_other.go\<close>: a bounded first-in first-out queue of address ranges that stay
  reserved and inaccessible. The theory shows that the limits hold after every operation, that
  eviction takes the oldest ranges and no more than necessary, and that a range in the queue is
  mapped with no access and nothing behind it.
\<close>

section \<open>State and operations\<close>

record QuarantineLimits =
  limRegions :: int
  limBytes :: nat

text \<open>A held range is its address and its length; the oldest comes first.\<close>

record quarantine =
  limits :: QuarantineLimits
  held :: "(addr \<times> nat) list"
  qbytes :: nat

definition DefaultQuarantineLimits :: "kernel \<Rightarrow> QuarantineLimits" where
  "DefaultQuarantineLimits k =
     (if intSize k < 64 then \<lparr>limRegions = 64, limBytes = 16 * 2 ^ 20\<rparr>
      else \<lparr>limRegions = 4096, limBytes = 4 * 2 ^ 30\<rparr>)"

definition newQuarantine :: "kernel \<Rightarrow> quarantine" where
  "newQuarantine k = \<lparr>limits = DefaultQuarantineLimits k, held = [], qbytes = 0\<rparr>"

definition quarantineSupported :: "kernel \<Rightarrow> bool" where
  "quarantineSupported k \<longleftrightarrow> platform k = Linux \<or> platform k = Windows"

definition quarantineFailureKeepsRange :: "kernel \<Rightarrow> bool" where
  "quarantineFailureKeepsRange k \<longleftrightarrow> platform k \<noteq> Linux"

definition quarantineInForce :: "kernel \<Rightarrow> quarantine \<Rightarrow> bool" where
  "quarantineInForce k q \<longleftrightarrow>
     quarantineSupported k \<and> 0 < limRegions (limits q) \<and> 0 < limBytes (limits q)"

text \<open>The loop of \<^verbatim>\<open>trimLocked\<close>: what is evicted, what stays, and the bytes that stay.\<close>

fun trimLoop :: "QuarantineLimits \<Rightarrow> (addr \<times> nat) list \<Rightarrow> nat \<Rightarrow> (addr \<times> nat) list \<times> (addr \<times> nat) list \<times> nat" where
  "trimLoop l [] b = ([], [], b)"
| "trimLoop l (x # xs) b =
     (if limRegions l < int (length (x # xs)) \<or> limBytes l < b
      then case trimLoop l xs (b - snd x) of (ev, rest, b') \<Rightarrow> (x # ev, rest, b')
      else ([], x # xs, b))"

definition trimLocked :: "quarantine \<Rightarrow> (addr \<times> nat) list \<times> quarantine" where
  "trimLocked q = (case trimLoop (limits q) (held q) (qbytes q) of
     (ev, rest, b) \<Rightarrow> (ev, q\<lparr>held := rest, qbytes := b\<rparr>))"

text \<open>
  On Linux the whole range is replaced by an inaccessible mapping with \<^verbatim>\<open>MAP_FIXED\<close>; when
  that fails, the old mapping may already be gone. On Windows the secret area is decommitted.
\<close>

definition gone :: "nat \<Rightarrow> mapping" where
  "gone n = \<lparr>mprot = PROT_NONE, mbytes = [], mtotal = n, mlocked_in = False\<rparr>"

definition replace_mapping :: "secRegion \<Rightarrow> memory \<Rightarrow> memory" where
  "replace_mapping r m = (drop_mapping (base r) m)\<lparr>maps := (maps m)(base r \<mapsto> gone (outerLen r))\<rparr>"

definition quarantineSecretMem :: "kernel \<Rightarrow> secRegion \<Rightarrow> memory \<Rightarrow> error \<times> memory" where
  "quarantineSecretMem k r m = (case platform k of
     Linux \<Rightarrow> (case sys k m of
         (None, m1) \<Rightarrow> (None, replace_mapping r m1)
       | (Some e, m1) \<Rightarrow> (Some ErrOS, if tears k (calls m) then drop_mapping (base r) m1 else m1))
   | Windows \<Rightarrow> (case mlock k (base r) False (werUnexclude k (innerLen r) m) of (_, m1) \<Rightarrow>
         (case sys k m1 of
           (None, m2) \<Rightarrow> (None, replace_mapping r m2)
         | (Some e, m2) \<Rightarrow> (Some ErrOS, m2)))
   | _ \<Rightarrow> (None, m))"

definition releaseQuarantined :: "kernel \<Rightarrow> addr \<times> nat \<Rightarrow> memory \<Rightarrow> error \<times> memory" where
  "releaseQuarantined k x m =
     (if quarantineSupported k then case munmap k (fst x) m of (e, m1) \<Rightarrow> (osErr e, m1)
      else (None, m))"

fun releaseAll :: "kernel \<Rightarrow> (addr \<times> nat) list \<Rightarrow> error \<Rightarrow> memory \<Rightarrow> error \<times> memory" where
  "releaseAll k [] first m = (first, m)"
| "releaseAll k (x # xs) first m = (case releaseQuarantined k x m of
     (e, m1) \<Rightarrow> releaseAll k xs (if e \<noteq> None \<and> first = None then e else first) m1)"

definition SetQuarantineLimits ::
    "kernel \<Rightarrow> QuarantineLimits \<Rightarrow> quarantine \<Rightarrow> memory \<Rightarrow> QuarantineLimits \<times> quarantine \<times> memory" where
  "SetQuarantineLimits k l q m =
     (let l = (if limRegions l < 0 then l\<lparr>limRegions := 0\<rparr> else l);
          (ev, q1) = trimLocked (q\<lparr>limits := l\<rparr>);
          (_, m1) = releaseAll k ev None m
      in (limits q, q1, m1))"

definition retireSecretMem ::
    "kernel \<Rightarrow> secRegion \<Rightarrow> quarantine \<Rightarrow> memory \<Rightarrow> error \<times> quarantine \<times> memory" where
  "retireSecretMem k r q m =
     (if \<not> quarantineSupported k \<or> outerLen r = 0 then (case freeSecretMem k r m of (e, m1) \<Rightarrow> (e, q, m1))
      else if \<not> (0 < limRegions (limits q) \<and> outerLen r \<le> limBytes (limits q))
      then (case freeSecretMem k r m of (e, m1) \<Rightarrow> (e, q, m1))
      else case quarantineSecretMem k r m of
        (Some e, m1) \<Rightarrow>
          (if \<not> quarantineFailureKeepsRange k then (Some e, q, m1)
           else case freeSecretMem k r m1 of (e2, m2) \<Rightarrow> (e2, q, m2))
      | (None, m1) \<Rightarrow>
          (case trimLocked (q\<lparr>held := held q @ [(base r, outerLen r)], qbytes := qbytes q + outerLen r\<rparr>)
           of (ev, q1) \<Rightarrow> (case releaseAll k ev None m1 of (e, m2) \<Rightarrow> (e, q1, m2))))"

section \<open>Trimming\<close>

definition held_bytes :: "(addr \<times> nat) list \<Rightarrow> nat" where
  "held_bytes h = sum_list (map snd h)"

definition within :: "QuarantineLimits \<Rightarrow> (addr \<times> nat) list \<Rightarrow> bool" where
  "within l h \<longleftrightarrow> (h = [] \<or> int (length h) \<le> limRegions l \<and> held_bytes h \<le> limBytes l)"

definition quar_inv :: "quarantine \<Rightarrow> bool" where
  "quar_inv q \<longleftrightarrow> qbytes q = held_bytes (held q) \<and> within (limits q) (held q)"

lemma held_bytes_simps [simp]:
  "held_bytes [] = 0" "held_bytes (x # xs) = snd x + held_bytes xs"
  "held_bytes (xs @ ys) = held_bytes xs + held_bytes ys"
  by (simp_all add: held_bytes_def)

lemma trimLoop_spec:
  assumes "trimLoop l h b = (ev, rest, b')" "b = held_bytes h"
  shows "h = ev @ rest \<and> b' = held_bytes rest \<and> within l rest \<and>
    (\<forall>ev1 rest1. h = ev1 @ rest1 \<longrightarrow> length ev1 < length ev \<longrightarrow> \<not> within l rest1)"
  using assms
proof (induction l h b arbitrary: ev rest b' rule: trimLoop.induct)
  case (1 l b)
  then show ?case by (auto simp: within_def)
next
  case (2 l x xs b)
  show ?case
  proof (cases "limRegions l < int (length (x # xs)) \<or> limBytes l < b")
    case True
    obtain e r c where t: "trimLoop l xs (b - snd x) = (e, r, c)" by (metis prod_cases3)
    have IH: "xs = e @ r \<and> c = held_bytes r \<and> within l r \<and>
        (\<forall>ev1 rest1. xs = ev1 @ rest1 \<longrightarrow> length ev1 < length e \<longrightarrow> \<not> within l rest1)"
      using 2(1) [OF True t] 2(3) by simp
    have "ev = x # e" "rest = r" "b' = c" using 2(2) True t by auto
    moreover have "\<not> within l rest1" if "x # xs = ev1 @ rest1" "length ev1 < length (x # e)" for ev1 rest1
    proof (cases ev1)
      case Nil
      then show ?thesis using that True 2(3) by (auto simp: within_def)
    next
      case (Cons y ys)
      then show ?thesis using that IH by auto
    qed
    ultimately show ?thesis using IH by auto
  next
    case False
    then show ?thesis using 2(2,3) by (auto simp: within_def)
  qed
qed

lemma trimLocked_spec:
  assumes "trimLocked q = (ev, q')" "qbytes q = held_bytes (held q)"
  shows "held q = ev @ held q'" "limits q' = limits q" "quar_inv q'"
    "held q = ev1 @ rest1 \<Longrightarrow> length ev1 < length ev \<Longrightarrow> \<not> within (limits q) rest1"
proof -
  obtain rest b where t: "trimLoop (limits q) (held q) (qbytes q) = (ev, rest, b)"
    and q': "q' = q\<lparr>held := rest, qbytes := b\<rparr>"
    using assms(1) by (auto simp: trimLocked_def split: prod.splits)
  note S = trimLoop_spec [OF t assms(2)]
  from S q' show "held q = ev @ held q'" "limits q' = limits q" "quar_inv q'"
    by (simp_all add: quar_inv_def)
  from S show "held q = ev1 @ rest1 \<Longrightarrow> length ev1 < length ev \<Longrightarrow> \<not> within (limits q) rest1" by blast
qed

section \<open>What retiring a region does to memory\<close>

text \<open>Given-back ranges of the quarantine hold nothing.\<close>

definition quar_mapped :: "quarantine \<Rightarrow> memory \<Rightarrow> bool" where
  "quar_mapped q m \<longleftrightarrow> distinct (map fst (held q)) \<and> (\<forall>(a, n)\<in>set (held q). maps m a = Some (gone n))"

definition zero_at :: "addr set \<Rightarrow> memory \<Rightarrow> bool" where
  "zero_at A m \<longleftrightarrow> (\<forall>a\<in>A. \<forall>mp. maps m a = Some mp \<longrightarrow> all_zero (mbytes mp))"

text \<open>
  \<open>m'\<close> agrees with \<open>m\<close> outside the addresses in \<open>A\<close>, no mapping is new, and if there were
  only zeros at those addresses, then there still are and only zeros were given back.
\<close>

definition mem_within :: "addr set \<Rightarrow> memory \<Rightarrow> memory \<Rightarrow> bool" where
  "mem_within A m m' \<longleftrightarrow> (\<forall>a. a \<notin> A \<longrightarrow> maps m' a = maps m a) \<and> dom (maps m') \<subseteq> dom (maps m) \<and>
     fds m' = fds m \<and> calls m \<le> calls m' \<and>
     (zero_at A m \<longrightarrow> zero_at A m' \<and> (\<exists>l. released m' = released m @ l \<and> list_all all_zero l))"

lemma mem_within_refl [simp]: "mem_within A m m"
  by (simp add: mem_within_def)

lemma zero_at_mono: "zero_at C m \<Longrightarrow> A \<subseteq> C \<Longrightarrow> zero_at A m"
  by (auto simp: zero_at_def)

lemma mem_within_mono:
  assumes "mem_within A m m'" "A \<subseteq> C"
  shows "mem_within C m m'"
proof -
  have "zero_at C m'" if "zero_at C m" "zero_at A m'"
    using that assms by (auto simp: zero_at_def mem_within_def)
  then show ?thesis using assms zero_at_mono [OF _ assms(2)] by (auto simp: mem_within_def)
qed

lemma mem_within_trans_same: "mem_within C m m1 \<Longrightarrow> mem_within C m1 m2 \<Longrightarrow> mem_within C m m2"
  unfolding mem_within_def by (auto 0 3)

lemma mem_within_trans:
  "mem_within A m m1 \<Longrightarrow> mem_within B m1 m2 \<Longrightarrow> A \<subseteq> C \<Longrightarrow> B \<subseteq> C \<Longrightarrow> mem_within C m m2"
  by (rule mem_within_trans_same) (auto intro: mem_within_mono)

lemma mem_upd_within: "mem_upd a f m m' \<Longrightarrow> (\<And>mp. mbytes (f mp) = mbytes mp) \<Longrightarrow> mem_within {a} m m'"
  by (auto simp: mem_upd_def mem_within_def zero_at_def)

lemma mem_drop_within: "mem_drop a m m' \<Longrightarrow> mem_within {a} m m'"
  by (auto simp: mem_drop_def mem_within_def zero_at_def split: if_splits option.splits)

lemma freeSecretMem_within: "freeSecretMem k r m = (e, m') \<Longrightarrow> mem_within {base r} m m'"
  by (erule freeSecretMem_cases) (auto intro: mem_upd_within mem_drop_within)

lemma munmap_within: "munmap k a m = (e, m') \<Longrightarrow> mem_within {a} m m'"
  using munmap_cases mem_upd_within mem_drop_within by blast

lemma releaseQuarantined_within:
  assumes "releaseQuarantined k x m = (e, m')"
  shows "mem_within {fst x} m m'"
proof (cases "quarantineSupported k")
  case True
  obtain en m1 where "munmap k (fst x) m = (en, m1)" by fastforce
  then show ?thesis using assms True munmap_within by (simp add: releaseQuarantined_def)
qed (use assms in \<open>simp add: releaseQuarantined_def\<close>)

lemma releaseAll_within:
  "releaseAll k xs first m = (e, m') \<Longrightarrow> mem_within (fst ` set xs) m m'"
proof (induction k xs first m rule: releaseAll.induct)
  case (2 k x xs first m)
  obtain e1 m1 where r: "releaseQuarantined k x m = (e1, m1)" by fastforce
  then have "mem_within (fst ` set xs) m1 m'" using 2(1) [OF r [symmetric]] 2(2) by simp
  from mem_within_trans [OF releaseQuarantined_within [OF r] this, of "fst ` set (x # xs)"]
  show ?case by auto
qed simp

lemma replace_within:
  assumes "maps m (base r) \<noteq> None"
  shows "mem_within {base r} m (replace_mapping r m)"
  using assms
  by (auto simp: mem_within_def replace_mapping_def drop_mapping_def zero_at_def gone_def all_zero_def
      split: option.splits)

lemma drop_within: "mem_within {a} m (drop_mapping a m)"
  by (auto simp: mem_within_def drop_mapping_def zero_at_def split: if_splits option.splits)

lemma calls_within: "calls m \<le> n \<Longrightarrow> mem_within A m (m\<lparr>calls := n\<rparr>)"
  by (simp add: mem_within_def zero_at_def)

lemma unlock_upd:
  assumes "mlock k a False (werUnexclude k n m) = (e, m')"
  shows "mem_within {a} m m' \<and> (maps m' a = None \<longleftrightarrow> maps m a = None)"
proof -
  have u: "mem_upd a (\<lambda>mp. mp) m (werUnexclude k n m)" by (rule werUnexclude_upd)
  have "mem_upd a (\<lambda>mp. mp) m m' \<or> mem_upd a (\<lambda>mp. mp\<lparr>mlocked_in := False\<rparr>) m m'"
    using mlock_off_cases [OF assms] mem_upd_trans [OF u] by (auto simp: comp_def)
  then show ?thesis by (auto intro: mem_upd_within dest: mem_updD(1))
qed

lemma quarantineSecretMem_cases:
  assumes "quarantineSecretMem k r m = (e, m')" "quarantineSupported k" "maps m (base r) \<noteq> None"
  shows "mem_within {base r} m m' \<and> (e = None \<longrightarrow> maps m' (base r) = Some (gone (outerLen r)))"
proof -
  define m0 where "m0 = (if platform k = Linux then m
     else snd (mlock k (base r) False (werUnexclude k (innerLen r) m)))"
  let ?m1 = "m0\<lparr>calls := Suc (calls m0)\<rparr>"
  obtain x y where l: "mlock k (base r) False (werUnexclude k (innerLen r) m) = (x, y)" by fastforce
  have m0: "mem_within {base r} m m0" "maps m0 (base r) \<noteq> None"
    using unlock_upd [OF l] assms(3) by (simp_all add: m0_def l)
  have m1: "mem_within {base r} m ?m1" using mem_within_trans_same [OF m0(1) calls_within] by simp
  consider "e = None" "m' = replace_mapping r ?m1" | "e \<noteq> None" "m' = ?m1 \<or> m' = drop_mapping (base r) ?m1"
    using assms(1,2)
    by (cases "platform k")
      (auto simp: quarantineSecretMem_def quarantineSupported_def m0_def sys_def split: option.splits prod.splits if_splits)
  then show ?thesis
  proof cases
    case 1
    have "mem_within {base r} ?m1 (replace_mapping r ?m1)" using m0(2) by (intro replace_within) simp
    from mem_within_trans_same [OF m1 this] show ?thesis using 1 by (simp add: replace_mapping_def)
  next
    case 2
    then show ?thesis using m1 mem_within_trans_same [OF m1 drop_within] by auto
  qed
qed

text \<open>The contract of \<^verbatim>\<open>retireSecretMem\<close>, whatever the system calls answer.\<close>

lemma quar_mapped_within:
  assumes "quar_mapped q m" "mem_within A m m'" "A \<inter> fst ` set (held q) = {}"
  shows "quar_mapped q m'"
proof -
  have "maps m' a = maps m a" if "(a, n) \<in> set (held q)" for a n
    using assms(2,3) that by (force simp: mem_within_def)
  then show ?thesis using assms(1) by (auto simp: quar_mapped_def)
qed

lemma quar_mapped_sub:
  "quar_mapped q m \<Longrightarrow> held q = ev @ held q' \<Longrightarrow> quar_mapped q' m \<and> fst ` set ev \<inter> fst ` set (held q') = {}"
  by (auto simp: quar_mapped_def)

lemma retireSecretMem_spec:
  assumes q: "quar_inv q" "quar_mapped q m" and r: "maps m (base r) \<noteq> None" "base r \<notin> fst ` set (held q)"
    and ret: "retireSecretMem k r q m = (e, q', m')"
  shows "quar_inv q' \<and> quar_mapped q' m' \<and> limits q' = limits q \<and>
    fst ` set (held q') \<subseteq> insert (base r) (fst ` set (held q)) \<and>
    mem_within (insert (base r) (fst ` set (held q))) m m'"
proof -
  let ?A = "insert (base r) (fst ` set (held q))"
  have free: ?thesis if "freeSecretMem k r m1 = (e, m')" "q' = q" "mem_within {base r} m m1" for m1
  proof -
    have "mem_within {base r} m m'"
      using mem_within_trans_same [OF that(3) freeSecretMem_within [OF that(1)]] .
    then show ?thesis
      using that(2) q r quar_mapped_within [of q m "{base r}" m'] mem_within_mono [of "{base r}" m m' ?A] by auto
  qed
  show ?thesis
  proof (cases "quarantineSupported k \<and> outerLen r \<noteq> 0 \<and> 0 < limRegions (limits q) \<and> outerLen r \<le> limBytes (limits q)")
    case False
    obtain e1 m1 where "freeSecretMem k r m = (e1, m1)" by fastforce
    then show ?thesis using ret False free [of m] by (auto simp: retireSecretMem_def split: if_splits)
  next
    case True
    obtain e1 m1 where 1: "quarantineSecretMem k r m = (e1, m1)" by fastforce
    have Q: "mem_within {base r} m m1" "e1 = None \<longrightarrow> maps m1 (base r) = Some (gone (outerLen r))"
      using quarantineSecretMem_cases [OF 1 _ r(1)] True by auto
    show ?thesis
    proof (cases e1)
      case (Some e')
      then show ?thesis
        using ret True 1 free [of m1] Q(1) q r quar_mapped_within [of q m "{base r}" m1]
          mem_within_mono [of "{base r}" m m1 ?A]
        by (auto simp: retireSecretMem_def split: if_splits prod.splits)
    next
      case None
      let ?q = "q\<lparr>held := held q @ [(base r, outerLen r)], qbytes := qbytes q + outerLen r\<rparr>"
      obtain ev q1 where 2: "trimLocked ?q = (ev, q1)" by fastforce
      obtain e2 m2 where 3: "releaseAll k ev None m1 = (e2, m2)" by fastforce
      have e: "e = e2" "q' = q1" "m' = m2" using ret True 1 None 2 3 by (auto simp: retireSecretMem_def)
      note T = trimLocked_spec [OF 2]
      have qm: "quar_mapped ?q m1"
        using quar_mapped_within [OF q(2) Q(1)] Q(2) None r(2) True by (auto simp: quar_mapped_def)
      have b: "qbytes ?q = held_bytes (held ?q)" using q(1) by (simp add: quar_inv_def)
      note S = quar_mapped_sub [OF qm T(1) [OF b]]
      have sub: "fst ` set ev \<subseteq> ?A" "fst ` set (held q1) \<subseteq> ?A"
        using arg_cong [OF T(1) [OF b], of "\<lambda>h. fst ` set h"] by auto
      have "quar_mapped q1 m2" using quar_mapped_within [OF _ releaseAll_within [OF 3]] S by auto
      moreover have "mem_within ?A m m2"
        using mem_within_trans [OF Q(1) releaseAll_within [OF 3]] sub(1) True by auto
      ultimately show ?thesis
        using e T(2,3) b sub(2) by auto
    qed
  qed
qed

section \<open>Correctness of the quarantine\<close>

text \<open>
  Trimming: the evicted ranges are the oldest ones, the ones that stay are in order and
  within the limits with the byte count exact, and evicting fewer would not have been enough.
\<close>

theorem trimLocked_fifo:
  assumes "trimLocked q = (ev, q')" "qbytes q = held_bytes (held q)"
  shows "held q = ev @ held q' \<and> quar_inv q' \<and>
    (\<forall>ev1 rest1. held q = ev1 @ rest1 \<and> length ev1 < length ev \<longrightarrow> \<not> within (limits q) rest1)"
  using trimLocked_spec [OF assms] by blast

definition ex_queue :: quarantine where
  "ex_queue = \<lparr>limits = \<lparr>limRegions = 1, limBytes = 20\<rparr>, held = [(Mapped 1, 5), (Mapped 2, 6)], qbytes = 11\<rparr>"

theorem trimLocked_fifo_witness:
  "trimLocked ex_queue = ([(Mapped 1, 5)], ex_queue\<lparr>held := [(Mapped 2, 6)], qbytes := 6\<rparr>) \<and>
   quar_inv (ex_queue\<lparr>held := [(Mapped 2, 6)], qbytes := 6\<rparr>)"
proof -
  have t: "trimLocked ex_queue = ([(Mapped 1, 5)], ex_queue\<lparr>held := [(Mapped 2, 6)], qbytes := 6\<rparr>)"
    by (simp add: trimLocked_def ex_queue_def)
  then show ?thesis using trimLocked_fifo [OF t] by (simp add: ex_queue_def)
qed

text \<open>
  C38. Retiring a wiped region, whatever the system calls answer: the limits hold afterwards,
  every range in the queue is mapped with no access and nothing behind it, no mapping outside the
  queue and the region is touched, and only zeros are given back.
\<close>

theorem retireSecretMem_correct:
  assumes "quar_inv q" "quar_mapped q m" "maps m (base r) \<noteq> None" "base r \<notin> fst ` set (held q)"
    and "retireSecretMem k r q m = (e, q', m')"
  shows "quar_inv q' \<and> quar_mapped q' m' \<and> limits q' = limits q \<and>
    fst ` set (held q') \<subseteq> insert (base r) (fst ` set (held q)) \<and>
    mem_within (insert (base r) (fst ` set (held q))) m m'"
  by (rule retireSecretMem_spec [OF assms])

definition ex_region :: secRegion where
  "ex_region = \<lparr>base = Mapped 2, outerLen = 96, innerLen = 32\<rparr>"

definition ex_mapped :: memory where
  "ex_mapped = ex_memory\<lparr>maps := [Mapped 2 \<mapsto> born ex_kernel ex_region]\<rparr>"

theorem retireSecretMem_correct_witness:
  "\<exists>q' m'. retireSecretMem ex_kernel ex_region (newQuarantine ex_kernel) ex_mapped = (None, q', m') \<and>
     held q' = [(Mapped 2, 96)] \<and> quar_mapped q' m'"
proof -
  obtain e q' m' where r: "retireSecretMem ex_kernel ex_region (newQuarantine ex_kernel) ex_mapped = (e, q', m')"
    by (metis prod_cases3)
  moreover from r have "e = None" "held q' = [(Mapped 2, 96)]"
    by (auto simp: retireSecretMem_def ex_kernel_def ex_region_def quarantineSupported_def newQuarantine_def
      DefaultQuarantineLimits_def quarantineSecretMem_def sys_def trimLocked_def)
  moreover have "quar_mapped q' m'"
    using retireSecretMem_correct [OF _ _ _ _ r]
    by (simp add: quar_inv_def quar_mapped_def newQuarantine_def within_def ex_mapped_def ex_region_def)
  ultimately show ?thesis by blast
qed



text \<open>
  \<^verbatim>\<open>SetQuarantineLimits\<close> returns the previous limits and leaves the longest most recent
  part of the queue that fits the new ones; a negative region limit counts as zero and empties
  the queue.
\<close>

theorem SetQuarantineLimits_correct:
  assumes "quar_inv q" "quar_mapped q m" "SetQuarantineLimits k l q m = (prev, q', m')"
  shows "prev = limits q \<and> quar_inv q' \<and> quar_mapped q' m' \<and> limRegions (limits q') = max 0 (limRegions l) \<and>
    limBytes (limits q') = limBytes l \<and> (\<exists>ev. held q = ev @ held q' \<and>
      (\<forall>ev1 rest1. held q = ev1 @ rest1 \<and> length ev1 < length ev \<longrightarrow> \<not> within (limits q') rest1))"
proof -
  let ?l = "if limRegions l < 0 then l\<lparr>limRegions := 0\<rparr> else l"
  obtain ev q1 where t: "trimLocked (q\<lparr>limits := ?l\<rparr>) = (ev, q1)" by fastforce
  obtain e m1 where r: "releaseAll k ev None m = (e, m1)" by fastforce
  have eq: "prev = limits q" "q' = q1" "m' = m1"
    using assms(3) t r by (auto simp: SetQuarantineLimits_def Let_def)
  have b: "qbytes (q\<lparr>limits := ?l\<rparr>) = held_bytes (held (q\<lparr>limits := ?l\<rparr>))"
    using assms(1) by (simp add: quar_inv_def)
  note T = trimLocked_spec [OF t b]
  have h: "held q = ev @ held q1" using T(1) by simp
  have S: "quar_mapped q1 m" "fst ` set ev \<inter> fst ` set (held q1) = {}"
    using quar_mapped_sub [OF assms(2) h] by auto
  have "quar_mapped q1 m1" by (rule quar_mapped_within [OF S(1) releaseAll_within [OF r] S(2)])
  moreover have "\<forall>ev1 rest1. held q = ev1 @ rest1 \<and> length ev1 < length ev \<longrightarrow> \<not> within (limits q1) rest1"
    using T(2,4) by auto
  ultimately show ?thesis using eq T(2,3) h by auto
qed

theorem SetQuarantineLimits_correct_witness:
  "\<exists>q' m'. SetQuarantineLimits ex_kernel \<lparr>limRegions = -3, limBytes = 100\<rparr>
     ((newQuarantine ex_kernel)\<lparr>held := [(Mapped 2, 96)], qbytes := 96\<rparr>)
     (ex_memory\<lparr>maps := [Mapped 2 \<mapsto> gone 96]\<rparr>) = (DefaultQuarantineLimits ex_kernel, q', m') \<and> held q' = []"
proof -
  let ?q = "(newQuarantine ex_kernel)\<lparr>held := [(Mapped 2, 96)], qbytes := 96\<rparr>"
  let ?m = "ex_memory\<lparr>maps := [Mapped 2 \<mapsto> gone 96]\<rparr>"
  obtain prev q' m' where s: "SetQuarantineLimits ex_kernel \<lparr>limRegions = -3, limBytes = 100\<rparr> ?q ?m = (prev, q', m')"
    by (metis prod_cases3)
  have i: "quar_inv ?q" "quar_mapped ?q ?m"
    by (simp_all add: quar_inv_def quar_mapped_def within_def newQuarantine_def DefaultQuarantineLimits_def ex_kernel_def)
  have p: "prev = limits ?q \<and> quar_inv q' \<and> limRegions (limits q') = 0"
    using SetQuarantineLimits_correct [OF i s] by auto
  then have "held q' = []" by (auto simp: quar_inv_def within_def)
  then show ?thesis using s p by (auto simp: newQuarantine_def)
qed

end
