(* ===== verification/Registry.thy ===== *)
theory Registry
  imports Quarantine
begin

text \<open>
  The janitor of \<^verbatim>\<open>registry.go\<close>: the registry of live and of wiped secret mappings, the
  teardown \<^verbatim>\<open>wipeAndFree\<close>, the release paths, and the emergency wipe. The theory also
  declares the state the whole library shares.

  The atomic flags shared between the janitor and the owner of a mapping are cells of an explicit
  store, and a lock is named by a number. The exclusive sections of a region's lock never overlap
  (theory \<open>Buf_Lock\<close>), so an operation that runs under it is one function; \<open>borrows\<close>
  counts the read borrows in flight per lock, which is what makes a \<^verbatim>\<open>tryLock\<close> fail.
\<close>

section \<open>The shared state\<close>

type_synonym key = "64 word"
type_synonym cell = nat
type_synonym lockid = nat

record janitorRegion =
  jregion :: secRegion
  jmu :: lockid
  jcanary :: canaryLayout
  jsealCipher :: "cell option"
  jwiped :: "cell option"

record sealKeyring =
  kregion :: secRegion
  klock :: "lockid option"
  kwiped :: cell
  kkey :: key
  kgen :: "64 word"

record world =
  mem :: memory
  cpkg :: canary_pkg
  quar :: quarantine
  regions :: "key \<Rightarrow> janitorRegion option"
  wipedset :: "key \<Rightarrow> janitorRegion option"
  nextJanitorKey :: key
  cells :: "cell \<Rightarrow> bool"
  ncells :: nat
  borrows :: "lockid \<Rightarrow> nat"
  nlocks :: nat
  sealKeys :: sealKeyring

definition zeroLayout :: canaryLayout where
  "zeroLayout = \<lparr>stride = 0, slotSize = 0, count = 0, tail = (0, 0)\<rparr>"

text \<open>\<^verbatim>\<open>new(atomic.Bool)\<close> and \<^verbatim>\<open>newBufferRWLock()\<close>.\<close>

definition newCell :: "world \<Rightarrow> cell \<times> world" where
  "newCell w = (ncells w, w\<lparr>ncells := Suc (ncells w), cells := (cells w)(ncells w := False)\<rparr>)"

definition newLock :: "world \<Rightarrow> lockid \<times> world" where
  "newLock w = (nlocks w, w\<lparr>nlocks := Suc (nlocks w), borrows := (borrows w)(nlocks w := 0)\<rparr>)"

section \<open>The registry\<close>

definition register ::
    "secRegion \<Rightarrow> canaryLayout \<Rightarrow> lockid \<Rightarrow> cell option \<Rightarrow> cell option \<Rightarrow> world \<Rightarrow> (err + key) \<times> world" where
  "register r can mu sc wp w =
     (let key = nextJanitorKey w + 1; w1 = w\<lparr>nextJanitorKey := key\<rparr> in
      if key = 0 then (Inl ErrKeyCollision, w1)
      else if regions w1 key \<noteq> None then (Inl ErrKeyCollision, w1)
      else if wipedset w1 key \<noteq> None then (Inl ErrKeyCollision, w1)
      else (Inr key, w1\<lparr>regions := (regions w1)(key \<mapsto>
        \<lparr>jregion = r, jmu = mu, jcanary = can, jsealCipher = sc, jwiped = wp\<rparr>)\<rparr>))"

definition take_live :: "key \<Rightarrow> world \<Rightarrow> janitorRegion option \<times> world" where
  "take_live key w = (case regions w key of
     Some e \<Rightarrow> (Some e, w\<lparr>regions := (regions w)(key := None)\<rparr>)
   | None \<Rightarrow> (None, w))"

definition takeWiped :: "key \<Rightarrow> world \<Rightarrow> janitorRegion option \<times> world" where
  "takeWiped key w = (case wipedset w key of
     Some e \<Rightarrow> (Some e, w\<lparr>wipedset := (wipedset w)(key := None)\<rparr>)
   | None \<Rightarrow> (None, w))"

definition takeAny :: "key \<Rightarrow> world \<Rightarrow> janitorRegion option \<times> world" where
  "takeAny key w = (case take_live key w of
     (Some e, w1) \<Rightarrow> (Some e, w1)
   | (None, w1) \<Rightarrow> takeWiped key w1)"

definition peekAny :: "key \<Rightarrow> world \<Rightarrow> janitorRegion option" where
  "peekAny key w = (case regions w key of Some e \<Rightarrow> Some e | None \<Rightarrow> wipedset w key)"

definition takeAnyIf :: "key \<Rightarrow> lockid \<Rightarrow> world \<Rightarrow> janitorRegion option \<times> world" where
  "takeAnyIf key mu w = (case regions w key of
     Some e \<Rightarrow> (if jmu e \<noteq> mu then (None, w) else (Some e, w\<lparr>regions := (regions w)(key := None)\<rparr>))
   | None \<Rightarrow> (case wipedset w key of
       Some e \<Rightarrow> (if jmu e \<noteq> mu then (None, w) else (Some e, w\<lparr>wipedset := (wipedset w)(key := None)\<rparr>))
     | None \<Rightarrow> (None, w)))"

definition moveToWipedIf :: "key \<Rightarrow> lockid \<Rightarrow> world \<Rightarrow> (janitorRegion \<times> bool) option \<times> world" where
  "moveToWipedIf key mu w = (case regions w key of
     Some e \<Rightarrow> (if jmu e \<noteq> mu then (None, w)
       else (Some (e, True), w\<lparr>regions := (regions w)(key := None),
          wipedset := (wipedset w)(key \<mapsto> e\<lparr>jcanary := zeroLayout, jsealCipher := None\<rparr>)\<rparr>))
   | None \<Rightarrow> (case wipedset w key of
       Some e \<Rightarrow> (if jmu e \<noteq> mu then (None, w) else (Some (e, False), w))
     | None \<Rightarrow> (None, w)))"

definition returnToLive :: "key \<Rightarrow> janitorRegion \<Rightarrow> world \<Rightarrow> world" where
  "returnToLive key e w = (case wipedset w key of
     Some f \<Rightarrow> (if jmu f = jmu e
       then w\<lparr>wipedset := (wipedset w)(key := None), regions := (regions w)(key \<mapsto> e)\<rparr> else w)
   | None \<Rightarrow> w)"

section \<open>Teardown\<close>

text \<open>The canary check of \<^verbatim>\<open>wipeAndFree\<close>, skipped while the contents are ciphertext.\<close>

definition canaryCheck :: "kernel \<Rightarrow> janitorRegion \<Rightarrow> world \<Rightarrow> (error \<times> world) option" where
  "canaryCheck k e w =
     (if (case jsealCipher e of None \<Rightarrow> True | Some c \<Rightarrow> \<not> cells w c) then do {
        b \<leftarrow> readMem (jregion e) (mem w);
        (case intact (rand k (calls (mem w)) canaryLen) (jcanary e) b (cpkg w) of (ok, c) \<Rightarrow>
          Some (if ok then None else Some ErrCanaryViolation, w\<lparr>cpkg := c\<rparr>))
      } else Some (None, w))"

definition clearCipher :: "janitorRegion \<Rightarrow> world \<Rightarrow> world" where
  "clearCipher e w = (case jsealCipher e of
     None \<Rightarrow> w | Some c \<Rightarrow> w\<lparr>cells := (cells w)(c := False)\<rparr>)"

definition wipeAndFree :: "kernel \<Rightarrow> janitorRegion \<Rightarrow> bool \<Rightarrow> world \<Rightarrow> (error \<times> world) option" where
  "wipeAndFree k e unmap w = (case mprotectSecretMem k (jregion e) PROT_RW (mem w) of
     (Some er, m1) \<Rightarrow>
       (if \<not> unmap then Some (Some (ErrJoin ErrWipeSkipped er), w\<lparr>mem := m1\<rparr>)
        else let (aerr, m2) = madviseBeforeFree k (jregion e) m1;
                 (ferr, m3) = freeSecretMem k (jregion e) m2
             in Some (errorsJoin (errorsJoin (Some er) aerr) ferr, w\<lparr>mem := m3\<rparr>))
   | (None, m1) \<Rightarrow> do {
       (canaryErr, w1) \<leftarrow> canaryCheck k e (w\<lparr>mem := m1\<rparr>);
       m2 \<leftarrow> secureWipeSlice (jregion e) 0 (innerLen (jregion e)) (mem w1);
       (let w2 = clearCipher e (w1\<lparr>mem := m2\<rparr>) in
        if \<not> unmap then Some (canaryErr, w2)
        else let (_, m3) = madviseBeforeFree k (jregion e) (mem w2);
                 (rerr, q, m4) = retireSecretMem k (jregion e) (quar w2) m3
             in Some (errorsJoin canaryErr rerr, w2\<lparr>mem := m4, quar := q\<rparr>))
     })"

definition markWiped :: "janitorRegion \<Rightarrow> world \<Rightarrow> world" where
  "markWiped e w = (case jwiped e of None \<Rightarrow> w | Some c \<Rightarrow> w\<lparr>cells := (cells w)(c := True)\<rparr>)"

text \<open>
  \<open>release\<close>: with \<open>lockHeld\<close> the caller is \<^verbatim>\<open>Destroy\<close>; without it the caller is the
  garbage-collection cleanup, which looks the key up, waits for the lock it found and looks the
  key up again.
\<close>

definition release :: "kernel \<Rightarrow> key \<Rightarrow> bool \<Rightarrow> world \<Rightarrow> (error \<times> world) option" where
  "release k key lockHeld w =
     (if lockHeld then (case takeAny key w of
        (None, w1) \<Rightarrow> Some (None, w1)
      | (Some e, w1) \<Rightarrow> wipeAndFree k e True w1)
      else case peekAny key w of
        None \<Rightarrow> Some (None, w)
      | Some p \<Rightarrow> (case takeAnyIf key (jmu p) w of
          (None, w1) \<Rightarrow> Some (None, w1)
        | (Some e, w1) \<Rightarrow> wipeAndFree k e True w1))"

text \<open>The part the two wipe passes share, from the moment the region's lock is held.\<close>

definition wipeLocked :: "kernel \<Rightarrow> key \<Rightarrow> lockid \<Rightarrow> world \<Rightarrow> (error \<times> world) option" where
  "wipeLocked k key mu w = (case moveToWipedIf key mu w of
     (None, w1) \<Rightarrow> Some (None, w1)
   | (Some (e, wasLive), w1) \<Rightarrow> do {
       (er, w2) \<leftarrow> wipeAndFree k e False w1;
       Some (er, if \<not> errorIs er ErrWipeSkipped then markWiped e w2
         else if wasLive then returnToLive key e w2 else w2)
     })"

definition wipeInPlace :: "kernel \<Rightarrow> key \<Rightarrow> world \<Rightarrow> (error \<times> world) option" where
  "wipeInPlace k key w = (case peekAny key w of
     None \<Rightarrow> Some (None, w)
   | Some p \<Rightarrow> wipeLocked k key (jmu p) w)"

definition tryWipeInPlace :: "kernel \<Rightarrow> key \<Rightarrow> world \<Rightarrow> (bool \<times> error \<times> world) option" where
  "tryWipeInPlace k key w = (case peekAny key w of
     None \<Rightarrow> Some (True, None, w)
   | Some p \<Rightarrow> (if borrows w (jmu p) \<noteq> 0 then Some (False, None, w)
       else do { (er, w1) \<leftarrow> wipeLocked k key (jmu p) w; Some (True, er, w1) }))"

text \<open>
  The first pass of \<^verbatim>\<open>wipeAllInPlace\<close> over the keys in the order the map iteration gives
  them, and the second pass over the deferred ones, each waited for by a goroutine of its own: the
  list is the order in which their locks become free.
\<close>

fun wipePass1 :: "kernel \<Rightarrow> key list \<Rightarrow> error \<Rightarrow> key list \<Rightarrow> world \<Rightarrow> (error \<times> key list \<times> world) option" where
  "wipePass1 k [] errs deferred w = Some (errs, deferred, w)"
| "wipePass1 k (key # keys) errs deferred w = do {
     (fin, er, w1) \<leftarrow> tryWipeInPlace k key w;
     wipePass1 k keys (errorsJoin errs er) (if fin then deferred else deferred @ [key]) w1
   }"

fun wipePass2 :: "kernel \<Rightarrow> key list \<Rightarrow> error \<Rightarrow> world \<Rightarrow> (error \<times> world) option" where
  "wipePass2 k [] errs w = Some (errs, w)"
| "wipePass2 k (key # keys) errs w = do {
     (er, w1) \<leftarrow> wipeInPlace k key w;
     wipePass2 k keys (errorsJoin errs er) w1
   }"

text \<open>
  \<^verbatim>\<open>wipeAllInPlace\<close>, which \<^verbatim>\<open>WipeAllSecrets\<close> calls. \<open>keys\<close> is the snapshot of both
  maps in iteration order, \<open>wait\<close> what the other goroutines do between the passes, and
  \<open>order\<close> the order in which the locks of the deferred regions become free.
\<close>

definition wipeAllInPlace ::
    "kernel \<Rightarrow> key list \<Rightarrow> (key list \<Rightarrow> key list) \<Rightarrow> (world \<Rightarrow> world) \<Rightarrow> world \<Rightarrow> (error \<times> world) option" where
  "wipeAllInPlace k keys order wait w = do {
     (errs, deferred, w1) \<leftarrow> wipePass1 k keys None [] w;
     if deferred = [] then Some (errs, w1) else wipePass2 k (order deferred) errs (wait w1)
   }"

section \<open>The invariant\<close>

definition cells_of :: "janitorRegion \<Rightarrow> cell set" where
  "cells_of e = set_option (jsealCipher e) \<union> set_option (jwiped e)"

text \<open>What the secret area decrypts to while its cipher flag is set.\<close>

definition plain :: "kernel \<Rightarrow> world \<Rightarrow> janitorRegion \<Rightarrow> bytes \<Rightarrow> bytes" where
  "plain k w e b = (case jsealCipher e of
     Some c \<Rightarrow> if cells w c then unprotectMemory k b else b | None \<Rightarrow> b)"

definition canary_good :: "kernel \<Rightarrow> world \<Rightarrow> janitorRegion \<Rightarrow> bytes \<Rightarrow> bool" where
  "canary_good k w e b \<longleftrightarrow> list_all (zoneOk (canaryPattern (cpkg w)) (plain k w e b)) (zones (jcanary e))"

definition entry_ok :: "kernel \<Rightarrow> world \<Rightarrow> janitorRegion \<Rightarrow> bool" where
  "entry_ok k w e \<longleftrightarrow>
     (\<exists>mp. region_at (jregion e) (mem w) mp \<and> (platform k = Stub \<longrightarrow> mprot mp = PROT_RW)) \<and>
     0 < innerLen (jregion e) \<and> innerLen (jregion e) \<le> outerLen (jregion e) \<and>
     chain 0 (zones (jcanary e)) (int (innerLen (jregion e))) \<and>
     (zones (jcanary e) = [] \<or> canary_ready (cpkg w)) \<and>
     base (jregion e) \<notin> fst ` set (held (quar w)) \<and>
     jmu e < nlocks w \<and> (\<forall>c\<in>cells_of e. c < ncells w) \<and>
     jwiped e \<noteq> None \<and> jsealCipher e \<noteq> jwiped e"

text \<open>Two registrations share nothing.\<close>

definition apart :: "janitorRegion \<Rightarrow> janitorRegion \<Rightarrow> bool" where
  "apart e f \<longleftrightarrow> base (jregion e) \<noteq> base (jregion f) \<and> jmu e \<noteq> jmu f \<and> cells_of e \<inter> cells_of f = {}"

definition jan_inv :: "kernel \<Rightarrow> world \<Rightarrow> bool" where
  "jan_inv k w \<longleftrightarrow>
     (\<forall>key. regions w key = None \<or> wipedset w key = None) \<and>
     peekAny 0 w = None \<and>
     (\<forall>key e. peekAny key w = Some e \<longrightarrow> entry_ok k w e) \<and>
     (\<forall>k1 k2 e f. peekAny k1 w = Some e \<longrightarrow> peekAny k2 w = Some f \<longrightarrow> k1 \<noteq> k2 \<longrightarrow> apart e f) \<and>
     (\<forall>key e. wipedset w key = Some e \<longrightarrow> jcanary e = zeroLayout \<and> jsealCipher e = None) \<and>
     quar_inv (quar w) \<and> quar_mapped (quar w) (mem w) \<and> mem_ok (mem w) \<and> canary_ok (cpkg w)"

lemma zones_zeroLayout [simp]: "zones zeroLayout = []"
  by (simp add: zeroLayout_def zones_def strips_def)

lemma jan_invD:
  assumes "jan_inv k w"
  shows "regions w key = None \<or> wipedset w key = None" "peekAny 0 w = None"
    "peekAny key w = Some e \<Longrightarrow> entry_ok k w e"
    "peekAny k1 w = Some e \<Longrightarrow> peekAny k2 w = Some f \<Longrightarrow> k1 \<noteq> k2 \<Longrightarrow> apart e f"
    "wipedset w key = Some e \<Longrightarrow> jcanary e = zeroLayout \<and> jsealCipher e = None"
    "quar_inv (quar w)" "quar_mapped (quar w) (mem w)" "mem_ok (mem w)" "canary_ok (cpkg w)"
  using assms by (auto simp: jan_inv_def)

text \<open>What an operation on one registration leaves of another.\<close>

lemma entry_ok_frame:
  assumes "entry_ok k w f" "maps (mem w') (base (jregion f)) = maps (mem w) (base (jregion f))"
    and "canary_ready (cpkg w) \<Longrightarrow> canary_ready (cpkg w')"
    and "base (jregion f) \<notin> fst ` set (held (quar w'))" "nlocks w \<le> nlocks w'" "ncells w \<le> ncells w'"
  shows "entry_ok k w' f"
  using assms unfolding entry_ok_def region_at_def by (auto intro: less_le_trans)

section \<open>Teardown of one registration\<close>

lemma canaryCheck_eq:
  assumes "region_at (jregion e) (mem w) mp" "mprot mp \<noteq> PROT_NONE" "canary_ok (cpkg w)"
    "chain 0 (zones (jcanary e)) (int (innerLen (jregion e)))" "zones (jcanary e) = [] \<or> canary_ready (cpkg w)"
  shows "canaryCheck k e w = Some (if canary_good k w e (mbytes mp) \<or> (\<exists>c. jsealCipher e = Some c \<and> cells w c)
     then None else Some ErrCanaryViolation, w)"
proof (cases "\<exists>c. jsealCipher e = Some c \<and> cells w c")
  case True
  then show ?thesis by (auto simp: canaryCheck_def)
next
  case False
  have len: "length (mbytes mp) = innerLen (jregion e)" using assms(1) by (simp add: region_at_def)
  have "intact rnd (jcanary e) (mbytes mp) (cpkg w) =
      (list_all (zoneOk (canaryPattern (cpkg w)) (mbytes mp)) (zones (jcanary e)), cpkg w)" for rnd
    using assms(5)
  proof
    assume "zones (jcanary e) = []"
    then show ?thesis by (simp add: intact_def forEachZone_walk)
  qed (rule intact_ready)
  moreover have "canary_good k w e (mbytes mp) \<longleftrightarrow> list_all (zoneOk (canaryPattern (cpkg w)) (mbytes mp)) (zones (jcanary e))"
    using False by (auto simp: canary_good_def plain_def split: option.splits)
  ultimately show ?thesis
    using assms(1,2) False by (auto simp: canaryCheck_def split: option.splits)
qed

text \<open>The mapping after the wipe: writable zeros.\<close>

definition scrubbed :: "secRegion \<Rightarrow> mapping \<Rightarrow> bool" where
  "scrubbed r mp \<longleftrightarrow> mprot mp = PROT_RW \<and> mbytes mp = zeros (innerLen r)"

lemma unlocked_writable:
  assumes "entry_ok k w e" "mprotectSecretMem k (jregion e) PROT_RW (mem w) = (None, m1)"
  obtains mp mp1 where "region_at (jregion e) (mem w) mp" "region_at (jregion e) m1 mp1"
    "mprot mp1 = PROT_RW" "mbytes mp1 = mbytes mp" "mtotal mp1 = mtotal mp"
    "mem_upd (base (jregion e)) (\<lambda>_. mp1) (mem w) m1"
proof -
  obtain mp where mp: "region_at (jregion e) (mem w) mp" "platform k = Stub \<longrightarrow> mprot mp = PROT_RW"
    and n: "0 < innerLen (jregion e)" using assms(1) by (auto simp: entry_ok_def)
  let ?f = "if platform k = Stub \<or> (platform k = Windows \<and> innerLen (jregion e) = 0) then (\<lambda>mp. mp)
    else set_prot k PROT_RW"
  from assms(2) have "mem_upd (base (jregion e)) ?f (mem w) m1"
    by (cases rule: mprotectSecretMem_cases) auto
  then have u: "mem_upd (base (jregion e)) (\<lambda>_. ?f mp) (mem w) m1"
    using mp(1) by (auto simp: mem_upd_def region_at_def)
  show thesis
    using that [OF mp(1) _ _ _ _ u] u mp n mem_updD(1) [OF u] by (auto simp: region_at_def)
qed

text \<open>The canary check and the wipe, once write access is back.\<close>

lemma wipe_steps:
  assumes e: "entry_ok k w e" and c: "canary_ok (cpkg w)" and p: "mprotectSecretMem k (jregion e) PROT_RW (mem w) = (None, m1)"
  obtains er m2 mp mp0 where "canaryCheck k e (w\<lparr>mem := m1\<rparr>) = Some (er, w\<lparr>mem := m1\<rparr>)"
    "secureWipeSlice (jregion e) 0 (innerLen (jregion e)) m1 = Some m2"
    "mem_upd (base (jregion e)) (\<lambda>_. mp) (mem w) m2" "scrubbed (jregion e) mp" "region_at (jregion e) (mem w) mp0"
    "er = (if canary_good k w e (mbytes mp0) \<or> (\<exists>c. jsealCipher e = Some c \<and> cells w c) then None else Some ErrCanaryViolation)"
proof -
  let ?r = "jregion e"
  from e p obtain mp mp1 where mp: "region_at ?r (mem w) mp" and mp1: "region_at ?r m1 mp1"
    "mprot mp1 = PROT_RW" "mbytes mp1 = mbytes mp" and u: "mem_upd (base ?r) (\<lambda>_. mp1) (mem w) m1"
    by (rule unlocked_writable)
  let ?w1 = "w\<lparr>mem := m1\<rparr>" let ?z = "mp1\<lparr>mbytes := zeros (innerLen ?r)\<rparr>"
  have cc: "canaryCheck k e ?w1 = Some (if canary_good k ?w1 e (mbytes mp1) \<or> (\<exists>c. jsealCipher e = Some c \<and> cells ?w1 c)
     then None else Some ErrCanaryViolation, ?w1)"
    using e mp1 c by (intro canaryCheck_eq) (auto simp: entry_ok_def)
  have g: "canary_good k ?w1 e (mbytes mp1) = canary_good k w e (mbytes mp)"
    using mp1(3) by (simp add: canary_good_def plain_def split: option.splits)
  obtain m2 where m2: "secureWipeSlice ?r 0 (innerLen ?r) m1 = Some m2"
    "mem_upd (base ?r) (\<lambda>mp. mp\<lparr>mbytes := patch 0 (zeros (innerLen ?r)) (mbytes mp)\<rparr>) m1 m2"
    using secureWipeSlice_Some [OF mp1(1,2), of 0 "innerLen ?r"] by auto
  have "mem_upd (base ?r) (\<lambda>_. ?z) (mem w) m2"
    using u m2(2) mp mp1(1) by (auto simp: mem_upd_def region_at_def wipe_whole)
  moreover have "scrubbed ?r ?z" using mp1(2) by (simp add: scrubbed_def)
  ultimately show thesis using that [OF cc m2(1) _ _ mp] g by simp
qed

lemma wipeAndFree_in_place:
  assumes e: "entry_ok k w e" and c: "canary_ok (cpkg w)"
  obtains (wiped) er m' mp where "wipeAndFree k e False w = Some (er, clearCipher e (w\<lparr>mem := m'\<rparr>))"
      "mem_upd (base (jregion e)) (\<lambda>_. mp) (mem w) m'" "scrubbed (jregion e) mp"
      "\<exists>mp0. region_at (jregion e) (mem w) mp0 \<and> er = (if canary_good k w e (mbytes mp0) \<or>
         (\<exists>c. jsealCipher e = Some c \<and> cells w c) then None else Some ErrCanaryViolation)"
  | (skipped) m' where "wipeAndFree k e False w = Some (Some (ErrJoin ErrWipeSkipped ErrOS), w\<lparr>mem := m'\<rparr>)"
      "mem_upd (base (jregion e)) (\<lambda>mp. mp) (mem w) m'"
proof -
  let ?r = "jregion e"
  obtain pe m1 where p: "mprotectSecretMem k ?r PROT_RW (mem w) = (pe, m1)" by fastforce
  show thesis
  proof (cases pe)
    case (Some er)
    from p have "mem_upd (base ?r) (\<lambda>mp. mp) (mem w) m1" "er = ErrOS"
      by (cases rule: mprotectSecretMem_cases; use Some in auto)+
    then show thesis using skipped p Some by (simp add: wipeAndFree_def)
  next
    case None
    from e c p [unfolded None] show thesis
      by (rule wipe_steps) (use p None wiped in \<open>auto simp: wipeAndFree_def\<close>)
  qed
qed

text \<open>Moving a registration between the two sets.\<close>

lemma peekAny_cong:
  "regions w' key = regions w key \<Longrightarrow> wipedset w' key = wipedset w key \<Longrightarrow> peekAny key w' = peekAny key w"
  by (simp add: peekAny_def split: option.splits)

lemma peekAny_simps [simp]:
  "peekAny key (w\<lparr>mem := m\<rparr>) = peekAny key w" "peekAny key (w\<lparr>cells := cs\<rparr>) = peekAny key w"
  "peekAny key (w\<lparr>quar := q\<rparr>) = peekAny key w" "peekAny key (w\<lparr>cpkg := cp\<rparr>) = peekAny key w"
  by (simp_all add: peekAny_def split: option.splits)

lemma clearCipher_simps [simp]:
  "mem (clearCipher e w) = mem w" "regions (clearCipher e w) = regions w"
  "wipedset (clearCipher e w) = wipedset w" "quar (clearCipher e w) = quar w"
  "cpkg (clearCipher e w) = cpkg w" "nlocks (clearCipher e w) = nlocks w"
  "ncells (clearCipher e w) = ncells w" "borrows (clearCipher e w) = borrows w"
  "sealKeys (clearCipher e w) = sealKeys w" "nextJanitorKey (clearCipher e w) = nextJanitorKey w"
  "c \<notin> cells_of e \<Longrightarrow> cells (clearCipher e w) c = cells w c"
  by (auto simp: clearCipher_def cells_of_def split: option.splits)

lemma markWiped_simps [simp]:
  "mem (markWiped e w) = mem w" "regions (markWiped e w) = regions w"
  "wipedset (markWiped e w) = wipedset w" "quar (markWiped e w) = quar w"
  "cpkg (markWiped e w) = cpkg w" "nlocks (markWiped e w) = nlocks w"
  "ncells (markWiped e w) = ncells w" "borrows (markWiped e w) = borrows w"
  "sealKeys (markWiped e w) = sealKeys w" "nextJanitorKey (markWiped e w) = nextJanitorKey w"
  "c \<notin> cells_of e \<Longrightarrow> cells (markWiped e w) c = cells w c"
  by (auto simp: markWiped_def cells_of_def split: option.splits)

text \<open>
  What an operation leaves of every registration it is not about: its place in the registry, its
  mapping, its flags and its borrows.
\<close>

definition kept :: "key \<Rightarrow> world \<Rightarrow> world \<Rightarrow> bool" where
  "kept key w w' \<longleftrightarrow> regions w' key = regions w key \<and> wipedset w' key = wipedset w key \<and>
     (\<forall>e. peekAny key w = Some e \<longrightarrow>
        maps (mem w') (base (jregion e)) = maps (mem w) (base (jregion e)) \<and>
        (\<forall>c\<in>cells_of e. cells w' c = cells w c) \<and> borrows w' (jmu e) = borrows w (jmu e))"

lemma kept_peek: "kept key w w' \<Longrightarrow> peekAny key w' = peekAny key w"
  by (rule peekAny_cong) (simp_all add: kept_def)

lemma kept_refl [simp]: "kept key w w"
  by (simp add: kept_def)

lemma kept_trans: "kept key w w1 \<Longrightarrow> kept key w1 w2 \<Longrightarrow> kept key w w2"
  using kept_peek [of key w w1] by (auto simp: kept_def)

text \<open>A registration whose region the emergency wipe has emptied.\<close>

definition emptied :: "world \<Rightarrow> key \<Rightarrow> bool" where
  "emptied w key \<longleftrightarrow> (\<exists>e mp c. regions w key = None \<and> wipedset w key = Some e \<and>
     maps (mem w) (base (jregion e)) = Some mp \<and> scrubbed (jregion e) mp \<and> jwiped e = Some c \<and> cells w c)"

lemma emptied_kept: "emptied w key \<Longrightarrow> kept key w w' \<Longrightarrow> emptied w' key"
  unfolding emptied_def kept_def peekAny_def cells_of_def by fastforce

lemma moved_cells: "cells_of (e\<lparr>jcanary := l, jsealCipher := None\<rparr>) \<subseteq> cells_of e"
  by (auto simp: cells_of_def)

lemma moveToWipedIf_cases:
  assumes "peekAny key w = Some p"
  obtains (live) "regions w key = Some p" "moveToWipedIf key (jmu p) w = (Some (p, True),
      w\<lparr>regions := (regions w)(key := None),
         wipedset := (wipedset w)(key \<mapsto> p\<lparr>jcanary := zeroLayout, jsealCipher := None\<rparr>)\<rparr>)"
  | (wiped) "regions w key = None" "wipedset w key = Some p" "moveToWipedIf key (jmu p) w = (Some (p, False), w)"
  using assms by (auto simp: peekAny_def moveToWipedIf_def split: option.splits)

lemma mem_ok_dom:
  assumes "mem_ok m" "dom (maps m') \<subseteq> dom (maps m)" "calls m \<le> calls m'"
  shows "mem_ok m'"
  unfolding mem_ok_def
proof (intro allI impI)
  fix n assume "maps m' (Heap n) \<noteq> None"
  then have "Heap n \<in> dom (maps m)" using assms(2) by auto
  then have "n < calls m" using assms(1) by (auto simp: mem_ok_def)
  then show "n < calls m'" using assms(3) by simp
qed

lemma quar_mapped_outside:
  assumes "quar_mapped q m" "a \<notin> fst ` set (held q)" "\<And>b. b \<noteq> a \<Longrightarrow> maps m' b = maps m b"
  shows "quar_mapped q m'"
proof -
  have "maps m' b = maps m b" if "(b, n) \<in> set (held q)" for b n
    using assms(2,3) that by (metis fst_conv image_eqI)
  then show ?thesis using assms(1) by (auto simp: quar_mapped_def)
qed

text \<open>The invariant after one registration was emptied in place.\<close>

lemma jan_inv_emptied:
  assumes I: "jan_inv k w" and p: "peekAny key w = Some p"
    and reg: "regions w' = (regions w)(key := None)"
    and wip: "wipedset w' = (wipedset w)(key \<mapsto> p\<lparr>jcanary := zeroLayout, jsealCipher := None\<rparr>)"
    and m: "mem_upd (base (jregion p)) (\<lambda>_. mp) (mem w) (mem w')" "scrubbed (jregion p) mp"
    and rest: "quar w' = quar w" "cpkg w' = cpkg w" "nlocks w' = nlocks w" "ncells w' = ncells w"
  shows "jan_inv k w'"
proof -
  let ?p = "p\<lparr>jcanary := zeroLayout, jsealCipher := None\<rparr>"
  have peek: "peekAny key w' = Some ?p" "key' \<noteq> key \<Longrightarrow> peekAny key' w' = peekAny key' w" for key'
    using reg wip by (auto simp: peekAny_def split: option.splits)
  note D = jan_invD [OF I] note pok = D(3) [OF p]
  have ok': "entry_ok k w' ?p"
    using pok m mem_updD(1) [OF m(1)] rest
    by (auto simp: entry_ok_def region_at_def scrubbed_def cells_of_def)
  have other: "entry_ok k w' f \<and> apart ?p f \<and> apart f ?p" if "peekAny key' w = Some f" "key' \<noteq> key" for key' f
  proof -
    have a: "apart p f" "apart f p" using D(4) [OF p that(1)] D(4) [OF that(1) p] that(2) by auto
    then have "maps (mem w') (base (jregion f)) = maps (mem w) (base (jregion f))"
      using mem_updD(2) [OF m(1)] by (auto simp: apart_def)
    then show ?thesis
      using entry_ok_frame [OF D(3) [OF that(1)]] a rest pok D(3) [OF that(1)]
      by (auto simp: apart_def cells_of_def entry_ok_def)
  qed
  have q: "quar_mapped (quar w') (mem w')"
  proof -
    have "base (jregion p) \<notin> fst ` set (held (quar w))" using pok by (simp add: entry_ok_def)
    then show ?thesis using quar_mapped_outside [OF D(7)] mem_updD(2) [OF m(1)] rest(1) by simp
  qed
  have mo: "mem_ok (mem w')"
    using mem_ok_dom [OF D(8)] mem_updD(5,6) [OF m(1)] by simp
  show ?thesis unfolding jan_inv_def
  proof (intro conjI allI impI)
    fix key' show "regions w' key' = None \<or> wipedset w' key' = None"
      using D(1) [of key'] reg wip by auto
  next
    show "peekAny 0 w' = None" using D(2) p peek by (metis option.distinct(1))
  next
    fix key' e assume "peekAny key' w' = Some e"
    then show "entry_ok k w' e" using peek ok' other by (cases "key' = key") auto
  next
    fix k1 k2 e f assume "peekAny k1 w' = Some e" "peekAny k2 w' = Some f" "k1 \<noteq> k2"
    then show "apart e f"
      using peek other D(4) by (cases "k1 = key"; cases "k2 = key") auto
  next
    fix key' e assume "wipedset w' key' = Some e"
    then show "jcanary e = zeroLayout" "jsealCipher e = None"
      using wip D(5) [of key' e] by (auto split: if_splits)
  qed (use D rest q mo in auto)
qed

text \<open>An operation that changed the protection or the contents of one mapping.\<close>

lemma jan_inv_upd:
  assumes I: "jan_inv k w" and m: "mem_upd a f (mem w) m'" "\<And>mp. length (mbytes (f mp)) = length (mbytes mp)"
    and stub: "platform k = Stub \<Longrightarrow> (\<And>mp. mprot mp = PROT_RW \<Longrightarrow> mprot (f mp) = PROT_RW)"
    and a: "a \<notin> fst ` set (held (quar w))"
  shows "jan_inv k (w\<lparr>mem := m'\<rparr>)"
proof -
  note D = jan_invD [OF I]
  have ok: "entry_ok k (w\<lparr>mem := m'\<rparr>) e" if pk: "peekAny key w = Some e" for key e
  proof -
    obtain mp where mp: "region_at (jregion e) (mem w) mp" "platform k = Stub \<longrightarrow> mprot mp = PROT_RW"
      using D(3) [OF pk] by (auto simp: entry_ok_def)
    let ?mp = "if base (jregion e) = a then f mp else mp"
    have "region_at (jregion e) m' ?mp \<and> (platform k = Stub \<longrightarrow> mprot ?mp = PROT_RW)"
      using mp mem_updD(1,2) [OF m(1)] m(2) stub by (auto simp: region_at_def)
    then show ?thesis using D(3) [OF pk] by (auto simp: entry_ok_def)
  qed
  have mo: "mem_ok m'"
    using mem_ok_dom [OF D(8)] mem_updD(5,6) [OF m(1)] by simp
  have q: "quar_mapped (quar w) m'"
    using quar_mapped_outside [OF D(7) a] mem_updD(2) [OF m(1)] by blast
  show ?thesis using D ok mo q by (auto simp: jan_inv_def)
qed

text \<open>
  One pass over one registration, from the moment its lock is held: it never faults, keeps the
  invariant and every other registration, and either empties the region or reports that it was
  skipped and leaves it as it was.
\<close>

lemma wipeLocked_spec:
  assumes I: "jan_inv k w" and p: "peekAny key w = Some p"
  obtains er w' where "wipeLocked k key (jmu p) w = Some (er, w')" "jan_inv k w'"
    "\<And>key'. key' \<noteq> key \<Longrightarrow> kept key' w w'" "borrows w' = borrows w" "quar w' = quar w"
    "sealKeys w' = sealKeys w" "cpkg w' = cpkg w"
    "if errorIs er ErrWipeSkipped then kept key w w' else emptied w' key"
    "\<exists>mp. region_at (jregion p) (mem w) mp \<and> (errorIs er ErrCanaryViolation \<longrightarrow> \<not> canary_good k w p (mbytes mp))"
proof -
  note D = jan_invD [OF I] note pok = D(3) [OF p]
  obtain w1 live where mv: "moveToWipedIf key (jmu p) w = (Some (p, live), w1)"
    and w1: "regions w1 = (regions w)(key := None)"
      "wipedset w1 = (wipedset w)(key \<mapsto> p\<lparr>jcanary := zeroLayout, jsealCipher := None\<rparr>)"
      "w1 = w\<lparr>regions := regions w1, wipedset := wipedset w1\<rparr>"
    and live: "live \<longleftrightarrow> regions w key \<noteq> None"
    using p
  proof (cases rule: moveToWipedIf_cases)
    case wiped
    then have "p\<lparr>jcanary := zeroLayout, jsealCipher := None\<rparr> = p" using D(5) [of key p] by (cases p) auto
    then show thesis using that [of False w] wiped by (simp add: fun_upd_idem)
  qed (auto intro: that)
  have eok: "entry_ok k w1 p" using pok by (subst w1(3)) (simp add: entry_ok_def)
  have cok: "canary_ok (cpkg w1)" using D(9) by (subst w1(3)) simp
  have others: "apart p f" if "peekAny key' w = Some f" "key' \<noteq> key" for key' f
    using D(4) [OF p that(1)] that(2) by auto
  from eok cok show thesis
  proof (cases rule: wipeAndFree_in_place)
    case (wiped er m' mp)
    let ?w2 = "markWiped p (clearCipher p (w1\<lparr>mem := m'\<rparr>))"
    have ns: "\<not> errorIs er ErrWipeSkipped" using wiped(4) by (auto split: if_splits)
    have r: "wipeLocked k key (jmu p) w = Some (er, ?w2)"
      using mv wiped(1) ns by (simp add: wipeLocked_def)
    have mw: "mem w1 = mem w" "cells w1 = cells w" "borrows w1 = borrows w" "quar w1 = quar w" "cpkg w1 = cpkg w"
      "sealKeys w1 = sealKeys w" "nlocks w1 = nlocks w" "ncells w1 = ncells w"
      by (subst w1(3), simp)+
    have inv: "jan_inv k ?w2"
      by (rule jan_inv_emptied [OF I p, where mp = mp]) (use w1 wiped mw in simp_all)
    have cl: "cells ?w2 c = cells w c" if "c \<notin> cells_of p" for c using that mw by simp
    have kept: "kept key' w ?w2" if key': "key' \<noteq> key" for key'
    proof -
      have "maps m' (base (jregion f)) = maps (mem w) (base (jregion f)) \<and> (\<forall>c\<in>cells_of f. cells ?w2 c = cells w c)"
        if "peekAny key' w = Some f" for f
      proof -
        have a: "base (jregion f) \<noteq> base (jregion p)" "\<And>c. c \<in> cells_of f \<Longrightarrow> c \<notin> cells_of p"
          using others [OF that key'] by (auto simp: apart_def)
        then show ?thesis using mem_updD(2) [OF wiped(2) a(1)] cl mw by auto
      qed
      then show ?thesis using key' w1(1,2) mw by (simp add: kept_def)
    qed
    obtain c where c: "jwiped p = Some c" using pok by (auto simp: entry_ok_def)
    have "emptied ?w2 key"
      using w1(1,2) wiped(2,3) mw mem_updD(1) [OF wiped(2)] c pok
      by (auto simp: emptied_def markWiped_def entry_ok_def region_at_def scrubbed_def)
    moreover have "canary_good k w1 p = canary_good k w p"
      by (rule ext) (simp only: canary_good_def plain_def mw)
    then have "\<exists>mp. region_at (jregion p) (mem w) mp \<and>
        (errorIs er ErrCanaryViolation \<longrightarrow> \<not> canary_good k w p (mbytes mp))"
      using wiped(4) mw(1) by (auto split: if_splits)
    ultimately show thesis using that [OF r inv kept] ns mw by auto
  next
    case (skipped m')
    let ?w2 = "if live then returnToLive key p (w1\<lparr>mem := m'\<rparr>) else w1\<lparr>mem := m'\<rparr>"
    have r: "wipeLocked k key (jmu p) w = Some (Some (ErrJoin ErrWipeSkipped ErrOS), ?w2)"
      using mv skipped(1) by (simp add: wipeLocked_def)
    have w2: "?w2 = w\<lparr>mem := m'\<rparr>"
    proof (cases "regions w key")
      case None
      then have "wipedset w key = Some p" using p by (simp add: peekAny_def)
      then show ?thesis using mv live None by (simp add: moveToWipedIf_def)
    next
      case (Some e)
      then have "e = p" "wipedset w key = None" using p D(1) [of key] by (auto simp: peekAny_def)
      then show ?thesis
        using mv live Some by (auto simp: moveToWipedIf_def returnToLive_def fun_upd_idem)
    qed
    have m': "mem_upd (base (jregion p)) (\<lambda>mp. mp) (mem w) m'" using skipped(2) by (subst (asm) w1(3)) simp
    have b: "base (jregion p) \<notin> fst ` set (held (quar w))" using pok by (simp add: entry_ok_def)
    have inv: "jan_inv k (w\<lparr>mem := m'\<rparr>)" by (rule jan_inv_upd [OF I m' _ _ b]) auto
    have kept: "kept key' w (w\<lparr>mem := m'\<rparr>)" for key'
      using m' by (auto simp: kept_def mem_upd_def option.map_ident)
    obtain mp where "region_at (jregion p) (mem w) mp" using pok by (auto simp: entry_ok_def)
    then show thesis
      using that [OF r [unfolded w2] inv kept] kept by auto
  qed
qed

section \<open>The emergency wipe\<close>

text \<open>The state of one registration after a wipe pass over it.\<close>

definition swept :: "world \<Rightarrow> world \<Rightarrow> error \<Rightarrow> key \<Rightarrow> bool" where
  "swept w w' er key \<longleftrightarrow> emptied w' key \<or> kept key w w' \<and> errorIs er ErrWipeSkipped"

lemma errorIs_join [simp]:
  "errorIs (errorsJoin x y) ErrWipeSkipped \<longleftrightarrow> errorIs x ErrWipeSkipped \<or> errorIs y ErrWipeSkipped"
  "errorIs (errorsJoin x y) ErrOS \<longleftrightarrow> errorIs x ErrOS \<or> errorIs y ErrOS"
  by (rule errorIs_errorsJoin, simp)+

text \<open>What every step of the emergency wipe keeps.\<close>

definition same_rest :: "world \<Rightarrow> world \<Rightarrow> bool" where
  "same_rest w w' \<longleftrightarrow> borrows w' = borrows w \<and> quar w' = quar w \<and> sealKeys w' = sealKeys w \<and> cpkg w' = cpkg w"

definition busy :: "world \<Rightarrow> key \<Rightarrow> bool" where
  "busy w key = (case peekAny key w of None \<Rightarrow> False | Some p \<Rightarrow> borrows w (jmu p) \<noteq> 0)"

lemma wipeInPlace_spec:
  assumes I: "jan_inv k w"
  obtains er w1 where "wipeInPlace k key w = Some (er, w1)" "jan_inv k w1" "same_rest w w1"
    "\<And>key'. key' \<noteq> key \<Longrightarrow> kept key' w w1"
    "if peekAny key w = None then kept key w w1 else swept w w1 er key"
proof (cases "peekAny key w")
  case None
  then show thesis using that [of None w] I by (simp add: wipeInPlace_def same_rest_def)
next
  case (Some p)
  from I Some show thesis
  proof (rule wipeLocked_spec, goal_cases)
    case (1 er w1)
    then show ?thesis using that [of er w1] Some
      by (auto simp: wipeInPlace_def same_rest_def swept_def split: if_splits)
  qed
qed

lemma tryWipeInPlace_eq:
  "tryWipeInPlace k key w = (if busy w key then Some (False, None, w)
     else map_option (\<lambda>(er, w1). (True, er, w1)) (wipeInPlace k key w))"
  by (auto simp: tryWipeInPlace_def wipeInPlace_def busy_def map_option_case bind_eq_None_conv
      split: option.splits Option.bind_splits)

lemma kept_busy: "kept key w w' \<Longrightarrow> busy w' key = busy w key"
  by (auto simp: busy_def kept_peek [of key w w'] split: option.splits) (auto simp: kept_def)

lemma swept_kept:
  "swept w w1 er key \<Longrightarrow> kept key w1 w2 \<Longrightarrow> (errorIs er ErrWipeSkipped \<Longrightarrow> errorIs er2 ErrWipeSkipped)
    \<Longrightarrow> swept w w2 er2 key"
  by (auto simp: swept_def intro: emptied_kept kept_trans)

lemma kept_swept: "kept key w w1 \<Longrightarrow> swept w1 w2 er key \<Longrightarrow> swept w w2 er key"
  by (auto simp: swept_def intro: kept_trans)

text \<open>
  One pass over a list of keys, the busy ones put off when \<open>try\<close> is set: what it reports and
  what it leaves of every registration.
\<close>

definition passed :: "kernel \<Rightarrow> key set \<Rightarrow> error \<Rightarrow> error \<Rightarrow> world \<Rightarrow> world \<Rightarrow> bool" where
  "passed k ks errs errs' w w' \<longleftrightarrow> jan_inv k w' \<and> same_rest w w' \<and>
     (errorIs errs ErrWipeSkipped \<longrightarrow> errorIs errs' ErrWipeSkipped) \<and>
     (\<forall>key. if key \<in> ks \<and> peekAny key w \<noteq> None then swept w w' errs' key else kept key w w')"

lemma passed_refl: "jan_inv k w \<Longrightarrow> passed k {} errs errs w w"
  by (simp add: passed_def same_rest_def)

lemma passed_step:
  assumes "wipeInPlace k key w = Some (er, w1)" "jan_inv k w" "key \<notin> ks"
    and "passed k ks (errorsJoin errs er) errs' w1 w'"
  shows "passed k (insert key ks) errs errs' w w'"
proof -
  have st: "jan_inv k w1" "same_rest w w1" "\<And>key'. key' \<noteq> key \<Longrightarrow> kept key' w w1"
    "if peekAny key w = None then kept key w w1 else swept w w1 er key"
    using assms(1,2) by (auto elim!: wipeInPlace_spec [of k w key])
  have p: "if key' \<in> ks \<and> peekAny key' w1 \<noteq> None then swept w1 w' errs' key' else kept key' w1 w'" for key'
    using assms(4) by (simp add: passed_def)
  have "if key' \<in> insert key ks \<and> peekAny key' w \<noteq> None then swept w w' errs' key' else kept key' w w'" for key'
  proof (cases "key' = key")
    case True
    have e: "errorIs er ErrWipeSkipped \<Longrightarrow> errorIs errs' ErrWipeSkipped" using assms(4) by (simp add: passed_def)
    have "kept key w1 w'" using p [of key] assms(3) by simp
    then show ?thesis using st(4) True swept_kept [OF _ _ e] kept_trans by (auto split: if_splits)
  next
    case False
    then show ?thesis using p [of key'] st(3) [OF False] kept_peek [OF st(3) [OF False]]
      by (auto intro: kept_swept kept_trans split: if_splits)
  qed
  then show ?thesis using assms(4) st(2) by (auto simp: passed_def same_rest_def)
qed

lemma wipePass2_spec:
  assumes "jan_inv k w" "distinct keys"
  shows "\<exists>errs' w'. wipePass2 k keys errs w = Some (errs', w') \<and> passed k (set keys) errs errs' w w'"
  using assms
proof (induction keys arbitrary: errs w)
  case (Cons key keys)
  from Cons.prems(1) obtain er w1 where r: "wipeInPlace k key w = Some (er, w1)" and i: "jan_inv k w1"
    by (rule wipeInPlace_spec)
  obtain errs' w' where "wipePass2 k keys (errorsJoin errs er) w1 = Some (errs', w')"
    "passed k (set keys) (errorsJoin errs er) errs' w1 w'"
    using Cons.IH [OF i, of "errorsJoin errs er"] Cons.prems(2) by auto
  then show ?case using r passed_step [OF r Cons.prems(1)] Cons.prems(2) by auto
qed (simp add: passed_refl)

lemma wipePass1_spec:
  assumes "jan_inv k w" "distinct keys"
  shows "\<exists>errs' w'. wipePass1 k keys errs ds w = Some (errs', ds @ filter (busy w) keys, w') \<and>
     passed k {key \<in> set keys. \<not> busy w key} errs errs' w w'"
  using assms
proof (induction keys arbitrary: errs ds w)
  case (Cons key keys)
  have nk: "key \<notin> set keys" "distinct keys" using Cons.prems(2) by auto
  show ?case
  proof (cases "busy w key")
    case True
    then have "{x \<in> set (key # keys). \<not> busy w x} = {x \<in> set keys. \<not> busy w x}" by auto
    then show ?thesis using True Cons.IH [OF Cons.prems(1) nk(2), of errs "ds @ [key]"]
      by (auto simp: tryWipeInPlace_eq)
  next
    case False
    from Cons.prems(1) obtain er w1 where r: "wipeInPlace k key w = Some (er, w1)" and i: "jan_inv k w1"
      and kp: "\<And>key'. key' \<noteq> key \<Longrightarrow> kept key' w w1" by (rule wipeInPlace_spec [where key = key]) blast
    have b: "busy w1 x = busy w x" if "x \<in> set keys" for x
      using that nk(1) kept_busy [OF kp] by metis
    have f: "filter (busy w1) keys = filter (busy w) keys" using b by (intro filter_cong) auto
    obtain errs' w' where w': "wipePass1 k keys (errorsJoin errs er) ds w1 = Some (errs', ds @ filter (busy w) keys, w')"
      "passed k {x \<in> set keys. \<not> busy w1 x} (errorsJoin errs er) errs' w1 w'"
      using Cons.IH [OF i nk(2), of "errorsJoin errs er" ds] f by auto
    have s: "{x \<in> set (key # keys). \<not> busy w x} = insert key {x \<in> set keys. \<not> busy w1 x}"
      using False b by auto
    have "passed k {x \<in> set (key # keys). \<not> busy w x} errs errs' w w'"
      unfolding s by (rule passed_step [OF r Cons.prems(1) _ w'(2)]) (use nk in auto)
    then show ?thesis using False r w'(1) by (auto simp: tryWipeInPlace_eq)
  qed
qed (simp add: passed_refl)

section \<open>The release\<close>

text \<open>What a teardown that gives the mapping back does to the memory and the quarantine.\<close>

definition retired :: "secRegion \<Rightarrow> error \<Rightarrow> world \<Rightarrow> quarantine \<Rightarrow> memory \<Rightarrow> bool" where
  "retired r er w q m' \<longleftrightarrow> quar_inv q \<and> quar_mapped q m' \<and> limits q = limits (quar w) \<and>
     fst ` set (held q) \<subseteq> insert (base r) (fst ` set (held (quar w))) \<and>
     (\<forall>a. a \<notin> insert (base r) (fst ` set (held (quar w))) \<longrightarrow> maps m' a = maps (mem w) a) \<and>
     dom (maps m') \<subseteq> dom (maps (mem w)) \<and> fds m' = fds (mem w) \<and> calls (mem w) \<le> calls m' \<and>
     ((\<exists>l. released m' = released (mem w) @ l \<and> list_all all_zero l) \<or> errorIs er ErrOS)"

lemma zero_at_held: "quar_mapped q m \<Longrightarrow> zero_at (fst ` set (held q)) m"
  by (fastforce simp: quar_mapped_def zero_at_def gone_def all_zero_def)

lemma retired_within:
  assumes "mem_upd (base r) (\<lambda>_. mp) (mem w) m1" "quar_mapped (quar w) (mem w)" "scrubbed r mp"
    and "base r \<notin> fst ` set (held (quar w))" "maps (mem w) (base r) \<noteq> None"
    and "quar_inv q" "quar_mapped q m'" "limits q = limits (quar w)"
      "fst ` set (held q) \<subseteq> insert (base r) (fst ` set (held (quar w)))"
      "mem_within (insert (base r) (fst ` set (held (quar w)))) m1 m'"
  shows "retired r er w q m'"
proof -
  note u = mem_updD [OF assms(1)]
  have "maps m1 a = maps (mem w) a" if "a \<in> fst ` set (held (quar w))" for a
    using u(2) that assms(4) by metis
  then have "zero_at (fst ` set (held (quar w))) m1"
    using zero_at_held [OF assms(2)] by (simp add: zero_at_def)
  then have "zero_at (insert (base r) (fst ` set (held (quar w)))) m1"
    using u(1) assms(3) by (auto simp: zero_at_def scrubbed_def)
  then have z: "\<exists>l. released m' = released (mem w) @ l \<and> list_all all_zero l"
    using assms(10) u(4) by (auto simp: mem_within_def)
  have "maps m' a = maps (mem w) a" if "a \<notin> insert (base r) (fst ` set (held (quar w)))" for a
    using assms(10) u(2) [of a] that by (auto simp: mem_within_def)
  moreover have "dom (maps m') \<subseteq> dom (maps (mem w))" "fds m' = fds (mem w)" "calls (mem w) \<le> calls m'"
    using assms(10) u(3,5,6) by (auto simp: mem_within_def)
  ultimately show ?thesis using assms(6-9) z by (auto simp: retired_def)
qed

lemma wipeAndFree_release:
  assumes e: "entry_ok k w e" and c: "canary_ok (cpkg w)" and q: "quar_inv (quar w)" "quar_mapped (quar w) (mem w)"
  obtains er q m' cs where "wipeAndFree k e True w = Some (er, w\<lparr>mem := m', quar := q, cells := cs\<rparr>)"
    "\<And>c. c \<notin> cells_of e \<Longrightarrow> cs c = cells w c" "retired (jregion e) er w q m'"
proof -
  let ?r = "jregion e"
  have b: "base ?r \<notin> fst ` set (held (quar w))" "maps (mem w) (base ?r) \<noteq> None"
    using e by (auto simp: entry_ok_def region_at_def)
  obtain pe m1 where p: "mprotectSecretMem k ?r PROT_RW (mem w) = (pe, m1)" by fastforce
  show thesis
  proof (cases pe)
    case (Some er)
    from p have u: "mem_upd (base ?r) (\<lambda>mp. mp) (mem w) m1" "er = ErrOS"
      by (cases rule: mprotectSecretMem_cases; use Some in auto)+
    obtain ae m2 where a: "madviseBeforeFree k ?r m1 = (ae, m2)" by fastforce
    obtain fe m3 where f: "freeSecretMem k ?r m2 = (fe, m3)" by fastforce
    have "mem_within {base ?r} (mem w) m3"
      using mem_within_trans_same [OF mem_within_trans_same [OF mem_upd_within [OF u(1)]
          mem_upd_within [OF madviseBeforeFree_upd [OF a]]] freeSecretMem_within [OF f]] by simp
    then have "retired ?r (errorsJoin (errorsJoin (Some er) ae) fe) w (quar w) m3"
      using q b u(2) quar_mapped_within [of "quar w" "mem w" "{base ?r}" m3]
      by (auto simp: retired_def mem_within_def)
    then show thesis using that [of _ "cells w" "quar w" m3] p a f Some by (simp add: wipeAndFree_def)
  next
    case None
    from e c p [unfolded None] obtain er m2 mp where ws: "canaryCheck k e (w\<lparr>mem := m1\<rparr>) = Some (er, w\<lparr>mem := m1\<rparr>)"
      "secureWipeSlice ?r 0 (innerLen ?r) m1 = Some m2"
      and wiped: "mem_upd (base ?r) (\<lambda>_. mp) (mem w) m2" "scrubbed ?r mp"
      by (rule wipe_steps)
    obtain ae m3 where a: "madviseBeforeFree k ?r m2 = (ae, m3)" by fastforce
    obtain re q' m4 where r: "retireSecretMem k ?r (quar w) m3 = (re, q', m4)" by (metis prod_cases3)
    have w: "wipeAndFree k e True w = Some (errorsJoin er re, (clearCipher e (w\<lparr>mem := m2\<rparr>))\<lparr>mem := m4, quar := q'\<rparr>)"
      using p None ws a r by (simp add: wipeAndFree_def)
    have u3: "mem_upd (base ?r) (\<lambda>_. mp) (mem w) m3"
      using mem_upd_trans [OF wiped(1) madviseBeforeFree_upd [OF a]] by (simp add: comp_def)
    have "quar_inv q' \<and> quar_mapped q' m4 \<and> limits q' = limits (quar w) \<and>
      fst ` set (held q') \<subseteq> insert (base ?r) (fst ` set (held (quar w))) \<and>
      mem_within (insert (base ?r) (fst ` set (held (quar w)))) m3 m4"
      by (rule retireSecretMem_spec [OF q(1) _ _ b(1) r])
        (use quar_mapped_outside [OF q(2) b(1)] mem_updD(1,2) [OF u3] b in auto)
    then have "retired ?r (errorsJoin er re) w q' m4"
      using retired_within [OF u3 q(2) wiped(2) b] by blast
    moreover have "(clearCipher e (w\<lparr>mem := m2\<rparr>))\<lparr>mem := m4, quar := q'\<rparr> =
        w\<lparr>mem := m4, quar := q', cells := cells (clearCipher e w)\<rparr>"
      by (cases "jsealCipher e") (simp_all add: clearCipher_def)
    ultimately show thesis using that [of _ "cells (clearCipher e w)" q' m4] w by simp
  qed
qed

text \<open>The invariant once a registration is gone from the registry.\<close>

lemma jan_inv_removed:
  assumes I: "jan_inv k w" and p: "peekAny key w = Some p"
    and w': "regions w' = (regions w)(key := None)" "wipedset w' = (wipedset w)(key := None)"
      "cpkg w' = cpkg w" "nlocks w' = nlocks w" "ncells w' = ncells w"
    and r: "retired (jregion p) er w (quar w') (mem w')"
  shows "jan_inv k w'" and "\<And>key' f. key' \<noteq> key \<Longrightarrow> peekAny key' w = Some f \<Longrightarrow>
    maps (mem w') (base (jregion f)) = maps (mem w) (base (jregion f))"
proof -
  note D = jan_invD [OF I]
  have peek: "peekAny key w' = None" "key' \<noteq> key \<Longrightarrow> peekAny key' w' = peekAny key' w" for key'
    using w' by (auto simp: peekAny_def split: option.splits)
  show other: "maps (mem w') (base (jregion f)) = maps (mem w) (base (jregion f))"
    if "key' \<noteq> key" "peekAny key' w = Some f" for key' f
    using r D(3) [OF that(2)] D(4) [OF that(2) p that(1)] by (auto simp: retired_def entry_ok_def apart_def)
  have ok: "entry_ok k w' f" if "key' \<noteq> key" "peekAny key' w = Some f" for key' f
  proof (rule entry_ok_frame [OF D(3) [OF that(2)] other [OF that]])
    show "base (jregion f) \<notin> fst ` set (held (quar w'))"
      using r D(3) [OF that(2)] D(4) [OF that(2) p that(1)] by (auto simp: retired_def entry_ok_def apart_def)
  qed (use w' in auto)
  have mo: "mem_ok (mem w')" using r mem_ok_dom [OF D(8)] by (simp add: retired_def)
  show "jan_inv k w'" unfolding jan_inv_def
  proof (intro conjI allI impI)
    fix key' show "regions w' key' = None \<or> wipedset w' key' = None" using D(1) [of key'] w' by auto
  next
    show "peekAny 0 w' = None" using D(2) peek by metis
  next
    fix key' e assume "peekAny key' w' = Some e"
    then show "entry_ok k w' e" using peek ok by (cases "key' = key") auto
  next
    fix k1 k2 e f assume "peekAny k1 w' = Some e" "peekAny k2 w' = Some f" "k1 \<noteq> k2"
    then show "apart e f" using peek D(4) by (cases "k1 = key"; cases "k2 = key") auto
  next
    fix key' e assume "wipedset w' key' = Some e"
    then show "jcanary e = zeroLayout" "jsealCipher e = None"
      using w' D(5) [of key' e] by (auto split: if_splits)
  qed (use D r w' mo in \<open>auto simp: retired_def\<close>)
qed

lemma taken:
  assumes I: "jan_inv k w" and p: "peekAny key w = Some p"
  shows "takeAny key w = (Some p, w\<lparr>regions := (regions w)(key := None), wipedset := (wipedset w)(key := None)\<rparr>)"
    "takeAnyIf key (jmu p) w = (Some p, w\<lparr>regions := (regions w)(key := None), wipedset := (wipedset w)(key := None)\<rparr>)"
proof -
  have id: "regions w key = None \<Longrightarrow> w\<lparr>regions := (regions w)(key := None)\<rparr> = w"
    "wipedset w key = None \<Longrightarrow> w\<lparr>wipedset := (wipedset w)(key := None)\<rparr> = w"
    by (simp_all add: fun_upd_idem)
  have eq: "regions w key = Some p \<and> wipedset w key = None \<or> regions w key = None \<and> wipedset w key = Some p"
    using p jan_invD(1) [OF I, of key] by (auto simp: peekAny_def split: option.splits)
  show "takeAny key w = (Some p, w\<lparr>regions := (regions w)(key := None), wipedset := (wipedset w)(key := None)\<rparr>)"
    "takeAnyIf key (jmu p) w = (Some p, w\<lparr>regions := (regions w)(key := None), wipedset := (wipedset w)(key := None)\<rparr>)"
    using eq by (auto simp: takeAny_def takeAnyIf_def take_live_def takeWiped_def id fun_upd_idem [of "wipedset w"])
qed

lemma release_spec:
  assumes I: "jan_inv k w" and p: "peekAny key w = Some p"
  obtains er w' where "release k key lockHeld w = Some (er, w')" "jan_inv k w'" "peekAny key w' = None"
    "\<And>key'. key' \<noteq> key \<Longrightarrow> kept key' w w'" "borrows w' = borrows w" "sealKeys w' = sealKeys w" "cpkg w' = cpkg w"
    "nlocks w' = nlocks w" "ncells w' = ncells w" "nextJanitorKey w' = nextJanitorKey w"
    "\<And>c. c \<notin> cells_of p \<Longrightarrow> cells w' c = cells w c" "retired (jregion p) er w (quar w') (mem w')"
proof -
  note D = jan_invD [OF I]
  let ?w = "w\<lparr>regions := (regions w)(key := None), wipedset := (wipedset w)(key := None)\<rparr>"
  have e: "entry_ok k ?w p" "canary_ok (cpkg ?w)" "quar_inv (quar ?w)" "quar_mapped (quar ?w) (mem ?w)"
    using D(3) [OF p] D(6,7,9) by (simp_all add: entry_ok_def)
  have r: "release k key lockHeld w = wipeAndFree k p True ?w" using taken [OF I p] p by (simp add: release_def)
  obtain er q m' cs where wf: "wipeAndFree k p True ?w = Some (er, ?w\<lparr>mem := m', quar := q, cells := cs\<rparr>)"
    "\<And>c. c \<notin> cells_of p \<Longrightarrow> cs c = cells ?w c" "retired (jregion p) er ?w q m'"
    by (rule wipeAndFree_release [OF e]) blast
  let ?w' = "?w\<lparr>mem := m', quar := q, cells := cs\<rparr>"
  have rt: "retired (jregion p) er w (quar ?w') (mem ?w')" using wf(3) by (simp add: retired_def)
  have inv: "jan_inv k ?w'" and mp: "\<And>key' f. key' \<noteq> key \<Longrightarrow> peekAny key' w = Some f \<Longrightarrow>
    maps (mem ?w') (base (jregion f)) = maps (mem w) (base (jregion f))"
    using jan_inv_removed [OF I p _ _ _ _ _ rt] by simp_all
  have "kept key' w ?w'" if "key' \<noteq> key" for key'
  proof -
    have "cs c = cells w c" if "peekAny key' w = Some f" "c \<in> cells_of f" for f c
      using D(4) [OF that(1) p \<open>key' \<noteq> key\<close>] wf(2) [of c] that(2) by (auto simp: apart_def)
    then show ?thesis using that mp [OF that] by (auto simp: kept_def)
  qed
  then show thesis using that [of er ?w'] r wf(1,2) inv rt by (simp add: peekAny_def)
qed

section \<open>Registration\<close>

lemma register_cases:
  obtains (ok) key where "register r can mu sc wp w = (Inr key, w\<lparr>nextJanitorKey := key, regions := (regions w)(key \<mapsto>
      \<lparr>jregion = r, jmu = mu, jcanary = can, jsealCipher = sc, jwiped = wp\<rparr>)\<rparr>)"
      "key = nextJanitorKey w + 1" "key \<noteq> 0" "peekAny key w = None" "wipedset w key = None"
  | (collision) "register r can mu sc wp w = (Inl ErrKeyCollision, w\<lparr>nextJanitorKey := nextJanitorKey w + 1\<rparr>)"
      "nextJanitorKey w + 1 = 0 \<or> peekAny (nextJanitorKey w + 1) w \<noteq> None"
  by (cases "regions w (nextJanitorKey w + 1)"; cases "wipedset w (nextJanitorKey w + 1)")
    (auto simp: register_def Let_def peekAny_def split: if_splits)

lemma register_inv:
  assumes I: "jan_inv k w" and e: "entry_ok k w \<lparr>jregion = r, jmu = mu, jcanary = can, jsealCipher = sc, jwiped = wp\<rparr>"
    and a: "\<And>key f. peekAny key w = Some f \<Longrightarrow> apart f \<lparr>jregion = r, jmu = mu, jcanary = can, jsealCipher = sc, jwiped = wp\<rparr>"
    and r: "register r can mu sc wp w = (res, w')"
  shows "jan_inv k w'" "\<And>key f. peekAny key w = Some f \<Longrightarrow> kept key w w'"
proof -
  let ?e = "\<lparr>jregion = r, jmu = mu, jcanary = can, jsealCipher = sc, jwiped = wp\<rparr>"
  note D = jan_invD [OF I]
  have eo: "entry_ok k (w\<lparr>nextJanitorKey := n, regions := rs\<rparr>) f = entry_ok k w f" for n rs f
    by (simp add: entry_ok_def)
  have "jan_inv k w' \<and> (\<forall>key f. peekAny key w = Some f \<longrightarrow> kept key w w')"
  proof (cases rule: register_cases [of r can mu sc wp w])
    case (ok key)
    then have w': "w' = w\<lparr>nextJanitorKey := key, regions := (regions w)(key \<mapsto> ?e)\<rparr>" using r by simp
    have peek: "peekAny key w' = Some ?e" "key' \<noteq> key \<Longrightarrow> peekAny key' w' = peekAny key' w" for key'
      by (auto simp: w' peekAny_def split: option.splits)
    have sym: "apart ?e f" if "peekAny key' w = Some f" for key' f
      using a [OF that] by (auto simp: apart_def)
    have "jan_inv k w'" unfolding jan_inv_def
    proof (intro conjI allI impI)
      fix key' show "regions w' key' = None \<or> wipedset w' key' = None"
        using D(1) [of key'] ok(5) by (auto simp: w')
    next
      show "peekAny 0 w' = None" using peek(2) [of 0] ok(3) D(2) by simp
    next
      fix key' f assume "peekAny key' w' = Some f"
      then have "entry_ok k w f" using peek e D(3) by (cases "key' = key") auto
      then show "entry_ok k w' f" by (simp add: w' eo)
    next
      fix k1 k2 f g assume "peekAny k1 w' = Some f" "peekAny k2 w' = Some g" "k1 \<noteq> k2"
      then show "apart f g" using peek a sym D(4) by (cases "k1 = key"; cases "k2 = key") auto
    qed (use D in \<open>auto simp: w'\<close>)
    moreover have "kept key' w w'" if "peekAny key' w = Some f" for key' f
      using that ok(4) by (auto simp: kept_def w')
    ultimately show ?thesis by blast
  next
    case collision
    then have w': "w' = w\<lparr>nextJanitorKey := nextJanitorKey w + 1\<rparr>" using r by simp
    have "peekAny key w' = peekAny key w" "entry_ok k w' f = entry_ok k w f" for key f
      by (simp_all add: w' peekAny_def entry_ok_def split: option.split)
    then show ?thesis using D by (auto simp: jan_inv_def kept_def w')
  qed
  then show "jan_inv k w'" "\<And>key f. peekAny key w = Some f \<Longrightarrow> kept key w w'" by auto
qed

section \<open>Frames\<close>

text \<open>
  What an operation leaves of every registration outside a set of keys, and of the counters that
  hand out locks and flags. Every operation of a buffer, of an arena and of the seal keyring
  satisfies such a frame, and frames compose.
\<close>

definition frame :: "key set \<Rightarrow> world \<Rightarrow> world \<Rightarrow> bool" where
  "frame S w w' \<longleftrightarrow> (\<forall>key. key \<notin> S \<longrightarrow> peekAny key w \<noteq> None \<longrightarrow> kept key w w') \<and>
     nlocks w \<le> nlocks w' \<and> ncells w \<le> ncells w' \<and> (canary_ready (cpkg w) \<longrightarrow> cpkg w' = cpkg w)"

lemma frame_refl [simp]: "frame S w w"
  by (simp add: frame_def)

lemma frame_trans:
  assumes "frame S w w1" "frame S w1 w2"
  shows "frame S w w2"
proof -
  have "kept key w w2" if "key \<notin> S" "peekAny key w \<noteq> None" for key
  proof -
    have "kept key w w1" using assms(1) that by (simp add: frame_def)
    moreover from this have "peekAny key w1 \<noteq> None" using that(2) kept_peek by metis
    ultimately show ?thesis using assms(2) that(1) kept_trans by (auto simp: frame_def)
  qed
  then show ?thesis using assms by (auto simp: frame_def)
qed

lemma frame_mono: "frame S w w' \<Longrightarrow> S \<subseteq> T \<Longrightarrow> frame T w w'"
  by (auto simp: frame_def)

text \<open>A registration that is not there cannot be disturbed.\<close>

lemma frame_fresh: "frame (insert key S) w w' \<Longrightarrow> peekAny key w = None \<Longrightarrow> frame S w w'"
  unfolding frame_def by (metis insert_iff)

lemma frame_kept: "frame S w w' \<Longrightarrow> key \<notin> S \<Longrightarrow> peekAny key w = Some e \<Longrightarrow> kept key w w'"
  by (simp add: frame_def)

text \<open>A change of memory away from the registered regions and the quarantine.\<close>

definition used :: "world \<Rightarrow> addr set" where
  "used w = fst ` set (held (quar w)) \<union> {base (jregion e) |e. \<exists>key. peekAny key w = Some e}"

lemma used_mapped: "jan_inv k w \<Longrightarrow> a \<in> used w \<Longrightarrow> maps (mem w) a \<noteq> None"
  using jan_invD(3,7) [of k w] by (fastforce simp: used_def entry_ok_def region_at_def quar_mapped_def)

lemma jan_inv_mem:
  assumes I: "jan_inv k w" and m: "\<And>a. a \<in> used w \<Longrightarrow> maps m' a = maps (mem w) a" "mem_ok m'"
  shows "jan_inv k (w\<lparr>mem := m'\<rparr>)" "frame {} w (w\<lparr>mem := m'\<rparr>)"
proof -
  note D = jan_invD [OF I]
  have e: "maps m' (base (jregion e)) = maps (mem w) (base (jregion e))" if "peekAny key w = Some e" for key e
    using m(1) that by (auto simp: used_def)
  then show "frame {} w (w\<lparr>mem := m'\<rparr>)" by (auto simp: frame_def kept_def)
  have "entry_ok k (w\<lparr>mem := m'\<rparr>) f" if "peekAny key w = Some f" for key f
    using entry_ok_frame [OF D(3) [OF that], of "w\<lparr>mem := m'\<rparr>"] e [OF that] D(3) [OF that]
    by (simp add: entry_ok_def)
  moreover have "quar_mapped (quar w) m'"
  proof -
    have "maps m' a = maps (mem w) a" if "(a, n) \<in> set (held (quar w))" for a n
      using m(1) that by (force simp: used_def)
    then show ?thesis using D(7) by (auto simp: quar_mapped_def)
  qed
  ultimately show "jan_inv k (w\<lparr>mem := m'\<rparr>)" using D m(2) by (auto simp: jan_inv_def)
qed

lemma jan_inv_grow:
  assumes "jan_inv k w" "mem_grow (mem w) m'"
  shows "jan_inv k (w\<lparr>mem := m'\<rparr>)" "frame {} w (w\<lparr>mem := m'\<rparr>)"
proof -
  have "maps m' a = maps (mem w) a" if "a \<in> used w" for a
    using used_mapped [OF assms(1) that] mem_growD(1) [OF assms(2)] by fastforce
  then show "jan_inv k (w\<lparr>mem := m'\<rparr>)" "frame {} w (w\<lparr>mem := m'\<rparr>)"
    using jan_inv_mem [OF assms(1)] mem_growD(3) [OF assms(2)] jan_invD(8) [OF assms(1)] by blast+
qed

text \<open>A change of the mapping of one registration.\<close>

lemma frame_upd:
  assumes I: "jan_inv k w" and p: "peekAny key w = Some p" and m: "mem_upd (base (jregion p)) f (mem w) m'"
  shows "frame {key} w (w\<lparr>mem := m'\<rparr>)"
proof -
  have "maps m' (base (jregion e)) = maps (mem w) (base (jregion e))" if "peekAny key' w = Some e" "key' \<noteq> key" for key' e
    using jan_invD(4) [OF I that(1) p that(2)] mem_updD(2) [OF m] by (auto simp: apart_def)
  then show ?thesis by (auto simp: frame_def kept_def)
qed

lemma jan_inv_own:
  assumes I: "jan_inv k w" and p: "peekAny key w = Some p" and m: "mem_upd (base (jregion p)) f (mem w) m'"
    and mp: "maps (mem w) (base (jregion p)) = Some mp" "length (mbytes (f mp)) = innerLen (jregion p)"
      "platform k = Stub \<longrightarrow> mprot (f mp) = PROT_RW"
  shows "jan_inv k (w\<lparr>mem := m'\<rparr>)"
proof -
  note D = jan_invD [OF I]
  have q: "base (jregion p) \<notin> fst ` set (held (quar w))" using D(3) [OF p] by (simp add: entry_ok_def)
  have mo: "mem_ok m'" using mem_ok_dom [OF D(8)] mem_updD(5,6) [OF m] by simp
  have "entry_ok k (w\<lparr>mem := m'\<rparr>) e" if pk: "peekAny key' w = Some e" for key' e
  proof (cases "key' = key")
    case True
    then have "e = p" using p pk by simp
    then show ?thesis using D(3) [OF p] mem_updD(1) [OF m] mp by (simp add: entry_ok_def region_at_def)
  next
    case False
    then show ?thesis
      using D(3) [OF pk] D(4) [OF pk p False] mem_updD(2) [OF m]
      by (auto simp: entry_ok_def region_at_def apart_def)
  qed
  then show ?thesis
    using D mo quar_mapped_outside [OF D(7) q] mem_updD(2) [OF m] by (auto simp: jan_inv_def)
qed

text \<open>New locks and flags.\<close>

lemma newLock_inv:
  assumes I: "jan_inv k w" and n: "newLock w = (l, w')"
  shows "jan_inv k w'" "frame {} w w'" "l = nlocks w" "nlocks w' = Suc l" "ncells w' = ncells w" "mem w' = mem w"
    "cpkg w' = cpkg w" "quar w' = quar w" "\<And>key. peekAny key w' = peekAny key w" "cells w' = cells w"
    "sealKeys w' = sealKeys w" "regions w' = regions w" "wipedset w' = wipedset w"
    "borrows w' = (borrows w)(l := 0)"
proof -
  have w': "w' = w\<lparr>nlocks := Suc (nlocks w), borrows := (borrows w)(nlocks w := 0)\<rparr>" and l: "l = nlocks w"
    using n by (auto simp: newLock_def)
  show peek: "peekAny key w' = peekAny key w" for key by (simp add: w' peekAny_def split: option.split)
  have "jmu e \<noteq> nlocks w" if "peekAny key w = Some e" for key e
    using jan_invD(3) [OF I that] by (auto simp: entry_ok_def)
  then show "frame {} w w'" by (auto simp: frame_def kept_def w')
  have "entry_ok k w' e" if "peekAny key w = Some e" for key e
    using jan_invD(3) [OF I that] by (auto simp: entry_ok_def w')
  then show "jan_inv k w'" using jan_invD [OF I] peek unfolding jan_inv_def by (auto simp: w')
qed (use n in \<open>auto simp: newLock_def\<close>)

lemma newCell_inv:
  assumes I: "jan_inv k w" and n: "newCell w = (c, w')"
  shows "jan_inv k w'" "frame {} w w'" "c = ncells w" "ncells w' = Suc c" "nlocks w' = nlocks w" "mem w' = mem w"
    "cpkg w' = cpkg w" "quar w' = quar w" "\<And>key. peekAny key w' = peekAny key w" "cells w' = (cells w)(c := False)"
    "sealKeys w' = sealKeys w" "regions w' = regions w" "wipedset w' = wipedset w" "borrows w' = borrows w"
proof -
  have w': "w' = w\<lparr>ncells := Suc (ncells w), cells := (cells w)(ncells w := False)\<rparr>"
    using n by (auto simp: newCell_def)
  show peek: "peekAny key w' = peekAny key w" for key by (simp add: w' peekAny_def split: option.split)
  have "ncells w \<notin> cells_of e" if "peekAny key w = Some e" for key e
    using jan_invD(3) [OF I that] by (auto simp: entry_ok_def)
  then show "frame {} w w'" by (auto simp: frame_def kept_def w')
  have "entry_ok k w' e" if "peekAny key w = Some e" for key e
    using jan_invD(3) [OF I that] by (auto simp: entry_ok_def w')
  then show "jan_inv k w'" using jan_invD [OF I] peek unfolding jan_inv_def by (auto simp: w')
qed (use n in \<open>auto simp: newCell_def\<close>)

text \<open>The seal keyring is no concern of the registry.\<close>

lemma sealKeys_frame [simp]:
  "peekAny key (w\<lparr>sealKeys := ks\<rparr>) = peekAny key w" "jan_inv k (w\<lparr>sealKeys := ks\<rparr>) = jan_inv k w"
  "kept key w (w'\<lparr>sealKeys := ks\<rparr>) = kept key w w'" "frame S w (w'\<lparr>sealKeys := ks\<rparr>) = frame S w w'"
proof -
  show p: "peekAny key (w\<lparr>sealKeys := ks\<rparr>) = peekAny key w" for key w
    by (simp add: peekAny_def split: option.split)
  have "entry_ok k (w\<lparr>sealKeys := ks\<rparr>) e = entry_ok k w e" for e by (simp add: entry_ok_def)
  then show "jan_inv k (w\<lparr>sealKeys := ks\<rparr>) = jan_inv k w" by (simp add: jan_inv_def p)
  show q: "kept key w (w'\<lparr>sealKeys := ks\<rparr>) = kept key w w'" for key by (simp add: kept_def)
  show "frame S w (w'\<lparr>sealKeys := ks\<rparr>) = frame S w w'" by (simp add: frame_def q)
qed

text \<open>A region, a lock and flags that no registration has.\<close>

definition fresh :: "world \<Rightarrow> secRegion \<Rightarrow> lockid \<Rightarrow> cell set \<Rightarrow> bool" where
  "fresh w r mu cs \<longleftrightarrow> base r \<notin> used w \<and> mu < nlocks w \<and> (\<forall>c\<in>cs. c < ncells w) \<and>
     (\<forall>key e. peekAny key w = Some e \<longrightarrow> jmu e \<noteq> mu \<and> cells_of e \<inter> cs = {})"

lemma register_fresh:
  assumes I: "jan_inv k w" and f: "fresh w r mu (insert wp (set_option sc))" and sc: "sc \<noteq> Some wp"
    and mp: "region_at r (mem w) mp" "mprot mp = PROT_RW" "0 < innerLen r" "innerLen r \<le> outerLen r"
    and can: "chain 0 (zones can) (int (innerLen r))" "zones can = [] \<or> canary_ready (cpkg w)"
    and reg: "register r can mu sc (Some wp) w = (res, w')"
  shows "jan_inv k w'" "frame {} w w'"
    "res = Inr key \<Longrightarrow> peekAny key w = None \<and> wipedset w' key = None \<and> key \<noteq> 0 \<and> regions w' key =
       Some \<lparr>jregion = r, jmu = mu, jcanary = can, jsealCipher = sc, jwiped = Some wp\<rparr>"
    "res = Inl er \<Longrightarrow> er = ErrKeyCollision \<and> used w' = used w"
    "mem w' = mem w" "cells w' = cells w" "quar w' = quar w" "sealKeys w' = sealKeys w" "borrows w' = borrows w"
    "cpkg w' = cpkg w" "nlocks w' = nlocks w" "ncells w' = ncells w"
proof -
  let ?e = "\<lparr>jregion = r, jmu = mu, jcanary = can, jsealCipher = sc, jwiped = Some wp\<rparr>"
  have ok: "entry_ok k w ?e"
    using f sc mp can by (auto simp: entry_ok_def fresh_def used_def cells_of_def)
  have ap: "apart e ?e" if "peekAny key w = Some e" for key e
    using f that by (auto simp: fresh_def used_def apart_def cells_of_def)
  note R = register_inv [OF I ok ap reg]
  show "jan_inv k w'" by (rule R)
  have c: "nlocks w' = nlocks w \<and> ncells w' = ncells w \<and> cpkg w' = cpkg w \<and> mem w' = mem w \<and> cells w' = cells w \<and>
      quar w' = quar w \<and> sealKeys w' = sealKeys w \<and> borrows w' = borrows w \<and>
      (case res of Inr key \<Rightarrow> peekAny key w = None \<and> wipedset w' key = None \<and> key \<noteq> 0 \<and> regions w' key = Some ?e
       | Inl er \<Rightarrow> er = ErrKeyCollision \<and> used w' = used w)"
    using reg
  proof (cases rule: register_cases [of r can mu sc "Some wp" w])
    case collision
    have "peekAny x (w\<lparr>nextJanitorKey := n\<rparr>) = peekAny x w" for x n by (simp add: peekAny_def split: option.split)
    then show ?thesis using reg collision by (auto simp: used_def)
  qed auto
  then show "frame {} w w'" using R(2) by (auto simp: frame_def)
  show "res = Inr key \<Longrightarrow> peekAny key w = None \<and> wipedset w' key = None \<and> key \<noteq> 0 \<and> regions w' key = Some ?e"
    "res = Inl er \<Longrightarrow> er = ErrKeyCollision \<and> used w' = used w"
    "mem w' = mem w" "cells w' = cells w" "quar w' = quar w" "sealKeys w' = sealKeys w" "borrows w' = borrows w"
    "cpkg w' = cpkg w" "nlocks w' = nlocks w" "ncells w' = ncells w" using c by auto
qed

text \<open>
  The owner of a registration: the entry its key finds, which is live until the emergency wipe has
  emptied the region and set the owner's flag.
\<close>

definition owned :: "world \<Rightarrow> key \<Rightarrow> secRegion \<Rightarrow> lockid \<Rightarrow> canaryLayout \<Rightarrow> cell option \<Rightarrow> cell \<Rightarrow> bool" where
  "owned w key r mu can sc wp \<longleftrightarrow> (\<exists>e. peekAny key w = Some e \<and> jregion e = r \<and> jmu e = mu \<and> jwiped e = Some wp \<and>
     (if cells w wp then regions w key = None
      else regions w key = Some e \<and> jcanary e = can \<and> jsealCipher e = sc))"

lemma owned_kept:
  assumes "owned w key r mu can sc wp" "kept key w w'"
  shows "owned w' key r mu can sc wp"
proof -
  obtain e where e: "peekAny key w = Some e" "jregion e = r" "jmu e = mu" "jwiped e = Some wp"
    "if cells w wp then regions w key = None else regions w key = Some e \<and> jcanary e = can \<and> jsealCipher e = sc"
    using assms(1) by (auto simp: owned_def)
  have "cells w' wp = cells w wp" "regions w' key = regions w key"
    using assms(2) e(1,4) by (auto simp: kept_def cells_of_def)
  then show ?thesis using e kept_peek [OF assms(2)] by (auto simp: owned_def)
qed

lemma owned_frame: "owned w key r mu can sc wp \<Longrightarrow> frame S w w' \<Longrightarrow> key \<notin> S \<Longrightarrow> owned w' key r mu can sc wp"
  using owned_kept frame_kept by (metis owned_def)

lemma ownedD:
  assumes "owned w key r mu can sc wp" "jan_inv k w"
  shows "maps (mem w) (base r) \<noteq> None" "\<exists>mp. region_at r (mem w) mp \<and> (platform k = Stub \<longrightarrow> mprot mp = PROT_RW)"
    "0 < innerLen r" "innerLen r \<le> outerLen r" "base r \<notin> fst ` set (held (quar w))" "sc \<noteq> Some wp \<or> cells w wp"
    "key \<noteq> 0"
  using assms jan_invD(2,3) [OF assms(2)] unfolding owned_def entry_ok_def
  by (fastforce simp: region_at_def split: if_splits)+

section \<open>Properties\<close>

text \<open>
  C18. \<^verbatim>\<open>WipeAllSecrets\<close> never faults, whatever the protection of the regions, and when it
  returns without \<^verbatim>\<open>errWipeSkipped\<close> every region that was registered at its snapshot has been
  released since or holds only zeros, writable, with its owner's wiped flag set. This holds
  whatever the goroutines that hold borrows do between the two passes, as long as they keep the
  invariant of the registry and leave an emptied region empty or release it.
\<close>

theorem WipeAllSecrets_correct:
  assumes "jan_inv k w" "distinct keys" "\<forall>key. peekAny key w \<noteq> None \<longrightarrow> key \<in> set keys"
    and "\<forall>ds. distinct ds \<longrightarrow> distinct (order ds) \<and> set (order ds) = set ds"
    and "\<forall>w1. jan_inv k w1 \<longrightarrow> jan_inv k (wait w1) \<and>
      (\<forall>key. emptied w1 key \<longrightarrow> emptied (wait w1) key \<or> peekAny key (wait w1) = None)"
  shows "\<exists>er w'. wipeAllInPlace k keys order wait w = Some (er, w') \<and> jan_inv k w' \<and>
    (\<not> errorIs er ErrWipeSkipped \<longrightarrow> (\<forall>key. peekAny key w \<noteq> None \<longrightarrow> emptied w' key \<or> peekAny key w' = None))"
proof -
  obtain e1 w1 where p1: "wipePass1 k keys None [] w = Some (e1, filter (busy w) keys, w1)"
    and q1: "passed k {key \<in> set keys. \<not> busy w key} None e1 w w1"
    using wipePass1_spec [OF assms(1,2), of None "[]"] by auto
  have idle: "emptied w1 key" if "peekAny key w \<noteq> None" "\<not> busy w key" "\<not> errorIs e1 ErrWipeSkipped" for key
  proof -
    have "swept w w1 e1 key" using q1 that(1,2) assms(3) by (simp add: passed_def)
    then show ?thesis using that(3) by (simp add: swept_def)
  qed
  have i1: "jan_inv k w1" using q1 by (simp add: passed_def)
  show ?thesis
  proof (cases "filter (busy w) keys = []")
    case True
    then have "\<not> busy w key" if "peekAny key w \<noteq> None" for key
      using assms(3) that by (auto simp: filter_empty_conv)
    then show ?thesis using p1 True i1 idle by (auto simp: wipeAllInPlace_def)
  next
    case False
    let ?ds = "order (filter (busy w) keys)"
    have ds: "distinct ?ds" "set ?ds = set (filter (busy w) keys)" using assms(2,4) by auto
    have i2: "jan_inv k (wait w1)"
      and after: "emptied w1 key \<Longrightarrow> emptied (wait w1) key \<or> peekAny key (wait w1) = None" for key
      using assms(5) i1 by simp_all
    obtain e2 w2 where p2: "wipePass2 k ?ds e1 (wait w1) = Some (e2, w2)"
      and q2: "passed k (set ?ds) e1 e2 (wait w1) w2" using wipePass2_spec [OF i2 ds(1)] by blast
    have mono: "errorIs e1 ErrWipeSkipped \<longrightarrow> errorIs e2 ErrWipeSkipped" using q2 by (simp add: passed_def)
    have "emptied w2 key \<or> peekAny key w2 = None" if reg: "peekAny key w \<noteq> None" and ne: "\<not> errorIs e2 ErrWipeSkipped" for key
    proof (cases "busy w key \<and> peekAny key (wait w1) \<noteq> None")
      case True
      then have "swept (wait w1) w2 e2 key" using q2 ds(2) assms(3) reg by (simp add: passed_def)
      then show ?thesis using ne by (simp add: swept_def)
    next
      case False
      then have "kept key (wait w1) w2" using q2 ds(2) by (auto simp: passed_def split: if_splits)
      moreover have "emptied (wait w1) key \<or> peekAny key (wait w1) = None"
        using False idle [OF reg] mono ne after [of key] by auto
      ultimately show ?thesis using emptied_kept [of "wait w1" key w2] kept_peek [of key "wait w1" w2] by auto
    qed
    then show ?thesis using p1 p2 False q2 by (auto simp: wipeAllInPlace_def passed_def)
  qed
qed

definition ex_entry :: janitorRegion where
  "ex_entry = \<lparr>jregion = ex_region, jmu = 0, jcanary = zeroLayout, jsealCipher = Some 0, jwiped = Some 1\<rparr>"

definition ex_world :: world where
  "ex_world = \<lparr>mem = ex_mapped, cpkg = canary_zero, quar = newQuarantine ex_kernel, regions = [1 \<mapsto> ex_entry],
     wipedset = Map.empty, nextJanitorKey = 1, cells = (\<lambda>_. False), ncells = 2, borrows = (\<lambda>_. 0), nlocks = 1,
     sealKeys = \<lparr>kregion = ex_region, klock = None, kwiped = 0, kkey = 0, kgen = 0\<rparr>\<rparr>"

lemma ex_peek: "peekAny key ex_world = (if key = 1 then Some ex_entry else None)"
  by (simp add: peekAny_def ex_world_def)

lemma ex_world_inv: "jan_inv ex_kernel ex_world"
proof -
  have "entry_ok ex_kernel ex_world ex_entry"
    by (simp add: entry_ok_def ex_entry_def region_at_def ex_world_def ex_mapped_def ex_region_def born_def
        ex_kernel_def cells_of_def newQuarantine_def)
  moreover have "quar_inv (quar ex_world)" "quar_mapped (quar ex_world) (mem ex_world)" "mem_ok (mem ex_world)"
    "canary_ok (cpkg ex_world)" "wipedset ex_world = Map.empty"
    by (simp_all add: ex_world_def newQuarantine_def quar_inv_def quar_mapped_def within_def mem_ok_def ex_mapped_def ex_memory_def)
  ultimately show ?thesis by (auto simp: jan_inv_def ex_peek)
qed

lemma ex_wipeAll: "map_option (\<lambda>(er, w'). (er, Option.is_none (peekAny 1 w'))) (wipeAllInPlace ex_kernel [1] rev (\<lambda>w. w) ex_world) = Some (None, False)"
  by (simp add: wipeAllInPlace_def tryWipeInPlace_def wipeLocked_def moveToWipedIf_def wipeAndFree_def ex_world_def
        peekAny_def ex_entry_def ex_region_def ex_mapped_def mprotectSecretMem_def mprotect_def sys_def ex_kernel_def
        canaryCheck_def readMem_def born_def intact_def forEachZone_walk secureWipeSlice_def upd_mapping_def
        ex_memory_def osErr_def set_prot_def writeMem_def clearCipher_def markWiped_def)

theorem WipeAllSecrets_correct_witness:
  "\<exists>w'. wipeAllInPlace ex_kernel [1] rev (\<lambda>w. w) ex_world = Some (None, w') \<and> emptied w' 1"
proof -
  have "\<exists>er w'. wipeAllInPlace ex_kernel [1] rev (\<lambda>w. w) ex_world = Some (er, w') \<and> jan_inv ex_kernel w' \<and>
    (\<not> errorIs er ErrWipeSkipped \<longrightarrow> (\<forall>key. peekAny key ex_world \<noteq> None \<longrightarrow> emptied w' key \<or> peekAny key w' = None))"
    by (rule WipeAllSecrets_correct [OF ex_world_inv]) (simp_all add: ex_peek)
  then obtain er w' where w: "wipeAllInPlace ex_kernel [1] rev (\<lambda>w. w) ex_world = Some (er, w')"
    and e: "\<not> errorIs er ErrWipeSkipped \<longrightarrow> (\<forall>key. peekAny key ex_world \<noteq> None \<longrightarrow> emptied w' key \<or> peekAny key w' = None)"
    by blast
  have "er = None" "peekAny 1 w' \<noteq> None" using ex_wipeAll w by (simp_all add: Option.is_none_def)
  moreover have "peekAny 1 ex_world \<noteq> None" by (simp add: ex_peek)
  ultimately show ?thesis using w e by auto
qed

text \<open>
  C19. A release takes the registration out of the registry exactly once, by \<^verbatim>\<open>Destroy\<close> as by
  the garbage-collection cleanup: it never faults, every other registration keeps its mapping, its
  flags and its place, nothing but zeros goes back to the system unless the error says that the
  system refused to make the region writable, and a second release of the key does nothing.
\<close>

theorem release_correct:
  assumes "jan_inv k w" "peekAny key w = Some p"
  shows "\<exists>er w'. release k key lockHeld w = Some (er, w') \<and> jan_inv k w' \<and> peekAny key w' = None \<and>
    (\<forall>key'. key' \<noteq> key \<longrightarrow> kept key' w w') \<and>
    ((\<exists>l. released (mem w') = released (mem w) @ l \<and> list_all all_zero l) \<or> errorIs er ErrOS) \<and>
    (\<forall>h. release k key h w' = Some (None, w'))"
proof -
  from assms obtain er w' where r: "release k key lockHeld w = Some (er, w')" "jan_inv k w'" "peekAny key w' = None"
    "\<And>key'. key' \<noteq> key \<Longrightarrow> kept key' w w'" "retired (jregion p) er w (quar w') (mem w')"
    by (rule release_spec [where lockHeld = lockHeld]) blast
  moreover have "release k key h w' = Some (None, w')" for h
    using r(3) by (auto simp: release_def takeAny_def take_live_def takeWiped_def peekAny_def split: option.splits)
  ultimately show ?thesis by (auto simp: retired_def)
qed

theorem release_correct_witness:
  "\<exists>er w'. release ex_kernel 1 True ex_world = Some (er, w') \<and> peekAny 1 w' = None \<and>
     release ex_kernel 1 False w' = Some (None, w')"
  using release_correct [OF ex_world_inv, of 1 ex_entry True] by (auto simp: ex_peek)

text \<open>
  Registering a region that shares nothing with the registered ones keeps the invariant and
  every earlier registration; the key is not zero, was in neither set and finds the new entry. A
  wrapped or used key is refused with \<^verbatim>\<open>errJanitorKeyCollision\<close> and nothing is recorded.
\<close>

theorem register_correct:
  assumes "jan_inv k w" "entry_ok k w \<lparr>jregion = r, jmu = mu, jcanary = can, jsealCipher = sc, jwiped = wp\<rparr>"
    and "\<And>key f. peekAny key w = Some f \<Longrightarrow> apart f \<lparr>jregion = r, jmu = mu, jcanary = can, jsealCipher = sc, jwiped = wp\<rparr>"
    and "register r can mu sc wp w = (res, w')"
  shows "jan_inv k w' \<and> (\<forall>key f. peekAny key w = Some f \<longrightarrow> kept key w w') \<and>
    (case res of Inr key \<Rightarrow> key \<noteq> 0 \<and> peekAny key w = None \<and>
        regions w' key = Some \<lparr>jregion = r, jmu = mu, jcanary = can, jsealCipher = sc, jwiped = wp\<rparr>
     | Inl er \<Rightarrow> er = ErrKeyCollision \<and> regions w' = regions w \<and> wipedset w' = wipedset w \<and>
        (nextJanitorKey w + 1 = 0 \<or> peekAny (nextJanitorKey w + 1) w \<noteq> None))"
proof -
  have "case res of Inr key \<Rightarrow> key \<noteq> 0 \<and> peekAny key w = None \<and>
        regions w' key = Some \<lparr>jregion = r, jmu = mu, jcanary = can, jsealCipher = sc, jwiped = wp\<rparr>
     | Inl er \<Rightarrow> er = ErrKeyCollision \<and> regions w' = regions w \<and> wipedset w' = wipedset w \<and>
        (nextJanitorKey w + 1 = 0 \<or> peekAny (nextJanitorKey w + 1) w \<noteq> None)"
    using assms(4) by (cases rule: register_cases [of r can mu sc wp w]) auto
  then show ?thesis using register_inv [OF assms(1,2) _ assms(4)] assms(3) by blast
qed

definition ex_empty :: world where
  "ex_empty = ex_world\<lparr>regions := Map.empty\<rparr>"

lemma ex_empty_peek: "peekAny key ex_empty = None"
  by (simp add: peekAny_def ex_empty_def ex_world_def)

lemma ex_empty_inv: "jan_inv ex_kernel ex_empty"
  using ex_world_inv by (auto simp: jan_inv_def ex_empty_peek) (auto simp: ex_empty_def ex_world_def)

theorem register_correct_witness:
  "\<exists>w'. register ex_region zeroLayout 0 (Some 0) (Some 1) ex_empty = (Inr 2, w') \<and> regions w' 2 = Some ex_entry"
proof -
  obtain res w' where r: "register ex_region zeroLayout 0 (Some 0) (Some 1) ex_empty = (res, w')" by fastforce
  have e: "entry_ok ex_kernel ex_empty \<lparr>jregion = ex_region, jmu = 0, jcanary = zeroLayout, jsealCipher = Some 0, jwiped = Some 1\<rparr>"
    using jan_invD(3) [OF ex_world_inv, of 1 ex_entry] by (simp add: ex_peek ex_entry_def entry_ok_def ex_empty_def)
  have "res = Inr 2" using r by (simp add: register_def ex_empty_def ex_world_def)
  then show ?thesis using register_correct [OF ex_empty_inv e _ r] r by (simp add: ex_empty_peek ex_entry_def)
qed

end
