(* ===== verification/Sha2.thy ===== *)
theory Sha2
  imports Secmem_Prelude
begin

text \<open>
  The hash functions of the Go standard library that the sources call, \<^verbatim>\<open>sha512.Sum512\<close> and
  \<^verbatim>\<open>sha256.Sum256\<close>, as executable functions on byte strings, and the message
  authentication code over a hash as its standard defines it. The sources use a hash through its
  length only, so that is what is proved of it; the definitions make the programs that use one
  executable.
\<close>

unbundle bit_operations_syntax

section \<open>Big-endian numbers\<close>

definition beBytes :: "nat \<Rightarrow> nat \<Rightarrow> bytes" where
  "beBytes n x = map (\<lambda>i. word_of_nat (x div 256 ^ (n - 1 - i))) [0..<n]"

definition beNat :: "bytes \<Rightarrow> nat" where
  "beNat b = foldl (\<lambda>acc x. acc * 256 + unat x) 0 b"

lemma length_beBytes [simp]: "length (beBytes n x) = n"
  by (simp add: beBytes_def)

lemma beBytes_Suc: "beBytes (Suc n) x = word_of_nat (x div 256 ^ n) # beBytes n x"
proof -
  have "[0..<Suc n] = 0 # map Suc [0..<n]" by (simp add: upt_conv_Cons map_Suc_upt)
  then show ?thesis by (simp add: beBytes_def)
qed

lemma beNat_acc: "foldl (\<lambda>acc x. acc * 256 + unat x) a b = a * 256 ^ length b + beNat (b :: bytes)"
proof (induction b arbitrary: a)
  case (Cons x b)
  show ?case using Cons.IH [of "a * 256 + unat x"] Cons.IH [of "unat x"]
    by (simp add: beNat_def algebra_simps)
qed (simp add: beNat_def)

lemma beNat_Cons: "beNat (x # b) = unat x * 256 ^ length b + beNat b"
  using beNat_acc [of "unat x" b] by (simp add: beNat_def)

lemma beNat_beBytes: "beNat (beBytes n x) = x mod 256 ^ n"
proof (induction n)
  case 0
  then show ?case by (simp add: beNat_def beBytes_def)
next
  case (Suc n)
  have "beNat (beBytes (Suc n) x) = (x div 256 ^ n) mod 256 * 256 ^ n + beNat (beBytes n x)"
    by (simp add: beBytes_Suc beNat_Cons unat_of_nat)
  also have "\<dots> = x mod 256 ^ Suc n" using Suc mod_mult2_eq [of x "256 ^ n" 256] by (simp only: power_Suc2) simp
  finally show ?case .
qed

lemma beBytes_inj: "x < 256 ^ n \<Longrightarrow> y < 256 ^ n \<Longrightarrow> beBytes n x = beBytes n y \<longleftrightarrow> x = y"
  by (metis beNat_beBytes mod_less)

lemma beNat_snoc: "beNat (b @ [x]) = 256 * beNat b + unat x"
  by (simp add: beNat_def)

lemma beNat_less: "beNat b < 256 ^ length b"
proof (induction b rule: rev_induct)
  case (snoc x b)
  have "unat x < 256" using unsigned_less [of x, where 'a = nat] by simp
  with snoc show ?case by (simp add: beNat_snoc)
qed (simp add: beNat_def)

lemma beBytes_snoc: "beBytes (Suc n) x = beBytes n (x div 256) @ [word_of_nat x]"
proof -
  have "x div 256 ^ (n - i) = x div 256 div 256 ^ (n - Suc i)" if "i < n" for i
    using that by (simp add: div_mult2_eq [symmetric] power_Suc [symmetric] Suc_diff_Suc)
  then show ?thesis by (simp add: beBytes_def)
qed

lemma byte_digit: "(word_of_nat (256 * k + u) :: byte) = word_of_nat u"
  by (intro word_unat_eq_iff [THEN iffD2]) (simp only: unsigned_of_nat take_bit_eq_mod, simp)

lemma beBytes_beNat: "beBytes (length b) (beNat b) = b"
proof (induction b rule: rev_induct)
  case (snoc x b)
  have "unat x < 256" using unsigned_less [of x, where 'a = nat] by simp
  then have "(256 * beNat b + unat x) div 256 = beNat b" by simp
  then show ?case using snoc by (simp add: beNat_snoc beBytes_snoc byte_digit del: of_nat_add of_nat_mult)
qed (simp add: beBytes_def)

lemma beBytes_mod: "beBytes n (x mod 256 ^ n) = beBytes n x"
  using beBytes_beNat [of "beBytes n x"] by (simp add: beNat_beBytes)

text \<open>A byte string in blocks of \<open>n\<close> bytes.\<close>

fun blocks :: "nat \<Rightarrow> 'a list \<Rightarrow> 'a list list" where
  "blocks n b = (if n = 0 \<or> b = [] then [] else take n b # blocks n (drop n b))"

declare blocks.simps [simp del]

section \<open>SHA-512\<close>

text \<open>
  The constants of both functions are the first bits of the fractional parts of the square roots
  and cube roots of the first primes.
\<close>

definition firstPrimes :: "nat list" where
  "firstPrimes = [2, 3, 5, 7, 11, 13, 17, 19, 23, 29, 31, 37, 41, 43, 47, 53, 59, 61, 67, 71,
    73, 79, 83, 89, 97, 101, 103, 107, 109, 113, 127, 131, 137, 139, 149, 151, 157, 163, 167, 173,
    179, 181, 191, 193, 197, 199, 211, 223, 227, 229, 233, 239, 241, 251, 257, 263, 269, 271, 277, 281,
    283, 293, 307, 311, 313, 317, 331, 337, 347, 349, 353, 359, 367, 373, 379, 383, 389, 397, 401, 409]"

text \<open>The \<open>d\<close>-th root of \<open>n\<close>, rounded down, if it has at most \<open>bits\<close> bits.\<close>

definition iroot :: "nat \<Rightarrow> nat \<Rightarrow> nat \<Rightarrow> nat" where
  "iroot d bits n = foldl (\<lambda>r i. if (r + 2 ^ i) ^ d \<le> n then r + 2 ^ i else r) 0 (rev [0..<bits])"

definition sha512_K :: "64 word list" where
  "sha512_K = map (\<lambda>p. word_of_nat (iroot 3 67 (p * 2 ^ 192))) firstPrimes"

definition sha512_H :: "64 word list" where
  "sha512_H = map (\<lambda>p. word_of_nat (iroot 2 67 (p * 2 ^ 128))) [2, 3, 5, 7, 11, 13, 17, 19]"

definition sha_pad :: "nat \<Rightarrow> nat \<Rightarrow> bytes \<Rightarrow> bytes" where
  "sha_pad block lenBytes b =
     b @ [0x80] @ zeros ((block - (length b + 1 + lenBytes) mod block) mod block) @ beBytes lenBytes (8 * length b)"

fun sha512_extend :: "nat \<Rightarrow> 64 word list \<Rightarrow> 64 word list" where
  "sha512_extend 0 w = w"
| "sha512_extend (Suc n) w = sha512_extend n (w @
     [let t = length w; a = w ! (t - 15); e = w ! (t - 2);
          s0 = word_rotr 1 a XOR word_rotr 8 a XOR drop_bit 7 a;
          s1 = word_rotr 19 e XOR word_rotr 61 e XOR drop_bit 6 e
      in w ! (t - 16) + s0 + w ! (t - 7) + s1])"

fun sha512_round :: "64 word list \<Rightarrow> 64 word \<times> 64 word \<Rightarrow> 64 word list" where
  "sha512_round [a, b, c, d, e, f, g, h] (kt, wt) =
     (let s1 = word_rotr 14 e XOR word_rotr 18 e XOR word_rotr 41 e;
          ch = (e AND f) XOR (NOT e AND g);
          t1 = h + s1 + ch + kt + wt;
          s0 = word_rotr 28 a XOR word_rotr 34 a XOR word_rotr 39 a;
          maj = (a AND b) XOR (a AND c) XOR (b AND c)
      in [t1 + s0 + maj, a, b, c, d + t1, e, f, g])"
| "sha512_round st _ = st"

definition sha512_block :: "64 word list \<Rightarrow> bytes \<Rightarrow> 64 word list" where
  "sha512_block st b =
     (let w = sha512_extend 64 (map (\<lambda>x. word_of_nat (beNat x)) (blocks 8 b))
      in map2 (+) st (foldl sha512_round st (zip sha512_K w)))"

definition sum512 :: "bytes \<Rightarrow> bytes" where
  "sum512 b = concat (map (\<lambda>x. beBytes 8 (unat x)) (foldl sha512_block sha512_H (blocks 128 (sha_pad 128 16 b))))"

section \<open>SHA-256\<close>

definition sha256_K :: "32 word list" where
  "sha256_K = map (\<lambda>p. word_of_nat (iroot 3 35 (p * 2 ^ 96))) (take 64 firstPrimes)"

definition sha256_H :: "32 word list" where
  "sha256_H = map (\<lambda>p. word_of_nat (iroot 2 35 (p * 2 ^ 64))) [2, 3, 5, 7, 11, 13, 17, 19]"

fun sha256_extend :: "nat \<Rightarrow> 32 word list \<Rightarrow> 32 word list" where
  "sha256_extend 0 w = w"
| "sha256_extend (Suc n) w = sha256_extend n (w @
     [let t = length w; a = w ! (t - 15); e = w ! (t - 2);
          s0 = word_rotr 7 a XOR word_rotr 18 a XOR drop_bit 3 a;
          s1 = word_rotr 17 e XOR word_rotr 19 e XOR drop_bit 10 e
      in w ! (t - 16) + s0 + w ! (t - 7) + s1])"

fun sha256_round :: "32 word list \<Rightarrow> 32 word \<times> 32 word \<Rightarrow> 32 word list" where
  "sha256_round [a, b, c, d, e, f, g, h] (kt, wt) =
     (let s1 = word_rotr 6 e XOR word_rotr 11 e XOR word_rotr 25 e;
          ch = (e AND f) XOR (NOT e AND g);
          t1 = h + s1 + ch + kt + wt;
          s0 = word_rotr 2 a XOR word_rotr 13 a XOR word_rotr 22 a;
          maj = (a AND b) XOR (a AND c) XOR (b AND c)
      in [t1 + s0 + maj, a, b, c, d + t1, e, f, g])"
| "sha256_round st _ = st"

definition sha256_block :: "32 word list \<Rightarrow> bytes \<Rightarrow> 32 word list" where
  "sha256_block st b =
     (let w = sha256_extend 48 (map (\<lambda>x. word_of_nat (beNat x)) (blocks 4 b))
      in map2 (+) st (foldl sha256_round st (zip sha256_K w)))"

definition sum256 :: "bytes \<Rightarrow> bytes" where
  "sum256 b = concat (map (\<lambda>x. beBytes 4 (unat x)) (foldl sha256_block sha256_H (blocks 64 (sha_pad 64 8 b))))"

section \<open>The lengths of the digests\<close>

lemma length_round512: "length (sha512_round st p) = length st"
  by (cases "(st, p)" rule: sha512_round.cases) (auto simp: Let_def)

lemma length_rounds512: "length (foldl sha512_round st ps) = length st"
  by (induction ps arbitrary: st) (simp_all add: length_round512)

lemma length_blocks512: "length (foldl sha512_block st bs) = length st"
  by (induction bs arbitrary: st) (simp_all add: sha512_block_def length_rounds512 Let_def)

lemma length_round256: "length (sha256_round st p) = length st"
  by (cases "(st, p)" rule: sha256_round.cases) (auto simp: Let_def)

lemma length_rounds256: "length (foldl sha256_round st ps) = length st"
  by (induction ps arbitrary: st) (simp_all add: length_round256)

lemma length_blocks256: "length (foldl sha256_block st bs) = length st"
  by (induction bs arbitrary: st) (simp_all add: sha256_block_def length_rounds256 Let_def)

lemma length_concat_beBytes: "length (concat (map (\<lambda>x. beBytes n (f x)) xs)) = n * length xs"
  by (induction xs) auto

lemma length_sum512 [simp]: "length (sum512 b) = 64"
  by (simp add: sum512_def length_concat_beBytes length_blocks512 sha512_H_def)

lemma length_sum256 [simp]: "length (sum256 b) = 32"
  by (simp add: sum256_def length_concat_beBytes length_blocks256 sha256_H_def)

section \<open>HMAC\<close>

text \<open>The code over a hash \<open>H\<close> with blocks of \<open>B\<close> bytes, as the standard states it.\<close>

definition xorBytes :: "byte \<Rightarrow> bytes \<Rightarrow> bytes" where
  "xorBytes x b = map (\<lambda>y. y XOR x) b"

definition hmacKey :: "(bytes \<Rightarrow> bytes) \<Rightarrow> nat \<Rightarrow> bytes \<Rightarrow> bytes" where
  "hmacKey H B K = (let K' = if length K > B then H K else K in K' @ zeros (B - length K'))"

definition HMAC :: "(bytes \<Rightarrow> bytes) \<Rightarrow> nat \<Rightarrow> bytes \<Rightarrow> bytes \<Rightarrow> bytes" where
  "HMAC H B K m = H (xorBytes 0x5c (hmacKey H B K) @ H (xorBytes 0x36 (hmacKey H B K) @ m))"

lemma length_xorBytes [simp]: "length (xorBytes x b) = length b"
  by (simp add: xorBytes_def)

end
