(* ===== verification/Seal_Auth.thy ===== *)
theory Seal_Auth
  imports Registry Sha2
begin

text \<open>
  The authentication of the sealed state, \<^verbatim>\<open>sealauth.go\<close>: the tag computation over the
  bytes at rest, and the process-wide keyring with its prekey region.
\<close>

unbundle bit_operations_syntax

section \<open>The tag\<close>

definition sealPrekeyLen :: nat where "sealPrekeyLen = 16384"
definition sealRootLen :: nat where "sealRootLen = 64"
definition sealBlockLen :: nat where "sealBlockLen = 128"
definition sealTagLen :: nat where "sealTagLen = 32"
definition sealNonceLen :: nat where "sealNonceLen = 16"

lemmas seal_lens = sealPrekeyLen_def sealRootLen_def sealBlockLen_def sealTagLen_def sealNonceLen_def

text \<open>The label \<^verbatim>\<open>secmem/seal/v1/mac\<close>.\<close>

definition sealLabelMac :: bytes where
  "sealLabelMac = map (\<lambda>c. of_char c) ''secmem/seal/v1/mac''"

record sealPRFState =
  ipad :: bytes
  opad :: bytes
  inner :: bytes

definition sealPRF_zero :: sealPRFState where
  "sealPRF_zero = \<lparr>ipad = zeros (sealBlockLen + sealBlockLen), opad = zeros (sealBlockLen + sealRootLen),
     inner = zeros sealRootLen\<rparr>"

definition sealPRF_init :: "bytes \<Rightarrow> sealPRFState \<Rightarrow> sealPRFState" where
  "sealPRF_init root st =
     (let i = goCopy 0 root (ipad st); o1 = goCopy 0 root (opad st)
      in st\<lparr>ipad := xorBytes 0x36 (take sealBlockLen i) @ drop sealBlockLen i,
            opad := xorBytes 0x5c (take sealBlockLen o1) @ drop sealBlockLen o1\<rparr>)"

definition sealPRF_prf :: "bytes \<Rightarrow> sealPRFState \<Rightarrow> bytes \<times> sealPRFState" where
  "sealPRF_prf msg st =
     (let n = sealBlockLen + goCopyLen sealBlockLen msg (ipad st);
          i = goCopy sealBlockLen msg (ipad st);
          d = sum512 (take n i);
          o1 = goCopy sealBlockLen d (opad st)
      in (sum512 o1, st\<lparr>ipad := i, inner := d, opad := o1\<rparr>))"

definition sealPRF_done :: "sealPRFState \<Rightarrow> sealPRFState" where
  "sealPRF_done st = \<lparr>ipad = fst (secureWipe (ipad st)), opad = fst (secureWipe (opad st)),
     inner = fst (secureWipe (inner st))\<rparr>"

text \<open>The message, copied piece by piece into an array of its full length.\<close>

definition sealMsg :: "64 word \<Rightarrow> bytes \<Rightarrow> bytes \<Rightarrow> bytes" where
  "sealMsg ident nonce b =
     (let m0 = zeros (length sealLabelMac + 8 + sealNonceLen + 8 + 64);
          n0 = length sealLabelMac; m1 = goCopy 0 sealLabelMac m0;
          m2 = goCopy n0 (beBytes 8 (unat ident)) m1; n1 = n0 + 8;
          m3 = goCopy n1 nonce m2; n2 = n1 + length nonce;
          m4 = goCopy n2 (beBytes 8 (length b mod 2 ^ 64)) m3; n3 = n2 + 8
      in goCopy n3 (sum512 b) m4)"

definition sealComputeTag :: "bytes \<Rightarrow> 64 word \<Rightarrow> bytes \<Rightarrow> bytes \<Rightarrow> bytes" where
  "sealComputeTag prekey ident nonce b =
     take sealTagLen (fst (sealPRF_prf (sealMsg ident nonce b) (sealPRF_init (sum512 prekey) sealPRF_zero)))"

section \<open>The keyring\<close>

text \<open>\<^verbatim>\<open>rand.Read\<close>, which counts as a call.\<close>

definition randRead :: "kernel \<Rightarrow> nat \<Rightarrow> memory \<Rightarrow> bytes option \<times> memory" where
  "randRead k n m = (rand k (calls m) n, m\<lparr>calls := Suc (calls m)\<rparr>)"

definition forgetKeyring :: "world \<Rightarrow> world" where
  "forgetKeyring w = w\<lparr>sealKeys := (sealKeys w)\<lparr>klock := None, kregion := \<lparr>base = Mapped 0, outerLen = 0, innerLen = 0\<rparr>,
     kwiped := 0, kkey := 0\<rparr>\<rparr>"

text \<open>The region is wiped and given back unregistered.\<close>

definition discardRegion :: "kernel \<Rightarrow> secRegion \<Rightarrow> world \<Rightarrow> world option" where
  "discardRegion k r w = do {
     m1 \<leftarrow> secureWipeSlice r 0 (innerLen r) (mem w);
     (case freeSecretMem k r m1 of (_, m2) \<Rightarrow> Some (w\<lparr>mem := m2\<rparr>))
   }"

text \<open>The last part of \<^verbatim>\<open>initLocked\<close>: the registered region is filled and made read-only.\<close>

definition fillPrekey :: "kernel \<Rightarrow> secRegion \<Rightarrow> lockid \<Rightarrow> cell \<Rightarrow> key \<Rightarrow> world \<Rightarrow> (error \<times> world) option" where
  "fillPrekey k r l c key w = (case randRead k (innerLen r) (mem w) of
     (None, m1) \<Rightarrow> do { (_, w1) \<leftarrow> release k key False (w\<lparr>mem := m1\<rparr>); Some (Some ErrOS, w1) }
   | (Some b, m1) \<Rightarrow> do {
       m2 \<leftarrow> writeMem r b m1;
       (case mprotectSecretMem k r PROT_READ m2 of
         (Some e, m3) \<Rightarrow> do { (_, w1) \<leftarrow> release k key False (w\<lparr>mem := m3\<rparr>); Some (Some e, w1) }
       | (None, m3) \<Rightarrow> Some (None, w\<lparr>mem := m3, sealKeys :=
           \<lparr>kregion = r, klock = Some l, kwiped = c, kkey = key, kgen = kgen (sealKeys w) + 1\<rparr>\<rparr>))
     })"

text \<open>
  \<open>initLocked\<close>: first the mapping a wipe has left is reclaimed, then a new region is
  allocated, registered and filled.
\<close>

definition dropPrekey :: "kernel \<Rightarrow> world \<Rightarrow> world option" where
  "dropPrekey k w = (case klock (sealKeys w) of None \<Rightarrow> Some w
     | Some _ \<Rightarrow> do { (_, w') \<leftarrow> release k (kkey (sealKeys w)) False w; Some (forgetKeyring w') })"

definition allocPrekey :: "kernel \<Rightarrow> world \<Rightarrow> (error \<times> world) option" where
  "allocPrekey k w = (case allocSecretMem k (int sealPrekeyLen) (mem w) of
       (Inl e, m2) \<Rightarrow> Some (Some e, w\<lparr>mem := m2\<rparr>)
     | (Inr (r, n, info), m2) \<Rightarrow>
         (if n \<noteq> int (innerLen r) then do {
            w2 \<leftarrow> discardRegion k r (w\<lparr>mem := m2\<rparr>);
            Some (Some (ErrMsg ''allocation is not page-exact''), w2)
          } else
            let (l, w3) = newLock (w\<lparr>mem := m2\<rparr>); (c, w4) = newCell w3
            in case register r zeroLayout l None (Some c) w4 of
              (Inl e, w5) \<Rightarrow> do { w6 \<leftarrow> discardRegion k r w5; Some (Some e, w6) }
            | (Inr key, w5) \<Rightarrow> fillPrekey k r l c key w5))"

definition initLocked :: "kernel \<Rightarrow> world \<Rightarrow> (error \<times> world) option" where
  "initLocked k w = do { w1 \<leftarrow> dropPrekey k w; allocPrekey k w1 }"

definition withPrekey :: "kernel \<Rightarrow> (bytes \<Rightarrow> 64 word \<Rightarrow> err + 'a) \<Rightarrow> world \<Rightarrow> ((err + 'a) \<times> world) option" where
  "withPrekey k fn w = do {
     (e, w1) \<leftarrow> (if klock (sealKeys w) = None \<or> cells w (kwiped (sealKeys w)) then initLocked k w else Some (None, w));
     (case e of Some er \<Rightarrow> Some (Inl er, w1)
      | None \<Rightarrow> (if cells w1 (kwiped (sealKeys w1)) then Some (Inl ErrWiped, w1)
          else do {
            prekey \<leftarrow> readMem (kregion (sealKeys w1)) (mem w1);
            Some (fn prekey (kgen (sealKeys w1)), w1)
          }))
   }"

section \<open>The tag is the standard code\<close>

lemma length_label [simp]: "length sealLabelMac = 18"
  by (simp add: sealLabelMac_def)

text \<open>Copying the next piece into an array filled up to there.\<close>

lemma goCopy_next:
  "n = length pre \<Longrightarrow> length src \<le> z \<Longrightarrow> goCopy n src (pre @ zeros z) = pre @ src @ zeros (z - length src)"
  by (simp add: goCopy_def)

lemma goCopy_first: "length src \<le> z \<Longrightarrow> goCopy 0 src (zeros z) = src @ zeros (z - length src)"
  by (simp add: goCopy_def)

lemma sealMsg_eq:
  assumes "length nonce = sealNonceLen"
  shows "sealMsg ident nonce b =
    sealLabelMac @ beBytes 8 (unat ident) @ nonce @ beBytes 8 (length b mod 2 ^ 64) @ sum512 b"
proof -
  define z where "z = (114 :: nat)"
  let ?p1 = "sealLabelMac" let ?p2 = "?p1 @ beBytes 8 (unat ident)" let ?p3 = "?p2 @ nonce"
  let ?p4 = "?p3 @ beBytes 8 (length b mod 2 ^ 64)"
  have n: "length nonce = 16" using assms by (simp add: sealNonceLen_def)
  have "goCopy 0 ?p1 (zeros z) = ?p1 @ zeros (z - 18)" by (simp add: goCopy_first z_def)
  moreover have "goCopy 18 (beBytes 8 (unat ident)) (?p1 @ zeros (z - 18)) = ?p2 @ zeros (z - 26)"
    by (subst goCopy_next) (simp_all add: z_def)
  moreover have "goCopy 26 nonce (?p2 @ zeros (z - 26)) = ?p3 @ zeros (z - 42)"
    by (subst goCopy_next) (simp_all add: z_def n)
  moreover have "goCopy 42 (beBytes 8 (length b mod 2 ^ 64)) (?p3 @ zeros (z - 42)) = ?p4 @ zeros (z - 50)"
    by (subst goCopy_next) (simp_all add: z_def n)
  moreover have "goCopy 50 (sum512 b) (?p4 @ zeros (z - 50)) = ?p4 @ sum512 b"
    by (subst goCopy_next) (simp_all add: z_def n)
  moreover have "length sealLabelMac + 8 + sealNonceLen + 8 + 64 = z" by (simp add: z_def sealNonceLen_def)
  ultimately show ?thesis by (simp add: sealMsg_def Let_def n)
qed

lemma length_sealMsg: "length nonce = sealNonceLen \<Longrightarrow> length (sealMsg ident nonce b) = 114"
  by (simp add: sealMsg_eq sealNonceLen_def)

lemma xorBytes_append: "xorBytes x (a @ b) = xorBytes x a @ xorBytes x b"
  by (simp add: xorBytes_def)

text \<open>A pad array: the key, the rest of its block xored alike, and room for what follows.\<close>

lemma pad_array:
  assumes "length root \<le> B"
  shows "(let i = goCopy 0 root (zeros (B + z)) in xorBytes x (take B i) @ drop B i) =
    xorBytes x (root @ zeros (B - length root)) @ zeros z"
  using assms by (simp add: goCopy_first Let_def)

lemma sealPRF_prf_HMAC:
  assumes root: "length root = 64" and msg: "length msg \<le> 128"
  shows "fst (sealPRF_prf msg (sealPRF_init root sealPRF_zero)) = HMAC sum512 128 root msg"
proof -
  define B where "B = (128 :: nat)"
  let ?K = "root @ zeros (B - length root)"
  have K: "hmacKey sum512 B root = ?K" using root by (simp add: hmacKey_def B_def)
  have lK: "length ?K = B" using root by (simp add: B_def)
  have "sealPRF_init root sealPRF_zero = \<lparr>ipad = xorBytes 0x36 ?K @ zeros B, opad = xorBytes 0x5c ?K @ zeros 64, inner = zeros 64\<rparr>"
    using pad_array [of root B B "0x36"] pad_array [of root B 64 "0x5c"] root
    by (simp only: sealPRF_init_def sealPRF_zero_def seal_lens B_def [symmetric] Let_def sealPRFState.simps) (simp add: B_def)
  moreover have "goCopy B msg (xorBytes 0x36 ?K @ zeros B) = xorBytes 0x36 ?K @ msg @ zeros (B - length msg)"
    by (rule goCopy_next) (use lK msg in \<open>simp_all add: B_def\<close>)
  moreover have "goCopyLen B msg (xorBytes 0x36 ?K @ zeros B) = length msg"
    using lK msg by (simp add: goCopyLen_def B_def)
  moreover have "goCopy B d (xorBytes 0x5c ?K @ zeros 64) = xorBytes 0x5c ?K @ d" if "length d = 64" for d
    using goCopy_next [of B "xorBytes 0x5c ?K" d 64] lK that by simp
  ultimately show ?thesis
    using lK by (simp add: sealPRF_prf_def HMAC_def K Let_def sealBlockLen_def B_def [symmetric])
qed

section \<open>The keyring and the registry\<close>

text \<open>
  The keyring owns its registration; until the wipe its region is readable and holds a whole
  prekey.
\<close>

definition ring_ok :: "kernel \<Rightarrow> world \<Rightarrow> bool" where
  "ring_ok k w \<longleftrightarrow> (case klock (sealKeys w) of None \<Rightarrow> True
   | Some l \<Rightarrow> owned w (kkey (sealKeys w)) (kregion (sealKeys w)) l zeroLayout None (kwiped (sealKeys w)) \<and>
       (\<not> cells w (kwiped (sealKeys w)) \<longrightarrow>
          (\<exists>mp. region_at (kregion (sealKeys w)) (mem w) mp \<and> mprot mp \<noteq> PROT_NONE)))"

definition ring_keys :: "world \<Rightarrow> key set" where
  "ring_keys w = (if klock (sealKeys w) = None then {} else {kkey (sealKeys w)})"

lemma ring_ok_frame:
  assumes "ring_ok k w" "frame S w w'" "ring_keys w \<inter> S = {}" "sealKeys w' = sealKeys w"
  shows "ring_ok k w'"
proof (cases "klock (sealKeys w)")
  case None
  then show ?thesis using assms(4) by (simp add: ring_ok_def)
next
  case (Some l)
  let ?k = "sealKeys w"
  have o: "owned w (kkey ?k) (kregion ?k) l zeroLayout None (kwiped ?k)" using assms(1) Some by (simp add: ring_ok_def)
  have n: "kkey ?k \<notin> S" using assms(3) Some by (simp add: ring_keys_def)
  obtain e where e: "peekAny (kkey ?k) w = Some e" "jregion e = kregion ?k" "jwiped e = Some (kwiped ?k)"
    using o by (auto simp: owned_def)
  then have "maps (mem w') (base (kregion ?k)) = maps (mem w) (base (kregion ?k))" "cells w' (kwiped ?k) = cells w (kwiped ?k)"
    using frame_kept [OF assms(2) n e(1)] by (auto simp: kept_def cells_of_def)
  then show ?thesis
    using assms(1,4) Some owned_frame [OF o assms(2) n] by (simp add: ring_ok_def region_at_def)
qed

lemma used_mem [simp]: "used (w\<lparr>mem := m\<rparr>) = used w"
  by (simp add: used_def)

lemma owned_mem [simp]:
  "owned (w\<lparr>mem := m\<rparr>) key r mu can sc wp = owned w key r mu can sc wp"
  "owned (w\<lparr>sealKeys := ks\<rparr>) key r mu can sc wp = owned w key r mu can sc wp"
  by (simp_all add: owned_def)

lemma discardRegion_spec:
  assumes I: "jan_inv k w" and r: "base r \<notin> used w" "region_at r (mem w) mp" "mprot mp = PROT_RW"
  obtains m' where "discardRegion k r w = Some (w\<lparr>mem := m'\<rparr>)" "jan_inv k (w\<lparr>mem := m'\<rparr>)" "frame {} w (w\<lparr>mem := m'\<rparr>)"
proof -
  obtain m1 where m1: "secureWipeSlice r 0 (innerLen r) (mem w) = Some m1"
    "mem_upd (base r) (\<lambda>mp. mp\<lparr>mbytes := patch 0 (zeros (innerLen r)) (mbytes mp)\<rparr>) (mem w) m1"
    using secureWipeSlice_Some [OF r(2,3), of 0 "innerLen r"] by auto
  obtain e m2 where m2: "freeSecretMem k r m1 = (e, m2)" by fastforce
  have w2: "mem_within {base r} m1 m2" by (rule freeSecretMem_within [OF m2])
  have same: "maps m2 a = maps (mem w) a" if "a \<in> used w" for a
  proof -
    have "a \<noteq> base r" using that r(1) by auto
    then show ?thesis using w2 mem_updD(2) [OF m1(2), of a] by (simp add: mem_within_def)
  qed
  have "mem_ok m2"
    using mem_ok_dom [OF jan_invD(8) [OF I]] mem_updD(5,6) [OF m1(2)] w2 by (auto simp: mem_within_def)
  then show thesis
    using that [of m2] m1(1) m2 jan_inv_mem [OF I same] by (simp add: discardRegion_def)
qed

text \<open>Releasing the registration of a fresh region.\<close>

lemma release_owned:
  assumes I: "jan_inv k w" and o: "owned w key r mu can sc wp"
  obtains er w' where "release k key h w = Some (er, w')" "jan_inv k w'" "peekAny key w' = None" "frame {key} w w'"
    "sealKeys w' = sealKeys w" "retired r er w (quar w') (mem w')"
proof -
  obtain e where e: "peekAny key w = Some e" "jregion e = r" using o by (auto simp: owned_def)
  from I e(1) obtain er w' where r: "release k key h w = Some (er, w')" "jan_inv k w'" "peekAny key w' = None"
    "\<And>key'. key' \<noteq> key \<Longrightarrow> kept key' w w'" "sealKeys w' = sealKeys w" "cpkg w' = cpkg w"
    "nlocks w' = nlocks w" "ncells w' = ncells w" "retired (jregion e) er w (quar w') (mem w')"
    by (rule release_spec [where lockHeld = h]) blast
  then show thesis using that [OF r(1-3)] e(2) by (simp add: frame_def)
qed

lemma calls_inv: "jan_inv k w \<Longrightarrow> calls (mem w) \<le> n \<Longrightarrow> jan_inv k (w\<lparr>mem := (mem w)\<lparr>calls := n\<rparr>\<rparr>)"
  by (rule jan_inv_mem) (auto intro: mem_ok_dom dest: jan_invD(8))

lemma calls_frame: "frame S w (w\<lparr>mem := (mem w)\<lparr>calls := n\<rparr>\<rparr>)"
  by (simp add: frame_def kept_def)

text \<open>What the keyring guarantees once it was initialised, and what it leaves alone in any case.\<close>

definition ring_step :: "kernel \<Rightarrow> world \<Rightarrow> error \<Rightarrow> world \<Rightarrow> bool" where
  "ring_step k w er w' \<longleftrightarrow> jan_inv k w' \<and> ring_ok k w' \<and> frame (ring_keys w) w w' \<and>
     (er = None \<longrightarrow> klock (sealKeys w') \<noteq> None \<and> \<not> cells w' (kwiped (sealKeys w'))) \<and>
     (\<forall>key\<in>ring_keys w'. key \<in> ring_keys w \<or> peekAny key w = None)"

lemma fillPrekey_spec:
  assumes K: "kernel_ok k" and I: "jan_inv k w" and o: "owned w key r l zeroLayout None c" "\<not> cells w c"
    and mp: "region_at r (mem w) mp" "mprot mp = PROT_RW" and n: "klock (sealKeys w) = None"
  obtains er w' where "fillPrekey k r l c key w = Some (er, w')" "jan_inv k w'" "ring_ok k w'" "frame {key} w w'"
    "er = None \<longrightarrow> klock (sealKeys w') \<noteq> None \<and> \<not> cells w' (kwiped (sealKeys w'))" "ring_keys w' \<subseteq> {key}"
proof -
  let ?m1 = "(mem w)\<lparr>calls := Suc (calls (mem w))\<rparr>"
  have I1: "jan_inv k (w\<lparr>mem := ?m1\<rparr>)" by (rule calls_inv [OF I]) simp
  note result = that
  have none: thesis if f: "fillPrekey k r l c key w = do { (_, w1) \<leftarrow> release k key False w0; Some (Some e, w1) }"
    and w0: "jan_inv k w0" "frame {key} w w0" "owned w0 key r l zeroLayout None c" "sealKeys w0 = sealKeys w" for w0 e
    using w0(1,3)
  proof (rule release_owned [where h = False])
    fix er w1 assume "release k key False w0 = Some (er, w1)" "jan_inv k w1" "frame {key} w0 w1" "sealKeys w1 = sealKeys w0"
    then show thesis
      using result [of "Some e" w1] f w0(2,4) n frame_trans [of "{key}" w w0 w1]
      by (simp add: ring_ok_def ring_keys_def)
  qed
  obtain p where p: "peekAny key w = Some p" "jregion p = r" "jwiped p = Some c" using o(1) by (auto simp: owned_def)
  show thesis
  proof (cases "rand k (calls (mem w)) (innerLen r)")
    case None
    have "owned (w\<lparr>mem := ?m1\<rparr>) key r l zeroLayout None c" using o(1) by simp
    then show thesis using none [of "w\<lparr>mem := ?m1\<rparr>" ErrOS] None I1 calls_frame by (simp add: fillPrekey_def randRead_def)
  next
    case (Some b)
    have lb: "length b = innerLen r" using K Some by (auto simp: kernel_ok_def)
    have r1: "region_at r ?m1 mp" using mp(1) by (simp add: region_at_def)
    let ?m2 = "upd_mapping (base r) (\<lambda>mp. mp\<lparr>mbytes := b\<rparr>) ?m1"
    have w2: "writeMem r b ?m1 = Some ?m2" by (rule writeMem_Some [OF r1 mp(2) lb])
    obtain pe m3 where m3: "mprotectSecretMem k r PROT_READ ?m2 = (pe, m3)" by fastforce
    obtain g where g: "mem_upd (base r) g ?m2 m3" "\<And>x. mbytes (g x) = mbytes x"
        "platform k = Stub \<Longrightarrow> g = (\<lambda>x. x)" "mprot (g x) = mprot x \<or> mprot (g x) = PROT_READ" for x
      using m3 by (cases rule: mprotectSecretMem_cases) (auto split: if_splits)
    let ?f = "\<lambda>_ :: mapping. g (mp\<lparr>mbytes := b\<rparr>)"
    have u: "mem_upd (base r) ?f (mem w) m3" using g(1) mp(1) by (auto simp: mem_upd_def region_at_def)
    have len: "length (mbytes mp) = length b" using mp(1) lb by (simp add: region_at_def)
    let ?w3 = "w\<lparr>mem := m3\<rparr>"
    have fr: "frame {key} w ?w3" using frame_upd [OF I p(1)] u p(2) by simp
    have q: "base r \<notin> fst ` set (held (quar w))" using ownedD(5) [OF o(1) I] .
    have I3: "jan_inv k ?w3"
      by (rule jan_inv_own [OF I p(1), where f = ?f and mp = mp]) (use u g len mp in \<open>auto simp: p(2) region_at_def\<close>)
    have o3: "owned ?w3 key r l zeroLayout None c" using o(1) by simp
    have r3: "region_at r m3 (g (mp\<lparr>mbytes := b\<rparr>))" "mprot (g (mp\<lparr>mbytes := b\<rparr>)) \<noteq> PROT_NONE"
      using mem_updD(1) [OF u] mp g(2,4) lb by (auto simp: region_at_def, metis mapping.select_convs(1) mapping.surjective mapping.update_convs(2) prot.distinct(1,3))
    show thesis
    proof (cases pe)
      case (Some e)
      then show thesis using none [of ?w3 e] \<open>rand k (calls (mem w)) (innerLen r) = Some b\<close> w2 m3 I3 fr o3
        by (simp add: fillPrekey_def randRead_def)
    next
      case None
      let ?w4 = "?w3\<lparr>sealKeys := \<lparr>kregion = r, klock = Some l, kwiped = c, kkey = key, kgen = kgen (sealKeys w) + 1\<rparr>\<rparr>"
      have "fillPrekey k r l c key w = Some (None, ?w4)"
        using None Some w2 m3 by (simp add: fillPrekey_def randRead_def)
      moreover have "ring_ok k ?w4" using o3 r3 o(2) by (auto simp: ring_ok_def)
      ultimately show thesis using result [of None ?w4] I3 fr o(2) by (simp add: ring_keys_def)
    qed
  qed
qed

lemma ring_step_noring:
  assumes "jan_inv k w'" "frame {} w1 w'" "frame (ring_keys w) w w1" "klock (sealKeys w') = None" "er \<noteq> None"
  shows "ring_step k w er w'"
  using assms frame_trans [OF assms(3) frame_mono [OF assms(2)]]
  by (simp add: ring_step_def ring_ok_def ring_keys_def)

text \<open>The part of \<^verbatim>\<open>initLocked\<close> after the old registration is gone.\<close>

lemma initLocked_alloc:
  assumes K: "kernel_ok k" and I: "jan_inv k w1" and fr: "frame (ring_keys w) w w1" and n1: "klock (sealKeys w1) = None"
    and absent: "\<forall>key. peekAny key w1 = None \<longrightarrow> key \<in> ring_keys w \<or> peekAny key w = None"
    and a: "allocSecretMem k sz (mem w1) = (Inr (r, n, info), m2)"
  shows "\<exists>w'. discardRegion k r (w1\<lparr>mem := m2\<rparr>) = Some w' \<and> (\<forall>e. ring_step k w (Some e) w')"
    and "newLock (w1\<lparr>mem := m2\<rparr>) = (l, w3) \<Longrightarrow> newCell w3 = (c, w4) \<Longrightarrow>
      \<exists>er w'. (case register r zeroLayout l None (Some c) w4 of
              (Inl e, w5) \<Rightarrow> do { w6 \<leftarrow> discardRegion k r w5; Some (Some e, w6) }
            | (Inr key, w5) \<Rightarrow> fillPrekey k r l c key w5) = Some (er, w') \<and> ring_step k w er w'"
proof -
  let ?w2 = "w1\<lparr>mem := m2\<rparr>"
  note D = jan_invD [OF I]
  have A: "mem_grow (mem w1) m2" using sec.grows [OF K D(8) a] by simp
  note R = sec.new_region [OF K D(8) a]
  have I2: "jan_inv k ?w2" and f2: "frame {} w1 ?w2" using jan_inv_grow [OF I A] by simp_all
  have nu: "base r \<notin> used w1" using used_mapped [OF I, of "base r"] R(2) by auto
  have rw: "mprot (born k r) = PROT_RW" by (simp add: born_def)
  show "\<exists>w'. discardRegion k r ?w2 = Some w' \<and> (\<forall>e. ring_step k w (Some e) w')"
  proof (rule discardRegion_spec [OF I2, of r "born k r"])
    fix m' assume "discardRegion k r ?w2 = Some (?w2\<lparr>mem := m'\<rparr>)" "jan_inv k (?w2\<lparr>mem := m'\<rparr>)" "frame {} ?w2 (?w2\<lparr>mem := m'\<rparr>)"
    then show ?thesis using ring_step_noring [OF _ frame_trans [OF f2] fr] n1 by simp
  qed (use nu R(1) rw in simp_all)
  assume l: "newLock ?w2 = (l, w3)" and c: "newCell w3 = (c, w4)"
  note L = newLock_inv [OF I2 l] note C = newCell_inv [OF L(1) c]
  have f4: "frame {} w1 w4" using f2 L(2) C(2) frame_trans by blast
  have m4: "mem w4 = m2" "sealKeys w4 = sealKeys w1" "used w4 = used w1" "cells w4 c = False"
    using L C by (simp_all add: used_def)
  have nc: "jmu e \<noteq> l \<and> cells_of e \<inter> {c} = {}" if "peekAny key w1 = Some e" for key e
    using jan_invD(3) [OF I that] L(3) C(3) L(5) by (auto simp: entry_ok_def)
  have fresh: "fresh w4 r l (insert c (set_option None))"
    using nu m4 L C nc by (auto simp: fresh_def)
  have sz: "0 < innerLen r" "innerLen r \<le> outerLen r" using R(4,5,8) by auto
  obtain res w5 where reg: "register r zeroLayout l None (Some c) w4 = (res, w5)" by fastforce
  have mp4: "region_at r (mem w4) (born k r)" using R(1) m4(1) by simp
  have ch: "chain 0 (zones zeroLayout) (int (innerLen r))" using sz by simp
  have e: "None \<noteq> Some c" "zones zeroLayout = [] \<or> canary_ready (cpkg w4)" by simp_all
  note G = register_fresh [OF C(1) fresh e(1) mp4 rw sz ch e(2) reg]
  have G': "jan_inv k w5" "frame {} w1 w5" "mem w5 = m2" "sealKeys w5 = sealKeys w1" "cells w5 = cells w4"
    using G(1,2,5,6,8) m4 frame_trans [OF f4] by auto
  show "\<exists>er w'. (case register r zeroLayout l None (Some c) w4 of
              (Inl e, w5) \<Rightarrow> do { w6 \<leftarrow> discardRegion k r w5; Some (Some e, w6) }
            | (Inr key, w5) \<Rightarrow> fillPrekey k r l c key w5) = Some (er, w') \<and> ring_step k w er w'"
  proof (cases res)
    case (Inl e)
    have nu5: "base r \<notin> used w5" using G(4) [OF Inl] nu m4(3) by simp
    have r5: "region_at r (mem w5) (born k r)" using R(1) G'(3) by simp
    show ?thesis
    proof (rule discardRegion_spec [OF G'(1) nu5 r5 rw])
      fix m' assume "discardRegion k r w5 = Some (w5\<lparr>mem := m'\<rparr>)" "jan_inv k (w5\<lparr>mem := m'\<rparr>)" "frame {} w5 (w5\<lparr>mem := m'\<rparr>)"
      then show ?thesis using reg Inl ring_step_noring [OF _ frame_trans [OF G'(2)] fr] n1 G'(4) by simp
    qed
  next
    case (Inr key)
    have E: "peekAny key w4 = None" "wipedset w5 key = None" "regions w5 key =
       Some \<lparr>jregion = r, jmu = l, jcanary = zeroLayout, jsealCipher = None, jwiped = Some c\<rparr>"
      using G(3) [OF Inr] by simp_all
    then have o: "owned w5 key r l zeroLayout None c" "\<not> cells w5 c"
      using m4(4) G'(5) by (auto simp: owned_def peekAny_def)
    have k1: "peekAny key w1 = None" using E(1) C(9) L(9) by simp
    have r5: "region_at r (mem w5) (born k r)" using R(1) G'(3) by simp
    have n5: "klock (sealKeys w5) = None" using n1 G'(4) by simp
    obtain er w' where F: "fillPrekey k r l c key w5 = Some (er, w')" "jan_inv k w'" "ring_ok k w'" "frame {key} w5 w'"
      "er = None \<longrightarrow> klock (sealKeys w') \<noteq> None \<and> \<not> cells w' (kwiped (sealKeys w'))" "ring_keys w' \<subseteq> {key}"
      by (rule fillPrekey_spec [OF K G'(1) o r5 rw n5])
    have "frame {} w1 w'"
      using frame_fresh [of key "{}" w1 w'] k1 frame_trans [OF frame_mono [OF G'(2)] F(4)] by simp
    then have "frame (ring_keys w) w w'" using frame_trans [OF fr frame_mono] by blast
    moreover have "key \<in> ring_keys w \<or> peekAny key w = None" using absent k1 by simp
    then have "\<forall>x\<in>ring_keys w'. x \<in> ring_keys w \<or> peekAny x w = None" using F(6) by auto
    ultimately show ?thesis using F reg Inr by (auto simp: ring_step_def)
  qed
qed

lemma dropPrekey_spec:
  assumes I: "jan_inv k w" and R: "ring_ok k w"
  obtains w1 where "dropPrekey k w = Some w1" "jan_inv k w1" "frame (ring_keys w) w w1" "klock (sealKeys w1) = None"
    "\<forall>key. peekAny key w1 = None \<longrightarrow> key \<in> ring_keys w \<or> peekAny key w = None"
proof (cases "klock (sealKeys w)")
  case None
  then show thesis using I that [of w] by (simp add: dropPrekey_def)
next
  case (Some l)
  have o: "owned w (kkey (sealKeys w)) (kregion (sealKeys w)) l zeroLayout None (kwiped (sealKeys w))"
    using R Some by (simp add: ring_ok_def)
  show thesis
  proof (rule release_owned [OF I o, where h = False])
    fix er w1 assume r: "release k (kkey (sealKeys w)) False w = Some (er, w1)" "jan_inv k w1"
      "frame {kkey (sealKeys w)} w w1"
    have "key = kkey (sealKeys w) \<or> peekAny key w = None" if "peekAny key w1 = None" for key
      using frame_kept [OF r(3), of key] kept_peek that by fastforce
    then show thesis using that [of "forgetKeyring w1"] r Some by (auto simp: dropPrekey_def forgetKeyring_def ring_keys_def)
  qed
qed

lemma initLocked_spec:
  assumes K: "kernel_ok k" and I: "jan_inv k w" and R: "ring_ok k w"
  shows "\<exists>er w'. initLocked k w = Some (er, w') \<and> ring_step k w er w'"
proof -
  obtain w1 where w1: "dropPrekey k w = Some w1"
    and i1: "jan_inv k w1" "frame (ring_keys w) w w1" "klock (sealKeys w1) = None"
      "\<forall>key. peekAny key w1 = None \<longrightarrow> key \<in> ring_keys w \<or> peekAny key w = None" by (rule dropPrekey_spec [OF I R])
  obtain res m2 where a: "allocSecretMem k (int sealPrekeyLen) (mem w1) = (res, m2)" by fastforce
  show ?thesis
  proof (cases res)
    case (Inl e)
    have "mem_grow (mem w1) m2" using sec.grows [OF K jan_invD(8) [OF i1(1)] a] by simp
    then show ?thesis
      using a Inl w1 ring_step_noring [OF _ _ i1(2)] jan_inv_grow [OF i1(1)] i1(3)
      by (simp add: initLocked_def allocPrekey_def)
  next
    case (Inr t)
    then obtain r n info where t: "res = Inr (r, n, info)" by (cases t) auto
    obtain l w3 where l: "newLock (w1\<lparr>mem := m2\<rparr>) = (l, w3)" by fastforce
    obtain c w4 where c: "newCell w3 = (c, w4)" by fastforce
    note A = initLocked_alloc [OF K i1 a [unfolded t]]
    show ?thesis
    proof (cases "n = int (innerLen r)")
      case True
      then show ?thesis using A(2) [OF l c] w1 a t l c by (simp add: initLocked_def allocPrekey_def)
    next
      case False
      then show ?thesis using A(1) w1 a t by (auto simp: initLocked_def allocPrekey_def)
    qed
  qed
qed

text \<open>
  With a live keyring the callback sees its prekey; otherwise there is an error. Nothing but the
  keyring's own registration is touched.
\<close>

lemma withPrekey_spec:
  assumes K: "kernel_ok k" and I: "jan_inv k w" and R: "ring_ok k w"
  obtains (run) prekey w' where "withPrekey k fn w = Some (fn prekey (kgen (sealKeys w')), w')" "ring_step k w None w'"
      "\<exists>mp. region_at (kregion (sealKeys w')) (mem w') mp \<and> prekey = mbytes mp"
      "klock (sealKeys w) \<noteq> None \<and> \<not> cells w (kwiped (sealKeys w)) \<longrightarrow> w' = w"
  | (failed) e w' where "withPrekey k fn w = Some (Inl e, w')" "ring_step k w (Some e) w'"
      "klock (sealKeys w) = None \<or> cells w (kwiped (sealKeys w))"
proof -
  have live: thesis if w1: "withPrekey k fn w = (if cells w1 (kwiped (sealKeys w1)) then Some (Inl ErrWiped, w1)
          else do { prekey \<leftarrow> readMem (kregion (sealKeys w1)) (mem w1); Some (fn prekey (kgen (sealKeys w1)), w1) })"
    and s: "ring_step k w None w1" "klock (sealKeys w) \<noteq> None \<and> \<not> cells w (kwiped (sealKeys w)) \<longrightarrow> w1 = w" for w1
  proof -
    have "ring_ok k w1" "klock (sealKeys w1) \<noteq> None" "\<not> cells w1 (kwiped (sealKeys w1))"
      using s(1) by (auto simp: ring_step_def)
    then obtain mp where "region_at (kregion (sealKeys w1)) (mem w1) mp" "mprot mp \<noteq> PROT_NONE"
      by (auto simp: ring_ok_def)
    then show thesis using run [of "mbytes mp" w1] w1 s \<open>\<not> cells w1 (kwiped (sealKeys w1))\<close> by auto
  qed
  show thesis
  proof (cases "klock (sealKeys w) = None \<or> cells w (kwiped (sealKeys w))")
    case True
    obtain er w1 where i: "initLocked k w = Some (er, w1)" "ring_step k w er w1"
      using initLocked_spec [OF assms] by blast
    show thesis
    proof (cases er)
      case None
      then show thesis using live [of w1] i True by (auto simp: withPrekey_def)
    next
      case (Some e)
      then show thesis using failed [of e w1] i True by (simp add: withPrekey_def)
    qed
  next
    case False
    then obtain l where "klock (sealKeys w) = Some l" by auto
    then show thesis using False live [of w] I R by (simp add: withPrekey_def ring_step_def)
  qed
qed

text \<open>
  The prekey is 16 KiB. Where the page does not divide that, the allocation is never page-exact
  and the keyring cannot be initialised.
\<close>

lemma initLocked_large_pages:
  assumes K: "kernel_ok k" and I: "jan_inv k w" and R: "ring_ok k w" and pg: "\<not> pageOf k dvd int sealPrekeyLen"
  shows "\<exists>e w'. initLocked k w = Some (Some e, w')"
proof -
  obtain er w' where i: "initLocked k w = Some (er, w')" using initLocked_spec [OF K I R] by blast
  obtain w1 where w1: "dropPrekey k w = Some w1" "jan_inv k w1" by (rule dropPrekey_spec [OF I R])
  obtain res m2 where a: "allocSecretMem k (int sealPrekeyLen) (mem w1) = (res, m2)" by fastforce
  have "er \<noteq> None"
  proof (cases res)
    case (Inl e)
    then show ?thesis using w1(1) a i by (auto simp: initLocked_def allocPrekey_def)
  next
    case (Inr t)
    then obtain r n info where t: "res = Inr (r, n, info)" by (cases t) auto
    have "n \<noteq> int (innerLen r)"
      using sec.new_region(3,7) [OF K jan_invD(8) [OF w1(2)] a [unfolded t]] pg by auto
    then show ?thesis using w1(1) a t i
      by (cases "discardRegion k r (w1\<lparr>mem := m2\<rparr>)") (auto simp: initLocked_def allocPrekey_def)
  qed
  then show ?thesis using i by auto
qed

section \<open>Properties\<close>

text \<open>
  C20. The tag over the bytes at rest is the first 32 bytes of HMAC-SHA-512, keyed with the hash of
  the prekey, of the label, the buffer's identity, the nonce, the length and the hash of the bytes,
  whatever the arrays the in-place computation copies through held before.
\<close>

theorem sealComputeTag_HMAC:
  assumes "length nonce = sealNonceLen"
  shows "sealComputeTag prekey ident nonce b = take 32 (HMAC sum512 128 (sum512 prekey)
     (sealLabelMac @ beBytes 8 (unat ident) @ nonce @ beBytes 8 (length b mod 2 ^ 64) @ sum512 b))"
  using sealPRF_prf_HMAC [of "sum512 prekey" "sealMsg ident nonce b"] length_sealMsg [OF assms] sealMsg_eq [OF assms]
  by (simp add: sealComputeTag_def sealTagLen_def)

theorem sealComputeTag_HMAC_witness:
  "sealComputeTag [1, 2] 5 (zeros sealNonceLen) [3] = take 32 (HMAC sum512 128 (sum512 [1, 2])
     (sealLabelMac @ beBytes 8 5 @ zeros sealNonceLen @ beBytes 8 1 @ sum512 [3]))"
  using sealComputeTag_HMAC [of "zeros sealNonceLen" "[1, 2]" 5 "[3]"] by simp

end
