(* ===== verification/Secure_Buffer.thy ===== *)
theory Secure_Buffer
  imports Seal_Auth
begin

text \<open>
  \<^verbatim>\<open>SecureBuffer\<close>: the constructor options (\<^verbatim>\<open>options.go\<close>), the state of a buffer
  and its life cycle (\<^verbatim>\<open>securebuf.go\<close>), the access methods
  (\<^verbatim>\<open>securebuf_access.go\<close>), the closed-at-rest mode (\<^verbatim>\<open>closedatrest.go\<close>) and
  the scopes (\<^verbatim>\<open>securebuf_scope.go\<close>).

  A method is a function of the buffer's state and of the world, run while it holds the buffer's
  lock; \<open>None\<close> is a memory fault. The data slice starts at the region's first byte, so its
  length describes it. A callback is a function of the bytes it sees that returns its error and the
  bytes it leaves; a reader and a writer are functions of the length asked for and of the bytes
  given.
\<close>

section \<open>Options\<close>

record config =
  insecureFallback :: bool
  cUnauthenticatedSeal :: bool
  cClosedAtRest :: bool
  noMemfdSecret :: bool

type_synonym copt = "config \<Rightarrow> config"

definition config_zero :: config where
  "config_zero = \<lparr>insecureFallback = False, cUnauthenticatedSeal = False, cClosedAtRest = False, noMemfdSecret = False\<rparr>"

definition WithInsecureFallback :: copt where
  "WithInsecureFallback c = c\<lparr>insecureFallback := True\<rparr>"

definition WithUnauthenticatedSeal :: copt where
  "WithUnauthenticatedSeal c = c\<lparr>cUnauthenticatedSeal := True\<rparr>"

definition WithClosedAtRest :: copt where
  "WithClosedAtRest c = c\<lparr>cClosedAtRest := True\<rparr>"

definition WithoutMemfdSecret :: copt where
  "WithoutMemfdSecret c = c\<lparr>noMemfdSecret := True\<rparr>"

definition applyOptions :: "copt option list \<Rightarrow> config" where
  "applyOptions opts = foldl (\<lambda>c o1. case o1 of None \<Rightarrow> c | Some f \<Rightarrow> f c) config_zero opts"

definition gateInsecure :: "bool \<Rightarrow> config \<Rightarrow> error" where
  "gateInsecure platformSecure cfg =
     (if platformSecure then None else if \<not> insecureFallback cfg then Some ErrNoSecureMemory else None)"

definition cfg_alloc :: "config \<Rightarrow> kernel \<Rightarrow> int \<Rightarrow> memory \<Rightarrow> alloc_result \<times> memory" where
  "cfg_alloc cfg k sz m = (if noMemfdSecret cfg then allocMapAnon k sz m else allocSecretMem k sz m)"

section \<open>The state of a buffer\<close>

record bufferState =
  bdata :: "nat option"
  bregion :: secRegion
  bmu :: lockid
  bcleanup :: bool
  bkey :: key
  bsealed :: bool
  breadOnly :: bool
  bcipher :: cell
  bwiped :: cell
  backing :: allocInfo
  bauth :: bool
  btagged :: bool
  bgen :: "64 word"
  bnonce :: bytes
  btag :: bytes
  bclosed :: bool
  bopeners :: int

text \<open>A receiver: a nil pointer, a zero value, or a buffer a constructor returned.\<close>

datatype SecureBuffer = NilPtr | ZeroValue | Live bufferState

definition noRegion :: secRegion where
  "noRegion = \<lparr>base = Mapped 0, outerLen = 0, innerLen = 0\<rparr>"

text \<open>The test \<^verbatim>\<open>region.inner == nil\<close>: no constructor makes an empty region.\<close>

definition destroyed :: "bufferState \<Rightarrow> bool" where
  "destroyed b \<longleftrightarrow> innerLen (bregion b) = 0"

definition setCell :: "cell \<Rightarrow> bool \<Rightarrow> world \<Rightarrow> world" where
  "setCell c v w = w\<lparr>cells := (cells w)(c := v)\<rparr>"

section \<open>Closed at rest\<close>

definition restProtection :: "bufferState \<Rightarrow> prot" where
  "restProtection b = (if bclosed b then PROT_NONE else if breadOnly b then PROT_READ else PROT_RW)"

definition openBuf :: "kernel \<Rightarrow> bufferState \<Rightarrow> world \<Rightarrow> error \<times> bufferState \<times> world" where
  "openBuf k b w =
     (if \<not> bclosed b then (None, b, w)
      else if bopeners b = 0 then
        case mprotectSecretMem k (bregion b) (if breadOnly b then PROT_READ else PROT_RW) (mem w) of
          (Some e, m1) \<Rightarrow> (Some e, b, w\<lparr>mem := m1\<rparr>)
        | (None, m1) \<Rightarrow> (case relockSecretMem k (bregion b) m1 of
            (Some e, m2) \<Rightarrow> (Some e, b, w\<lparr>mem := snd (mprotectSecretMem k (bregion b) PROT_NONE m2)\<rparr>)
          | (None, m2) \<Rightarrow> (None, b\<lparr>bopeners := bopeners b + 1\<rparr>, w\<lparr>mem := m2\<rparr>))
      else (None, b\<lparr>bopeners := bopeners b + 1\<rparr>, w))"

definition closeBuf :: "kernel \<Rightarrow> bufferState \<Rightarrow> world \<Rightarrow> error \<times> bufferState \<times> world" where
  "closeBuf k b w =
     (if \<not> bclosed b then (None, b, w)
      else let b1 = b\<lparr>bopeners := bopeners b - 1\<rparr> in
        if 0 < bopeners b1 then (None, b1, w)
        else case mprotectSecretMem k (bregion b) PROT_NONE (mem w) of (e, m1) \<Rightarrow> (e, b1, w\<lparr>mem := m1\<rparr>))"

text \<open>The data slice: its bytes, and the bytes after a copy or a callback wrote through it.\<close>

definition readData :: "bufferState \<Rightarrow> world \<Rightarrow> bytes option" where
  "readData b w = do { c \<leftarrow> readMem (bregion b) (mem w); Some (take (the (bdata b)) c) }"

definition writeData :: "bufferState \<Rightarrow> bytes \<Rightarrow> world \<Rightarrow> world option" where
  "writeData b new w = do {
     c \<leftarrow> readMem (bregion b) (mem w);
     (let c' = goCopy 0 new (take (the (bdata b)) c) @ drop (the (bdata b)) c
      in if c' = c then Some w
         else do { m \<leftarrow> writeMem (bregion b) c' (mem w); Some (w\<lparr>mem := m\<rparr>) })
   }"

text \<open>Open, run \<open>act\<close>, close; the error of the close comes back beside the result.\<close>

definition whileOpen ::
    "kernel \<Rightarrow> (bufferState \<Rightarrow> world \<Rightarrow> ('a \<times> world) option) \<Rightarrow> 'a \<Rightarrow> bufferState \<Rightarrow> world \<Rightarrow>
     ('a \<times> error \<times> error \<times> bufferState \<times> world) option" where
  "whileOpen k act dflt b w = (case openBuf k b w of
     (Some e, b1, w1) \<Rightarrow> Some (dflt, Some e, None, b1, w1)
   | (None, b1, w1) \<Rightarrow> do {
       (x, w2) \<leftarrow> act b1 w1;
       (case closeBuf k b1 w2 of (ce, b3, w3) \<Rightarrow> Some (x, None, ce, b3, w3))
     })"

definition runCallback :: "(bytes \<Rightarrow> error \<times> bytes) \<Rightarrow> bufferState \<Rightarrow> world \<Rightarrow> (error \<times> world) option" where
  "runCallback fn b w = do {
     c \<leftarrow> readData b w;
     w1 \<leftarrow> writeData b (snd (fn c)) w;
     Some (fst (fn c), w1)
   }"

definition borrowClosed ::
    "kernel \<Rightarrow> (bytes \<Rightarrow> error \<times> bytes) \<Rightarrow> bufferState \<Rightarrow> world \<Rightarrow> (error \<times> bufferState \<times> world) option" where
  "borrowClosed k fn b w = do {
     (re, oe, ce, b1, w1) \<leftarrow> whileOpen k (runCallback fn) None b w;
     Some (case oe of Some e \<Rightarrow> Some e | None \<Rightarrow> (case re of Some e \<Rightarrow> Some e | None \<Rightarrow> ce), b1, w1)
   }"

text \<open>\<^verbatim>\<open>copy(dst, s.data[off:hi])\<close>: the count and the destination after it.\<close>

definition copyFrom :: "nat \<Rightarrow> nat \<Rightarrow> bytes \<Rightarrow> bufferState \<Rightarrow> world \<Rightarrow> ((int \<times> bytes) \<times> world) option" where
  "copyFrom off hi dst b w = do {
     c \<leftarrow> readData b w;
     (let src = subslice off hi c in Some ((int (goCopyLen 0 src dst), goCopy 0 src dst), w))
   }"

text \<open>\<^verbatim>\<open>copy(s.data[off:hi], src)\<close>.\<close>

definition copyInto :: "nat \<Rightarrow> nat \<Rightarrow> bytes \<Rightarrow> bufferState \<Rightarrow> world \<Rightarrow> (int \<times> world) option" where
  "copyInto off hi src b w = do {
     c \<leftarrow> readData b w;
     (let dst = subslice off hi c in do {
        w1 \<leftarrow> writeData b (patch off (goCopy 0 src dst) c) w;
        Some (int (goCopyLen 0 src dst), w1)
      })
   }"

definition copyClosed ::
    "kernel \<Rightarrow> (bufferState \<Rightarrow> world \<Rightarrow> ('a \<times> world) option) \<Rightarrow> 'a \<Rightarrow> bufferState \<Rightarrow> world \<Rightarrow>
     ('a \<times> error \<times> bufferState \<times> world) option" where
  "copyClosed k cp dflt b w = do {
     (n, oe, ce, b1, w1) \<leftarrow> whileOpen k cp dflt b w;
     Some (n, if oe \<noteq> None then oe else ce, b1, w1)
   }"

definition compareData :: "bytes \<Rightarrow> bufferState \<Rightarrow> world \<Rightarrow> (bool \<times> world) option" where
  "compareData other b w = do { c \<leftarrow> readData b w; Some (c = other, w) }"

definition equalClosed ::
    "kernel \<Rightarrow> bytes \<Rightarrow> bufferState \<Rightarrow> world \<Rightarrow> (bool \<times> error \<times> bufferState \<times> world) option" where
  "equalClosed k other b w = copyClosed k (compareData other) False b w"

definition store ::
    "kernel \<Rightarrow> nat \<Rightarrow> nat \<Rightarrow> bytes \<Rightarrow> bufferState \<Rightarrow> world \<Rightarrow> (int \<times> error \<times> bufferState \<times> world) option" where
  "store k off hi src b w =
     (if bclosed b then copyClosed k (copyInto off hi src) 0 b w
      else do { (n, w1) \<leftarrow> copyInto off hi src b w; Some (n, None, b, w1) })"

section \<open>Sealing\<close>

definition sealAuthenticate :: "kernel \<Rightarrow> bufferState \<Rightarrow> world \<Rightarrow> (error \<times> bufferState \<times> world) option" where
  "sealAuthenticate k b w = (case randRead k sealNonceLen (mem w) of
     (None, m1) \<Rightarrow> Some (Some ErrOS, b, w\<lparr>mem := m1\<rparr>)
   | (Some nonce, m1) \<Rightarrow> (let b1 = b\<lparr>bnonce := nonce\<rparr> in do {
       bs \<leftarrow> readMem (bregion b) m1;
       (r, w2) \<leftarrow> withPrekey k (\<lambda>prekey gen. Inr (gen, sealComputeTag prekey (bkey b) nonce bs)) (w\<lparr>mem := m1\<rparr>);
       Some (case r of Inl e \<Rightarrow> (Some e, b1, w2)
         | Inr (gen, tag) \<Rightarrow> (None, b1\<lparr>bgen := gen, btag := tag, btagged := True\<rparr>, w2))
     }))"

definition sealVerify :: "kernel \<Rightarrow> bufferState \<Rightarrow> world \<Rightarrow> (error \<times> world) option" where
  "sealVerify k b w = do {
     bs \<leftarrow> readMem (bregion b) (mem w);
     (r, w1) \<leftarrow> withPrekey k (\<lambda>prekey gen. if gen \<noteq> bgen b then Inl ErrWiped
         else Inr (sealComputeTag prekey (bkey b) (bnonce b) bs)) w;
     Some (case r of Inl e \<Rightarrow> Some e | Inr want \<Rightarrow> if want \<noteq> btag b then Some ErrIntegrity else None, w1)
   }"

definition reapplyReadOnly :: "kernel \<Rightarrow> bufferState \<Rightarrow> world \<Rightarrow> world" where
  "reapplyReadOnly k b w =
     (if restProtection b \<noteq> PROT_RW then w\<lparr>mem := snd (mprotectSecretMem k (bregion b) (restProtection b) (mem w))\<rparr> else w)"

definition protectNone :: "kernel \<Rightarrow> bufferState \<Rightarrow> world \<Rightarrow> world" where
  "protectNone k b w = w\<lparr>mem := snd (mprotectSecretMem k (bregion b) PROT_NONE (mem w))\<rparr>"

definition rollbackSeal :: "kernel \<Rightarrow> bool \<Rightarrow> err \<Rightarrow> bufferState \<Rightarrow> world \<Rightarrow> (error \<times> bufferState \<times> world) option" where
  "rollbackSeal k applied cause b w =
     (if applied then do {
        (de, m1) \<leftarrow> sealDecrypt k (bregion b) (mem w);
        (case de of
          Some e \<Rightarrow> (let b1 = b\<lparr>bsealed := True\<rparr> in
            Some (Some (ErrJoin cause e), b1, reapplyReadOnly k b1 (w\<lparr>mem := m1\<rparr>)))
        | None \<Rightarrow> (let b1 = b\<lparr>btagged := False\<rparr> in
            Some (Some cause, b1, reapplyReadOnly k b1 (setCell (bcipher b) False (w\<lparr>mem := m1\<rparr>)))))
      } else let b1 = b\<lparr>btagged := False\<rparr> in Some (Some cause, b1, reapplyReadOnly k b1 w))"

text \<open>\<^verbatim>\<open>Seal\<close> from the cipher on, with the region writable.\<close>

definition sealTail :: "kernel \<Rightarrow> bool \<Rightarrow> bufferState \<Rightarrow> world \<Rightarrow> (error \<times> bufferState \<times> world) option" where
  "sealTail k applied b w = do {
     (ae, b1, w1) \<leftarrow> (if bauth b then sealAuthenticate k b w else Some (None, b, w));
     (case ae of
       Some e \<Rightarrow> rollbackSeal k applied e b1 w1
     | None \<Rightarrow> (case mprotectSecretMem k (bregion b1) PROT_NONE (mem w1) of
         (Some e, m2) \<Rightarrow> rollbackSeal k applied e b1 (w1\<lparr>mem := m2\<rparr>)
       | (None, m2) \<Rightarrow> Some (None, b1\<lparr>bsealed := True\<rparr>, w1\<lparr>mem := m2\<rparr>)))
   }"

definition sealBody :: "kernel \<Rightarrow> bufferState \<Rightarrow> world \<Rightarrow> (error \<times> bufferState \<times> world) option" where
  "sealBody k b w = (let b1 = b\<lparr>btagged := False\<rparr> in do {
     (applied, ee, m1) \<leftarrow> sealEncrypt k (bregion b) (mem w);
     (case ee of
       Some e \<Rightarrow> Some (Some e, b1, reapplyReadOnly k b1 (w\<lparr>mem := m1\<rparr>))
     | None \<Rightarrow> sealTail k applied b1 (if applied then setCell (bcipher b) True (w\<lparr>mem := m1\<rparr>) else w\<lparr>mem := m1\<rparr>))
   })"

definition Seal :: "kernel \<Rightarrow> bufferState \<Rightarrow> world \<Rightarrow> (error \<times> bufferState \<times> world) option" where
  "Seal k b w =
     (if destroyed b then Some (Some ErrDestroyed, b, w)
      else if cells w (bwiped b) then Some (Some ErrWiped, b, w)
      else if bsealed b then Some (None, b, w)
      else if cells w (bcipher b) then Some (Some (ErrMsg ''contents are already ciphertext''), b\<lparr>bsealed := True\<rparr>, w)
      else if breadOnly b \<or> bclosed b then
        case mprotectSecretMem k (bregion b) PROT_RW (mem w) of
          (Some e, m1) \<Rightarrow> Some (Some e, b, w\<lparr>mem := m1\<rparr>)
        | (None, m1) \<Rightarrow> sealBody k b (w\<lparr>mem := m1\<rparr>)
      else sealBody k b w)"

text \<open>\<^verbatim>\<open>Unseal\<close> from its last step backwards.\<close>

definition unsealRestore :: "kernel \<Rightarrow> bufferState \<Rightarrow> world \<Rightarrow> (error \<times> bufferState \<times> world) option" where
  "unsealRestore k b w =
     (let ok = b\<lparr>bsealed := False, btagged := False\<rparr> in
      if restProtection b \<noteq> PROT_RW then
        case mprotectSecretMem k (bregion b) (restProtection b) (mem w) of
          (None, m1) \<Rightarrow> Some (None, ok, w\<lparr>mem := m1\<rparr>)
        | (Some e, m1) \<Rightarrow> do {
            (applied, ee, m2) \<leftarrow> sealEncrypt k (bregion b) m1;
            (let w2 = (if ee = None \<and> applied then setCell (bcipher b) True (w\<lparr>mem := m2\<rparr>) else w\<lparr>mem := m2\<rparr>);
                 b1 = b\<lparr>btagged := False\<rparr> in do {
              (_, b3, w3) \<leftarrow> (if bauth b then sealAuthenticate k b1 w2 else Some (None, b1, w2));
              Some (Some e, b3, protectNone k b3 w3)
            })
          }
      else Some (None, ok, w))"

definition unsealDecrypt :: "kernel \<Rightarrow> bufferState \<Rightarrow> world \<Rightarrow> (error \<times> bufferState \<times> world) option" where
  "unsealDecrypt k b w =
     (if cells w (bcipher b) then do {
        (de, m1) \<leftarrow> sealDecrypt k (bregion b) (mem w);
        (case de of
          Some e \<Rightarrow> Some (Some e, b, protectNone k b (w\<lparr>mem := m1\<rparr>))
        | None \<Rightarrow> unsealRestore k b (setCell (bcipher b) False (w\<lparr>mem := m1\<rparr>)))
      } else unsealRestore k b w)"

definition unsealVerify :: "kernel \<Rightarrow> bufferState \<Rightarrow> world \<Rightarrow> (error \<times> bufferState \<times> world) option" where
  "unsealVerify k b w = do {
     (ve, w1) \<leftarrow> (if btagged b then sealVerify k b w else Some (None, w));
     (case ve of
       Some e \<Rightarrow> Some (Some e, b, protectNone k b w1)
     | None \<Rightarrow> unsealDecrypt k b w1)
   }"

definition Unseal :: "kernel \<Rightarrow> bufferState \<Rightarrow> world \<Rightarrow> (error \<times> bufferState \<times> world) option" where
  "Unseal k b w =
     (if destroyed b then Some (Some ErrDestroyed, b, w)
      else if cells w (bwiped b) then Some (Some ErrWiped, b, w)
      else if \<not> bsealed b then Some (None, b, w)
      else case mprotectSecretMem k (bregion b) PROT_RW (mem w) of
        (Some e, m1) \<Rightarrow> Some (Some e, b, w\<lparr>mem := m1\<rparr>)
      | (None, m1) \<Rightarrow> (case relockSecretMem k (bregion b) m1 of
          (Some e, m2) \<Rightarrow> Some (Some e, b, protectNone k b (w\<lparr>mem := m2\<rparr>))
        | (None, m2) \<Rightarrow> unsealVerify k b (w\<lparr>mem := m2\<rparr>)))"

section \<open>Life cycle\<close>

text \<open>The check and the decryption that \<^verbatim>\<open>Destroy\<close> makes before it releases the region.\<close>

definition destroyPrepare :: "kernel \<Rightarrow> bufferState \<Rightarrow> world \<Rightarrow> (error \<times> world) option" where
  "destroyPrepare k b w =
     (let verify = bsealed b \<and> btagged b \<and> \<not> cells w (bwiped b) in
      if verify \<or> cells w (bcipher b) then
        case mprotectSecretMem k (bregion b) PROT_RW (mem w) of
          (Some e, m1) \<Rightarrow> Some (None, w\<lparr>mem := m1\<rparr>)
        | (None, m1) \<Rightarrow> do {
            (ie, w2) \<leftarrow> (let w1 = w\<lparr>mem := snd (relockSecretMem k (bregion b) m1)\<rparr> in
              if verify then do {
                (ve, w') \<leftarrow> sealVerify k b w1;
                Some (if errorIs ve ErrIntegrity then ve else None, w')
              } else Some (None, w1));
            (if cells w2 (bcipher b) then do {
               (de, m3) \<leftarrow> sealDecrypt k (bregion b) (mem w2);
               Some (ie, if de = None then setCell (bcipher b) False (w2\<lparr>mem := m3\<rparr>) else w2\<lparr>mem := m3\<rparr>)
             } else Some (ie, w2))
          }
      else Some (None, w))"

definition Destroy :: "kernel \<Rightarrow> bufferState \<Rightarrow> world \<Rightarrow> (error \<times> bufferState \<times> world) option" where
  "Destroy k b w =
     (if destroyed b then Some (None, b, w)
      else do {
        (ie, w1) \<leftarrow> destroyPrepare k b w;
        (re, w2) \<leftarrow> release k (bkey b) True w1;
        Some (errorsJoin ie re, b\<lparr>bcleanup := False, bdata := None, bregion := noRegion\<rparr>, w2)
      })"

text \<open>The registered clean-up, which runs when the last handle is unreachable.\<close>

definition gcCleanup :: "kernel \<Rightarrow> bufferState \<Rightarrow> world \<Rightarrow> (error \<times> world) option" where
  "gcCleanup k b w = (if bcleanup b then release k (bkey b) False w else Some (None, w))"

definition newSecureBuffer ::
    "kernel \<Rightarrow> secRegion \<Rightarrow> nat \<Rightarrow> allocInfo \<Rightarrow> config \<Rightarrow> world \<Rightarrow> ((err + bufferState) \<times> world) option" where
  "newSecureBuffer k r n info cfg w =
     (let info1 = info\<lparr>unauthenticatedSeal := cUnauthenticatedSeal cfg\<rparr>;
          (mu, w1) = newLock w; (sc, w2) = newCell w1; (wp, w3) = newCell w2;
          st = \<lparr>bdata = Some n, bregion = r, bmu = mu, bcleanup = False, bkey = 0, bsealed = False, breadOnly = False,
                bcipher = sc, bwiped = wp, backing = info1, bauth = \<not> cUnauthenticatedSeal cfg, btagged = False,
                bgen = 0, bnonce = zeros sealNonceLen, btag = zeros sealTagLen, bclosed = False, bopeners = 0\<rparr>
      in case register r (bufferCanary (int n) (int (innerLen r))) mu (Some sc) (Some wp) w3 of
        (Inl e, w4) \<Rightarrow> do { w5 \<leftarrow> discardRegion k r w4; Some (Inl e, w5) }
      | (Inr key, w4) \<Rightarrow>
          (let st1 = st\<lparr>bkey := key, bcleanup := True\<rparr> in
           if cClosedAtRest cfg \<and> \<not> insecure info1 then
             case mprotectSecretMem k r PROT_NONE (mem w4) of
               (Some e, m5) \<Rightarrow> do { (_, _, w6) \<leftarrow> Destroy k st1 (w4\<lparr>mem := m5\<rparr>); Some (Inl e, w6) }
             | (None, m5) \<Rightarrow> Some (Inr (st1\<lparr>bclosed := True, backing := info1\<lparr>closedAtRest := True\<rparr>\<rparr>), w4\<lparr>mem := m5\<rparr>)
           else Some (Inr st1, w4)))"

text \<open>The slack behind the data is filled with the canary pattern, or the region is given back.\<close>

definition fillSlack :: "kernel \<Rightarrow> secRegion \<Rightarrow> nat \<Rightarrow> world \<Rightarrow> (error \<times> world) option" where
  "fillSlack k r n w = do {
     b \<leftarrow> readMem r (mem w);
     (case fillCanary (rand k (calls (mem w)) canaryLen) (drop n b) (cpkg w) of
       (Some e, _, c) \<Rightarrow> Some (Some e, w\<lparr>cpkg := c, mem := snd (freeSecretMem k r (mem w))\<rparr>)
     | (None, z, c) \<Rightarrow> do { m1 \<leftarrow> writeMem r (take n b @ z) (mem w); Some (None, w\<lparr>cpkg := c, mem := m1\<rparr>) })
   }"

text \<open>The part the two constructors have in common, from the degradation gate on.\<close>

definition allocBuffer :: "kernel \<Rightarrow> int \<Rightarrow> config \<Rightarrow> world \<Rightarrow> ((err + bufferState) \<times> world) option" where
  "allocBuffer k sz cfg w =
     (case gateInsecure (platformHasSecureMemory k) cfg of
       Some e \<Rightarrow> Some (Inl e, w)
     | None \<Rightarrow> (case cfg_alloc cfg k sz (mem w) of
         (Inl e, m1) \<Rightarrow> Some (Inl e, w\<lparr>mem := m1\<rparr>)
       | (Inr (r, n, info), m1) \<Rightarrow> do {
           (fe, w2) \<leftarrow> fillSlack k r (nat n) (w\<lparr>mem := m1\<rparr>);
           (case fe of Some e \<Rightarrow> Some (Inl e, w2)
            | None \<Rightarrow> newSecureBuffer k r (nat n) info cfg w2)
         }))"

definition NewEmptyBuffer :: "kernel \<Rightarrow> int \<Rightarrow> copt option list \<Rightarrow> world \<Rightarrow> ((err + bufferState) \<times> world) option" where
  "NewEmptyBuffer k sz opts w =
     (if sz \<le> 0 then Some (Inl (ErrMsg ''invalid size''), w) else allocBuffer k sz (applyOptions opts) w)"

definition fillInitial :: "kernel \<Rightarrow> bytes \<Rightarrow> bufferState \<Rightarrow> world \<Rightarrow> (error \<times> bufferState \<times> world) option" where
  "fillInitial k raw b w =
     (if cells w (bwiped b) then do { (_, b1, w1) \<leftarrow> Destroy k b w; Some (Some ErrWiped, b1, w1) }
      else do {
        (_, oe, ce, b1, w1) \<leftarrow> whileOpen k (copyInto 0 (the (bdata b)) raw) 0 b w;
        (case (if oe \<noteq> None then oe else ce) of
          None \<Rightarrow> Some (None, b1, w1)
        | Some e \<Rightarrow> do { (_, b2, w2) \<leftarrow> Destroy k b1 w1; Some (Some e, b2, w2) })
      })"

text \<open>\<open>NewBuffer\<close> also returns what is left in the caller's slice.\<close>

definition NewBuffer :: "kernel \<Rightarrow> bytes \<Rightarrow> copt option list \<Rightarrow> world \<Rightarrow> ((err + bufferState) \<times> bytes \<times> world) option" where
  "NewBuffer k raw opts w =
     (if raw = [] then Some (Inl (ErrMsg ''empty input''), raw, w)
      else do {
        (res, w1) \<leftarrow> allocBuffer k (int (length raw)) (applyOptions opts) w;
        (case res of
          Inl e \<Rightarrow> Some (Inl e, fst (secureWipe raw), w1)
        | Inr b \<Rightarrow> do {
            (fe, b1, w2) \<leftarrow> fillInitial k raw b w1;
            Some (case fe of Some e \<Rightarrow> Inl e | None \<Rightarrow> Inr b1, fst (secureWipe raw), w2)
          })
      })"

definition ReadOnly :: "kernel \<Rightarrow> bufferState \<Rightarrow> world \<Rightarrow> (error \<times> bufferState \<times> world) option" where
  "ReadOnly k b w =
     (if destroyed b then Some (Some ErrDestroyed, b, w)
      else if cells w (bwiped b) then Some (Some ErrWiped, b, w)
      else if bsealed b then Some (Some ErrSealed, b, w)
      else if \<not> bclosed b then
        case mprotectSecretMem k (bregion b) PROT_READ (mem w) of
          (Some e, m1) \<Rightarrow> Some (Some e, b, w\<lparr>mem := m1\<rparr>)
        | (None, m1) \<Rightarrow> Some (None, b\<lparr>breadOnly := True\<rparr>, w\<lparr>mem := m1\<rparr>)
      else Some (None, b\<lparr>breadOnly := True\<rparr>, w))"

definition ReadWrite :: "kernel \<Rightarrow> bufferState \<Rightarrow> world \<Rightarrow> (error \<times> bufferState \<times> world) option" where
  "ReadWrite k b w =
     (if destroyed b then Some (Some ErrDestroyed, b, w)
      else if cells w (bwiped b) then Some (Some ErrWiped, b, w)
      else if bsealed b then Some (Some ErrSealed, b, w)
      else if \<not> bclosed b then
        case mprotectSecretMem k (bregion b) PROT_RW (mem w) of
          (Some e, m1) \<Rightarrow> Some (Some e, b, w\<lparr>mem := m1\<rparr>)
        | (None, m1) \<Rightarrow> Some (None, b\<lparr>breadOnly := False\<rparr>, w\<lparr>mem := m1\<rparr>)
      else Some (None, b\<lparr>breadOnly := False\<rparr>, w))"

definition wipeTail :: "nat \<Rightarrow> bufferState \<Rightarrow> world \<Rightarrow> (int \<times> world) option" where
  "wipeTail n b w = do {
     m \<leftarrow> secureWipeSlice (bregion b) n (the (bdata b)) (mem w);
     Some (0, w\<lparr>mem := m\<rparr>)
   }"

definition Truncate :: "kernel \<Rightarrow> int \<Rightarrow> bufferState \<Rightarrow> world \<Rightarrow> (error \<times> bufferState \<times> world) option" where
  "Truncate k n b w =
     (if destroyed b then Some (Some ErrDestroyed, b, w)
      else if cells w (bwiped b) then Some (Some ErrWiped, b, w)
      else if bsealed b then Some (Some ErrSealed, b, w)
      else if breadOnly b then Some (Some ErrReadOnly, b, w)
      else if n < 0 \<or> int (the (bdata b)) < n then Some (Some (ErrMsg ''out of range''), b, w)
      else if nat n < the (bdata b) then do {
        (_, oe, ce, b1, w1) \<leftarrow> whileOpen k (wipeTail (nat n)) 0 b w;
        (case (if oe \<noteq> None then oe else ce) of
          Some e \<Rightarrow> Some (Some e, b1, w1)
        | None \<Rightarrow> Some (None, b1\<lparr>bdata := Some (nat n)\<rparr>, w1))
      } else Some (None, b\<lparr>bdata := Some (nat n)\<rparr>, w))"

section \<open>Access\<close>

text \<open>The checks every access method begins with.\<close>

definition readGuard :: "bufferState \<Rightarrow> world \<Rightarrow> error" where
  "readGuard b w =
     (if bdata b = None then Some ErrDestroyed else if cells w (bwiped b) then Some ErrWiped
      else if bsealed b then Some ErrSealed else None)"

definition writeGuard :: "bufferState \<Rightarrow> world \<Rightarrow> error" where
  "writeGuard b w = (case readGuard b w of Some e \<Rightarrow> Some e | None \<Rightarrow> if breadOnly b then Some ErrReadOnly else None)"

definition WithBytesErr ::
    "kernel \<Rightarrow> (bytes \<Rightarrow> error \<times> bytes) option \<Rightarrow> bufferState \<Rightarrow> world \<Rightarrow> (error \<times> bufferState \<times> world) option" where
  "WithBytesErr k fn b w = (case fn of None \<Rightarrow> Some (Some (ErrMsg ''nil fn''), b, w)
   | Some f \<Rightarrow> (case readGuard b w of Some e \<Rightarrow> Some (Some e, b, w)
     | None \<Rightarrow> (if bclosed b then borrowClosed k f b w
         else do { (e, w1) \<leftarrow> runCallback f b w; Some (e, b, w1) })))"

definition WithBytes ::
    "kernel \<Rightarrow> (bytes \<Rightarrow> bytes) option \<Rightarrow> bufferState \<Rightarrow> world \<Rightarrow> (error \<times> bufferState \<times> world) option" where
  "WithBytes k fn b w = (case fn of None \<Rightarrow> Some (Some (ErrMsg ''nil fn''), b, w)
   | Some f \<Rightarrow> (case readGuard b w of Some e \<Rightarrow> Some (Some e, b, w)
     | None \<Rightarrow> (if bclosed b then borrowClosed k (\<lambda>c. (None, f c)) b w
         else do { (_, w1) \<leftarrow> runCallback (\<lambda>c. (None, f c)) b w; Some (None, b, w1) })))"

definition ExposeString :: "kernel \<Rightarrow> bufferState \<Rightarrow> world \<Rightarrow> (bytes \<times> error \<times> bufferState \<times> world) option" where
  "ExposeString k b w = (case readGuard b w of Some e \<Rightarrow> Some ([], Some e, b, w)
   | None \<Rightarrow> do {
       (str, oe, ce, b1, w1) \<leftarrow> whileOpen k (\<lambda>b w. do { c \<leftarrow> readData b w; Some (c, w) }) [] b w;
       (let e = (if oe \<noteq> None then oe else ce) in Some (if e = None then str else [], e, b1, w1))
     })"

definition CopyOut ::
    "kernel \<Rightarrow> bytes \<Rightarrow> int \<Rightarrow> bufferState \<Rightarrow> world \<Rightarrow> ((int \<times> bytes) \<times> error \<times> bufferState \<times> world) option" where
  "CopyOut k dst off b w = (case readGuard b w of Some e \<Rightarrow> Some ((0, dst), Some e, b, w)
   | None \<Rightarrow> (if off < 0 \<or> int (the (bdata b)) \<le> off then Some ((0, dst), Some (ErrMsg ''out of range''), b, w)
       else if bclosed b then copyClosed k (copyFrom (nat off) (the (bdata b)) dst) (0, dst) b w
       else do { (r, w1) \<leftarrow> copyFrom (nat off) (the (bdata b)) dst b w; Some (r, None, b, w1) }))"

definition CopyIn ::
    "kernel \<Rightarrow> bytes \<Rightarrow> int \<Rightarrow> bufferState \<Rightarrow> world \<Rightarrow> (int \<times> error \<times> bufferState \<times> world) option" where
  "CopyIn k src off b w = (case writeGuard b w of Some e \<Rightarrow> Some (0, Some e, b, w)
   | None \<Rightarrow> (if off < 0 \<or> int (the (bdata b)) \<le> off then Some (0, Some (ErrMsg ''out of range''), b, w)
       else store k (nat off) (the (bdata b)) src b w))"

definition ByteAt :: "kernel \<Rightarrow> int \<Rightarrow> bufferState \<Rightarrow> world \<Rightarrow> (byte \<times> error \<times> bufferState \<times> world) option" where
  "ByteAt k i b w = (case readGuard b w of Some e \<Rightarrow> Some (0, Some e, b, w)
   | None \<Rightarrow> (if i < 0 \<or> int (the (bdata b)) \<le> i then Some (0, Some (ErrMsg ''out of range''), b, w)
       else if bclosed b then do {
         ((_, one), e, b1, w1) \<leftarrow> copyClosed k (copyFrom (nat i) (nat i + 1) [0]) (0, [0]) b w;
         Some (one ! 0, e, b1, w1)
       } else do { c \<leftarrow> readData b w; Some (c ! nat i, None, b, w) }))"

definition SetByteAt :: "kernel \<Rightarrow> int \<Rightarrow> byte \<Rightarrow> bufferState \<Rightarrow> world \<Rightarrow> (error \<times> bufferState \<times> world) option" where
  "SetByteAt k i v b w = (case writeGuard b w of Some e \<Rightarrow> Some (Some e, b, w)
   | None \<Rightarrow> (if i < 0 \<or> int (the (bdata b)) \<le> i then Some (Some (ErrMsg ''out of range''), b, w)
       else do { (_, e, b1, w1) \<leftarrow> store k (nat i) (nat i + 1) [v] b w; Some (e, b1, w1) }))"

definition ConstantTimeEqual ::
    "kernel \<Rightarrow> bytes \<Rightarrow> bufferState \<Rightarrow> world \<Rightarrow> (bool \<times> error \<times> bufferState \<times> world) option" where
  "ConstantTimeEqual k other b w = (case readGuard b w of Some e \<Rightarrow> Some (False, Some e, b, w)
   | None \<Rightarrow> (if the (bdata b) \<noteq> length other then Some (False, None, b, w)
       else if bclosed b then equalClosed k other b w
       else do { (r, w1) \<leftarrow> compareData other b w; Some (r, None, b, w1) }))"

definition WriteTo ::
    "kernel \<Rightarrow> (bytes \<Rightarrow> int \<times> error) \<Rightarrow> bufferState \<Rightarrow> world \<Rightarrow> (int \<times> error \<times> bufferState \<times> world) option" where
  "WriteTo k wr b w = (case readGuard b w of Some e \<Rightarrow> Some (0, Some e, b, w)
   | None \<Rightarrow> do {
       (tmp, oe, ce, b1, w1) \<leftarrow> whileOpen k (\<lambda>b w. do { c \<leftarrow> readData b w; Some (c, w) }) [] b w;
       Some (if oe \<noteq> None then (0, oe, b1, w1) else if ce \<noteq> None then (0, ce, b1, w1)
             else (fst (wr tmp), snd (wr tmp), b1, w1))
     })"

text \<open>
  The two locked sections of \<^verbatim>\<open>ReadFrom\<close>: the length under the read lock, and the copy under
  the exclusive lock. Other operations may run in between.
\<close>

definition readFromSize :: "bufferState \<Rightarrow> world \<Rightarrow> err + nat" where
  "readFromSize b w = (case writeGuard b w of Some e \<Rightarrow> Inl e | None \<Rightarrow> Inr (the (bdata b)))"

definition readFromStore :: "kernel \<Rightarrow> bytes \<Rightarrow> bufferState \<Rightarrow> world \<Rightarrow> (int \<times> error \<times> bufferState \<times> world) option" where
  "readFromStore k tmp b w = (case writeGuard b w of Some e \<Rightarrow> Some (0, Some e, b, w)
   | None \<Rightarrow> do {
       (n, oe, ce, b1, w1) \<leftarrow> whileOpen k (copyInto 0 (the (bdata b)) tmp) 0 b w;
       Some (n, if oe \<noteq> None then oe else ce, b1, w1)
     })"

text \<open>
  The reader is what \<^verbatim>\<open>io.ReadFull\<close> returns: at most the bytes asked for, and an error when
  there were fewer.
\<close>

definition ReadFrom ::
    "kernel \<Rightarrow> (nat \<Rightarrow> bytes \<times> error) \<Rightarrow> bufferState \<Rightarrow> world \<Rightarrow> (int \<times> error \<times> bufferState \<times> world) option" where
  "ReadFrom k rd b w = (case readFromSize b w of Inl e \<Rightarrow> Some (0, Some e, b, w)
   | Inr sz \<Rightarrow> (case rd sz of (tmp, er) \<Rightarrow>
       (if er \<noteq> None \<and> \<not> errorIs er ErrEOF then Some (int (length tmp), er, b, w)
        else readFromStore k (take sz tmp) b w)))"

definition NewBufferFromReader ::
    "kernel \<Rightarrow> (nat \<Rightarrow> bytes \<times> error) \<Rightarrow> int \<Rightarrow> copt option list \<Rightarrow> world \<Rightarrow> ((err + bufferState) \<times> world) option" where
  "NewBufferFromReader k rd sz opts w = do {
     (res, w1) \<leftarrow> NewEmptyBuffer k sz opts w;
     (case res of Inl e \<Rightarrow> Some (Inl e, w1)
      | Inr b \<Rightarrow> do {
          (n, e1, b2, w2) \<leftarrow> ReadFrom k rd b w1;
          (let e2 = (if e1 = None \<and> n = 0 then Some ErrEOF else e1) in do {
            (e3, b3, w3) \<leftarrow> (if e2 = None \<and> n < sz then Truncate k n b2 w2 else Some (e2, b2, w2));
            (case e3 of None \<Rightarrow> Some (Inr b3, w3)
             | Some e \<Rightarrow> do { (_, _, w4) \<leftarrow> Destroy k b3 w3; Some (Inl e, w4) })
          })
        })
   }"

section \<open>Queries and scopes\<close>

definition IsDestroyed :: "SecureBuffer \<Rightarrow> bool" where
  "IsDestroyed s = (case s of Live b \<Rightarrow> destroyed b | _ \<Rightarrow> True)"

definition Len :: "SecureBuffer \<Rightarrow> nat" where
  "Len s = (case s of Live b \<Rightarrow> (case bdata b of None \<Rightarrow> 0 | Some n \<Rightarrow> n) | _ \<Rightarrow> 0)"

definition MappedLen :: "SecureBuffer \<Rightarrow> nat" where
  "MappedLen s = (case s of Live b \<Rightarrow> innerLen (bregion b) | _ \<Rightarrow> 0)"

definition IsSealed :: "SecureBuffer \<Rightarrow> bool" where
  "IsSealed s = (case s of Live b \<Rightarrow> bsealed b | _ \<Rightarrow> False)"

definition ScopeWith ::
    "kernel \<Rightarrow> (world \<Rightarrow> ((err + bufferState) \<times> world) option) option \<Rightarrow>
     (bufferState \<Rightarrow> world \<Rightarrow> (error \<times> bufferState \<times> world) option) option \<Rightarrow> world \<Rightarrow> (error \<times> world) option" where
  "ScopeWith k ctor fn w = (case ctor of None \<Rightarrow> Some (Some (ErrMsg ''nil ctor''), w)
   | Some c \<Rightarrow> (case fn of None \<Rightarrow> Some (Some (ErrMsg ''nil fn''), w)
     | Some f \<Rightarrow> do {
         (res, w1) \<leftarrow> c w;
         (case res of Inl e \<Rightarrow> Some (Some e, w1)
          | Inr b \<Rightarrow> do {
              (re, b1, w2) \<leftarrow> f b w1;
              (de, _, w3) \<leftarrow> Destroy k b1 w2;
              Some (if de \<noteq> None then errorsJoin re de else re, w3)
            })
       }))"

definition Scope ::
    "kernel \<Rightarrow> int \<Rightarrow> (bufferState \<Rightarrow> world \<Rightarrow> (error \<times> bufferState \<times> world) option) option \<Rightarrow> world \<Rightarrow> (error \<times> world) option" where
  "Scope k sz fn w = (case fn of None \<Rightarrow> Some (Some (ErrMsg ''nil fn''), w)
   | Some f \<Rightarrow> ScopeWith k (Some (NewEmptyBuffer k sz [])) (Some f) w)"

end
