(* ===== verification/Buffer_Inv.thy ===== *)
theory Buffer_Inv
  imports Secure_Buffer
begin

text \<open>
  The invariant of a \<^verbatim>\<open>SecureBuffer\<close> and what the steps its methods are built from do to it:
  a change of protection, the seal cipher, the tag, a read and a write of the data. A method runs
  through intermediate states in which the flags and the region disagree; \<open>mid\<close> is what holds in
  all of them.
\<close>

section \<open>The invariant\<close>

text \<open>A region an unsealed buffer can be used through.\<close>

definition usable :: "kernel \<Rightarrow> bufferState \<Rightarrow> mapping \<Rightarrow> bool" where
  "usable k b mp \<longleftrightarrow> mprot mp \<noteq> PROT_NONE \<and> (\<not> breadOnly b \<longrightarrow> mprot mp = PROT_RW) \<and>
     (platform k \<noteq> Stub \<longrightarrow> mlocked_in mp)"

text \<open>The flags against the mapping; \<open>cip\<close> is the seal-cipher flag.\<close>

definition mode_ok :: "kernel \<Rightarrow> bool \<Rightarrow> bufferState \<Rightarrow> mapping \<Rightarrow> bool" where
  "mode_ok k cip b mp \<longleftrightarrow> (cip \<longrightarrow> bsealed b \<and> platform k = Windows) \<and>
     (\<not> bsealed b \<and> (bclosed b \<longrightarrow> 0 < bopeners b) \<longrightarrow> usable k b mp) \<and>
     (platform k \<noteq> Windows \<and> platform k \<noteq> Stub \<longrightarrow> mlocked_in mp) \<and> (bclosed b \<longrightarrow> platform k \<noteq> Stub) \<and> 0 \<le> bopeners b \<and> (bsealed b \<or> \<not> bclosed b \<longrightarrow> bopeners b = 0)"

definition buf_can :: "bufferState \<Rightarrow> nat \<Rightarrow> canaryLayout" where
  "buf_can b cap = bufferCanary (int cap) (int (innerLen (bregion b)))"

abbreviation buf_owned :: "world \<Rightarrow> bufferState \<Rightarrow> nat \<Rightarrow> bool" where
  "buf_owned w b cap \<equiv> owned w (bkey b) (bregion b) (bmu b) (buf_can b cap) (Some (bcipher b)) (bwiped b)"

definition buf_ok :: "kernel \<Rightarrow> world \<Rightarrow> bufferState \<Rightarrow> bool" where
  "buf_ok k w b \<longleftrightarrow> (if destroyed b then bdata b = None
     else (\<exists>n cap. bdata b = Some n \<and> n \<le> cap \<and> cap \<le> innerLen (bregion b) \<and> buf_owned w b cap) \<and>
       (\<not> cells w (bwiped b) \<longrightarrow> (\<exists>mp. region_at (bregion b) (mem w) mp \<and> mode_ok k (cells w (bcipher b)) b mp)))"

definition buf_inv :: "kernel \<Rightarrow> world \<Rightarrow> bufferState \<Rightarrow> bool" where
  "buf_inv k w b \<longleftrightarrow> kernel_ok k \<and> jan_inv k w \<and> ring_ok k w \<and> buf_ok k w b \<and> (\<not> destroyed b \<longrightarrow> bkey b \<notin> ring_keys w)"

text \<open>What a method leaves of the rest of the world.\<close>

definition world_step :: "kernel \<Rightarrow> key \<Rightarrow> world \<Rightarrow> world \<Rightarrow> bool" where
  "world_step k key w w' \<longleftrightarrow> jan_inv k w' \<and> ring_ok k w' \<and> frame (insert key (ring_keys w)) w w' \<and>
     (\<forall>x\<in>ring_keys w'. x = key \<or> x \<in> ring_keys w \<or> peekAny x w = None)"

lemma world_stepD:
  assumes "world_step k key w w'"
  shows "jan_inv k w'" "ring_ok k w'" "frame (insert key (ring_keys w)) w w'"
    "x \<in> ring_keys w' \<Longrightarrow> x = key \<or> x \<in> ring_keys w \<or> peekAny x w = None"
    "x \<noteq> key \<Longrightarrow> x \<notin> ring_keys w \<Longrightarrow> peekAny x w \<noteq> None \<Longrightarrow> kept x w w'"
    "x \<noteq> key \<Longrightarrow> x \<notin> ring_keys w \<Longrightarrow> peekAny x w \<noteq> None \<Longrightarrow> peekAny x w' \<noteq> None"
proof -
  show k: "x \<noteq> key \<Longrightarrow> x \<notin> ring_keys w \<Longrightarrow> peekAny x w \<noteq> None \<Longrightarrow> kept x w w'" for x
    using assms by (auto simp: world_step_def frame_def)
  show "x \<noteq> key \<Longrightarrow> x \<notin> ring_keys w \<Longrightarrow> peekAny x w \<noteq> None \<Longrightarrow> peekAny x w' \<noteq> None"
    using k [of x] kept_peek [of x w w'] by simp
qed (use assms in \<open>auto simp: world_step_def\<close>)

lemma world_step_refl: "jan_inv k w \<Longrightarrow> ring_ok k w \<Longrightarrow> world_step k key w w"
  by (simp add: world_step_def)

lemma world_step_trans:
  assumes 1: "world_step k key w w1" and 2: "world_step k key w1 w2"
  shows "world_step k key w w2"
proof -
  note A = world_stepD [OF 1] note B = world_stepD [OF 2]
  have n: "x \<notin> ring_keys w1" if "x \<noteq> key" "x \<notin> ring_keys w" "peekAny x w \<noteq> None" for x
    using A(4) [of x] that by auto
  have "kept x w w2" if x: "x \<noteq> key" "x \<notin> ring_keys w" "peekAny x w \<noteq> None" for x
    using kept_trans [OF A(5) [OF x] B(5) [OF x(1) n [OF x] A(6) [OF x]]] .
  then have f: "frame (insert key (ring_keys w)) w w2"
    using A(3) B(3) by (auto simp: frame_def)
  have "x = key \<or> x \<in> ring_keys w \<or> peekAny x w = None" if "x \<in> ring_keys w2" for x
  proof (rule ccontr)
    assume "\<not> (x = key \<or> x \<in> ring_keys w \<or> peekAny x w = None)"
    then have x: "x \<noteq> key" "x \<notin> ring_keys w" "peekAny x w \<noteq> None" by auto
    show False using B(4) [OF that] n [OF x] A(6) [OF x] x(1) by simp
  qed
  then show ?thesis using f B(1,2) by (simp add: world_step_def)
qed

lemma world_step_frame:
  assumes "jan_inv k w'" "ring_ok k w" "frame {key} w w'" "sealKeys w' = sealKeys w" "key \<notin> ring_keys w"
  shows "world_step k key w w'"
  using assms ring_ok_frame [OF assms(2,3)] frame_mono [OF assms(3), of "insert key (ring_keys w)"]
  by (auto simp: world_step_def ring_keys_def split: if_splits)

lemma world_step_ring: "ring_step k w er w' \<Longrightarrow> world_step k key w w'"
  using frame_mono [of "ring_keys w" w w' "insert key (ring_keys w)"] by (auto simp: ring_step_def world_step_def)

section \<open>Inside a method\<close>

definition mid :: "kernel \<Rightarrow> world \<Rightarrow> bufferState \<Rightarrow> nat \<Rightarrow> world \<Rightarrow> mapping \<Rightarrow> bool" where
  "mid k w b cap w1 mp \<longleftrightarrow> kernel_ok k \<and> world_step k (bkey b) w w1 \<and> bkey b \<notin> ring_keys w1 \<and> \<not> destroyed b \<and>
     buf_owned w1 b cap \<and> \<not> cells w1 (bwiped b) \<and> region_at (bregion b) (mem w1) mp \<and>
     (platform k = Stub \<longrightarrow> mprot mp = PROT_RW) \<and> cap \<le> innerLen (bregion b)"

lemma jan_inv_cells [simp]: "jan_inv k (w\<lparr>cells := cs\<rparr>) = jan_inv k w"
  by (simp add: jan_inv_def entry_ok_def)

lemma midD:
  assumes "mid k w b cap w1 mp"
  shows "kernel_ok k" "jan_inv k w1" "ring_ok k w1" "world_step k (bkey b) w w1" "bkey b \<notin> ring_keys w1"
    "buf_owned w1 b cap" "\<not> cells w1 (bwiped b)" "region_at (bregion b) (mem w1) mp"
    "platform k = Stub \<Longrightarrow> mprot mp = PROT_RW" "length (mbytes mp) = innerLen (bregion b)" "0 < innerLen (bregion b)"
    "bcipher b \<noteq> bwiped b" "\<not> destroyed b" "cap \<le> innerLen (bregion b)"
  using assms ownedD(6) [of w1 "bkey b" "bregion b" "bmu b" "buf_can b cap" "Some (bcipher b)" "bwiped b" k]
  by (auto simp: mid_def region_at_def destroyed_def dest: world_stepD)

text \<open>A step of the world that keeps the buffer's own registration.\<close>

lemma mid_step:
  assumes m: "mid k w b cap w1 mp" and s: "world_step k (bkey b) w1 w2" "bkey b \<notin> ring_keys w2"
    and o: "buf_owned w2 b cap" "\<not> cells w2 (bwiped b)" "region_at (bregion b) (mem w2) mp'"
      "platform k = Stub \<longrightarrow> mprot mp' = PROT_RW"
  shows "mid k w b cap w2 mp'"
  using world_step_trans [OF midD(4) [OF m] s(1)] midD [OF m] assms by (simp add: mid_def)

lemma mid_upd:
  assumes m: "mid k w b cap w1 mp" and u: "mem_upd (base (bregion b)) f (mem w1) m'"
    and l: "length (mbytes (f mp)) = length (mbytes mp)" and s: "platform k = Stub \<longrightarrow> mprot (f mp) = PROT_RW"
  shows "mid k w b cap (w1\<lparr>mem := m'\<rparr>) (f mp)"
proof -
  note M = midD [OF m]
  obtain e where e: "peekAny (bkey b) w1 = Some e" "jregion e = bregion b" using M(6) by (auto simp: owned_def)
  have "jan_inv k (w1\<lparr>mem := m'\<rparr>)"
    by (rule jan_inv_own [OF M(2) e(1), of f m' mp]) (use u l s e(2) M(8,10) in \<open>auto simp: region_at_def\<close>)
  moreover have "frame {bkey b} w1 (w1\<lparr>mem := m'\<rparr>)" using frame_upd [OF M(2) e(1)] u e(2) by simp
  ultimately have "world_step k (bkey b) w1 (w1\<lparr>mem := m'\<rparr>)" using M(3,5) by (intro world_step_frame) auto
  then show ?thesis
    using M mem_updD(1) [OF u] l s by (intro mid_step [OF m]) (auto simp: region_at_def ring_keys_def)
qed

lemma mid_cell:
  assumes m: "mid k w b cap w1 mp"
  shows "mid k w b cap (setCell (bcipher b) v w1) mp"
proof -
  note M = midD [OF m]
  let ?w = "setCell (bcipher b) v w1"
  obtain e where e: "peekAny (bkey b) w1 = Some e" "jsealCipher e = Some (bcipher b)"
    using M(6,7) by (auto simp: owned_def)
  have "bcipher b \<notin> cells_of f" if "peekAny x w1 = Some f" "x \<noteq> bkey b" for x f
    using jan_invD(4) [OF M(2) that(1) e(1) that(2)] e(2) by (auto simp: apart_def cells_of_def)
  then have "frame {bkey b} w1 ?w" by (auto simp: frame_def kept_def setCell_def)
  then have "world_step k (bkey b) w1 ?w" using M(2,3,5) by (intro world_step_frame) (auto simp: setCell_def)
  then show ?thesis
    using M by (intro mid_step [OF m]) (auto simp: setCell_def ring_keys_def owned_def region_at_def)
qed

lemma mid_ring:
  assumes m: "mid k w b cap w1 mp" and r: "ring_step k w1 er w2"
  shows "mid k w b cap w2 mp" "cells w2 (bcipher b) = cells w1 (bcipher b)"
proof -
  note M = midD [OF m]
  obtain e where e: "peekAny (bkey b) w1 = Some e" "jregion e = bregion b" "jwiped e = Some (bwiped b)"
    "jsealCipher e = Some (bcipher b)"
    using M(6,7) by (auto simp: owned_def)
  have f: "frame (ring_keys w1) w1 w2" using r by (simp add: ring_step_def)
  have k: "kept (bkey b) w1 w2" by (rule frame_kept [OF f M(5) e(1)])
  show "cells w2 (bcipher b) = cells w1 (bcipher b)" using k e by (auto simp: kept_def cells_of_def)
  have "bkey b \<notin> ring_keys w2" using r M(5) e(1) by (auto simp: ring_step_def)
  moreover have "region_at (bregion b) (mem w2) mp" "\<not> cells w2 (bwiped b)"
    using k e M(7,8) by (auto simp: kept_def region_at_def cells_of_def)
  ultimately show "mid k w b cap w2 mp"
    using mid_step [OF m world_step_ring [OF r]] owned_kept [OF M(6) k] M(9) by auto
qed

text \<open>The fields no method changes before the end of a buffer's life.\<close>

definition same_ident :: "bufferState \<Rightarrow> bufferState \<Rightarrow> bool" where
  "same_ident b b' \<longleftrightarrow> bregion b' = bregion b \<and> bmu b' = bmu b \<and> bkey b' = bkey b \<and> bcipher b' = bcipher b \<and>
     bwiped b' = bwiped b \<and> bclosed b' = bclosed b \<and> bauth b' = bauth b"

lemma same_ident_refl [simp]: "same_ident b b"
  by (simp add: same_ident_def)

definition buf_post :: "kernel \<Rightarrow> world \<Rightarrow> bufferState \<Rightarrow> world \<Rightarrow> bufferState \<Rightarrow> bool" where
  "buf_post k w b w' b' \<longleftrightarrow> buf_inv k w' b' \<and> world_step k (bkey b) w w'"

text \<open>The contents of the region as its owner means them.\<close>

definition plainOf :: "kernel \<Rightarrow> bool \<Rightarrow> mapping \<Rightarrow> bytes" where
  "plainOf k cip mp = (if cip then unprotectMemory k (mbytes mp) else mbytes mp)"

text \<open>What a caller can know of a buffer.\<close>

datatype abuf = ADestroyed | AWiped | ALive (acontents: bytes) (asealed: bool) (areadOnly: bool)

definition mapping_of :: "world \<Rightarrow> bufferState \<Rightarrow> mapping" where
  "mapping_of w b = the (maps (mem w) (base (bregion b)))"

definition absB :: "kernel \<Rightarrow> world \<Rightarrow> bufferState \<Rightarrow> abuf" where
  "absB k w b = (if destroyed b then ADestroyed else if cells w (bwiped b) then AWiped
     else ALive (take (the (bdata b)) (plainOf k (cells w (bcipher b)) (mapping_of w b))) (bsealed b) (breadOnly b))"

lemma mid_finish:
  assumes m: "mid k w b cap w1 mp" and b': "same_ident b b'" "bdata b' = Some n'" "n' \<le> cap"
    and mode: "mode_ok k (cells w1 (bcipher b)) b' mp"
  shows "buf_post k w b w1 b'" "mapping_of w1 b' = mp"
    "absB k w1 b' = ALive (take n' (plainOf k (cells w1 (bcipher b)) mp)) (bsealed b') (breadOnly b')"
proof -
  note M = midD [OF m]
  show "buf_post k w b w1 b'" using M assms
    by (auto simp: buf_post_def buf_inv_def buf_ok_def same_ident_def destroyed_def buf_can_def)
  show mp: "mapping_of w1 b' = mp" using M(8) b'(1) by (simp add: mapping_of_def region_at_def same_ident_def)
  show "absB k w1 b' = ALive (take n' (plainOf k (cells w1 (bcipher b)) mp)) (bsealed b') (breadOnly b')"
    using M(7,13) b' mp by (simp add: absB_def same_ident_def destroyed_def)
qed

lemma mid_start:
  assumes "buf_inv k w b" "\<not> destroyed b" "\<not> cells w (bwiped b)"
  obtains n cap mp where "bdata b = Some n" "n \<le> cap" "mid k w b cap w mp" "mode_ok k (cells w (bcipher b)) b mp"
    "mapping_of w b = mp" "absB k w b = ALive (take n (plainOf k (cells w (bcipher b)) mp)) (bsealed b) (breadOnly b)"
proof -
  obtain n cap where n: "bdata b = Some n" "n \<le> cap" "cap \<le> innerLen (bregion b)" "buf_owned w b cap"
    using assms by (auto simp: buf_inv_def buf_ok_def)
  obtain mp where mp: "region_at (bregion b) (mem w) mp" "mode_ok k (cells w (bcipher b)) b mp"
    using assms by (auto simp: buf_inv_def buf_ok_def)
  have j: "jan_inv k w" "ring_ok k w" using assms(1) by (auto simp: buf_inv_def)
  have "platform k = Stub \<longrightarrow> mprot mp = PROT_RW"
    using ownedD(2) [OF n(4) j(1)] mp(1) by (auto simp: region_at_def)
  then show thesis
    using that [OF n(1,2) _ mp(2)] n assms mp world_step_refl [OF j]
    by (auto simp: mid_def buf_inv_def absB_def mapping_of_def region_at_def)
qed

lemma buf_post_refl: "buf_inv k w b \<Longrightarrow> buf_post k w b w b"
  by (simp add: buf_post_def buf_inv_def world_step_refl)

section \<open>The steps\<close>

definition setp :: "kernel \<Rightarrow> prot \<Rightarrow> mapping \<Rightarrow> mapping" where
  "setp k p mp = (if platform k = Stub then mp else set_prot k p mp)"

lemma setp_simps [simp]:
  "mbytes (setp k p mp) = mbytes mp" "platform k \<noteq> Stub \<Longrightarrow> mprot (setp k p mp) = p"
  "platform k = Stub \<Longrightarrow> setp k p mp = mp"
  by (simp_all add: setp_def)

lemma setp_locked: "mlocked_in (setp k p mp) \<longleftrightarrow> mlocked_in mp \<and> \<not> (platform k = Windows \<and> p = PROT_NONE)"
  by (auto simp: setp_def set_prot_def)

lemma mid_mprotect:
  assumes m: "mid k w b cap w1 mp" and p: "mprotectSecretMem k (bregion b) p (mem w1) = (e, m')"
  obtains (ok) "e = None" "mid k w b cap (w1\<lparr>mem := m'\<rparr>) (setp k p mp)"
  | (failed) "e = Some ErrOS" "platform k \<noteq> Stub" "mid k w b cap (w1\<lparr>mem := m'\<rparr>) mp"
  using p
proof (cases rule: mprotectSecretMem_cases)
  case ok
  then show thesis
    using that(1) mid_upd [OF m ok(2)] midD(9,11) [OF m] by (auto simp: setp_def split: if_splits)
next
  case failed
  then show thesis using that(2) mid_upd [OF m failed(3)] midD(9) [OF m] by simp
qed

definition relocked :: "kernel \<Rightarrow> mapping \<Rightarrow> mapping" where
  "relocked k mp = (if platform k = Windows then mp\<lparr>mlocked_in := True\<rparr> else mp)"

lemma relocked_simps [simp]: "mbytes (relocked k mp) = mbytes mp" "mprot (relocked k mp) = mprot mp"
  by (simp_all add: relocked_def)

lemma mid_relock:
  assumes m: "mid k w b cap w1 mp" and p: "relockSecretMem k (bregion b) (mem w1) = (e, m')"
  obtains (ok) "e = None" "mid k w b cap (w1\<lparr>mem := m'\<rparr>) (relocked k mp)"
  | (failed) "e = Some ErrOS" "mid k w b cap (w1\<lparr>mem := m'\<rparr>) mp"
  using p
proof (cases rule: relockSecretMem_cases)
  case ok
  then show thesis
    using that(1) mid_upd [OF m ok(2)] midD(9,11) [OF m] by (auto simp: relocked_def split: if_splits)
next
  case failed
  then show thesis using that(2) mid_upd [OF m failed(2)] midD(9) [OF m] by simp
qed

lemma mid_cipher:
  assumes m: "mid k w b cap w1 mp" and rw: "mprot mp = PROT_RW" and f: "\<And>n b. length (f n b) = length b"
  obtains (ok) m' n where "sealCipherCall k f (bregion b) (mem w1) = Some (None, m')"
      "mid k w b cap (w1\<lparr>mem := m'\<rparr>) (mp\<lparr>mbytes := f n (mbytes mp)\<rparr>)"
  | (failed) e m' where "sealCipherCall k f (bregion b) (mem w1) = Some (Some e, m')" "mid k w b cap (w1\<lparr>mem := m'\<rparr>) mp"
proof (rule sealCipherCall_cases [OF midD(8) [OF m] rw f])
  fix m' n assume a: "sealCipherCall k f (bregion b) (mem w1) = Some (None, m')"
    "mem_upd (base (bregion b)) (\<lambda>mp. if innerLen (bregion b) = 0 then mp else mp\<lparr>mbytes := f n (mbytes mp)\<rparr>) (mem w1) m'"
  then have "mem_upd (base (bregion b)) (\<lambda>mp. mp\<lparr>mbytes := f n (mbytes mp)\<rparr>) (mem w1) m'" using midD(11) [OF m] by simp
  from mid_upd [OF m this] show thesis using ok [OF a(1)] f rw by simp
next
  fix e m' assume "sealCipherCall k f (bregion b) (mem w1) = Some (Some e, m')" "mem_upd (base (bregion b)) (\<lambda>mp. mp) (mem w1) m'"
  then show thesis using failed mid_upd [OF m, of "\<lambda>mp. mp" m'] midD(9) [OF m] by simp
qed

lemma mid_encrypt:
  assumes m: "mid k w b cap w1 mp" and rw: "mprot mp = PROT_RW"
  obtains (applied) m' n where "sealEncrypt k (bregion b) (mem w1) = Some (True, None, m')" "platform k = Windows"
      "mid k w b cap (w1\<lparr>mem := m'\<rparr>) (mp\<lparr>mbytes := protectMemory k n (mbytes mp)\<rparr>)"
  | (off) "sealEncrypt k (bregion b) (mem w1) = Some (False, None, mem w1)" "platform k \<noteq> Windows"
  | (failed) e m' where "sealEncrypt k (bregion b) (mem w1) = Some (False, Some e, m')" "mid k w b cap (w1\<lparr>mem := m'\<rparr>) mp"
proof (cases "platform k = Windows")
  case True
  have "\<And>n b. length (protectMemory k n b) = length b" using midD(1) [OF m] by (simp add: kernel_ok_def)
  with m rw show thesis
    by (rule mid_cipher [of _ _ _ _ _ _ "protectMemory k"]) (use True applied failed in \<open>auto simp: sealEncrypt_def\<close>)
qed (use off in \<open>simp add: sealEncrypt_def\<close>)

lemma mid_decrypt:
  assumes m: "mid k w b cap w1 mp" and rw: "mprot mp = PROT_RW"
  obtains (ok) m' where "sealDecrypt k (bregion b) (mem w1) = Some (None, m')"
      "mid k w b cap (w1\<lparr>mem := m'\<rparr>) (mp\<lparr>mbytes := if platform k = Windows then unprotectMemory k (mbytes mp) else mbytes mp\<rparr>)"
  | (failed) e m' where "sealDecrypt k (bregion b) (mem w1) = Some (Some e, m')" "mid k w b cap (w1\<lparr>mem := m'\<rparr>) mp"
proof (cases "platform k = Windows")
  case True
  have "\<And>n b. length (unprotectMemory k b) = length b" using midD(1) [OF m] by (simp add: kernel_ok_def)
  with m rw show thesis
    by (rule mid_cipher [of _ _ _ _ _ _ "\<lambda>_. unprotectMemory k"]) (use True ok failed in \<open>auto simp: sealDecrypt_def\<close>)
next
  case False
  then show thesis using ok [of "mem w1"] m by (simp add: sealDecrypt_def)
qed

text \<open>The prekey, while the keyring is live.\<close>

definition prekeyOf :: "world \<Rightarrow> bytes option" where
  "prekeyOf w = (if klock (sealKeys w) = None \<or> cells w (kwiped (sealKeys w)) then None
     else map_option mbytes (maps (mem w) (base (kregion (sealKeys w)))))"

definition tag_ok :: "world \<Rightarrow> bufferState \<Rightarrow> bytes \<Rightarrow> bool" where
  "tag_ok w b bs \<longleftrightarrow> kgen (sealKeys w) = bgen b \<and>
     (\<exists>p. prekeyOf w = Some p \<and> btag b = sealComputeTag p (bkey b) (bnonce b) bs)"

lemma prekeyOf_frame:
  assumes "ring_ok k w" "frame S w w'" "ring_keys w \<inter> S = {}" "sealKeys w' = sealKeys w"
  shows "prekeyOf w' = prekeyOf w"
proof (cases "klock (sealKeys w)")
  case None
  then show ?thesis using assms(4) by (simp add: prekeyOf_def)
next
  case (Some l)
  let ?k = "sealKeys w"
  have n: "kkey ?k \<notin> S" using assms(3) Some by (simp add: ring_keys_def)
  obtain e where e: "peekAny (kkey ?k) w = Some e" "jregion e = kregion ?k" "jwiped e = Some (kwiped ?k)"
    using assms(1) Some by (auto simp: ring_ok_def owned_def)
  have "maps (mem w') (base (kregion ?k)) = maps (mem w) (base (kregion ?k))" "cells w' (kwiped ?k) = cells w (kwiped ?k)"
    using frame_kept [OF assms(2) n e(1)] e by (auto simp: kept_def cells_of_def)
  then show ?thesis using assms(4) by (simp add: prekeyOf_def)
qed

lemma mid_prekey:
  assumes m: "mid k w b cap w1 mp" and u: "mem_upd (base (bregion b)) f (mem w1) m'"
  shows "prekeyOf (w1\<lparr>mem := m'\<rparr>) = prekeyOf w1"
proof -
  note M = midD [OF m]
  obtain e where e: "peekAny (bkey b) w1 = Some e" "jregion e = bregion b" using M(6) by (auto simp: owned_def)
  have "frame {bkey b} w1 (w1\<lparr>mem := m'\<rparr>)" using frame_upd [OF M(2) e(1)] u e(2) by simp
  then show ?thesis by (rule prekeyOf_frame [OF M(3)]) (use M(5) in auto)
qed

lemma tag_ok_upd:
  assumes "mid k w b cap w1 mp" "mem_upd (base (bregion b)) f (mem w1) m'"
  shows "tag_ok (w1\<lparr>mem := m'\<rparr>) b' bs = tag_ok w1 b' bs"
  using mid_prekey [OF assms] by (simp add: tag_ok_def)

lemma mprotect_tag:
  assumes "mid k w b cap w1 mp" "mprotectSecretMem k (bregion b) p (mem w1) = (e, m')"
  shows "tag_ok (w1\<lparr>mem := m'\<rparr>) b' bs = tag_ok w1 b' bs"
  using assms(2) by (cases rule: mprotectSecretMem_cases) (auto simp: tag_ok_upd [OF assms(1)])

lemma relock_tag:
  assumes "mid k w b cap w1 mp" "relockSecretMem k (bregion b) (mem w1) = (e, m')"
  shows "tag_ok (w1\<lparr>mem := m'\<rparr>) b' bs = tag_ok w1 b' bs"
  using assms(2) by (cases rule: relockSecretMem_cases) (auto simp: tag_ok_upd [OF assms(1)])

lemma mid_calls:
  assumes "mid k w b cap w1 mp"
  shows "mid k w b cap (w1\<lparr>mem := (mem w1)\<lparr>calls := Suc (calls (mem w1))\<rparr>\<rparr>) mp"
  using mid_upd [OF assms, of "\<lambda>mp. mp"] midD(9) [OF assms] by (simp add: mem_upd_calls)

lemma ring_step_prekey:
  assumes "ring_step k w None w'"
  shows "\<exists>mp. region_at (kregion (sealKeys w')) (mem w') mp \<and> prekeyOf w' = Some (mbytes mp)"
  using assms by (auto simp: ring_step_def ring_ok_def prekeyOf_def region_at_def)

text \<open>The fields that taking a tag changes.\<close>

definition same_but_tag :: "bufferState \<Rightarrow> bufferState \<Rightarrow> bool" where
  "same_but_tag b b' \<longleftrightarrow> (\<exists>nonce gen tag tgd. b' = b\<lparr>bnonce := nonce, bgen := gen, btag := tag, btagged := tgd\<rparr>)"

lemma mid_auth:
  assumes m: "mid k w b cap w1 mp" and r: "mprot mp \<noteq> PROT_NONE" and b1: "bregion b1 = bregion b" "bkey b1 = bkey b"
  obtains e b2 w2 where "sealAuthenticate k b1 w1 = Some (e, b2, w2)" "mid k w b cap w2 mp" "same_but_tag b1 b2"
    "cells w2 (bcipher b) = cells w1 (bcipher b)"
    "e = None \<Longrightarrow> btagged b2 \<and> tag_ok w2 b2 (mbytes mp)" "e \<noteq> None \<Longrightarrow> btagged b2 = btagged b1"
    "e = None \<Longrightarrow> klock (sealKeys w1) = None \<Longrightarrow> pageOf k dvd int sealPrekeyLen"
proof -
  let ?m1 = "(mem w1)\<lparr>calls := Suc (calls (mem w1))\<rparr>" let ?w1 = "w1\<lparr>mem := ?m1\<rparr>"
  have m1: "mid k w b cap ?w1 mp" by (rule mid_calls [OF m])
  note M = midD [OF m1]
  show thesis
  proof (cases "rand k (calls (mem w1)) sealNonceLen")
    case None
    have "same_but_tag b1 b1" unfolding same_but_tag_def by (metis bufferState.surjective bufferState.update_convs(12-15))
    then show thesis using that [of "Some ErrOS" b1 ?w1] None m1 by (simp add: sealAuthenticate_def randRead_def)
  next
    case (Some nonce)
    have rd: "readMem (bregion b1) ?m1 = Some (mbytes mp)" using M(8) r b1(1) by simp
    let ?fn = "\<lambda>prekey gen. Inr (gen, sealComputeTag prekey (bkey b1) nonce (mbytes mp))"
    show thesis
    proof (rule withPrekey_spec [OF M(1-3), where fn = ?fn])
      fix prekey w' assume a: "withPrekey k ?fn ?w1 = Some (?fn prekey (kgen (sealKeys w')), w')" "ring_step k ?w1 None w'"
        "\<exists>mp. region_at (kregion (sealKeys w')) (mem w') mp \<and> prekey = mbytes mp"
      let ?b2 = "b1\<lparr>bnonce := nonce, bgen := kgen (sealKeys w'), btag := sealComputeTag prekey (bkey b1) nonce (mbytes mp), btagged := True\<rparr>"
      have "prekeyOf w' = Some prekey" using ring_step_prekey [OF a(2)] a(3) by (auto simp: region_at_def)
      then have "tag_ok w' ?b2 (mbytes mp)" using b1(2) by (simp add: tag_ok_def)
      moreover have "same_but_tag b1 ?b2" by (auto simp: same_but_tag_def)
      moreover have "pageOf k dvd int sealPrekeyLen" if "klock (sealKeys w1) = None"
      proof (rule ccontr)
        assume "\<not> pageOf k dvd int sealPrekeyLen"
        from initLocked_large_pages [OF M(1-3) this] show False using a(1) that by (auto simp: withPrekey_def)
      qed
      ultimately show thesis
        using that [of None ?b2 w'] a(1) Some rd mid_ring [OF m1 a(2)] by (simp add: sealAuthenticate_def randRead_def)
    next
      fix e w' assume a: "withPrekey k ?fn ?w1 = Some (Inl e, w')" "ring_step k ?w1 (Some e) w'"
      have "same_but_tag b1 (b1\<lparr>bnonce := nonce\<rparr>)"
        unfolding same_but_tag_def by (rule exI [of _ nonce], rule exI [of _ "bgen b1"], rule exI [of _ "btag b1"], rule exI [of _ "btagged b1"]) simp
      then show thesis
        using that [of "Some e" "b1\<lparr>bnonce := nonce\<rparr>" w'] a(1) Some rd mid_ring [OF m1 a(2)]
        by (simp add: sealAuthenticate_def randRead_def)
    qed
  qed
qed

lemma mid_verify:
  assumes m: "mid k w b cap w1 mp" and r: "mprot mp \<noteq> PROT_NONE"
  obtains e w2 where "sealVerify k b w1 = Some (e, w2)" "mid k w b cap w2 mp" "cells w2 (bcipher b) = cells w1 (bcipher b)"
    "tag_ok w1 b (mbytes mp) \<Longrightarrow> e = None \<and> w2 = w1" "e = None \<Longrightarrow> prekeyOf w1 \<noteq> None \<Longrightarrow> tag_ok w1 b (mbytes mp)"
proof -
  note M = midD [OF m]
  have rd: "readMem (bregion b) (mem w1) = Some (mbytes mp)" using M(8) r by simp
  let ?fn = "\<lambda>prekey gen. if gen \<noteq> bgen b then Inl ErrWiped else Inr (sealComputeTag prekey (bkey b) (bnonce b) (mbytes mp))"
  show thesis
  proof (rule withPrekey_spec [OF M(1-3), where fn = ?fn])
    fix prekey w' assume a: "withPrekey k ?fn w1 = Some (?fn prekey (kgen (sealKeys w')), w')" "ring_step k w1 None w'"
      "\<exists>mp. region_at (kregion (sealKeys w')) (mem w') mp \<and> prekey = mbytes mp"
      "klock (sealKeys w1) \<noteq> None \<and> \<not> cells w1 (kwiped (sealKeys w1)) \<longrightarrow> w' = w1"
    have p: "prekeyOf w' = Some prekey" using ring_step_prekey [OF a(2)] a(3) by (auto simp: region_at_def)
    let ?e = "if kgen (sealKeys w') \<noteq> bgen b then Some ErrWiped
       else if sealComputeTag prekey (bkey b) (bnonce b) (mbytes mp) \<noteq> btag b then Some ErrIntegrity else None"
    have "?e = None \<and> w' = w1" if t: "tag_ok w1 b (mbytes mp)"
    proof -
      have "w' = w1" using t a(4) by (auto simp: tag_ok_def prekeyOf_def split: if_splits)
      then show ?thesis using t p by (auto simp: tag_ok_def)
    qed
    moreover have "tag_ok w1 b (mbytes mp)" if "?e = None" "prekeyOf w1 \<noteq> None"
    proof -
      have "w' = w1" using that(2) a(4) by (auto simp: prekeyOf_def split: if_splits)
      then show ?thesis using that(1) p by (auto simp: tag_ok_def split: if_splits)
    qed
    moreover have "sealVerify k b w1 = Some (?e, w')" using a(1) rd by (simp add: sealVerify_def)
    ultimately show thesis by (intro that [of ?e w'] mid_ring [OF m a(2)])
  next
    fix e w' assume a: "withPrekey k ?fn w1 = Some (Inl e, w')" "ring_step k w1 (Some e) w'"
      "klock (sealKeys w1) = None \<or> cells w1 (kwiped (sealKeys w1))"
    have "\<not> tag_ok w1 b (mbytes mp)" using a(3) by (auto simp: tag_ok_def prekeyOf_def)
    then show thesis using that [of "Some e" w'] a(1) rd mid_ring [OF m a(2)] by (simp add: sealVerify_def)
  qed
qed

end
