(* ===== verification/Buffer_Access.thy ===== *)
theory Buffer_Access
  imports Buffer_Inv
begin

text \<open>
  The access methods of a \<^verbatim>\<open>SecureBuffer\<close>: each of them opens the region if the buffer is
  closed at rest, reads or writes the data, and closes the region again. \<open>does\<close> is what the part in
  the middle does, and one lemma about \<open>whileOpen\<close> carries all of them.
\<close>

section \<open>Open, act, close\<close>

text \<open>
  \<open>act\<close> returns \<open>x\<close> of the data and leaves \<open>f\<close> of it, where the region is writable or the data
  satisfies \<open>P\<close>.
\<close>

definition does :: "kernel \<Rightarrow> nat \<Rightarrow> (bytes \<Rightarrow> bool) \<Rightarrow> (bufferState \<Rightarrow> world \<Rightarrow> ('a \<times> world) option) \<Rightarrow> (bytes \<Rightarrow> 'a) \<Rightarrow> (bytes \<Rightarrow> bytes) \<Rightarrow> bool" where
  "does k n P act x f \<longleftrightarrow> (\<forall>w b cap w1 mp b1. mid k w b cap w1 mp \<and> mprot mp \<noteq> PROT_NONE \<and> bregion b1 = bregion b \<and>
     bdata b1 = Some n \<and> n \<le> cap \<and> (mprot mp = PROT_RW \<or> P (take n (mbytes mp))) \<longrightarrow>
     (\<exists>m2. act b1 w1 = Some (x (take n (mbytes mp)), w1\<lparr>mem := m2\<rparr>) \<and>
        mid k w b cap (w1\<lparr>mem := m2\<rparr>) (mp\<lparr>mbytes := f (take n (mbytes mp)) @ drop n (mbytes mp)\<rparr>)))"

lemma does_read:
  assumes "\<And>b w c. readData b w = Some c \<Longrightarrow> act b w = Some (x c, w)"
  shows "does k n (\<lambda>_. True) act x (\<lambda>c. c)"
  unfolding does_def
proof (intro allI impI)
  fix w b cap w1 mp and b1 :: bufferState
  assume a: "mid k w b cap w1 mp \<and> mprot mp \<noteq> PROT_NONE \<and> bregion b1 = bregion b \<and>
     bdata b1 = Some n \<and> n \<le> cap \<and> (mprot mp = PROT_RW \<or> True)"
  then have "readData b1 w1 = Some (take n (mbytes mp))" using midD(8) [of k w b cap w1 mp] by (simp add: readData_def)
  from assms [OF this] show "\<exists>m2. act b1 w1 = Some (x (take n (mbytes mp)), w1\<lparr>mem := m2\<rparr>) \<and>
        mid k w b cap (w1\<lparr>mem := m2\<rparr>) (mp\<lparr>mbytes := take n (mbytes mp) @ drop n (mbytes mp)\<rparr>)"
    using a by (intro exI [of _ "mem w1"]) simp
qed

lemma does_write:
  assumes act: "\<And>b w c. readData b w = Some c \<Longrightarrow> act b w = map_option (\<lambda>w'. (x c, w')) (writeData b (f c) w)"
    and f: "\<And>c. length c = n \<Longrightarrow> goCopy 0 (f c) c = g c"
  shows "does k n (\<lambda>c. g c = c) act x g"
  unfolding does_def
proof (intro allI impI)
  fix w b cap w1 and mp :: mapping and b1 :: bufferState
  let ?c = "take n (mbytes mp)"
  let ?mp = "mp\<lparr>mbytes := g ?c @ drop n (mbytes mp)\<rparr>"
  assume a: "mid k w b cap w1 mp \<and> mprot mp \<noteq> PROT_NONE \<and> bregion b1 = bregion b \<and>
     bdata b1 = Some n \<and> n \<le> cap \<and> (mprot mp = PROT_RW \<or> g ?c = ?c)"
  then have m: "mid k w b cap w1 mp" and r: "mprot mp \<noteq> PROT_NONE" by auto
  note M = midD [OF m]
  have b1: "bregion b1 = bregion b" "bdata b1 = Some n" "n \<le> length (mbytes mp)" using a M(10,14) by auto
  have rm: "readMem (bregion b) (mem w1) = Some (mbytes mp)" using M(8) r by simp
  have len: "length (g ?c @ drop n (mbytes mp)) = length (mbytes mp)" using f [of ?c] b1(3) by (auto simp flip: f)
  have act1: "act b1 w1 = map_option (\<lambda>w'. (x ?c, w')) (writeData b1 (f ?c) w1)"
    by (rule act) (simp add: readData_def b1 rm)
  show "\<exists>m2. act b1 w1 = Some (x ?c, w1\<lparr>mem := m2\<rparr>) \<and> mid k w b cap (w1\<lparr>mem := m2\<rparr>) ?mp"
  proof (cases "g ?c = ?c")
    case True
    then show ?thesis using m b1 rm f [of ?c] by (intro exI [of _ "mem w1"]) (simp add: act1 writeData_def)
  next
    case False
    then have rw: "mprot mp = PROT_RW" using a by simp
    let ?m2 = "upd_mapping (base (bregion b)) (\<lambda>mp'. mp'\<lparr>mbytes := g ?c @ drop n (mbytes mp)\<rparr>) (mem w1)"
    have "writeMem (bregion b) (g ?c @ drop n (mbytes mp)) (mem w1) = Some ?m2"
      using M(8,10) rw len by (intro writeMem_Some) auto
    moreover have "g ?c @ drop n (mbytes mp) \<noteq> mbytes mp"
      using False b1(3) f [of ?c] by (metis append_take_drop_id append_eq_append_conv)
    moreover have "mem_upd (base (bregion b)) (\<lambda>mp'. mp'\<lparr>mbytes := g ?c @ drop n (mbytes mp)\<rparr>) (mem w1) ?m2"
      using M(8) by (auto simp: mem_upd_def region_at_def)
    ultimately show ?thesis
      using mid_upd [OF m, of "\<lambda>mp'. mp'\<lparr>mbytes := g ?c @ drop n (mbytes mp)\<rparr>"] len rm b1 f [of ?c] rw M(9)
      by (intro exI [of _ ?m2]) (simp add: act1 writeData_def Let_def)
  qed
qed

lemma does_mono: "does k n P act x f \<Longrightarrow> (\<And>c. Q c \<Longrightarrow> P c) \<Longrightarrow> does k n Q act x f"
  unfolding does_def by meson

lemma does_cong:
  assumes "does k n P act x f" "\<And>c. length c = n \<Longrightarrow> x c = x' c" "\<And>c. length c = n \<Longrightarrow> f c = f' c"
  shows "does k n P act x' f'"
  unfolding does_def
proof (intro allI impI)
  fix w b cap w1 and mp :: mapping and b1 :: bufferState
  assume a: "mid k w b cap w1 mp \<and> mprot mp \<noteq> PROT_NONE \<and> bregion b1 = bregion b \<and> bdata b1 = Some n \<and> n \<le> cap \<and>
    (mprot mp = PROT_RW \<or> P (take n (mbytes mp)))"
  then have "length (take n (mbytes mp)) = n" using midD(10,14) [of k w b cap w1 mp] by simp
  then show "\<exists>m2. act b1 w1 = Some (x' (take n (mbytes mp)), w1\<lparr>mem := m2\<rparr>) \<and>
        mid k w b cap (w1\<lparr>mem := m2\<rparr>) (mp\<lparr>mbytes := f' (take n (mbytes mp)) @ drop n (mbytes mp)\<rparr>)"
    using assms(1) a assms(2,3) [of "take n (mbytes mp)"] unfolding does_def by metis
qed

text \<open>Opening gives a usable region with the same bytes; closing takes it back to rest.\<close>

lemma mid_open:
  assumes m: "mid k w b cap w mp" and mo: "mode_ok k False b mp" and ns: "\<not> bsealed b"
  obtains (ok) w1 mp1 where "openBuf k b w = (None, if bclosed b then b\<lparr>bopeners := bopeners b + 1\<rparr> else b, w1)"
      "mid k w b cap w1 mp1" "cells w1 = cells w" "mbytes mp1 = mbytes mp" "usable k b mp1" "mode_ok k False b mp1"
      "\<not> bclosed b \<Longrightarrow> w1 = w \<and> mp1 = mp"
  | (failed) w1 mp1 where "openBuf k b w = (Some ErrOS, b, w1)" "mid k w b cap w1 mp1" "cells w1 = cells w"
      "mbytes mp1 = mbytes mp" "mode_ok k False b mp1" "bclosed b" "bopeners b = 0"
proof (cases "bclosed b \<and> bopeners b = 0")
  case False
  have "openBuf k b w = (None, if bclosed b then b\<lparr>bopeners := bopeners b + 1\<rparr> else b, w)"
    using False by (auto simp: openBuf_def)
  moreover have "usable k b mp" using False mo ns by (auto simp: mode_ok_def)
  ultimately show thesis using ok [of w mp] m mo by simp
next
  case True
  let ?p = "if breadOnly b then PROT_READ else PROT_RW"
  have ns': "platform k \<noteq> Stub" using True mo by (simp add: mode_ok_def)
  obtain e1 m1 where e1: "mprotectSecretMem k (bregion b) ?p (mem w) = (e1, m1)" by fastforce
  obtain e2 m2 where e2: "relockSecretMem k (bregion b) m1 = (e2, m2)" by fastforce
  obtain e3 m3 where e3: "mprotectSecretMem k (bregion b) PROT_NONE m2 = (e3, m3)" by fastforce
  have rest: "mode_ok k False b mp'" if "mlocked_in mp' = mlocked_in mp \<or> platform k = Windows" for mp'
    using True mo that by (auto simp: mode_ok_def)
  from m e1 show thesis
  proof (cases rule: mid_mprotect)
    case f1: failed
    then show thesis using failed [of "w\<lparr>mem := m1\<rparr>" mp] True e1 mo by (simp add: openBuf_def)
  next
    case o1: ok
    let ?mp1 = "setp k ?p mp"
    from o1(2) e2 have "relockSecretMem k (bregion b) (mem (w\<lparr>mem := m1\<rparr>)) = (e2, m2)" by simp
    with o1(2) show thesis
    proof (cases rule: mid_relock)
      case o2: ok
      have "usable k b (relocked k ?mp1)"
        using ns' mo ns True by (auto simp: usable_def relocked_def setp_locked mode_ok_def)
      moreover have "mode_ok k False b (relocked k ?mp1)"
        by (rule rest) (auto simp: relocked_def setp_locked)
      ultimately show thesis using ok [of "w\<lparr>mem := m2\<rparr>" "relocked k ?mp1"] o1 o2 True e1 e2 by (simp add: openBuf_def)
    next
      case f2: failed
      then have "mid k w b cap (w\<lparr>mem := m2\<rparr>) ?mp1" by simp
      moreover have "mprotectSecretMem k (bregion b) PROT_NONE (mem (w\<lparr>mem := m2\<rparr>)) = (e3, m3)" using e3 by simp
      ultimately show thesis
      proof (cases rule: mid_mprotect)
        case ok
        have "mode_ok k False b (setp k PROT_NONE ?mp1)" by (rule rest) (auto simp: setp_locked)
        then show thesis using failed [of "w\<lparr>mem := m3\<rparr>"] ok(2) o1(1) f2(1) True e1 e2 e3 by (simp add: openBuf_def)
      next
        case f3: failed
        have "mode_ok k False b ?mp1" by (rule rest) (auto simp: setp_locked)
        then show thesis using failed [of "w\<lparr>mem := m3\<rparr>"] f3(3) o1(1) f2(1) True e1 e2 e3 by (simp add: openBuf_def)
      qed
    qed
  qed
qed

lemma mid_close:
  assumes m: "mid k w b cap w1 mp" and mo: "mode_ok k False b mp" and ns: "\<not> bsealed b"
  obtains ce w2 mp2 where
      "closeBuf k (if bclosed b then b\<lparr>bopeners := bopeners b + 1\<rparr> else b) w1 = (ce, b, w2)"
      "mid k w b cap w2 mp2" "cells w2 = cells w1" "mbytes mp2 = mbytes mp" "mode_ok k False b mp2"
      "ce = None \<or> ce = Some ErrOS \<and> bclosed b" "\<not> bclosed b \<Longrightarrow> mp2 = mp"
      "bclosed b \<Longrightarrow> ce = None \<Longrightarrow> bopeners b = 0 \<Longrightarrow> mprot mp2 = PROT_NONE"
proof (cases "bclosed b \<and> bopeners b = 0")
  case False
  have "closeBuf k (if bclosed b then b\<lparr>bopeners := bopeners b + 1\<rparr> else b) w1 = (None, b, w1)"
    using False mo by (auto simp: closeBuf_def mode_ok_def Let_def)
  then show thesis using that [of None w1 mp] m mo False by simp
next
  case True
  have ns': "platform k \<noteq> Stub" using True mo by (simp add: mode_ok_def)
  obtain e1 m1 where e1: "mprotectSecretMem k (bregion b) PROT_NONE (mem w1) = (e1, m1)" by fastforce
  have c: "closeBuf k (if bclosed b then b\<lparr>bopeners := bopeners b + 1\<rparr> else b) w1 = (e1, b, w1\<lparr>mem := m1\<rparr>)"
    using True e1 by (simp add: closeBuf_def Let_def)
  from m e1 show thesis
  proof (cases rule: mid_mprotect)
    case ok
    have "mode_ok k False b (setp k PROT_NONE mp)" using True mo by (auto simp: mode_ok_def setp_locked)
    then show thesis using that [OF c ok(2)] ok(1) ns' True by simp
  next
    case failed
    then show thesis using that [OF c failed(3)] mo True by simp
  qed
qed

text \<open>
  The lemma all access methods rest on: from a usable buffer nothing faults, the state of the buffer
  comes back as it was, and the data changes by \<open>f\<close> exactly when the region could be opened.
\<close>

lemma whileOpen_spec:
  assumes inv: "buf_inv k w b" and live: "\<not> destroyed b" "\<not> cells w (bwiped b)" "\<not> bsealed b"
    and d: "does k (the (bdata b)) P act x f" and f: "\<And>c. length (f c) = length c"
    and ro: "breadOnly b \<Longrightarrow> P (acontents (absB k w b))"
  obtains oe ce w' where
    "whileOpen k act dflt b w = Some (if oe = None then x (acontents (absB k w b)) else dflt, oe, ce, b, w')"
    "buf_post k w b w' b" "absB k w' b = ALive ((if oe = None then f else id) (acontents (absB k w b))) False (breadOnly b)"
    "oe = None \<or> oe = Some ErrOS \<and> bclosed b \<and> ce = None" "ce = None \<or> ce = Some ErrOS \<and> bclosed b"
    "bclosed b \<Longrightarrow> oe = None \<Longrightarrow> ce = None \<Longrightarrow> bopeners b = 0 \<Longrightarrow> mprot (mapping_of w' b) = PROT_NONE"
    "\<not> bclosed b \<Longrightarrow> mprot (mapping_of w' b) = mprot (mapping_of w b)"
proof -
  obtain n cap mp where s: "bdata b = Some n" "n \<le> cap" "mid k w b cap w mp" "mode_ok k (cells w (bcipher b)) b mp"
    "mapping_of w b = mp" "absB k w b = ALive (take n (plainOf k (cells w (bcipher b)) mp)) (bsealed b) (breadOnly b)"
    by (rule mid_start [OF inv live(1,2)])
  have nc: "\<not> cells w (bcipher b)" using s(4) live(3) by (auto simp: mode_ok_def)
  have mo: "mode_ok k False b mp" using s(4) nc by simp
  have a: "acontents (absB k w b) = take n (mbytes mp)" using s(6) nc by (simp add: plainOf_def)
  from s(3) mo live(3) show thesis
  proof (cases rule: mid_open)
    case (failed w1 mp1)
    have "mode_ok k (cells w1 (bcipher b)) b mp1" using failed(3,5) nc by simp
    note fin = mid_finish [OF failed(2) same_ident_refl s(1,2) this]
    show thesis
      using that [of "Some ErrOS" None w1] failed fin a nc live(3) by (simp add: whileOpen_def plainOf_def)
  next
    case (ok w1 mp1)
    let ?b1 = "if bclosed b then b\<lparr>bopeners := bopeners b + 1\<rparr> else b"
    have "bregion ?b1 = bregion b" "bdata ?b1 = Some n" using s(1) by auto
    moreover have "mprot mp1 \<noteq> PROT_NONE" "mprot mp1 = PROT_RW \<or> P (take n (mbytes mp1))"
      using ok(4,5) ro a by (auto simp: usable_def)
    ultimately obtain m2 where m2: "act ?b1 w1 = Some (x (take n (mbytes mp1)), w1\<lparr>mem := m2\<rparr>)"
      "mid k w b cap (w1\<lparr>mem := m2\<rparr>) (mp1\<lparr>mbytes := f (take n (mbytes mp1)) @ drop n (mbytes mp1)\<rparr>)"
      using d ok(2) s(1,2) unfolding does_def by (metis option.sel)
    have "mode_ok k False b (mp1\<lparr>mbytes := f (take n (mbytes mp1)) @ drop n (mbytes mp1)\<rparr>)"
      using ok(6) by (simp add: mode_ok_def usable_def)
    with m2(2) show thesis using live(3)
    proof (cases rule: mid_close)
      case (1 ce w3 mp3)
      have nc3: "\<not> cells w3 (bcipher b)" using 1(3) ok(3) nc by simp
      then have "mode_ok k (cells w3 (bcipher b)) b mp3" using 1(5) by simp
      note fin = mid_finish [OF 1(2) same_ident_refl s(1,2) this]
      have "n \<le> length (mbytes mp)" using s(2) midD(10,14) [OF s(3)] by simp
      then have "take n (mbytes mp3) = f (take n (mbytes mp))" using 1(4) ok(4) f by simp
      then show thesis
        using that [of None ce w3] ok 1 m2(1) fin a nc3 live(3) s(5) by (simp add: whileOpen_def plainOf_def)
    qed
  qed
qed

section \<open>What the middle parts do\<close>

definition readAll :: "bufferState \<Rightarrow> world \<Rightarrow> (bytes \<times> world) option" where
  "readAll b w = do { c \<leftarrow> readData b w; Some (c, w) }"

lemma does_readAll: "does k n (\<lambda>_. True) readAll (\<lambda>c. c) (\<lambda>c. c)"
  by (rule does_read) (simp add: readAll_def)

lemma does_compare: "does k n (\<lambda>_. True) (compareData other) (\<lambda>c. c = other) (\<lambda>c. c)"
  by (rule does_read) (simp add: compareData_def)

lemma does_copyFrom:
  "does k n (\<lambda>_. True) (copyFrom off hi dst) (\<lambda>c. (int (goCopyLen 0 (subslice off hi c) dst), goCopy 0 (subslice off hi c) dst)) (\<lambda>c. c)"
  by (rule does_read) (simp add: copyFrom_def Let_def)

lemma does_callback: "does k n (\<lambda>c. goCopy 0 (snd (fn c)) c = c) (runCallback fn) (\<lambda>c. fst (fn c)) (\<lambda>c. goCopy 0 (snd (fn c)) c)"
  by (rule does_write [where f = "\<lambda>c. snd (fn c)"]) (auto simp: runCallback_def bind_eq_Some_conv split: bind_splits)

text \<open>The data after \<^verbatim>\<open>copy(s.data[off:hi], src)\<close>.\<close>

definition stored :: "nat \<Rightarrow> nat \<Rightarrow> bytes \<Rightarrow> bytes \<Rightarrow> bytes" where
  "stored off hi src c = patch off (goCopy 0 src (subslice off hi c)) c"

lemma length_stored: "off \<le> hi \<Longrightarrow> hi \<le> length c \<Longrightarrow> length (stored off hi src c) = length c"
  by (simp add: stored_def)

lemma does_copyInto:
  assumes "off \<le> hi" "hi \<le> n"
  shows "does k n (\<lambda>_. False) (copyInto off hi src) (\<lambda>c. int (goCopyLen 0 src (subslice off hi c)))
    (\<lambda>c. if off \<le> hi \<and> hi \<le> length c then stored off hi src c else c)"
  by (rule does_mono [OF does_write [where f = "stored off hi src"]])
    (use assms in \<open>auto simp: copyInto_def Let_def stored_def goCopy_whole bind_eq_Some_conv split: bind_splits\<close>)

lemma mid_wipe:
  assumes m: "mid k w b cap w1 mp" and rw: "mprot mp = PROT_RW" and n: "lo \<le> hi" "hi \<le> cap"
  shows "\<exists>m2. secureWipeSlice (bregion b) lo hi (mem w1) = Some m2 \<and>
    mid k w b cap (w1\<lparr>mem := m2\<rparr>) (mp\<lparr>mbytes := patch lo (zeros (hi - lo)) (mbytes mp)\<rparr>)"
proof -
  note M = midD [OF m]
  obtain m2 where m2: "secureWipeSlice (bregion b) lo hi (mem w1) = Some m2"
    "mem_upd (base (bregion b)) (\<lambda>mp. mp\<lparr>mbytes := patch lo (zeros (hi - lo)) (mbytes mp)\<rparr>) (mem w1) m2"
    using secureWipeSlice_Some [OF M(8) rw, of lo hi] n M(14) by auto
  then show ?thesis using mid_upd [OF m m2(2)] n M(10,14) rw by auto
qed

lemma does_wipeTail:
  assumes "lo \<le> n"
  shows "does k n (\<lambda>_. False) (wipeTail lo) (\<lambda>_. 0) (\<lambda>c. take lo c @ zeros (length c - lo))"
  unfolding does_def
proof (intro allI impI)
  fix w b cap w1 and mp :: mapping and b1 :: bufferState
  let ?c = "take n (mbytes mp)"
  assume a: "mid k w b cap w1 mp \<and> mprot mp \<noteq> PROT_NONE \<and> bregion b1 = bregion b \<and>
     bdata b1 = Some n \<and> n \<le> cap \<and> (mprot mp = PROT_RW \<or> False)"
  then obtain m2 where m2: "secureWipeSlice (bregion b) lo n (mem w1) = Some m2"
    "mid k w b cap (w1\<lparr>mem := m2\<rparr>) (mp\<lparr>mbytes := patch lo (zeros (n - lo)) (mbytes mp)\<rparr>)"
    using mid_wipe [of k w b cap w1 mp lo n] assms by auto
  have "n \<le> length (mbytes mp)" using a midD(10,14) [of k w b cap w1 mp] by simp
  then have "patch lo (zeros (n - lo)) (mbytes mp) = (take lo ?c @ zeros (length ?c - lo)) @ drop n (mbytes mp)"
    using assms by (simp add: patch_def min_absorb1 min_absorb2)
  then show "\<exists>m2. wipeTail lo b1 w1 = Some (0, w1\<lparr>mem := m2\<rparr>) \<and>
    mid k w b cap (w1\<lparr>mem := m2\<rparr>) (mp\<lparr>mbytes := (take lo ?c @ zeros (length ?c - lo)) @ drop n (mbytes mp)\<rparr>)"
    using m2 a by (intro exI [of _ m2]) (simp add: wipeTail_def)
qed

section \<open>The contract of an access method\<close>

text \<open>At rest: nobody has the region open and its protection is the one the flags call for.\<close>

definition at_rest :: "kernel \<Rightarrow> world \<Rightarrow> bufferState \<Rightarrow> bool" where
  "at_rest k w b \<longleftrightarrow> destroyed b \<or> cells w (bwiped b) \<or> bopeners b = 0 \<and>
     (platform k \<noteq> Stub \<longrightarrow> mprot (mapping_of w b) = (if bsealed b then PROT_NONE else restProtection b))"

text \<open>
  A method \<open>M\<close> implements the specification \<open>S\<close> of its result, its error and the buffer a caller
  sees: from every state in which \<open>Q\<close> holds it returns without a fault, it keeps the invariant of this buffer and
  touches nothing of any other registration, and after success the buffer is at rest again.
\<close>

definition refines ::
    "kernel \<Rightarrow> (world \<Rightarrow> bufferState \<Rightarrow> bool) \<Rightarrow> (bufferState \<Rightarrow> world \<Rightarrow> ('a \<times> error \<times> bufferState \<times> world) option) \<Rightarrow>
     (bool \<Rightarrow> abuf \<Rightarrow> 'a \<Rightarrow> error \<Rightarrow> abuf \<Rightarrow> bool) \<Rightarrow> bool" where
  "refines k Q M S \<longleftrightarrow> (\<forall>b w. buf_inv k w b \<and> Q w b \<longrightarrow> (\<exists>r e b' w'. M b w = Some (r, e, b', w') \<and>
     buf_post k w b w' b' \<and> S (bclosed b) (absB k w b) r e (absB k w' b') \<and>
     (at_rest k w b \<and> e = None \<longrightarrow> at_rest k w' b')))"

text \<open>A method that returns only an error.\<close>

definition proc ::
    "(bufferState \<Rightarrow> world \<Rightarrow> (error \<times> bufferState \<times> world) option) \<Rightarrow>
     bufferState \<Rightarrow> world \<Rightarrow> (unit \<times> error \<times> bufferState \<times> world) option" where
  "proc M b w = map_option (\<lambda>(e, b', w'). ((), e, b', w')) (M b w)"

text \<open>
  The specification of an access: refused on a destroyed, wiped, sealed and (for a write)
  read-only buffer; otherwise \<open>op\<close> rejects its arguments or gives the result, an error of its own and the new
  contents.
  A buffer that is closed at rest may also fail to open, or to close again.
\<close>

definition accessSpec ::
    "bool \<Rightarrow> (bytes \<Rightarrow> err + ('a \<times> error \<times> bytes)) \<Rightarrow> 'a \<Rightarrow> bool \<Rightarrow> abuf \<Rightarrow> 'a \<Rightarrow> error \<Rightarrow> abuf \<Rightarrow> bool" where
  "accessSpec wr op dflt closed a r e a' = (case a of
     ADestroyed \<Rightarrow> r = dflt \<and> e = Some ErrDestroyed \<and> a' = a
   | AWiped \<Rightarrow> r = dflt \<and> e = Some ErrWiped \<and> a' = a
   | ALive c s ro \<Rightarrow>
       if s then r = dflt \<and> e = Some ErrSealed \<and> a' = a
       else if wr \<and> ro then r = dflt \<and> e = Some ErrReadOnly \<and> a' = a
       else (case op c of
           Inl er \<Rightarrow> r = dflt \<and> e = Some er \<and> a' = a
         | Inr (x, e0, c') \<Rightarrow> e = e0 \<and> r = x \<and> a' = ALive c' s ro \<or>
             closed \<and> e = Some ErrOS \<and> (r = dflt \<and> a' = a \<or> (r = x \<or> r = dflt) \<and> a' = ALive c' s ro)))"

lemma guard_cases:
  assumes "buf_inv k w b"
  obtains (refused) e where "(if wr then writeGuard b w else readGuard b w) = Some e"
      "\<And>op dflt. accessSpec wr op dflt (bclosed b) (absB k w b) dflt (Some e) (absB k w b)"
  | (live) c where "(if wr then writeGuard b w else readGuard b w) = None" "\<not> destroyed b" "\<not> cells w (bwiped b)"
      "\<not> bsealed b" "wr \<Longrightarrow> \<not> breadOnly b" "absB k w b = ALive c False (breadOnly b)" "bdata b = Some (length c)"
proof -
  consider (destroyed) "destroyed b" | (wiped) "\<not> destroyed b" "cells w (bwiped b)" | (False) "\<not> (destroyed b \<or> cells w (bwiped b))"
    by auto
  then show thesis
  proof cases
    case destroyed
    then have "bdata b = None" "absB k w b = ADestroyed" using assms by (auto simp: buf_inv_def buf_ok_def absB_def)
    then show thesis using refused [of ErrDestroyed] by (simp add: readGuard_def writeGuard_def accessSpec_def)
  next
    case wiped
    then have "bdata b \<noteq> None" "absB k w b = AWiped" using assms by (auto simp: buf_inv_def buf_ok_def absB_def)
    then show thesis using refused [of ErrWiped] wiped by (simp add: readGuard_def writeGuard_def accessSpec_def)
  next
  case False
  then obtain n cap mp where s: "bdata b = Some n" "n \<le> cap" "mid k w b cap w mp" "mode_ok k (cells w (bcipher b)) b mp"
    "absB k w b = ALive (take n (plainOf k (cells w (bcipher b)) mp)) (bsealed b) (breadOnly b)"
    using mid_start [OF assms] by metis
  show thesis
  proof (cases "bsealed b \<or> wr \<and> breadOnly b")
    case True
    then show thesis using refused [of "if bsealed b then ErrSealed else ErrReadOnly"] s(1,5) False
      by (auto simp: readGuard_def writeGuard_def accessSpec_def split: if_splits)
  next
    case unsealed: False
    then have "\<not> cells w (bcipher b)" using s(4) by (auto simp: mode_ok_def)
    then show thesis
      using live [of "take n (mbytes mp)"] unsealed s False midD(10,14) [OF s(3)]
      by (auto simp: readGuard_def writeGuard_def plainOf_def)
  qed
  qed
qed

lemma whileOpen_direct:
  "\<not> bclosed b \<Longrightarrow> whileOpen k act dflt b w = map_option (\<lambda>(x, w1). (x, None, None, b, w1)) (act b w)"
  by (cases "act b w") (auto simp: whileOpen_def openBuf_def closeBuf_def)

lemma copyClosed_direct:
  "\<not> bclosed b \<Longrightarrow> copyClosed k act dflt b w = map_option (\<lambda>(x, w1). (x, None, b, w1)) (act b w)"
  by (cases "act b w") (auto simp: copyClosed_def whileOpen_direct)

lemma copyClosed_spec:
  assumes inv: "buf_inv k w b" and live: "\<not> destroyed b" "\<not> cells w (bwiped b)" "\<not> bsealed b"
    and c: "absB k w b = ALive c False (breadOnly b)"
    and d: "does k (the (bdata b)) P act x f" and f: "\<And>c. length (f c) = length c" and ro: "breadOnly b \<Longrightarrow> P c"
  obtains r e w' where "copyClosed k act dflt b w = Some (r, e, b, w')" "buf_post k w b w' b"
    "e = None \<and> r = x c \<and> absB k w' b = ALive (f c) False (breadOnly b) \<or>
     bclosed b \<and> e = Some ErrOS \<and> (r = dflt \<and> absB k w' b = absB k w b \<or> r = x c \<and> absB k w' b = ALive (f c) False (breadOnly b))"
    "at_rest k w b \<Longrightarrow> e = None \<Longrightarrow> at_rest k w' b"
proof -
  obtain oe ce w' where o:
    "whileOpen k act dflt b w = Some (if oe = None then x (acontents (absB k w b)) else dflt, oe, ce, b, w')"
    "buf_post k w b w' b" "absB k w' b = ALive ((if oe = None then f else id) (acontents (absB k w b))) False (breadOnly b)"
    "oe = None \<or> oe = Some ErrOS \<and> bclosed b \<and> ce = None" "ce = None \<or> ce = Some ErrOS \<and> bclosed b"
    "bclosed b \<Longrightarrow> oe = None \<Longrightarrow> ce = None \<Longrightarrow> bopeners b = 0 \<Longrightarrow> mprot (mapping_of w' b) = PROT_NONE"
    "\<not> bclosed b \<Longrightarrow> mprot (mapping_of w' b) = mprot (mapping_of w b)"
    by (rule whileOpen_spec [OF inv live d f]) (use ro c in auto)
  have "at_rest k w' b" if "at_rest k w b" "oe = None" "ce = None"
    using that o(6,7) live by (cases "bclosed b") (auto simp: at_rest_def restProtection_def)
  then show thesis
    using that [of "if oe = None then x c else dflt" "if oe \<noteq> None then oe else ce" w'] o(1-5) c
    by (auto simp: copyClosed_def split: if_splits)
qed

text \<open>A method that is a guard, a test of its arguments, and one access.\<close>

lemma refines_access:
  fixes dflt :: 'a
  assumes refuse: "\<And>b w e. (if wr then writeGuard b w else readGuard b w) = Some e \<Longrightarrow> M b w = Some (dflt, Some e, b, w)"
    and bad: "\<And>b w c er. (if wr then writeGuard b w else readGuard b w) = None \<Longrightarrow> bdata b = Some (length c) \<Longrightarrow>
      op c = Inl er \<Longrightarrow> M b w = Some (dflt, Some er, b, w)"
    and ok: "\<And>b w c y e0 c'. (if wr then writeGuard b w else readGuard b w) = None \<Longrightarrow> buf_inv k w b \<Longrightarrow> \<not> destroyed b \<Longrightarrow>
      \<not> cells w (bwiped b) \<Longrightarrow> \<not> bsealed b \<Longrightarrow> (wr \<Longrightarrow> \<not> breadOnly b) \<Longrightarrow> absB k w b = ALive c False (breadOnly b) \<Longrightarrow>
      bdata b = Some (length c) \<Longrightarrow> op c = Inr (y, e0, c') \<Longrightarrow> Q w b \<Longrightarrow>
      \<exists>r e w'. M b w = Some (r, e, b, w') \<and> buf_post k w b w' b \<and> (at_rest k w b \<and> e = None \<longrightarrow> at_rest k w' b) \<and>
        (e = e0 \<and> r = y \<and> absB k w' b = ALive c' False (breadOnly b) \<or>
         bclosed b \<and> e = Some ErrOS \<and> (r = dflt \<and> absB k w' b = absB k w b \<or> (r = y \<or> r = dflt) \<and> absB k w' b = ALive c' False (breadOnly b)))"
  shows "refines k Q M (accessSpec wr op dflt)"
  unfolding refines_def
proof (intro allI impI)
  fix b w assume "buf_inv k w b \<and> Q w b"
  then have inv: "buf_inv k w b" and Q: "Q w b" by auto
  from inv show "\<exists>r e b' w'. M b w = Some (r, e, b', w') \<and> buf_post k w b w' b' \<and>
    accessSpec wr op dflt (bclosed b) (absB k w b) r e (absB k w' b') \<and> (at_rest k w b \<and> e = None \<longrightarrow> at_rest k w' b')"
  proof (cases rule: guard_cases [where wr = wr and ?'a = 'a])
    case (refused e)
    then show ?thesis using refuse [OF refused(1)] buf_post_refl [OF inv] by auto
  next
    case (live c)
    show ?thesis
    proof (cases "op c")
      case (Inl er)
      then show ?thesis using bad [OF live(1,7) Inl] buf_post_refl [OF inv] live by (auto simp: accessSpec_def)
    next
      case (Inr p)
      then obtain y e0 c' where p: "op c = Inr (y, e0, c')" by (cases p) auto
      from ok [OF live(1) inv live(2-7) p Q] show ?thesis using live p by (auto simp: accessSpec_def)
    qed
  qed
qed

lemma readData_length:
  assumes "buf_inv k w b" "\<not> destroyed b" "\<not> cells w (bwiped b)" "bdata b = Some n" "readData b w = Some d"
  shows "length d = n"
proof -
  obtain n' cap mp where s: "bdata b = Some n'" "n' \<le> cap" "mid k w b cap w mp"
    by (rule mid_start [OF assms(1-3)])
  note M = midD [OF s(3)]
  have "d = take n (mbytes mp)" using assms(4,5) M(8) by (auto simp: readData_def readMem_def region_at_def split: if_splits option.splits)
  then show ?thesis using s assms(4) M(10,14) by simp
qed

text \<open>The result and the error of the access may be worked on before they are returned.\<close>

definition mapResult :: "('b \<Rightarrow> error \<Rightarrow> 'a \<times> error) \<Rightarrow> ('b \<times> error \<times> bufferState \<times> world) option \<Rightarrow> ('a \<times> error \<times> bufferState \<times> world) option" where
  "mapResult post o1 = map_option (\<lambda>(s, e, b, w). (fst (post s e), snd (post s e), b, w)) o1"

lemma refines_post:
  assumes refuse: "\<And>b w e. (if wr then writeGuard b w else readGuard b w) = Some e \<Longrightarrow> M b w = Some (dflt, Some e, b, w)"
    and bad: "\<And>b w c er. (if wr then writeGuard b w else readGuard b w) = None \<Longrightarrow> bdata b = Some (length c) \<Longrightarrow>
      op c = Inl er \<Longrightarrow> M b w = Some (dflt, Some er, b, w)"
    and live: "\<And>b w c y. (if wr then writeGuard b w else readGuard b w) = None \<Longrightarrow> bdata b = Some (length c) \<Longrightarrow>
      op c = Inr y \<Longrightarrow> (\<And>d. readData b w = Some d \<Longrightarrow> length d = length c) \<Longrightarrow>
      M b w = mapResult post (copyClosed k (act (length c)) dz b w)"
    and op: "\<And>c y. op c = Inr y \<Longrightarrow> y = (fst (post (x c) None), snd (post (x c) None), f c) \<and> does k (length c) P (act (length c)) x f"
    and post: "\<And>s e. snd (post s (Some e)) \<noteq> None" "post dz (Some ErrOS) = (dflt, Some ErrOS)"
      "\<And>c. post (x c) (Some ErrOS) \<in> {post (x c) None, (fst (post (x c) None), Some ErrOS), (dflt, Some ErrOS)}"
    and f: "\<And>c. length (f c) = length c" and ro: "\<And>w b c. Q w b \<Longrightarrow> breadOnly b \<Longrightarrow> wr \<or> P c"
  shows "refines k Q M (accessSpec wr op dflt)"
proof (rule refines_access [OF refuse bad])
  fix b w c y e0 c'
  assume a: "(if wr then writeGuard b w else readGuard b w) = None" "buf_inv k w b" "\<not> destroyed b"
    "\<not> cells w (bwiped b)" "\<not> bsealed b" "wr \<Longrightarrow> \<not> breadOnly b" "absB k w b = ALive c False (breadOnly b)"
    "bdata b = Some (length c)" "op c = Inr (y, e0, c')" "Q w b"
  have l: "length d = length c" if "readData b w = Some d" for d by (rule readData_length [OF a(2-4,8) that])
  have d: "does k (the (bdata b)) P (act (length c)) x f" using op [OF a(9)] a(8) by simp
  have y: "post (x c) None = (y, e0)" "c' = f c" using op [OF a(9)] by auto
  have "breadOnly b \<Longrightarrow> P c" using ro [of w b c] a(6,10) by auto
  with a(2-5,7) d f show "\<exists>r e w'. M b w = Some (r, e, b, w') \<and> buf_post k w b w' b \<and>
      (at_rest k w b \<and> e = None \<longrightarrow> at_rest k w' b) \<and>
      (e = e0 \<and> r = y \<and> absB k w' b = ALive c' False (breadOnly b) \<or>
       bclosed b \<and> e = Some ErrOS \<and> (r = dflt \<and> absB k w' b = absB k w b \<or>
         (r = y \<or> r = dflt) \<and> absB k w' b = ALive c' False (breadOnly b)))"
  proof (rule copyClosed_spec [where dflt = dz])
    fix r e w' assume s: "copyClosed k (act (length c)) dz b w = Some (r, e, b, w')" "buf_post k w b w' b"
      "e = None \<and> r = x c \<and> absB k w' b = ALive (f c) False (breadOnly b) \<or>
       bclosed b \<and> e = Some ErrOS \<and> (r = dz \<and> absB k w' b = absB k w b \<or> r = x c \<and> absB k w' b = ALive (f c) False (breadOnly b))"
      "at_rest k w b \<Longrightarrow> e = None \<Longrightarrow> at_rest k w' b"
    have M: "M b w = Some (fst (post r e), snd (post r e), b, w')" using live [OF a(1,8,9) l] s(1) by (simp add: mapResult_def)
    have "e = None" if "snd (post r e) = None" using that post(1) by (cases e) auto
    moreover have "snd (post r e) = e0 \<and> fst (post r e) = y \<and> absB k w' b = ALive c' False (breadOnly b) \<or>
       bclosed b \<and> snd (post r e) = Some ErrOS \<and> (fst (post r e) = dflt \<and> absB k w' b = absB k w b \<or>
         (fst (post r e) = y \<or> fst (post r e) = dflt) \<and> absB k w' b = ALive c' False (breadOnly b))"
      using s(3) y post(2) post(3) [of c] by auto
    ultimately show ?thesis using M s(2,4)
      by (intro exI [of _ "fst (post r e)"] exI [of _ "snd (post r e)"] exI [of _ w']) blast
  qed
qed

lemma mapResult_Pair [simp]: "mapResult Pair o1 = o1"
  by (cases o1) (auto simp: mapResult_def)

lemma refines_copy:
  assumes "\<And>b w e. (if wr then writeGuard b w else readGuard b w) = Some e \<Longrightarrow> M b w = Some (dflt, Some e, b, w)"
    "\<And>b w c er. (if wr then writeGuard b w else readGuard b w) = None \<Longrightarrow> bdata b = Some (length c) \<Longrightarrow>
      op c = Inl er \<Longrightarrow> M b w = Some (dflt, Some er, b, w)"
    "\<And>b w c y. (if wr then writeGuard b w else readGuard b w) = None \<Longrightarrow> bdata b = Some (length c) \<Longrightarrow>
      op c = Inr y \<Longrightarrow> (\<And>d. readData b w = Some d \<Longrightarrow> length d = length c) \<Longrightarrow>
      M b w = copyClosed k (act (length c)) dflt b w"
    "\<And>c y. op c = Inr y \<Longrightarrow> y = (x c, None, f c) \<and> does k (length c) P (act (length c)) x f"
    "\<And>c. length (f c) = length c" "\<And>w b c. Q w b \<Longrightarrow> breadOnly b \<Longrightarrow> wr \<or> P c"
  shows "refines k Q M (accessSpec wr op dflt)"
  by (rule refines_post [where post = Pair and act = act and x = x and f = f and P = P and dflt = dflt and dz = dflt])
    (use assms in auto)

section \<open>The access methods\<close>

definition inRange :: "int \<Rightarrow> bytes \<Rightarrow> 'a \<Rightarrow> err + 'a" where
  "inRange i c x = (if i < 0 \<or> int (length c) \<le> i then Inl (ErrMsg ''out of range'') else Inr x)"

lemma inRange_simps:
  "inRange i c x = Inl e \<longleftrightarrow> e = ErrMsg ''out of range'' \<and> (i < 0 \<or> int (length c) \<le> i)"
  "inRange i c x = Inr y \<longleftrightarrow> y = x \<and> 0 \<le> i \<and> i < int (length c)"
  by (auto simp: inRange_def)

lemma guard_data:
  "readGuard b w = None \<Longrightarrow> bdata b \<noteq> None" "writeGuard b w = None \<Longrightarrow> readGuard b w = None"
  by (auto simp: readGuard_def writeGuard_def split: if_splits option.splits)

text \<open>\<^verbatim>\<open>CopyOut\<close> copies the contents from the offset on, as much as fits.\<close>

definition aCopyOut :: "bytes \<Rightarrow> int \<Rightarrow> bytes \<Rightarrow> err + ((int \<times> bytes) \<times> error \<times> bytes)" where
  "aCopyOut dst off c = inRange off c
     ((int (min (length c - nat off) (length dst)), goCopy 0 (drop (nat off) c) dst), None, c)"

lemma subslice_rest: "n \<le> length c \<Longrightarrow> subslice n (length c) c = drop n c"
  by (simp add: subslice_def)

lemma refines_CopyOut: "refines k (\<lambda>_ _. True) (CopyOut k dst off) (accessSpec False (aCopyOut dst off) (0, dst))"
proof (rule refines_copy [where act = "\<lambda>n. copyFrom (nat off) n dst" and P = "\<lambda>_. True" and f = "\<lambda>c. c"
      and x = "\<lambda>c. (int (min (length c - nat off) (length dst)), goCopy 0 (drop (nat off) c) dst)"])
  fix b w c y assume "(if False then writeGuard b w else readGuard b w) = None" "bdata b = Some (length c)" "aCopyOut dst off c = Inr y"
  then show "CopyOut k dst off b w = copyClosed k (copyFrom (nat off) (length c) dst) (0, dst) b w"
    by (cases "bclosed b"; cases "copyFrom (nat off) (length c) dst b w")
      (auto simp: CopyOut_def copyClosed_direct aCopyOut_def inRange_simps)
next
  fix c y assume "aCopyOut dst off c = Inr y"
  then show "y = ((int (min (length c - nat off) (length dst)), goCopy 0 (drop (nat off) c) dst), None, c) \<and>
    does k (length c) (\<lambda>_. True) (copyFrom (nat off) (length c) dst)
      (\<lambda>c. (int (min (length c - nat off) (length dst)), goCopy 0 (drop (nat off) c) dst)) (\<lambda>c. c)"
    by (auto simp: aCopyOut_def inRange_simps goCopyLen_def subslice_def intro!: does_cong [OF does_copyFrom])
qed (auto simp: CopyOut_def aCopyOut_def inRange_simps)

text \<open>\<^verbatim>\<open>ByteAt\<close> and \<^verbatim>\<open>ConstantTimeEqual\<close>.\<close>

definition aByteAt :: "int \<Rightarrow> bytes \<Rightarrow> err + (byte \<times> error \<times> bytes)" where
  "aByteAt i c = inRange i c (c ! nat i, None, c)"

lemma copyClosed_map:
  assumes "\<And>b w. act' b w = map_option (\<lambda>(x, w'). (g x, w')) (act b w)"
  shows "copyClosed k act' (g d) b w = map_option (\<lambda>(x, e, b', w'). (g x, e, b', w')) (copyClosed k act d b w)"
  unfolding copyClosed_def whileOpen_def assms
  by (cases "openBuf k b w"; auto split: option.splits bind_splits prod.splits)

definition readByte :: "nat \<Rightarrow> bufferState \<Rightarrow> world \<Rightarrow> (byte \<times> world) option" where
  "readByte i b w = map_option (\<lambda>(x, w'). (snd x ! 0, w')) (copyFrom i (i + 1) [0] b w)"

lemma readByte_eq: "readByte i b w = do { c \<leftarrow> readData b w; Some (goCopy 0 (subslice i (i + 1) c) [0] ! 0, w) }"
  by (cases "readData b w") (auto simp: readByte_def copyFrom_def Let_def)

lemma goCopy_byte: "i < length c \<Longrightarrow> goCopy 0 (subslice i (i + 1) c) [0] ! 0 = c ! i"
  by (simp add: goCopy_def subslice_def goCopyLen_def nth_append)

lemma refines_ByteAt: "refines k (\<lambda>_ _. True) (ByteAt k i) (accessSpec False (aByteAt i) 0)"
proof (rule refines_copy [where act = "\<lambda>_. readByte (nat i)" and P = "\<lambda>_. True" and f = "\<lambda>c. c" and x = "\<lambda>c. goCopy 0 (subslice (nat i) (nat i + 1) c) [0] ! 0"])
  fix b w c y
  assume a: "(if False then writeGuard b w else readGuard b w) = None" "bdata b = Some (length c)" "aByteAt i c = Inr y"
    "\<And>d. readData b w = Some d \<Longrightarrow> length d = length c"
  then have i: "0 \<le> i" "nat i < length c" by (auto simp: aByteAt_def inRange_simps)
  show "ByteAt k i b w = copyClosed k (readByte (nat i)) 0 b w"
  proof (cases "bclosed b")
    case True
    have "copyClosed k (readByte (nat i)) (snd (0 :: int, [0]) ! 0) b w =
      map_option (\<lambda>(x, e, b', w'). (snd x ! 0, e, b', w')) (copyClosed k (copyFrom (nat i) (nat i + 1) [0]) (0, [0]) b w)"
      by (rule copyClosed_map) (simp add: readByte_def)
    then show ?thesis using a(1,2) i True
      by (cases "copyClosed k (copyFrom (nat i) (nat i + 1) [0]) (0, [0]) b w") (auto simp: ByteAt_def)
  next
    case False
    then show ?thesis using a(1,2,4) i
      by (cases "readData b w") (auto simp: ByteAt_def copyClosed_direct readByte_eq goCopy_byte simp del: One_nat_def)
  qed
next
  fix c y assume "aByteAt i c = Inr y"
  then show "y = (goCopy 0 (subslice (nat i) (nat i + 1) c) [0] ! 0, None, c) \<and>
    does k (length c) (\<lambda>_. True) (readByte (nat i)) (\<lambda>c. goCopy 0 (subslice (nat i) (nat i + 1) c) [0] ! 0) (\<lambda>c. c)"
    by (auto simp: aByteAt_def inRange_simps goCopy_byte readByte_eq simp del: One_nat_def intro!: does_read)
qed (auto simp: ByteAt_def aByteAt_def inRange_simps)

definition aEqual :: "bytes \<Rightarrow> bytes \<Rightarrow> err + (bool \<times> error \<times> bytes)" where
  "aEqual other c = Inr (c = other, None, c)"

lemma refines_ConstantTimeEqual: "refines k (\<lambda>_ _. True) (ConstantTimeEqual k other) (accessSpec False (aEqual other) False)"
  unfolding refines_def
proof (intro allI impI)
  fix b w assume "buf_inv k w b \<and> True"
  then have inv: "buf_inv k w b" by simp
  let ?S = "accessSpec False (aEqual other) False"
  let ?R = "\<exists>r e b' w'. ConstantTimeEqual k other b w = Some (r, e, b', w') \<and> buf_post k w b w' b' \<and>
    ?S (bclosed b) (absB k w b) r e (absB k w' b') \<and> (at_rest k w b \<and> e = None \<longrightarrow> at_rest k w' b')"
  have "refines k (\<lambda>_ _. True) (\<lambda>b w. case readGuard b w of Some e \<Rightarrow> Some (False, Some e, b, w) | None \<Rightarrow> equalClosed k other b w) ?S"
    by (rule refines_copy [where act = "\<lambda>_. compareData other" and P = "\<lambda>_. True" and f = "\<lambda>c. c" and x = "\<lambda>c. c = other"])
      (auto simp: aEqual_def equalClosed_def does_compare)
  then have eq: ?R if "ConstantTimeEqual k other b w = (case readGuard b w of Some e \<Rightarrow> Some (False, Some e, b, w) | None \<Rightarrow> equalClosed k other b w)"
    using inv that unfolding refines_def by auto
  from inv show ?R
  proof (cases rule: guard_cases [where wr = False and ?'a = bool])
    case (refused e)
    then show ?thesis by (intro eq) (simp add: ConstantTimeEqual_def)
  next
    case (live c)
    show ?thesis
    proof (cases "length c = length other")
      case True
      then show ?thesis using live
        by (intro eq) (cases "compareData other b w"; auto simp: ConstantTimeEqual_def equalClosed_def copyClosed_direct)
    next
      case False
      then show ?thesis using live buf_post_refl [OF inv] by (auto simp: ConstantTimeEqual_def accessSpec_def aEqual_def)
    qed
  qed
qed

text \<open>\<^verbatim>\<open>ExposeString\<close> and \<^verbatim>\<open>WriteTo\<close>.\<close>

definition aExpose :: "bytes \<Rightarrow> err + (bytes \<times> error \<times> bytes)" where
  "aExpose c = Inr (c, None, c)"

lemma readAll_eq: "(\<lambda>b w. do { c \<leftarrow> readData b w; Some (c, w) }) = readAll"
  by (simp add: fun_eq_iff readAll_def)

lemma refines_ExposeString: "refines k (\<lambda>_ _. True) (ExposeString k) (accessSpec False aExpose [])"
proof (rule refines_post [where post = "\<lambda>s e. (if e = None then s else [], e)" and act = "\<lambda>_. readAll" and dz = "[]"
      and P = "\<lambda>_. True" and x = "\<lambda>c. c" and f = "\<lambda>c. c"])
  fix b w c y assume a: "(if False then writeGuard b w else readGuard b w) = None" "aExpose c = Inr y"
  then show "ExposeString k b w = mapResult (\<lambda>s e. (if e = None then s else [], e)) (copyClosed k readAll [] b w)"
    by (cases "whileOpen k readAll [] b w") (auto simp: ExposeString_def readAll_eq mapResult_def copyClosed_def Let_def)
qed (auto simp: ExposeString_def aExpose_def does_readAll)

definition aWriteTo :: "(bytes \<Rightarrow> int \<times> error) \<Rightarrow> bytes \<Rightarrow> err + (int \<times> error \<times> bytes)" where
  "aWriteTo wr c = Inr (fst (wr c), snd (wr c), c)"

lemma refines_WriteTo: "refines k (\<lambda>_ _. True) (WriteTo k wr) (accessSpec False (aWriteTo wr) 0)"
proof (rule refines_post [where post = "\<lambda>s e. if e = None then wr s else (0, e)" and act = "\<lambda>_. readAll" and dz = "[]"
      and P = "\<lambda>_. True" and x = "\<lambda>c. c" and f = "\<lambda>c. c"])
  fix b w c y assume a: "(if False then writeGuard b w else readGuard b w) = None" "aWriteTo wr c = Inr y"
  then show "WriteTo k wr b w = mapResult (\<lambda>s e. if e = None then wr s else (0, e)) (copyClosed k readAll [] b w)"
    by (cases "whileOpen k readAll [] b w") (auto simp: WriteTo_def readAll_eq mapResult_def copyClosed_def)
qed (auto simp: WriteTo_def aWriteTo_def does_readAll)

text \<open>\<^verbatim>\<open>CopyIn\<close>, \<^verbatim>\<open>SetByteAt\<close> and the second half of \<^verbatim>\<open>ReadFrom\<close>.\<close>

lemma store_eq: "store k off hi src b w = copyClosed k (copyInto off hi src) 0 b w"
  by (cases "bclosed b"; cases "copyInto off hi src b w") (auto simp: store_def copyClosed_direct)

lemma stored_rest: "n \<le> length c \<Longrightarrow> stored n (length c) src c = goCopy n src c"
  by (simp add: stored_def patch_def goCopy_def goCopyLen_def subslice_def add.commute)

definition aCopyIn :: "bytes \<Rightarrow> int \<Rightarrow> bytes \<Rightarrow> err + (int \<times> error \<times> bytes)" where
  "aCopyIn src off c = inRange off c (int (min (length src) (length c - nat off)), None, goCopy (nat off) src c)"

lemma does_copyIn:
  assumes "off \<le> n"
  shows "does k n (\<lambda>_. False) (copyInto off n src) (\<lambda>c. int (min (length src) (length c - off)))
    (\<lambda>c. if off \<le> length c then goCopy off src c else c)"
  by (rule does_cong [OF does_copyInto]) (use assms in \<open>auto simp: goCopyLen_def stored_rest\<close>)

lemma refines_CopyIn: "refines k (\<lambda>_ _. True) (CopyIn k src off) (accessSpec True (aCopyIn src off) 0)"
proof (rule refines_copy [where act = "\<lambda>n. copyInto (nat off) n src" and P = "\<lambda>_. False"
      and x = "\<lambda>c. int (min (length src) (length c - nat off))" and f = "\<lambda>c. if nat off \<le> length c then goCopy (nat off) src c else c"])
  fix c y assume "aCopyIn src off c = Inr y"
  then show "y = (int (min (length src) (length c - nat off)), None, if nat off \<le> length c then goCopy (nat off) src c else c) \<and>
    does k (length c) (\<lambda>_. False) (copyInto (nat off) (length c) src) (\<lambda>c. int (min (length src) (length c - nat off)))
     (\<lambda>c. if nat off \<le> length c then goCopy (nat off) src c else c)"
    by (auto simp: aCopyIn_def inRange_simps intro!: does_copyIn)
qed (auto simp: CopyIn_def aCopyIn_def inRange_simps store_eq)

definition aSetByteAt :: "int \<Rightarrow> byte \<Rightarrow> bytes \<Rightarrow> err + (unit \<times> error \<times> bytes)" where
  "aSetByteAt i v c = inRange i c ((), None, c[nat i := v])"

lemma stored_byte: "i < length c \<Longrightarrow> stored i (i + 1) [v] c = c[i := v]"
  by (simp add: stored_def patch_def goCopy_def goCopyLen_def subslice_def upd_conv_take_nth_drop take_Suc_conv_app_nth)

lemma refines_SetByteAt: "refines k (\<lambda>_ _. True) (proc (SetByteAt k i v)) (accessSpec True (aSetByteAt i v) ())"
proof (rule refines_post [where post = "\<lambda>_ e. ((), e)" and act = "\<lambda>_. copyInto (nat i) (nat i + 1) [v]" and P = "\<lambda>_. False" and dz = 0
      and x = "\<lambda>c. int (goCopyLen 0 [v] (subslice (nat i) (nat i + 1) c))" and f = "\<lambda>c. c[nat i := v]"])
  fix b w c y assume "(if True then writeGuard b w else readGuard b w) = None" "bdata b = Some (length c)" "aSetByteAt i v c = Inr y"
  then show "proc (SetByteAt k i v) b w = mapResult (\<lambda>_ e. ((), e)) (copyClosed k (copyInto (nat i) (nat i + 1) [v]) 0 b w)"
    by (cases "copyClosed k (copyInto (nat i) (nat i + 1) [v]) 0 b w")
      (auto simp: SetByteAt_def proc_def mapResult_def store_eq aSetByteAt_def inRange_simps)
next
  fix c y assume y: "aSetByteAt i v c = Inr y"
  then have "nat i + 1 \<le> length c" by (auto simp: aSetByteAt_def inRange_simps)
  then have "does k (length c) (\<lambda>_. False) (copyInto (nat i) (nat i + 1) [v])
     (\<lambda>c. int (goCopyLen 0 [v] (subslice (nat i) (nat i + 1) c))) (\<lambda>c. c[nat i := v])"
    by (intro does_cong [OF does_copyInto]) (auto simp: stored_byte simp del: One_nat_def)
  then show "y = (fst ((), None :: error), snd ((), None :: error), c[nat i := v]) \<and> does k (length c) (\<lambda>_. False) (copyInto (nat i) (nat i + 1) [v])
     (\<lambda>c. int (goCopyLen 0 [v] (subslice (nat i) (nat i + 1) c))) (\<lambda>c. c[nat i := v])"
    using y by (auto simp: aSetByteAt_def inRange_simps)
qed (auto simp: SetByteAt_def proc_def aSetByteAt_def inRange_simps)

definition aFill :: "bytes \<Rightarrow> bytes \<Rightarrow> err + (int \<times> error \<times> bytes)" where
  "aFill src c = Inr (int (min (length src) (length c)), None, goCopy 0 src c)"

lemma refines_readFromStore: "refines k (\<lambda>_ _. True) (readFromStore k tmp) (accessSpec True (aFill tmp) 0)"
proof (rule refines_copy [where act = "\<lambda>n. copyInto 0 n tmp" and P = "\<lambda>_. False"
      and x = "\<lambda>c. int (min (length tmp) (length c))" and f = "\<lambda>c. goCopy 0 tmp c"])
  fix b w and c :: bytes and y assume "(if True then writeGuard b w else readGuard b w) = None" "bdata b = Some (length c)"
  then show "readFromStore k tmp b w = copyClosed k (copyInto 0 (length c) tmp) 0 b w"
    by (simp add: readFromStore_def copyClosed_def)
next
  fix c :: bytes and y assume "aFill tmp c = Inr y"
  then show "y = (int (min (length tmp) (length c)), None, goCopy 0 tmp c) \<and>
    does k (length c) (\<lambda>_. False) (copyInto 0 (length c) tmp) (\<lambda>c. int (min (length tmp) (length c))) (\<lambda>c. goCopy 0 tmp c)"
    by (auto simp: aFill_def intro!: does_cong [OF does_copyIn])
qed (auto simp: readFromStore_def aFill_def)

definition aReadFrom :: "(nat \<Rightarrow> bytes \<times> error) \<Rightarrow> bytes \<Rightarrow> err + (int \<times> error \<times> bytes)" where
  "aReadFrom rd c = (case rd (length c) of (tmp, er) \<Rightarrow>
     if er \<noteq> None \<and> \<not> errorIs er ErrEOF then Inr (int (length tmp), er, c) else aFill (take (length c) tmp) c)"

lemma refines_ReadFrom: "refines k (\<lambda>_ _. True) (ReadFrom k rd) (accessSpec True (aReadFrom rd) 0)"
  unfolding refines_def
proof (intro allI impI)
  fix b w assume "buf_inv k w b \<and> True"
  then have inv: "buf_inv k w b" by simp
  from inv show "\<exists>r e b' w'. ReadFrom k rd b w = Some (r, e, b', w') \<and> buf_post k w b w' b' \<and>
    accessSpec True (aReadFrom rd) 0 (bclosed b) (absB k w b) r e (absB k w' b') \<and> (at_rest k w b \<and> e = None \<longrightarrow> at_rest k w' b')"
  proof (cases rule: guard_cases [where wr = True and ?'a = int])
    case (refused e)
    then show ?thesis using buf_post_refl [OF inv] by (simp add: ReadFrom_def readFromSize_def)
  next
    case (live c)
    obtain tmp er where rd: "rd (length c) = (tmp, er)" by fastforce
    show ?thesis
    proof (cases "er \<noteq> None \<and> \<not> errorIs er ErrEOF")
      case True
      then show ?thesis using live rd buf_post_refl [OF inv]
        by (auto simp: ReadFrom_def readFromSize_def accessSpec_def aReadFrom_def)
    next
      case False
      have op: "aReadFrom rd c = aFill (take (length c) tmp) c" using False rd by (auto simp: aReadFrom_def)
      have M: "ReadFrom k rd b w = readFromStore k (take (length c) tmp) b w"
        using False rd live by (auto simp: ReadFrom_def readFromSize_def)
      obtain r e b' w' where "readFromStore k (take (length c) tmp) b w = Some (r, e, b', w')" "buf_post k w b w' b'"
        "accessSpec True (aFill (take (length c) tmp)) 0 (bclosed b) (absB k w b) r e (absB k w' b')"
        "at_rest k w b \<and> e = None \<longrightarrow> at_rest k w' b'"
        using refines_readFromStore [of k "take (length c) tmp"] inv unfolding refines_def by blast
      then show ?thesis using M op live(6) by (auto simp: accessSpec_def)
    qed
  qed
qed

text \<open>
  \<^verbatim>\<open>WithBytes\<close> and \<^verbatim>\<open>WithBytesErr\<close>. A callback that writes through the slice of a
  read-only buffer faults, so on such a buffer the callback has to be one that only reads.
\<close>

definition aCallback :: "(bytes \<Rightarrow> error \<times> bytes) \<Rightarrow> bytes \<Rightarrow> err + (unit \<times> error \<times> bytes)" where
  "aCallback fn c = Inr ((), fst (fn c), goCopy 0 (snd (fn c)) c)"

definition onlyReads :: "(bytes \<Rightarrow> error \<times> bytes) \<Rightarrow> bool" where
  "onlyReads fn \<longleftrightarrow> (\<forall>c. goCopy 0 (snd (fn c)) c = c)"

definition mayRun :: "(bytes \<Rightarrow> error \<times> bytes) \<Rightarrow> world \<Rightarrow> bufferState \<Rightarrow> bool" where
  "mayRun fn w b \<longleftrightarrow> (breadOnly b \<longrightarrow> onlyReads fn)"

lemma whileOpen_dflt: "whileOpen k act d b w = Some (x, Some e, ce, b', w') \<Longrightarrow> x = d \<and> ce = None"
  by (auto simp: whileOpen_def split: prod.splits option.splits bind_splits)

lemma borrowClosed_eq:
  "map_option (\<lambda>(e, b', w'). ((), e, b', w')) (borrowClosed k fn b w) =
   mapResult (\<lambda>re e. ((), if re \<noteq> None then re else e)) (copyClosed k (runCallback fn) None b w)"
proof (cases "whileOpen k (runCallback fn) None b w")
  case None
  then show ?thesis by (simp add: borrowClosed_def copyClosed_def mapResult_def)
next
  case (Some p)
  obtain x oe ce b' w' where "p = (x, oe, ce, b', w')" by (cases p) auto
  then show ?thesis
    using Some whileOpen_dflt [of k "runCallback fn" None b w] by (cases oe; cases x) (auto simp: borrowClosed_def copyClosed_def mapResult_def)
qed

lemma callback_live:
  assumes "bclosed b \<Longrightarrow> M = borrowClosed k fn b w" "\<not> bclosed b \<Longrightarrow> M = do { (e, w1) \<leftarrow> runCallback fn b w; Some (e, b, w1) }"
  shows "map_option (\<lambda>(e, b', w'). ((), e, b', w')) M =
    mapResult (\<lambda>re e. ((), if re \<noteq> None then re else e)) (copyClosed k (runCallback fn) None b w)"
proof (cases "bclosed b")
  case True
  then show ?thesis using assms(1) borrowClosed_eq [of k fn b w] by simp
next
  case False
  then show ?thesis using assms(2) by (cases "runCallback fn b w") (auto simp: copyClosed_direct mapResult_def)
qed

lemma refines_WithBytesErr:
  "refines k (mayRun fn) (proc (WithBytesErr k (Some fn))) (accessSpec False (aCallback fn) ())"
proof (rule refines_post [where post = "\<lambda>re e. ((), if re \<noteq> None then re else e)" and act = "\<lambda>_. runCallback fn" and dz = None
      and P = "\<lambda>c. goCopy 0 (snd (fn c)) c = c" and x = "\<lambda>c. fst (fn c)" and f = "\<lambda>c. goCopy 0 (snd (fn c)) c"])
  fix b w assume "(if False then writeGuard b w else readGuard b w) = None"
  then show "proc (WithBytesErr k (Some fn)) b w =
     mapResult (\<lambda>re e. ((), if re \<noteq> None then re else e)) (copyClosed k (runCallback fn) None b w)"
    unfolding proc_def by (intro callback_live) (auto simp: WithBytesErr_def)
qed (auto simp: WithBytesErr_def proc_def aCallback_def onlyReads_def mayRun_def does_callback)

lemma refines_WithBytes:
  "refines k (mayRun (\<lambda>c. (None, fn c))) (proc (WithBytes k (Some fn))) (accessSpec False (aCallback (\<lambda>c. (None, fn c))) ())"
proof -
  have "WithBytes k (Some fn) = WithBytesErr k (Some (\<lambda>c. (None, fn c)))"
    by (auto simp: fun_eq_iff WithBytes_def WithBytesErr_def runCallback_def split: option.splits bind_splits)
  then show ?thesis using refines_WithBytesErr [of k "\<lambda>c. (None, fn c)"] by simp
qed

text \<open>Such a write is a fault of the process.\<close>

lemma WithBytesErr_fault:
  assumes inv: "buf_inv k w b" and c: "absB k w b = ALive c False True" and ns: "\<not> bclosed b" "mprot (mapping_of w b) = PROT_READ"
    and f: "goCopy 0 (snd (fn c)) c \<noteq> c"
  shows "WithBytesErr k (Some fn) b w = None"
proof -
  have l: "\<not> destroyed b" "\<not> cells w (bwiped b)" "\<not> bsealed b" using c by (auto simp: absB_def split: if_splits)
  obtain n cap mp where s: "bdata b = Some n" "n \<le> cap" "mid k w b cap w mp" "mode_ok k (cells w (bcipher b)) b mp"
    "mapping_of w b = mp" "absB k w b = ALive (take n (plainOf k (cells w (bcipher b)) mp)) (bsealed b) (breadOnly b)"
    by (rule mid_start [OF inv l(1,2)])
  have "take n (mbytes mp) = c" using s(4,6) c l(3) by (auto simp: mode_ok_def plainOf_def)
  moreover have "readMem (bregion b) (mem w) = Some (mbytes mp)" using midD(8) [OF s(3)] ns(2) s(5) by simp
  moreover have "writeMem (bregion b) v (mem w) = None" for v
    using midD(8) [OF s(3)] ns(2) s(5) by (auto simp: writeMem_def region_at_def)
  moreover have "goCopy 0 (snd (fn c)) c @ drop n (mbytes mp) \<noteq> mbytes mp"
    using f calculation(1) by (metis append_same_eq append_take_drop_id)
  ultimately show ?thesis using s(1) l ns(1)
    by (simp add: WithBytesErr_def readGuard_def runCallback_def readData_def writeData_def Let_def)
qed

section \<open>Truncation and protection\<close>

lemma shrink:
  assumes "buf_inv k w b" "\<not> destroyed b" "n \<le> the (bdata b)"
  shows "buf_inv k w (b\<lparr>bdata := Some n\<rparr>)"
    "absB k w b = ALive c s r \<Longrightarrow> absB k w (b\<lparr>bdata := Some n\<rparr>) = ALive (take n c) s r"
    "at_rest k w (b\<lparr>bdata := Some n\<rparr>) = at_rest k w b" "mapping_of w (b\<lparr>bdata := Some n\<rparr>) = mapping_of w b"
proof -
  obtain l cap where l: "bdata b = Some l" "l \<le> cap" "cap \<le> innerLen (bregion b)" "buf_owned w b cap"
    using assms(1,2) by (auto simp: buf_inv_def buf_ok_def)
  then have "n \<le> cap" "buf_can (b\<lparr>bdata := Some n\<rparr>) cap = buf_can b cap" using assms(3) by (auto simp: buf_can_def)
  moreover have "mode_ok k x (b\<lparr>bdata := Some n\<rparr>) mp = mode_ok k x b mp" for x mp by (simp add: mode_ok_def usable_def)
  ultimately have "buf_ok k w (b\<lparr>bdata := Some n\<rparr>)"
    using assms(1,2) l by (simp add: buf_inv_def buf_ok_def destroyed_def) (intro exI [of _ cap], simp)
  then show "buf_inv k w (b\<lparr>bdata := Some n\<rparr>)" using assms(1,2) by (simp add: buf_inv_def destroyed_def)
  show "absB k w b = ALive c s r \<Longrightarrow> absB k w (b\<lparr>bdata := Some n\<rparr>) = ALive (take n c) s r"
    using assms(2,3) by (auto simp: absB_def destroyed_def mapping_of_def min_absorb1 split: if_splits)
qed (auto simp: at_rest_def destroyed_def mapping_of_def restProtection_def)

text \<open>
  \<^verbatim>\<open>Truncate\<close>: a nil error means the contents are the prefix; when only the closing of the
  region failed, the tail is zero and the length is as before.
\<close>

definition truncSpec :: "int \<Rightarrow> bool \<Rightarrow> abuf \<Rightarrow> unit \<Rightarrow> error \<Rightarrow> abuf \<Rightarrow> bool" where
  "truncSpec n closed a r e a' = (case a of
     ADestroyed \<Rightarrow> e = Some ErrDestroyed \<and> a' = a
   | AWiped \<Rightarrow> e = Some ErrWiped \<and> a' = a
   | ALive c s ro \<Rightarrow>
       if s then e = Some ErrSealed \<and> a' = a
       else if ro then e = Some ErrReadOnly \<and> a' = a
       else if n < 0 \<or> int (length c) < n then e = Some (ErrMsg ''out of range'') \<and> a' = a
       else e = None \<and> a' = ALive (take (nat n) c) s ro \<or>
         closed \<and> e = Some ErrOS \<and> (a' = a \<or> a' = ALive (take (nat n) c @ zeros (length c - nat n)) s ro))"

lemma live_cases:
  assumes inv: "buf_inv k w b"
  obtains (destroyed) "destroyed b" "absB k w b = ADestroyed" "bdata b = None"
  | (wiped) "\<not> destroyed b" "cells w (bwiped b)" "absB k w b = AWiped"
  | (sealed) c where "\<not> destroyed b" "\<not> cells w (bwiped b)" "bsealed b" "absB k w b = ALive c True (breadOnly b)"
  | (live) c where "\<not> destroyed b" "\<not> cells w (bwiped b)" "\<not> bsealed b" "absB k w b = ALive c False (breadOnly b)"
      "bdata b = Some (length c)"
  using inv
proof (cases rule: guard_cases [where wr = False and ?'a = unit])
  case (refused e)
  show thesis
  proof (cases "destroyed b")
    case True
    then show thesis using that(1) inv by (auto simp: absB_def buf_inv_def buf_ok_def)
  next
    case False
    then have "bdata b \<noteq> None" using inv by (auto simp: buf_inv_def buf_ok_def)
    then have "cells w (bwiped b) \<or> bsealed b" using refused(1) by (auto simp: readGuard_def split: if_splits)
    then show thesis using that(2) that(3) False by (cases "cells w (bwiped b)") (auto simp: absB_def)
  qed
next
  case (live c)
  then show thesis using that(4) by simp
qed

lemma absB_plain:
  assumes inv: "buf_inv k w b" and c: "absB k w b = ALive c False r"
  shows "take (the (bdata b)) (mbytes (mapping_of w b)) = c"
proof -
  have l: "\<not> destroyed b" "\<not> cells w (bwiped b)" "\<not> bsealed b" using c by (auto simp: absB_def split: if_splits)
  obtain mp where "mode_ok k (cells w (bcipher b)) b mp" using mid_start [OF inv l(1,2)] by metis
  then show ?thesis using c l by (auto simp: absB_def plainOf_def mode_ok_def)
qed

lemma Truncate_live:
  assumes inv: "buf_inv k w b" and l: "\<not> destroyed b" "\<not> cells w (bwiped b)" "\<not> bsealed b" "\<not> breadOnly b"
    and c: "absB k w b = ALive c False (breadOnly b)" "bdata b = Some (length c)" and n: "0 \<le> n" "n \<le> int (length c)"
  obtains (ok) b' w' where "Truncate k n b w = Some (None, b', w')" "buf_post k w b w' b'"
      "absB k w' b' = ALive (take (nat n) c) False False" "at_rest k w b \<Longrightarrow> at_rest k w' b'"
      "nat n = length c \<or> subslice (nat n) (length c) (mbytes (mapping_of w' b')) = zeros (length c - nat n)"
  | (failed) w' where "Truncate k n b w = Some (Some ErrOS, b, w')" "buf_post k w b w' b" "bclosed b"
      "absB k w' b = absB k w b \<or> absB k w' b = ALive (take (nat n) c @ zeros (length c - nat n)) False False"
proof (cases "nat n < length c")
  case False
  then have nl: "nat n = length c" using n by simp
  have "Truncate k n b w = Some (None, b\<lparr>bdata := Some (nat n)\<rparr>, w)" using l c n False by (simp add: Truncate_def)
  then show thesis
    using ok [of "b\<lparr>bdata := Some (nat n)\<rparr>" w] shrink [OF inv l(1), of "nat n"] c l nl
      buf_post_refl [OF inv] by (auto simp: buf_post_def)
next
  case True
  let ?f = "\<lambda>c. take (nat n) c @ zeros (length c - nat n)"
  let ?b = "b\<lparr>bdata := Some (nat n)\<rparr>"
  have d: "does k (the (bdata b)) (\<lambda>_. False) (wipeTail (nat n)) (\<lambda>_. 0) (\<lambda>c. if nat n \<le> length c then ?f c else c)"
    by (rule does_cong [OF does_wipeTail]) (use True c in auto)
  obtain oe ce w' where o:
    "whileOpen k (wipeTail (nat n)) 0 b w = Some (0, oe, ce, b, w')" "buf_post k w b w' b"
    "absB k w' b = ALive ((if oe = None then \<lambda>c. if nat n \<le> length c then ?f c else c else id) c) False (breadOnly b)"
    "oe = None \<or> oe = Some ErrOS \<and> bclosed b \<and> ce = None" "ce = None \<or> ce = Some ErrOS \<and> bclosed b"
    "bclosed b \<Longrightarrow> oe = None \<Longrightarrow> ce = None \<Longrightarrow> bopeners b = 0 \<Longrightarrow> mprot (mapping_of w' b) = PROT_NONE"
    "\<not> bclosed b \<Longrightarrow> mprot (mapping_of w' b) = mprot (mapping_of w b)"
    by (rule whileOpen_spec [OF inv l(1-3) d, where dflt = 0]) (use c l in auto)
  have M: "Truncate k n b w = Some (case (if oe \<noteq> None then oe else ce) of Some e \<Rightarrow> (Some e, b, w') | None \<Rightarrow> (None, ?b, w'))"
    using l c n True o(1) by (auto simp: Truncate_def split: option.splits)
  show thesis
  proof (cases "oe = None \<and> ce = None")
    case ok': True
    have inv': "buf_inv k w' b" using o(2) by (simp add: buf_post_def)
    have a: "absB k w' b = ALive (?f c) False False" using o(3) ok' True l by simp
    have "at_rest k w' b" if "at_rest k w b" using that o(6,7) ok' l by (cases "bclosed b") (auto simp: at_rest_def restProtection_def)
    then have "at_rest k w' ?b" if "at_rest k w b" using that shrink(3) [OF inv' l(1)] c True by simp
    moreover have "buf_post k w b w' ?b" using o(2) shrink(1) [OF inv' l(1)] c True by (simp add: buf_post_def)
    moreover have "absB k w' ?b = ALive (take (nat n) c) False False" using shrink(2) [OF inv' l(1) _ a, of "nat n"] c True by simp
    moreover have "subslice (nat n) (length c) (mbytes (mapping_of w' ?b)) = zeros (length c - nat n)"
    proof -
      have "take (length c) (mbytes (mapping_of w' b)) = ?f c" using absB_plain [OF inv' a] c by simp
      then have "drop (nat n) (take (length c) (mbytes (mapping_of w' b))) = zeros (length c - nat n)" using True by simp
      then show ?thesis using True shrink(4) [OF inv' l(1)] c by (simp add: subslice_def take_drop)
    qed
    ultimately show thesis using ok [of ?b w'] M ok' by auto
  next
    case False
    then have e: "(if oe \<noteq> None then oe else ce) = Some ErrOS" "bclosed b" using o(4,5) by auto
    then show thesis using failed [of w'] M o(2,3) c True l by (auto split: if_splits)
  qed
qed

lemma refines_Truncate: "refines k (\<lambda>_ _. True) (proc (Truncate k n)) (truncSpec n)"
  unfolding refines_def
proof (intro allI impI)
  fix b w assume "buf_inv k w b \<and> True"
  then have inv: "buf_inv k w b" by simp
  let ?R = "\<exists>r e b' w'. proc (Truncate k n) b w = Some (r, e, b', w') \<and> buf_post k w b w' b' \<and>
    truncSpec n (bclosed b) (absB k w b) r e (absB k w' b') \<and> (at_rest k w b \<and> e = None \<longrightarrow> at_rest k w' b')"
  note post = buf_post_refl [OF inv]
  from inv show ?R
  proof (cases rule: live_cases)
    case (live c)
    consider "breadOnly b" | "\<not> breadOnly b" "n < 0 \<or> int (length c) < n" | "\<not> breadOnly b" "0 \<le> n" "n \<le> int (length c)"
      by force
    then show ?R
    proof cases
      case 3
      from inv live(1-3) 3(1) live(4,5) 3(2,3) show ?R
      proof (cases rule: Truncate_live)
        case (ok b' w')
        then show ?R using live 3 by (auto simp: proc_def truncSpec_def)
      next
        case (failed w')
        then show ?R using live 3 by (auto simp: proc_def truncSpec_def)
      qed
    qed (use live post in \<open>auto simp: Truncate_def proc_def truncSpec_def\<close>)
  qed (use post in \<open>auto simp: Truncate_def proc_def truncSpec_def\<close>)
qed

text \<open>\<^verbatim>\<open>ReadOnly\<close> and \<^verbatim>\<open>ReadWrite\<close>.\<close>

definition protSpec :: "bool \<Rightarrow> bool \<Rightarrow> abuf \<Rightarrow> unit \<Rightarrow> error \<Rightarrow> abuf \<Rightarrow> bool" where
  "protSpec ro closed a r e a' = (case a of
     ADestroyed \<Rightarrow> e = Some ErrDestroyed \<and> a' = a
   | AWiped \<Rightarrow> e = Some ErrWiped \<and> a' = a
   | ALive c s r0 \<Rightarrow>
       if s then e = Some ErrSealed \<and> a' = a
       else e = None \<and> a' = ALive c s ro \<or> \<not> closed \<and> e = Some ErrOS \<and> a' = a)"

text \<open>The two methods are one, but for the protection and the flag.\<close>

definition setProtection :: "bool \<Rightarrow> kernel \<Rightarrow> bufferState \<Rightarrow> world \<Rightarrow> (error \<times> bufferState \<times> world) option" where
  "setProtection ro k b w =
     (if destroyed b then Some (Some ErrDestroyed, b, w)
      else if cells w (bwiped b) then Some (Some ErrWiped, b, w)
      else if bsealed b then Some (Some ErrSealed, b, w)
      else if \<not> bclosed b then
        case mprotectSecretMem k (bregion b) (if ro then PROT_READ else PROT_RW) (mem w) of
          (Some e, m1) \<Rightarrow> Some (Some e, b, w\<lparr>mem := m1\<rparr>)
        | (None, m1) \<Rightarrow> Some (None, b\<lparr>breadOnly := ro\<rparr>, w\<lparr>mem := m1\<rparr>)
      else Some (None, b\<lparr>breadOnly := ro\<rparr>, w))"

lemma setProtection_live:
  assumes inv: "buf_inv k w b" and l: "\<not> destroyed b" "\<not> cells w (bwiped b)" "\<not> bsealed b" "bopeners b = 0"
    and c: "absB k w b = ALive c False (breadOnly b)"
  obtains e b' w' where "setProtection ro k b w = Some (e, b', w')" "buf_post k w b w' b'"
    "e = None \<and> absB k w' b' = ALive c False ro \<or> \<not> bclosed b \<and> e = Some ErrOS \<and> absB k w' b' = absB k w b"
    "at_rest k w b \<Longrightarrow> e = None \<Longrightarrow> at_rest k w' b'"
proof -
  obtain n cap mp where s: "bdata b = Some n" "n \<le> cap" "mid k w b cap w mp" "mode_ok k (cells w (bcipher b)) b mp"
    "mapping_of w b = mp" "absB k w b = ALive (take n (plainOf k (cells w (bcipher b)) mp)) (bsealed b) (breadOnly b)"
    by (rule mid_start [OF inv l(1,2)])
  have nc: "\<not> cells w (bcipher b)" using s(4) l(3) by (auto simp: mode_ok_def)
  have cc: "c = take n (mbytes mp)" using s(6) c nc by (simp add: plainOf_def)
  let ?b = "b\<lparr>breadOnly := ro\<rparr>" let ?p = "if ro then PROT_READ else PROT_RW"
  have id: "same_ident b ?b" "bdata ?b = Some n" using s(1) by (auto simp: same_ident_def)
  show thesis
  proof (cases "bclosed b")
    case True
    have "mode_ok k (cells w (bcipher b)) ?b mp" using s(4) True l(3,4) by (auto simp: mode_ok_def)
    note fin = mid_finish [OF s(3) id s(2) this]
    have "at_rest k w ?b" if "at_rest k w b"
      using that True l fin(2) s(5) by (auto simp: at_rest_def restProtection_def destroyed_def)
    then show thesis using that [of None ?b w] fin True l cc nc by (simp add: setProtection_def plainOf_def)
  next
    case False
    obtain e m1 where e: "mprotectSecretMem k (bregion b) ?p (mem w) = (e, m1)" by fastforce
    have u: "usable k b mp" using s(4) False l(3) by (simp add: mode_ok_def)
    from s(3) e show thesis
    proof (cases rule: mid_mprotect)
      case ok
      have "mode_ok k (cells w (bcipher b)) ?b (setp k ?p mp)"
        using s(4) u False nc midD(9) [OF s(3)] by (cases "platform k = Stub") (auto simp: mode_ok_def usable_def setp_locked)
      then have "mode_ok k (cells (w\<lparr>mem := m1\<rparr>) (bcipher b)) ?b (setp k ?p mp)" by simp
      note fin = mid_finish [OF ok(2) id s(2) this]
      have "at_rest k (w\<lparr>mem := m1\<rparr>) ?b"
        using False l fin(2) by (auto simp: at_rest_def restProtection_def)
      then show thesis using that [of None ?b "w\<lparr>mem := m1\<rparr>"] fin False l cc nc e ok(1) by (simp add: setProtection_def plainOf_def)
    next
      case failed
      have "mode_ok k (cells (w\<lparr>mem := m1\<rparr>) (bcipher b)) b mp" using s(4) by simp
      note fin = mid_finish [OF failed(3) same_ident_refl s(1,2) this]
      show thesis using that [of "Some ErrOS" b "w\<lparr>mem := m1\<rparr>"] fin False l cc nc e failed(1) s(6) by (simp add: setProtection_def)
    qed
  qed
qed

lemma refines_setProtection: "refines k (\<lambda>_ b. bopeners b = 0) (proc (setProtection ro k)) (protSpec ro)"
  unfolding refines_def
proof (intro allI impI)
  fix b w assume a: "buf_inv k w b \<and> bopeners b = 0"
  then have inv: "buf_inv k w b" and z: "bopeners b = 0" by auto
  let ?R = "\<exists>r e b' w'. proc (setProtection ro k) b w = Some (r, e, b', w') \<and> buf_post k w b w' b' \<and>
    protSpec ro (bclosed b) (absB k w b) r e (absB k w' b') \<and> (at_rest k w b \<and> e = None \<longrightarrow> at_rest k w' b')"
  note post = buf_post_refl [OF inv]
  from inv show ?R
  proof (cases rule: live_cases)
    case (live c)
    from inv live(1-3) z live(4) show ?R
    proof (cases rule: setProtection_live [where ro = ro])
      case (1 e b' w')
      then show ?R using live by (auto simp: proc_def protSpec_def)
    qed
  qed (use post in \<open>auto simp: setProtection_def proc_def protSpec_def\<close>)
qed

lemma refines_ReadOnly: "refines k (\<lambda>_ b. bopeners b = 0) (proc (ReadOnly k)) (protSpec True)"
proof -
  have "ReadOnly k = setProtection True k" by (simp add: fun_eq_iff ReadOnly_def setProtection_def)
  then show ?thesis using refines_setProtection by metis
qed

lemma refines_ReadWrite: "refines k (\<lambda>_ b. bopeners b = 0) (proc (ReadWrite k)) (protSpec False)"
proof -
  have "ReadWrite k = setProtection False k" by (simp add: fun_eq_iff ReadWrite_def setProtection_def)
  then show ?thesis using refines_setProtection by metis
qed

end
