(* ===== verification/Buffer_Seal.thy ===== *)
theory Buffer_Seal
  imports Buffer_Access
begin

text \<open>
  \<^verbatim>\<open>Seal\<close>, \<^verbatim>\<open>Unseal\<close> and \<^verbatim>\<open>Destroy\<close>: that they never fault, that they keep
  the invariant and the contents on every path, the failing ones included, and what the tag gives.
\<close>

section \<open>Between the two states\<close>

definition locks_ok :: "kernel \<Rightarrow> bufferState \<Rightarrow> mapping \<Rightarrow> bool" where
  "locks_ok k b mp \<longleftrightarrow> (platform k \<noteq> Stub \<and> \<not> (platform k = Windows \<and> bclosed b) \<longrightarrow> mlocked_in mp)"

text \<open>The region is writable and \<open>P\<close> are its contents.\<close>

definition sealing :: "kernel \<Rightarrow> world \<Rightarrow> bufferState \<Rightarrow> nat \<Rightarrow> nat \<Rightarrow> bytes \<Rightarrow> world \<Rightarrow> bufferState \<Rightarrow> mapping \<Rightarrow> bool" where
  "sealing k w b cap n P w1 b1 mp \<longleftrightarrow> mid k w b cap w1 mp \<and> mprot mp = PROT_RW \<and> locks_ok k b mp \<and> same_ident b b1 \<and>
     bdata b1 = Some n \<and> n \<le> cap \<and> breadOnly b1 = breadOnly b \<and> bopeners b1 = 0 \<and>
     (cells w1 (bcipher b) \<longrightarrow> platform k = Windows) \<and> plainOf k (cells w1 (bcipher b)) mp = P \<and> (bclosed b \<longrightarrow> platform k \<noteq> Stub)"

lemma sealingD:
  assumes "sealing k w b cap n P w1 b1 mp"
  shows "mid k w b cap w1 mp" "mprot mp = PROT_RW" "locks_ok k b mp" "same_ident b b1" "bdata b1 = Some n" "n \<le> cap"
    "breadOnly b1 = breadOnly b" "bopeners b1 = 0" "True" "cells w1 (bcipher b) \<Longrightarrow> platform k = Windows"
    "plainOf k (cells w1 (bcipher b)) mp = P" "bclosed b \<Longrightarrow> platform k \<noteq> Stub"
    "bregion b1 = bregion b" "bkey b1 = bkey b" "bcipher b1 = bcipher b" "bclosed b1 = bclosed b" "bauth b1 = bauth b"
  using assms by (auto simp: sealing_def same_ident_def)

lemma same_but_tag_simps:
  assumes "same_but_tag b b'"
  shows "same_ident b1 b' = same_ident b1 b" "bdata b' = bdata b" "breadOnly b' = breadOnly b" "bopeners b' = bopeners b"
    "bsealed b' = bsealed b" "bregion b' = bregion b" "bclosed b' = bclosed b" "bcipher b' = bcipher b" "bkey b' = bkey b" "bauth b' = bauth b"
    "restProtection b' = restProtection b"
  using assms by (auto simp: same_but_tag_def same_ident_def restProtection_def)

lemma sealing_tag:
  assumes "sealing k w b cap n P w1 b1 mp" "same_but_tag b1 b2" "mid k w b cap w2 mp" "cells w2 (bcipher b) = cells w1 (bcipher b)"
  shows "sealing k w b cap n P w2 b2 mp"
  using assms by (simp add: sealing_def same_but_tag_simps)

lemma restProtection_same:
  "same_ident b b1 \<Longrightarrow> breadOnly b1 = breadOnly b \<Longrightarrow> restProtection b1 = restProtection b"
  by (simp add: restProtection_def same_ident_def)

lemma mid_reapply:
  assumes s: "sealing k w b cap n P w1 b1 mp"
  obtains m' mp' where "reapplyReadOnly k b1 w1 = w1\<lparr>mem := m'\<rparr>" "mid k w b cap (w1\<lparr>mem := m'\<rparr>) mp'" "mbytes mp' = mbytes mp"
    "locks_ok k b mp'" "\<not> bclosed b \<Longrightarrow> mprot mp' \<noteq> PROT_NONE \<and> (\<not> breadOnly b \<longrightarrow> mprot mp' = PROT_RW)"
proof (cases "restProtection b1 = PROT_RW")
  case True
  then show thesis using that [of "mem w1" mp] sealingD [OF s] by (simp add: reapplyReadOnly_def)
next
  case False
  note S = sealingD [OF s]
  obtain e m' where e: "mprotectSecretMem k (bregion b) (restProtection b1) (mem w1) = (e, m')" by fastforce
  have r: "reapplyReadOnly k b1 w1 = w1\<lparr>mem := m'\<rparr>" using False e S(13) by (simp add: reapplyReadOnly_def)
  from S(1) e show thesis
  proof (cases rule: mid_mprotect)
    case ok
    have "locks_ok k b (setp k (restProtection b1) mp)"
      using S(3,16) by (auto simp: locks_ok_def setp_locked restProtection_def split: if_splits)
    moreover have "mprot (setp k (restProtection b1) mp) \<noteq> PROT_NONE \<and> (\<not> breadOnly b \<longrightarrow> mprot (setp k (restProtection b1) mp) = PROT_RW)"
      if "\<not> bclosed b" using that S(2,7,16) by (cases "platform k = Stub") (auto simp: restProtection_def)
    ultimately show thesis using that [OF r ok(2)] by simp
  next
    case failed
    then show thesis using that [OF r failed(3)] S by simp
  qed
qed

text \<open>Ending in the unsealed state, and in the sealed one.\<close>

lemma sealing_open:
  assumes s: "sealing k w b cap n P w1 b1 mp" "\<not> bsealed b1" and nc: "\<not> cells w1 (bcipher b)"
  shows "\<exists>w2. reapplyReadOnly k b1 w1 = w2 \<and> buf_post k w b w2 b1 \<and> absB k w2 b1 = ALive (take n P) False (breadOnly b)"
proof -
  note S = sealingD [OF s(1)]
  from s(1) show ?thesis
  proof (cases rule: mid_reapply)
    case (1 m' mp')
    have "mode_ok k (cells (w1\<lparr>mem := m'\<rparr>) (bcipher b)) b1 mp'"
      using 1(4,5) S s(2) nc by (auto simp: mode_ok_def usable_def locks_ok_def)
    note fin = mid_finish [OF 1(2) S(4,5,6) this]
    then show ?thesis using 1(1,3) S s(2) nc by (auto simp: plainOf_def)
  qed
qed

lemma sealed_mode:
  assumes "bsealed b1" "bopeners b1 = 0" "cip \<Longrightarrow> platform k = Windows" "bclosed b1 \<Longrightarrow> platform k \<noteq> Stub"
    "platform k \<noteq> Windows \<Longrightarrow> platform k \<noteq> Stub \<Longrightarrow> mlocked_in mp"
  shows "mode_ok k cip b1 mp"
  using assms by (auto simp: mode_ok_def)

lemma sealing_close:
  assumes s: "sealing k w b cap n P w1 b1 mp"
  shows "buf_post k w b (reapplyReadOnly k b1 w1) (b1\<lparr>bsealed := True\<rparr>) \<and>
    absB k (reapplyReadOnly k b1 w1) (b1\<lparr>bsealed := True\<rparr>) = ALive (take n P) True (breadOnly b)"
proof -
  note S = sealingD [OF s]
  from s show ?thesis
  proof (cases rule: mid_reapply)
    case (1 m' mp')
    have "mode_ok k (cells (w1\<lparr>mem := m'\<rparr>) (bcipher b)) (b1\<lparr>bsealed := True\<rparr>) mp'"
      using 1(4) S by (intro sealed_mode) (auto simp: locks_ok_def)
    moreover have "same_ident b (b1\<lparr>bsealed := True\<rparr>)" using S(4) by (simp add: same_ident_def)
    ultimately show ?thesis using mid_finish [OF 1(2), of "b1\<lparr>bsealed := True\<rparr>" n] 1(1,3) S by (auto simp: plainOf_def)
  qed
qed

lemma reapply_sealed: "reapplyReadOnly k (b\<lparr>bsealed := x\<rparr>) w = reapplyReadOnly k b w"
  by (simp add: reapplyReadOnly_def restProtection_def)

lemma sealing_decrypt:
  assumes s: "sealing k w b cap n P w1 b1 mp" and c: "cells w1 (bcipher b)"
  obtains (ok) m' mp' where "sealDecrypt k (bregion b) (mem w1) = Some (None, m')"
      "sealing k w b cap n P (setCell (bcipher b) False (w1\<lparr>mem := m'\<rparr>)) b1 mp'" "mlocked_in mp' = mlocked_in mp"
  | (failed) e m' where "sealDecrypt k (bregion b) (mem w1) = Some (Some e, m')" "sealing k w b cap n P (w1\<lparr>mem := m'\<rparr>) b1 mp"
proof -
  note S = sealingD [OF s]
  from S(1,2) show thesis
  proof (cases rule: mid_decrypt)
    case 1: (ok m')
    from mid_cell [OF 1(2), of False] show thesis
      using s c S(10) ok [OF 1(1), of "mp\<lparr>mbytes := if platform k = Windows then unprotectMemory k (mbytes mp) else mbytes mp\<rparr>"]
      by (auto simp: sealing_def plainOf_def setCell_def locks_ok_def)
  next
    case 2: (failed e m')
    then show thesis using failed [OF 2(1)] s by (simp add: sealing_def)
  qed
qed

lemma rollback_spec:
  assumes s: "sealing k w b cap n P w1 b1 mp" and ns: "\<not> bsealed b1" and a: "applied = cells w1 (bcipher b)"
  obtains e b2 w2 s' where "rollbackSeal k applied cause b1 w1 = Some (Some e, b2, w2)" "buf_post k w b w2 b2"
    "absB k w2 b2 = ALive (take n P) s' (breadOnly b)"
proof -
  note S = sealingD [OF s]
  have st: "sealing k w b cap n P w' (b1\<lparr>btagged := False\<rparr>) mp'" if "sealing k w b cap n P w' b1 mp'" for w' mp'
    using that by (simp add: sealing_def same_ident_def)
  show thesis
  proof (cases applied)
    case False
    then have "\<not> cells w1 (bcipher b)" using a by simp
    from sealing_open [OF st [OF s] _ this] show thesis
      using False that ns by (auto simp: rollbackSeal_def Let_def)
  next
    case True
    then have c: "cells w1 (bcipher b)" using a by simp
    from s c show thesis
    proof (cases rule: sealing_decrypt)
      case (ok m' mp')
      then have "\<not> cells (setCell (bcipher b) False (w1\<lparr>mem := m'\<rparr>)) (bcipher b)" by (simp add: setCell_def)
      from sealing_open [OF st [OF ok(2)] _ this] show thesis
        using True that ok(1) S(13,15) ns by (auto simp: rollbackSeal_def Let_def)
    next
      case (failed e m')
      from sealing_close [OF failed(2)] show thesis
        using True that failed(1) S(13) by (auto simp: rollbackSeal_def Let_def reapply_sealed)
    qed
  qed
qed

section \<open>Seal\<close>

text \<open>A sealed buffer whose tag covers the bytes that are in the region.\<close>

definition tag_covers :: "world \<Rightarrow> bufferState \<Rightarrow> bool" where
  "tag_covers w b \<longleftrightarrow> bsealed b \<and> btagged b = bauth b \<and> (bauth b \<longrightarrow> tag_ok w b (mbytes (mapping_of w b)))"

definition closedNow :: "kernel \<Rightarrow> world \<Rightarrow> bufferState \<Rightarrow> bool" where
  "closedNow k w b \<longleftrightarrow> (platform k \<noteq> Stub \<longrightarrow> mprot (mapping_of w b) = PROT_NONE)"

lemma mode_setp_none:
  assumes "bsealed b1" "bopeners b1 = 0" "cip \<Longrightarrow> platform k = Windows" "bclosed b1 \<Longrightarrow> platform k \<noteq> Stub" "locks_ok k b1 mp"
  shows "mode_ok k cip b1 (setp k PROT_NONE mp)"
  using assms by (intro sealed_mode) (auto simp: setp_locked locks_ok_def)

lemma plainOf_simps [simp]:
  "plainOf k c (setp k p mp) = plainOf k c mp" "plainOf k c (relocked k mp) = plainOf k c mp"
  by (simp_all add: plainOf_def)

lemma mprotect_prekey:
  assumes "mid k w b cap w1 mp" "mprotectSecretMem k (bregion b) p (mem w1) = (e, m')"
  shows "prekeyOf (w1\<lparr>mem := m'\<rparr>) = prekeyOf w1"
  using assms(2) by (cases rule: mprotectSecretMem_cases) (auto simp: mid_prekey [OF assms(1)])

lemma relock_prekey:
  assumes "mid k w b cap w1 mp" "relockSecretMem k (bregion b) (mem w1) = (e, m')"
  shows "prekeyOf (w1\<lparr>mem := m'\<rparr>) = prekeyOf w1"
  using assms(2) by (cases rule: relockSecretMem_cases) (auto simp: mid_prekey [OF assms(1)])

lemma tag_ok_sealed [simp]: "tag_ok w (b\<lparr>bsealed := x\<rparr>) bs = tag_ok w b bs"
  by (simp add: tag_ok_def)

lemma sealTail_spec:
  assumes s: "sealing k w b cap n P w1 b1 mp" and ns: "\<not> bsealed b1" and a: "applied = cells w1 (bcipher b)" and t: "\<not> btagged b1"
  obtains e b2 w2 s' where "sealTail k applied b1 w1 = Some (e, b2, w2)" "buf_post k w b w2 b2"
    "absB k w2 b2 = ALive (take n P) s' (breadOnly b)" "e = None \<Longrightarrow> s' \<and> tag_covers w2 b2 \<and> bauth b2 = bauth b \<and> closedNow k w2 b2 \<and> bopeners b2 = 0"
    "e = None \<Longrightarrow> bauth b \<Longrightarrow> klock (sealKeys w1) = None \<Longrightarrow> pageOf k dvd int sealPrekeyLen"
proof -
  note S = sealingD [OF s]
  note result = that
  have finish: thesis if z: "sealing k w b cap n P w2 b2 mp" and nz: "\<not> bsealed b2" and cz: "cells w2 (bcipher b) = cells w1 (bcipher b)"
    and eq: "sealTail k applied b1 w1 = (case mprotectSecretMem k (bregion b2) PROT_NONE (mem w2) of
         (Some e, m2) \<Rightarrow> rollbackSeal k applied e b2 (w2\<lparr>mem := m2\<rparr>)
       | (None, m2) \<Rightarrow> Some (None, b2\<lparr>bsealed := True\<rparr>, w2\<lparr>mem := m2\<rparr>))"
    and tg: "btagged b2 = bauth b" "bauth b \<Longrightarrow> tag_ok w2 b2 (mbytes mp)"
      "bauth b \<Longrightarrow> klock (sealKeys w1) = None \<Longrightarrow> pageOf k dvd int sealPrekeyLen" for b2 w2
  proof -
    note Z = sealingD [OF z]
    obtain e m2 where e: "mprotectSecretMem k (bregion b) PROT_NONE (mem w2) = (e, m2)" by fastforce
    from Z(1) e show thesis
    proof (cases rule: mid_mprotect)
      case failed
      then have "sealing k w b cap n P (w2\<lparr>mem := m2\<rparr>) b2 mp" using z by (simp add: sealing_def)
      moreover note nz
      moreover have "applied = cells (w2\<lparr>mem := m2\<rparr>) (bcipher b)" using a cz by simp
      ultimately show thesis
        by (rule rollback_spec [where cause = ErrOS]) (use result eq e failed(1) Z(13) in auto)
    next
      case ok
      let ?b = "b2\<lparr>bsealed := True\<rparr>"
      have "mode_ok k (cells (w2\<lparr>mem := m2\<rparr>) (bcipher b)) ?b (setp k PROT_NONE mp)"
        using Z by (intro mode_setp_none) (auto simp: locks_ok_def)
      note fin = mid_finish [OF ok(2) _ _ Z(6) this]
      have id: "same_ident b ?b" "bdata ?b = Some n" using Z by (auto simp: same_ident_def)
      note fin = fin [OF id]
      have "tag_ok (w2\<lparr>mem := m2\<rparr>) b2 (mbytes mp)" if "bauth b"
        using tg(2) [OF that] mprotect_tag [OF Z(1) e] by simp
      then have "tag_covers (w2\<lparr>mem := m2\<rparr>) ?b" using tg(1) Z(17) fin(2) by (auto simp: tag_covers_def)
      moreover have "closedNow k (w2\<lparr>mem := m2\<rparr>) ?b" using fin(2) by (simp add: closedNow_def)
      ultimately show thesis
        using result [of None ?b "w2\<lparr>mem := m2\<rparr>" True] eq e ok(1) Z fin tg(3) by simp
    qed
  qed
  show thesis
  proof (cases "bauth b")
    case False
    then show thesis using finish [OF s ns refl] t S(17) by (simp add: sealTail_def)
  next
    case True
    have r: "mprot mp \<noteq> PROT_NONE" using S(2) by simp
    from S(1) r S(13,14) show thesis
    proof (cases rule: mid_auth)
      case (1 e b2 w2)
      note z = sealing_tag [OF s 1(3,2,4)]
      have nsz: "\<not> bsealed b2" using ns same_but_tag_simps(5) [OF 1(3)] by simp
      show thesis
      proof (cases e)
        case None
        then show thesis using finish [OF z nsz 1(4)] 1(1,5,7) True S(17) by (simp add: sealTail_def)
      next
        case (Some er)
        have "applied = cells w2 (bcipher b)" using a 1(4) by simp
        from z nsz this show thesis
          by (rule rollback_spec [where cause = er]) (use that 1(1) Some True S(17) in \<open>auto simp: sealTail_def\<close>)
      qed
    qed
  qed
qed

lemma sealBody_spec:
  assumes s: "sealing k w b cap n P w1 b mp" and ns: "\<not> bsealed b" and nc: "\<not> cells w1 (bcipher b)"
  obtains e b2 w2 s' where "sealBody k b w1 = Some (e, b2, w2)" "buf_post k w b w2 b2"
    "absB k w2 b2 = ALive (take n P) s' (breadOnly b)" "e = None \<Longrightarrow> s' \<and> tag_covers w2 b2 \<and> bauth b2 = bauth b \<and> closedNow k w2 b2 \<and> bopeners b2 = 0"
    "e = None \<Longrightarrow> bauth b \<Longrightarrow> klock (sealKeys w1) = None \<Longrightarrow> pageOf k dvd int sealPrekeyLen"
proof -
  let ?b = "b\<lparr>btagged := False\<rparr>"
  note S = sealingD [OF s]
  have s1: "sealing k w b cap n P w' ?b mp'" if "sealing k w b cap n P w' b mp'" for w' mp'
    using that by (simp add: sealing_def same_ident_def)
  have inv: "unprotectMemory k (protectMemory k i x) = x" for i x using midD(1) [OF S(1)] by (simp add: kernel_ok_def)
  from S(1,2) show thesis
  proof (cases rule: mid_encrypt)
    case (applied m' i)
    let ?w = "setCell (bcipher b) True (w1\<lparr>mem := m'\<rparr>)"
    have "sealing k w b cap n P ?w b (mp\<lparr>mbytes := protectMemory k i (mbytes mp)\<rparr>)"
      using s nc applied(2) mid_cell [OF applied(3), of True] by (simp add: sealing_def plainOf_def setCell_def locks_ok_def inv)
    from s1 [OF this] show thesis
      by (rule sealTail_spec [where applied = True]) (use that ns applied(1) in \<open>auto simp: sealBody_def Let_def setCell_def\<close>)
  next
    case off
    from s1 [OF s] show thesis
      by (rule sealTail_spec [where applied = False]) (use that ns off(1) nc in \<open>auto simp: sealBody_def Let_def\<close>)
  next
    case (failed e m')
    have "sealing k w b cap n P (w1\<lparr>mem := m'\<rparr>) ?b mp" using s1 [OF s] failed(2) by (simp add: sealing_def)
    from sealing_open [OF this] nc ns show thesis using that failed(1) by (auto simp: sealBody_def Let_def)
  qed
qed

lemma Seal_live:
  assumes inv: "buf_inv k w b" and l: "\<not> destroyed b" "\<not> cells w (bwiped b)" "\<not> bsealed b" "bopeners b = 0"
    and c: "absB k w b = ALive c False (breadOnly b)"
  obtains e b2 w2 s' where "Seal k b w = Some (e, b2, w2)" "buf_post k w b w2 b2" "absB k w2 b2 = ALive c s' (breadOnly b)"
    "e = None \<Longrightarrow> s' \<and> tag_covers w2 b2 \<and> bauth b2 = bauth b \<and> closedNow k w2 b2 \<and> bopeners b2 = 0"
    "e = None \<Longrightarrow> bauth b \<Longrightarrow> klock (sealKeys w) = None \<Longrightarrow> pageOf k dvd int sealPrekeyLen"
proof -
  obtain n cap mp where s: "bdata b = Some n" "n \<le> cap" "mid k w b cap w mp" "mode_ok k (cells w (bcipher b)) b mp"
    "mapping_of w b = mp" "absB k w b = ALive (take n (plainOf k (cells w (bcipher b)) mp)) (bsealed b) (breadOnly b)"
    by (rule mid_start [OF inv l(1,2)])
  have nc: "\<not> cells w (bcipher b)" using s(4) l(3) by (auto simp: mode_ok_def)
  have cc: "c = take n (mbytes mp)" using s(6) c nc by (simp add: plainOf_def)
  have lk: "locks_ok k b mp" using s(4) l(3,4) by (auto simp: locks_ok_def mode_ok_def usable_def)
  have st: "bclosed b \<Longrightarrow> platform k \<noteq> Stub" using s(4) by (simp add: mode_ok_def)
  have z: "sealing k w b cap n (mbytes mp) (w\<lparr>mem := m'\<rparr>) b mp'"
    if "mid k w b cap (w\<lparr>mem := m'\<rparr>) mp'" "mprot mp' = PROT_RW" "mbytes mp' = mbytes mp" "locks_ok k b mp'" for m' mp'
    using that s l nc st by (simp add: sealing_def plainOf_def)
  show thesis
  proof (cases "breadOnly b \<or> bclosed b")
    case False
    then have "mprot mp = PROT_RW" using s(4) l(3) by (auto simp: mode_ok_def usable_def)
    then have "sealing k w b cap n (mbytes mp) w b mp" using z [of "mem w" mp] s(3) lk by simp
    then show thesis by (rule sealBody_spec) (use that False l nc cc in \<open>auto simp: Seal_def\<close>)
  next
    case True
    obtain e m1 where e: "mprotectSecretMem k (bregion b) PROT_RW (mem w) = (e, m1)" by fastforce
    from s(3) e show thesis
    proof (cases rule: mid_mprotect)
      case ok
      have "mprot (setp k PROT_RW mp) = PROT_RW" using midD(9) [OF s(3)] by (cases "platform k = Stub") auto
      then have "sealing k w b cap n (mbytes mp) (w\<lparr>mem := m1\<rparr>) b (setp k PROT_RW mp)"
        using z [OF ok(2)] lk by (simp add: locks_ok_def setp_locked)
      then show thesis by (rule sealBody_spec) (use that True l nc cc e ok(1) in \<open>auto simp: Seal_def\<close>)
    next
      case failed
      have "mode_ok k (cells (w\<lparr>mem := m1\<rparr>) (bcipher b)) b mp" using s(4) by simp
      note fin = mid_finish [OF failed(3) same_ident_refl s(1,2) this]
      then show thesis using that [of "Some ErrOS" b "w\<lparr>mem := m1\<rparr>" False] True l nc cc e failed(1)
        by (simp add: Seal_def plainOf_def)
    qed
  qed
qed

definition sealSpec :: "bool \<Rightarrow> abuf \<Rightarrow> unit \<Rightarrow> error \<Rightarrow> abuf \<Rightarrow> bool" where
  "sealSpec closed a r e a' = (case a of
     ADestroyed \<Rightarrow> e = Some ErrDestroyed \<and> a' = a
   | AWiped \<Rightarrow> e = Some ErrWiped \<and> a' = a
   | ALive c s ro \<Rightarrow> if s then e = None \<and> a' = a else (\<exists>s'. a' = ALive c s' ro \<and> (e = None \<longrightarrow> s')))"

lemma at_rest_closed: "bsealed b \<Longrightarrow> bopeners b = 0 \<Longrightarrow> closedNow k w b \<Longrightarrow> at_rest k w b"
  by (simp add: at_rest_def closedNow_def)

lemma refines_Seal: "refines k (\<lambda>_ b. bopeners b = 0) (proc (Seal k)) sealSpec"
  unfolding refines_def
proof (intro allI impI)
  fix b w assume "buf_inv k w b \<and> bopeners b = 0"
  then have inv: "buf_inv k w b" and z: "bopeners b = 0" by auto
  let ?R = "\<exists>r e b' w'. proc (Seal k) b w = Some (r, e, b', w') \<and> buf_post k w b w' b' \<and>
    sealSpec (bclosed b) (absB k w b) r e (absB k w' b') \<and> (at_rest k w b \<and> e = None \<longrightarrow> at_rest k w' b')"
  note post = buf_post_refl [OF inv]
  from inv show ?R
  proof (cases rule: live_cases)
    case (live c)
    from inv live(1-3) z live(4) show ?R
    proof (cases rule: Seal_live)
      case (1 e b2 w2 s')
      then show ?R using live by (auto simp: proc_def sealSpec_def tag_covers_def intro: at_rest_closed)
    qed
  qed (use post in \<open>auto simp: Seal_def proc_def sealSpec_def\<close>)
qed

section \<open>Unseal\<close>

lemma mid_none:
  assumes m: "mid k w b cap w1 mp" and b1: "same_ident b b1" "bdata b1 = Some n" "n \<le> cap" "breadOnly b1 = breadOnly b" "bopeners b1 = 0"
    "bsealed b1" and c: "cells w1 (bcipher b) \<Longrightarrow> platform k = Windows" "bclosed b \<Longrightarrow> platform k \<noteq> Stub"
    and lk: "platform k \<noteq> Windows \<Longrightarrow> platform k \<noteq> Stub \<Longrightarrow> mlocked_in mp"
  obtains w2 where "protectNone k b1 w1 = w2" "buf_post k w b w2 b1"
    "absB k w2 b1 = ALive (take n (plainOf k (cells w1 (bcipher b)) mp)) True (breadOnly b)"
proof -
  note result = that
  have r: "bregion b1 = bregion b" "bclosed b1 = bclosed b" using b1(1) by (auto simp: same_ident_def)
  obtain e m' where e: "mprotectSecretMem k (bregion b) PROT_NONE (mem w1) = (e, m')" by fastforce
  have p: "protectNone k b1 w1 = w1\<lparr>mem := m'\<rparr>" using e r by (simp add: protectNone_def)
  have fin: thesis if m: "mid k w b cap (w1\<lparr>mem := m'\<rparr>) mp'" "plainOf k (cells w1 (bcipher b)) mp' = plainOf k (cells w1 (bcipher b)) mp"
    "platform k \<noteq> Windows \<Longrightarrow> platform k \<noteq> Stub \<Longrightarrow> mlocked_in mp'" for mp'
  proof -
    have "mode_ok k (cells (w1\<lparr>mem := m'\<rparr>) (bcipher b)) b1 mp'" using b1 c r m(3) by (intro sealed_mode) auto
    from mid_finish [OF m(1) b1(1-3) this] show thesis using result p b1(4,6) m(2) by simp
  qed
  from m e show thesis
  proof (cases rule: mid_mprotect)
    case ok
    then show thesis using fin [OF ok(2)] lk by (auto simp: setp_locked)
  next
    case failed
    then show thesis using fin [OF failed(3)] lk by auto
  qed
qed

lemma sealing_none:
  assumes s: "sealing k w b cap n P w1 b1 mp" and bs: "bsealed b1"
  obtains w2 where "protectNone k b1 w1 = w2" "buf_post k w b w2 b1" "absB k w2 b1 = ALive (take n P) True (breadOnly b)"
proof -
  note S = sealingD [OF s]
  have "platform k \<noteq> Windows \<Longrightarrow> platform k \<noteq> Stub \<Longrightarrow> mlocked_in mp" using S(3) by (simp add: locks_ok_def)
  with S(1,4-8) bs S(10,12) show thesis by (rule mid_none) (use that S(11) in auto)
qed

text \<open>A state of \<^verbatim>\<open>Unseal\<close>: the buffer still sealed, its pages writable and locked.\<close>

definition unsealing :: "kernel \<Rightarrow> world \<Rightarrow> bufferState \<Rightarrow> nat \<Rightarrow> nat \<Rightarrow> bytes \<Rightarrow> world \<Rightarrow> mapping \<Rightarrow> bool" where
  "unsealing k w b cap n P w1 mp \<longleftrightarrow> sealing k w b cap n P w1 b mp \<and> bsealed b \<and> (platform k \<noteq> Stub \<longrightarrow> mlocked_in mp)"

text \<open>What \<^verbatim>\<open>Unseal\<close> and its parts return: unsealed and at rest, or an error and sealed as before.\<close>

definition unsealed :: "kernel \<Rightarrow> world \<Rightarrow> bufferState \<Rightarrow> bytes \<Rightarrow> error \<times> bufferState \<times> world \<Rightarrow> bool" where
  "unsealed k w b d res = (case res of (e, b2, w2) \<Rightarrow> buf_post k w b w2 b2 \<and>
     absB k w2 b2 = ALive d (e \<noteq> None) (breadOnly b) \<and> (e = None \<longrightarrow> at_rest k w2 b2))"

definition osError :: "error \<Rightarrow> bool" where
  "osError e \<longleftrightarrow> e = Some ErrOS \<or> (\<exists>s. e = Some (ErrMsg s))"

lemma unseal_ok:
  assumes s: "sealing k w b cap n P w1 b mp" and nc: "\<not> cells w1 (bcipher b)"
    and m: "mid k w b cap (w1\<lparr>mem := m'\<rparr>) mp'" "mbytes mp' = mbytes mp" "mlocked_in mp' = mlocked_in mp \<or> platform k = Windows \<and> bclosed b"
      "platform k \<noteq> Stub \<longrightarrow> mlocked_in mp" "platform k \<noteq> Stub \<longrightarrow> mprot mp' = restProtection b"
  shows "unsealed k w b (take n P) (None, b\<lparr>bsealed := False, btagged := False\<rparr>, w1\<lparr>mem := m'\<rparr>)"
proof -
  note S = sealingD [OF s]
  let ?b = "b\<lparr>bsealed := False, btagged := False\<rparr>"
  have rw: "platform k = Stub \<Longrightarrow> mprot mp' = PROT_RW" using midD(9) [OF m(1)] .
  have "mode_ok k (cells (w1\<lparr>mem := m'\<rparr>) (bcipher b)) ?b mp'"
    using S nc m(3-5) rw by (cases "platform k = Stub") (auto simp: mode_ok_def usable_def restProtection_def)
  moreover have "same_ident b ?b" "bdata ?b = Some n" using S(5) by (auto simp: same_ident_def)
  ultimately have fin: "buf_post k w b (w1\<lparr>mem := m'\<rparr>) ?b" "mapping_of (w1\<lparr>mem := m'\<rparr>) ?b = mp'"
    "absB k (w1\<lparr>mem := m'\<rparr>) ?b = ALive (take n (plainOf k (cells (w1\<lparr>mem := m'\<rparr>) (bcipher b)) mp')) False (breadOnly b)"
    using mid_finish [OF m(1), of ?b n] S(6) by auto
  moreover have "at_rest k (w1\<lparr>mem := m'\<rparr>) ?b" using fin(2) m(5) S(8) by (auto simp: at_rest_def restProtection_def)
  ultimately show ?thesis using m(2) nc S(11) by (simp add: unsealed_def plainOf_def)
qed

text \<open>The way back when the resting protection could not be applied.\<close>

lemma reseal_spec:
  assumes z: "sealing k w b cap n P w2 b1 mp" and bs: "bsealed b1"
  obtains e3 b3 w3 where "(if bauth b then sealAuthenticate k b1 w2 else Some (None, b1, w2)) = Some (e3, b3, w3)"
    "unsealed k w b (take n P) (Some ErrOS, b3, protectNone k b3 w3)"
proof -
  note Z = sealingD [OF z]
  have "\<exists>e3 b3 w3. (if bauth b then sealAuthenticate k b1 w2 else Some (None, b1, w2)) = Some (e3, b3, w3) \<and>
      sealing k w b cap n P w3 b3 mp \<and> bsealed b3"
  proof (cases "bauth b")
    case True
    have r: "mprot mp \<noteq> PROT_NONE" using Z(2) by simp
    from Z(1) r Z(13,14) show ?thesis
    proof (cases rule: mid_auth)
      case (1 e3 b3 w3)
      then show ?thesis using True sealing_tag [OF z 1(3,2,4)] bs same_but_tag_simps(5) [OF 1(3)] by simp
    qed
  qed (use z bs in simp)
  then obtain e3 b3 w3 where a: "(if bauth b then sealAuthenticate k b1 w2 else Some (None, b1, w2)) = Some (e3, b3, w3)"
    "sealing k w b cap n P w3 b3 mp" "bsealed b3" by blast
  from a(2,3) show thesis by (rule sealing_none) (use that a(1) in \<open>auto simp: unsealed_def\<close>)
qed

lemma sealing_reencrypt:
  assumes s: "sealing k w b cap n P w1 b1 mp" and nc: "\<not> cells w1 (bcipher b)"
  obtains applied ee m2 mp2 where "sealEncrypt k (bregion b) (mem w1) = Some (applied, ee, m2)"
    "sealing k w b cap n P (if ee = None \<and> applied then setCell (bcipher b) True (w1\<lparr>mem := m2\<rparr>) else w1\<lparr>mem := m2\<rparr>) b1 mp2"
proof -
  note S = sealingD [OF s]
  have inv: "unprotectMemory k (protectMemory k i x) = x" for i x using midD(1) [OF S(1)] by (simp add: kernel_ok_def)
  from S(1,2) show thesis
  proof (cases rule: mid_encrypt)
    case (applied m' i)
    have "sealing k w b cap n P (setCell (bcipher b) True (w1\<lparr>mem := m'\<rparr>)) b1 (mp\<lparr>mbytes := protectMemory k i (mbytes mp)\<rparr>)"
      using s nc applied(2) mid_cell [OF applied(3), of True] by (simp add: sealing_def plainOf_def setCell_def locks_ok_def inv)
    then show thesis using that [OF applied(1)] by simp
  next
    case off
    then show thesis using that [OF off(1)] s by simp
  next
    case (failed e m')
    then show thesis using that [OF failed(1), of mp] s by (simp add: sealing_def)
  qed
qed

lemma unsealRestore_spec:
  assumes u: "unsealing k w b cap n P w1 mp" and nc: "\<not> cells w1 (bcipher b)"
  obtains res where "unsealRestore k b w1 = Some res" "unsealed k w b (take n P) res" "fst res = None \<or> osError (fst res)"
proof -
  have s: "sealing k w b cap n P w1 b mp" and bs: "bsealed b" and lk: "platform k \<noteq> Stub \<longrightarrow> mlocked_in mp"
    using u by (auto simp: unsealing_def)
  note S = sealingD [OF s]
  obtain e m1 where e: "mprotectSecretMem k (bregion b) (restProtection b) (mem w1) = (e, m1)" by fastforce
  show thesis
  proof (cases "restProtection b = PROT_RW")
    case True
    have "unsealed k w b (take n P) (None, b\<lparr>bsealed := False, btagged := False\<rparr>, w1\<lparr>mem := mem w1\<rparr>)"
      by (rule unseal_ok [OF s nc]) (use S(1,2) lk True in auto)
    then show thesis using that True by (simp add: unsealRestore_def)
  next
    case False
    from S(1) e show thesis
    proof (cases rule: mid_mprotect)
      case ok
      have "unsealed k w b (take n P) (None, b\<lparr>bsealed := False, btagged := False\<rparr>, w1\<lparr>mem := m1\<rparr>)"
        by (rule unseal_ok [OF s nc ok(2)]) (use lk in \<open>auto simp: setp_locked restProtection_def\<close>)
      then show thesis using that False e ok(1) by (simp add: unsealRestore_def Let_def)
    next
      case failed
      have "sealing k w b cap n P (w1\<lparr>mem := m1\<rparr>) (b\<lparr>btagged := False\<rparr>) mp"
        using s failed(3) by (simp add: sealing_def same_ident_def)
      moreover have "\<not> cells (w1\<lparr>mem := m1\<rparr>) (bcipher b)" using nc by simp
      ultimately obtain applied ee m2 mp2 where en: "sealEncrypt k (bregion b) m1 = Some (applied, ee, m2)"
        "sealing k w b cap n P (if ee = None \<and> applied then setCell (bcipher b) True (w1\<lparr>mem := m2\<rparr>) else w1\<lparr>mem := m2\<rparr>) (b\<lparr>btagged := False\<rparr>) mp2"
        by (rule sealing_reencrypt) (simp cong: if_cong)
      from en(2) show thesis
        by (rule reseal_spec) (use that e en(1) bs failed(1) False in \<open>auto simp: unsealRestore_def Let_def osError_def\<close>)
    qed
  qed
qed

lemma sealDecrypt_err: "sealDecrypt k r m = Some (Some e, m') \<Longrightarrow> osError (Some e)"
  by (auto simp: sealDecrypt_def sealCipherCall_def sealCipherLen_def osError_def split: if_splits sum.splits prod.splits option.splits bind_splits)

lemma unsealDecrypt_spec:
  assumes u: "unsealing k w b cap n P w1 mp"
  obtains res where "unsealDecrypt k b w1 = Some res" "unsealed k w b (take n P) res" "fst res = None \<or> osError (fst res)"
proof (cases "cells w1 (bcipher b)")
  case False
  with u show thesis by (rule unsealRestore_spec) (use that False in \<open>simp add: unsealDecrypt_def\<close>)
next
  case True
  have s: "sealing k w b cap n P w1 b mp" and bs: "bsealed b" using u by (auto simp: unsealing_def)
  from s True show thesis
  proof (cases rule: sealing_decrypt)
    case (ok m' mp')
    then have "unsealing k w b cap n P (setCell (bcipher b) False (w1\<lparr>mem := m'\<rparr>)) mp'" using u by (simp add: unsealing_def)
    then show thesis by (rule unsealRestore_spec) (use that True ok(1) in \<open>simp_all add: unsealDecrypt_def setCell_def\<close>)
  next
    case (failed e m')
    from failed(2) bs show thesis
      by (rule sealing_none) (use that True failed(1) sealDecrypt_err [OF failed(1)] in \<open>auto simp: unsealDecrypt_def unsealed_def\<close>)
  qed
qed

lemma unsealVerify_spec:
  assumes u: "unsealing k w b cap n P w1 mp"
  obtains res where "unsealVerify k b w1 = Some res" "unsealed k w b (take n P) res"
    "btagged b \<Longrightarrow> prekeyOf w1 \<noteq> None \<Longrightarrow> fst res = None \<Longrightarrow> tag_ok w1 b (mbytes mp)"
    "btagged b \<longrightarrow> tag_ok w1 b (mbytes mp) \<Longrightarrow> fst res = None \<or> osError (fst res)"
proof -
  have s: "sealing k w b cap n P w1 b mp" and bs: "bsealed b" using u by (auto simp: unsealing_def)
  note S = sealingD [OF s]
  show thesis
  proof (cases "btagged b")
    case False
    from u show thesis by (rule unsealDecrypt_spec) (use that False in \<open>auto simp: unsealVerify_def\<close>)
  next
    case True
    have r: "mprot mp \<noteq> PROT_NONE" using S(2) by simp
    from S(1) r show thesis
    proof (cases rule: mid_verify)
      case (1 e w2)
      have z: "sealing k w b cap n P w2 b mp" using s 1(2,3) by (simp add: sealing_def)
      show thesis
      proof (cases e)
        case None
        have "unsealing k w b cap n P w2 mp" using z u by (simp add: unsealing_def)
        then show thesis by (rule unsealDecrypt_spec) (use that True None 1 in \<open>auto simp: unsealVerify_def\<close>)
      next
        case (Some er)
        from z bs show thesis
          by (rule sealing_none) (use that True Some 1 in \<open>auto simp: unsealVerify_def unsealed_def\<close>)
      qed
    qed
  qed
qed

lemma Unseal_sealed:
  assumes inv: "buf_inv k w b" and c: "absB k w b = ALive c True (breadOnly b)" and z: "bopeners b = 0"
  obtains res where "Unseal k b w = Some res" "unsealed k w b c res"
    "btagged b \<Longrightarrow> prekeyOf w \<noteq> None \<Longrightarrow> fst res = None \<Longrightarrow> tag_ok w b (mbytes (mapping_of w b))"
    "btagged b \<longrightarrow> tag_ok w b (mbytes (mapping_of w b)) \<Longrightarrow> fst res = None \<or> osError (fst res)"
proof -
  have l: "\<not> destroyed b" "\<not> cells w (bwiped b)" "bsealed b" using c by (auto simp: absB_def split: if_splits)
  obtain n cap mp where s: "bdata b = Some n" "n \<le> cap" "mid k w b cap w mp" "mode_ok k (cells w (bcipher b)) b mp"
    "mapping_of w b = mp" "absB k w b = ALive (take n (plainOf k (cells w (bcipher b)) mp)) (bsealed b) (breadOnly b)"
    by (rule mid_start [OF inv l(1,2)])
  let ?P = "plainOf k (cells w (bcipher b)) mp"
  have cc: "c = take n ?P" using s(6) c by simp
  obtain e m1 where e: "mprotectSecretMem k (bregion b) PROT_RW (mem w) = (e, m1)" by fastforce
  obtain e2 m2 where e2: "relockSecretMem k (bregion b) m1 = (e2, m2)" by fastforce
  from s(3) e show thesis
  proof (cases rule: mid_mprotect)
    case failed
    have "mode_ok k (cells (w\<lparr>mem := m1\<rparr>) (bcipher b)) b mp" using s(4) by simp
    note fin = mid_finish [OF failed(3) same_ident_refl s(1,2) this]
    then show thesis using that [of "(Some ErrOS, b, w\<lparr>mem := m1\<rparr>)"] l e failed(1) cc by (simp add: Unseal_def unsealed_def osError_def)
  next
    case ok
    have rw: "mprot (setp k PROT_RW mp) = PROT_RW" using midD(9) [OF s(3)] by (cases "platform k = Stub") auto
    have e2': "relockSecretMem k (bregion b) (mem (w\<lparr>mem := m1\<rparr>)) = (e2, m2)" using e2 by simp
    have mk: "tag_ok (w\<lparr>mem := m2\<rparr>) b (mbytes mp) = tag_ok w b (mbytes (mapping_of w b))" "prekeyOf (w\<lparr>mem := m2\<rparr>) = prekeyOf w"
      using mprotect_tag [OF s(3) e] relock_tag [OF ok(2) e2'] mprotect_prekey [OF s(3) e] relock_prekey [OF ok(2) e2'] s(5) by simp_all
    have cs: "cells w (bcipher b) \<Longrightarrow> platform k = Windows" "bclosed b \<Longrightarrow> platform k \<noteq> Stub"
      "platform k \<noteq> Windows \<Longrightarrow> platform k \<noteq> Stub \<Longrightarrow> mlocked_in mp" using s(4) by (auto simp: mode_ok_def)
    from ok(2) e2' show thesis
    proof (cases rule: mid_relock)
      case f2: failed
      then have m: "mid k w b cap (w\<lparr>mem := m2\<rparr>) (setp k PROT_RW mp)" by simp
      show thesis
        by (rule mid_none [OF m same_ident_refl s(1,2) refl z l(3)])
          (use that cs l e e2 ok(1) f2(1) cc in \<open>auto simp: Unseal_def unsealed_def osError_def setp_locked\<close>)
    next
      case o2: ok
      have "unsealing k w b cap n ?P (w\<lparr>mem := m2\<rparr>) (relocked k (setp k PROT_RW mp))"
        using o2(2) rw s z l(3) cs by (auto simp: unsealing_def sealing_def locks_ok_def relocked_def setp_locked plainOf_def)
      then show thesis
        by (rule unsealVerify_spec) (use that l e e2 ok(1) o2(1) cc mk in \<open>auto simp: Unseal_def\<close>)
    qed
  qed
qed

definition unsealSpec :: "bool \<Rightarrow> abuf \<Rightarrow> unit \<Rightarrow> error \<Rightarrow> abuf \<Rightarrow> bool" where
  "unsealSpec closed a r e a' = (case a of
     ADestroyed \<Rightarrow> e = Some ErrDestroyed \<and> a' = a
   | AWiped \<Rightarrow> e = Some ErrWiped \<and> a' = a
   | ALive c s ro \<Rightarrow> if s then a' = ALive c (e \<noteq> None) ro else e = None \<and> a' = a)"

lemma refines_Unseal: "refines k (\<lambda>_ b. bopeners b = 0) (proc (Unseal k)) unsealSpec"
  unfolding refines_def
proof (intro allI impI)
  fix b w assume "buf_inv k w b \<and> bopeners b = 0"
  then have inv: "buf_inv k w b" and z: "bopeners b = 0" by auto
  let ?R = "\<exists>r e b' w'. proc (Unseal k) b w = Some (r, e, b', w') \<and> buf_post k w b w' b' \<and>
    unsealSpec (bclosed b) (absB k w b) r e (absB k w' b') \<and> (at_rest k w b \<and> e = None \<longrightarrow> at_rest k w' b')"
  note post = buf_post_refl [OF inv]
  from inv show ?R
  proof (cases rule: live_cases)
    case (sealed c)
    from inv sealed(4) z show ?R
    proof (cases rule: Unseal_sealed)
      case (1 res)
      then show ?R using sealed by (cases res) (auto simp: proc_def unsealSpec_def unsealed_def)
    qed
  qed (use post in \<open>auto simp: Unseal_def proc_def unsealSpec_def\<close>)
qed

end
