(* ===== verification/Buffer_Life.thy ===== *)
theory Buffer_Life
  imports Buffer_Seal
begin

text \<open>
  The end and the beginning of a \<^verbatim>\<open>SecureBuffer\<close>, the independence of buffers from one
  another, and the properties of the whole component.
\<close>

section \<open>Destroy\<close>

lemma mid_relocked:
  assumes "mid k w b cap w1 mp" "mprot mp = PROT_RW"
  obtains mp' where "mid k w b cap (w1\<lparr>mem := snd (relockSecretMem k (bregion b) (mem w1))\<rparr>) mp'" "mprot mp' = PROT_RW" "mbytes mp' = mbytes mp"
    "\<And>b' bs. tag_ok (w1\<lparr>mem := snd (relockSecretMem k (bregion b) (mem w1))\<rparr>) b' bs = tag_ok w1 b' bs"
proof -
  obtain e m' where e: "relockSecretMem k (bregion b) (mem w1) = (e, m')" by fastforce
  note t = relock_tag [OF assms(1) e]
  from assms(1) e show thesis
  proof (cases rule: mid_relock)
    case ok
    then show thesis using that [of "relocked k mp"] e assms(2) t by simp
  next
    case failed
    then show thesis using that [of mp] e assms(2) t by simp
  qed
qed

text \<open>The second half, with the region writable: the decryption.\<close>

lemma destroy_decrypt:
  assumes m: "mid k w b cap w2 mp" and rw: "mprot mp = PROT_RW"
  obtains w3 mp3 where "(if cells w2 (bcipher b) then do {
               (de, m3) \<leftarrow> sealDecrypt k (bregion b) (mem w2);
               Some (ie, if de = None then setCell (bcipher b) False (w2\<lparr>mem := m3\<rparr>) else w2\<lparr>mem := m3\<rparr>)
             } else Some (ie, w2)) = Some (ie :: error, w3)" "mid k w b cap w3 mp3"
proof (cases "cells w2 (bcipher b)")
  case False
  then show thesis using that [of w2 mp] m by simp
next
  case True
  from m rw show thesis
  proof (cases rule: mid_decrypt)
    case (ok m')
    then show thesis using that [OF _ mid_cell [OF ok(2), of False]] True by simp
  next
    case (failed e m')
    then show thesis using that [OF _ failed(2)] True by simp
  qed
qed

lemma destroyPrepare_mid:
  assumes inv: "buf_inv k w b" and d: "\<not> destroyed b" "\<not> cells w (bwiped b)"
  obtains ie w1 cap mp1 where "destroyPrepare k b w = Some (ie, w1)" "mid k w b cap w1 mp1"
    "ie = None \<or> errorIs ie ErrIntegrity \<and> bsealed b \<and> btagged b \<and> \<not> tag_ok w b (mbytes (mapping_of w b))"
proof -
  obtain n cap mp where s: "bdata b = Some n" "n \<le> cap" "mid k w b cap w mp" "mode_ok k (cells w (bcipher b)) b mp" "mapping_of w b = mp"
    by (rule mid_start [OF inv d])
  let ?v = "bsealed b \<and> btagged b"
  obtain e m1 where e: "mprotectSecretMem k (bregion b) PROT_RW (mem w) = (e, m1)" by fastforce
  show thesis
  proof (cases "?v \<or> cells w (bcipher b)")
    case False
    then have "destroyPrepare k b w = Some (None, w)" by (auto simp: destroyPrepare_def Let_def)
    then show thesis using that s(3) by blast
  next
    case True
    from s(3) e show thesis
    proof (cases rule: mid_mprotect)
      case failed
      then show thesis using that [OF _ failed(3)] True e d(2) by (auto simp: destroyPrepare_def Let_def)
    next
      case ok
      have "mprot (setp k PROT_RW mp) = PROT_RW" using midD(9) [OF s(3)] by (cases "platform k = Stub") auto
      with ok(2) obtain mp2 where r: "mid k w b cap (w\<lparr>mem := snd (relockSecretMem k (bregion b) m1)\<rparr>) mp2" "mprot mp2 = PROT_RW"
        "mbytes mp2 = mbytes mp" "\<And>b' bs. tag_ok (w\<lparr>mem := snd (relockSecretMem k (bregion b) m1)\<rparr>) b' bs = tag_ok w b' bs"
        by (rule mid_relocked) (use mprotect_tag [OF s(3) e] in auto)
      let ?w2 = "w\<lparr>mem := snd (relockSecretMem k (bregion b) m1)\<rparr>"
      show thesis
      proof (cases ?v)
        case False
        from r(1,2) show thesis
          by (rule destroy_decrypt [where ie = None]) (use that e ok(1) True False d(2) in \<open>auto simp: destroyPrepare_def Let_def\<close>)
      next
        case v: True
        have "mprot mp2 \<noteq> PROT_NONE" using r(2) by simp
        with r(1) show thesis
        proof (cases rule: mid_verify)
          case (1 ve w3)
          let ?ie = "if errorIs ve ErrIntegrity then ve else None"
          have i: "?ie = None \<or> errorIs ?ie ErrIntegrity \<and> bsealed b \<and> btagged b \<and> \<not> tag_ok w b (mbytes (mapping_of w b))"
            using 1(4) r(3,4) s(5) v by (cases ve) auto
          from 1(2) r(2) show thesis
            by (rule destroy_decrypt [where ie = ?ie]) (use that i e ok(1) v d(2) 1(1) in \<open>auto simp: destroyPrepare_def Let_def\<close>)
        qed
      qed
    qed
  qed
qed

lemma destroyPrepare_spec:
  assumes inv: "buf_inv k w b" and d: "\<not> destroyed b" and fl: "cells w (bwiped b) \<longrightarrow> \<not> cells w (bcipher b)"
  obtains ie w1 cap where "destroyPrepare k b w = Some (ie, w1)" "world_step k (bkey b) w w1" "bkey b \<notin> ring_keys w1"
    "buf_owned w1 b cap" "ie = None \<or> errorIs ie ErrIntegrity \<and> bsealed b \<and> btagged b \<and> \<not> tag_ok w b (mbytes (mapping_of w b))"
proof (cases "cells w (bwiped b)")
  case True
  obtain cap where "buf_owned w b cap" using inv d by (auto simp: buf_inv_def buf_ok_def)
  moreover have "world_step k (bkey b) w w" "bkey b \<notin> ring_keys w" using inv d by (auto simp: buf_inv_def world_step_refl)
  ultimately show thesis using that [of None w cap] True fl by (simp add: destroyPrepare_def)
next
  case False
  with inv d show thesis by (rule destroyPrepare_mid) (use that midD in metis)
qed

definition flag_down :: "world \<Rightarrow> bufferState \<Rightarrow> bool" where
  "flag_down w b \<longleftrightarrow> (cells w (bwiped b) \<longrightarrow> \<not> cells w (bcipher b))"

text \<open>Nothing is released before the region is, while the keyring is live.\<close>

definition ring_live :: "world \<Rightarrow> bool" where
  "ring_live w \<longleftrightarrow> klock (sealKeys w) \<noteq> None \<and> \<not> cells w (kwiped (sealKeys w))"

lemma ring_live_mem [simp]: "ring_live (w\<lparr>mem := m\<rparr>) = ring_live w"
  by (simp add: ring_live_def)

lemma sealDecrypt_released: "sealDecrypt k r m = Some (e, m') \<Longrightarrow> released m' = released m"
  by (auto simp: sealDecrypt_def sealCipherCall_def writeMem_def sys_def
      split: if_splits sum.splits prod.splits option.splits bind_splits)

lemma sealVerify_live: "sealVerify k b w = Some (e, w') \<Longrightarrow> ring_live w \<Longrightarrow> w' = w"
  by (auto simp: sealVerify_def withPrekey_def ring_live_def split: if_splits bind_splits option.splits)

lemma destroyPrepare_released:
  assumes "destroyPrepare k b w = Some (ie, w1)" "ring_live w \<or> \<not> (bsealed b \<and> btagged b)"
  shows "released (mem w1) = released (mem w)"
proof -
  let ?v = "bsealed b \<and> btagged b \<and> \<not> cells w (bwiped b)"
  obtain e m1 where e: "mprotectSecretMem k (bregion b) PROT_RW (mem w) = (e, m1)" by fastforce
  have r1: "released m1 = released (mem w)"
    using e by (cases rule: mprotectSecretMem_cases) (auto dest: mem_updD(4))
  obtain e2 m2 where e2: "relockSecretMem k (bregion b) m1 = (e2, m2)" by fastforce
  have r2: "released m2 = released m1"
    using e2 by (cases rule: relockSecretMem_cases) (auto dest: mem_updD(4))
  have v: "w' = w\<lparr>mem := m2\<rparr>" if "sealVerify k b (w\<lparr>mem := m2\<rparr>) = Some (ve, w')" ?v for ve w'
    using sealVerify_live [OF that(1)] that(2) assms(2) by simp
  show ?thesis
    using assms(1) e e2 r1 r2
    by (auto simp: destroyPrepare_def Let_def setCell_def split: if_splits option.splits bind_splits dest!: v sealDecrypt_released)
qed

text \<open>
  After \<^verbatim>\<open>Destroy\<close> the registration is gone and the region was given back empty, unless
  the operating system refused to make it writable.
\<close>

lemma Destroy_spec:
  assumes inv: "buf_inv k w b" and d: "\<not> destroyed b" and fl: "flag_down w b"
  obtains e b' w' where "Destroy k b w = Some (e, b', w')" "b' = b\<lparr>bcleanup := False, bdata := None, bregion := noRegion\<rparr>"
    "buf_post k w b w' b'" "peekAny (bkey b) w' = None"
    "ring_live w \<or> \<not> (bsealed b \<and> btagged b) \<Longrightarrow>
      (\<exists>l. released (mem w') = released (mem w) @ l \<and> list_all all_zero l) \<or> errorIs e ErrOS"
proof -
  from inv d fl [unfolded flag_down_def] show thesis
  proof (rule destroyPrepare_spec)
    fix ie w1 cap assume p: "destroyPrepare k b w = Some (ie, w1)" "world_step k (bkey b) w w1" "bkey b \<notin> ring_keys w1"
    "buf_owned w1 b cap" "ie = None \<or> errorIs ie ErrIntegrity \<and> bsealed b \<and> btagged b \<and> \<not> tag_ok w b (mbytes (mapping_of w b))"
    note W = world_stepD [OF p(2)]
    from W(1) p(4) show thesis
    proof (rule release_owned [where h = True])
      fix re w2 assume r: "release k (bkey b) True w1 = Some (re, w2)" "jan_inv k w2" "peekAny (bkey b) w2 = None" "frame {bkey b} w1 w2"
        "sealKeys w2 = sealKeys w1" "retired (bregion b) re w1 (quar w2) (mem w2)"
      have s: "world_step k (bkey b) w1 w2" by (rule world_step_frame [OF r(2) W(2) r(4,5) p(3)])
      let ?b = "b\<lparr>bcleanup := False, bdata := None, bregion := noRegion\<rparr>"
      have "buf_inv k w2 ?b" using inv r(2) world_stepD(2) [OF s]
        by (simp add: buf_inv_def buf_ok_def destroyed_def noRegion_def)
      moreover have "(\<exists>l. released (mem w2) = released (mem w) @ l \<and> list_all all_zero l) \<or> errorIs (errorsJoin ie re) ErrOS"
        if "ring_live w \<or> \<not> (bsealed b \<and> btagged b)"
        using r(6) destroyPrepare_released [OF p(1) that] by (auto simp: retired_def)
      ultimately show thesis
        using that [of "errorsJoin ie re" ?b w2] p(1) r(1,3) d world_step_trans [OF p(2) s] by (simp add: Destroy_def buf_post_def)
    qed
  qed
qed

definition destroySpec :: "bool \<Rightarrow> abuf \<Rightarrow> unit \<Rightarrow> error \<Rightarrow> abuf \<Rightarrow> bool" where
  "destroySpec closed a r e a' \<longleftrightarrow> a' = ADestroyed \<and> (a = ADestroyed \<longrightarrow> e = None)"

lemma refines_Destroy: "refines k flag_down (proc (Destroy k)) destroySpec"
  unfolding refines_def
proof (intro allI impI)
  fix b w assume "buf_inv k w b \<and> flag_down w b"
  then have inv: "buf_inv k w b" and fl: "flag_down w b" by auto
  show "\<exists>r e b' w'. proc (Destroy k) b w = Some (r, e, b', w') \<and> buf_post k w b w' b' \<and>
    destroySpec (bclosed b) (absB k w b) r e (absB k w' b') \<and> (at_rest k w b \<and> e = None \<longrightarrow> at_rest k w' b')"
  proof (cases "destroyed b")
    case True
    then show ?thesis using buf_post_refl [OF inv] by (auto simp: Destroy_def proc_def destroySpec_def absB_def)
  next
    case False
    from inv False fl show ?thesis
    proof (rule Destroy_spec)
      fix e b' w' assume "Destroy k b w = Some (e, b', w')" "b' = b\<lparr>bcleanup := False, bdata := None, bregion := noRegion\<rparr>" "buf_post k w b w' b'"
      then show ?thesis using False by (auto simp: proc_def destroySpec_def absB_def destroyed_def noRegion_def at_rest_def)
    qed
  qed
qed

section \<open>Other buffers\<close>

text \<open>A step of one buffer is invisible to every other one.\<close>

lemma world_step_other:
  assumes s: "world_step k key w w'" and inv: "buf_inv k w b" and n: "bkey b \<noteq> key"
  shows "buf_inv k w' b" "absB k w' b = absB k w b" "at_rest k w' b = at_rest k w b"
proof -
  note W = world_stepD [OF s]
  have "buf_inv k w' b \<and> absB k w' b = absB k w b \<and> at_rest k w' b = at_rest k w b"
  proof (cases "destroyed b")
    case True
    then show ?thesis using inv W(1,2) by (simp add: buf_inv_def buf_ok_def absB_def at_rest_def)
  next
    case False
    obtain m cap where o: "bdata b = Some m" "m \<le> cap" "cap \<le> innerLen (bregion b)" "buf_owned w b cap"
      using inv False by (auto simp: buf_inv_def buf_ok_def)
    obtain e where e: "peekAny (bkey b) w = Some e" "jregion e = bregion b" "jwiped e = Some (bwiped b)"
      "\<not> cells w (bwiped b) \<Longrightarrow> jsealCipher e = Some (bcipher b)" using o(4) by (auto simp: owned_def split: if_splits)
    have nr: "bkey b \<notin> ring_keys w" using inv False by (simp add: buf_inv_def)
    have kp: "kept (bkey b) w w'" using W(5) [OF n nr] e(1) by simp
    have c: "maps (mem w') (base (bregion b)) = maps (mem w) (base (bregion b))" "cells w' (bwiped b) = cells w (bwiped b)"
      "\<not> cells w (bwiped b) \<Longrightarrow> cells w' (bcipher b) = cells w (bcipher b)"
      using kp e by (auto simp: kept_def cells_of_def)
    have nr': "bkey b \<notin> ring_keys w'" using W(4) [of "bkey b"] n nr e(1) by auto
    have "buf_owned w' b cap" by (rule owned_kept [OF o(4) kp])
    moreover have "\<exists>mp. region_at (bregion b) (mem w') mp \<and> mode_ok k (cells w' (bcipher b)) b mp" if "\<not> cells w (bwiped b)"
      using inv False that c by (auto simp: buf_inv_def buf_ok_def region_at_def)
    ultimately have "buf_ok k w' b" using False o c(2) by (auto simp: buf_ok_def)
    then show ?thesis using inv W(1,2) nr' c by (auto simp: buf_inv_def absB_def at_rest_def mapping_of_def)
  qed
  then show "buf_inv k w' b" "absB k w' b = absB k w b" "at_rest k w' b = at_rest k w b" by auto
qed

section \<open>The constructors\<close>

text \<open>What a constructor leaves of the rest of the world.\<close>

definition other_step :: "kernel \<Rightarrow> world \<Rightarrow> world \<Rightarrow> bool" where
  "other_step k w w' \<longleftrightarrow> jan_inv k w' \<and> ring_ok k w' \<and> frame (ring_keys w) w w' \<and>
     (\<forall>x\<in>ring_keys w'. x \<in> ring_keys w \<or> peekAny x w = None)"

lemma other_step_frame:
  assumes "jan_inv k w'" "ring_ok k w" "frame {} w w'" "sealKeys w' = sealKeys w"
  shows "other_step k w w'"
  using assms ring_ok_frame [OF assms(2,3)] frame_mono [OF assms(3), of "ring_keys w"]
  by (auto simp: other_step_def ring_keys_def split: if_splits)

lemma other_step_world:
  assumes o: "other_step k w w1" and s: "world_step k key w1 w2" and n: "peekAny key w = None"
  shows "other_step k w w2"
proof -
  have f: "frame (ring_keys w) w w1" "jan_inv k w1" "ring_ok k w1" using o by (auto simp: other_step_def)
  have "world_step k key w w1"
    using o frame_mono [OF f(1), of "insert key (ring_keys w)"] by (auto simp: other_step_def world_step_def)
  from world_step_trans [OF this s] have t: "world_step k key w w2" .
  then show ?thesis
    using world_stepD(1-3) [OF t] frame_fresh [of key "ring_keys w" w w2] n by (auto simp: other_step_def world_step_def)
qed

lemma world_step_of_other: "other_step k w w' \<Longrightarrow> world_step k key w w'"
  using frame_mono [of "ring_keys w" w w' "insert key (ring_keys w)"] by (auto simp: other_step_def world_step_def)

definition born_buffer :: "kernel \<Rightarrow> config \<Rightarrow> bytes \<Rightarrow> world \<Rightarrow> (err + bufferState) \<times> world \<Rightarrow> bool" where
  "born_buffer k cfg c w res = (case res of
     (Inl e, w') \<Rightarrow> other_step k w w'
   | (Inr b, w') \<Rightarrow> other_step k w w' \<and> buf_inv k w' b \<and> absB k w' b = ALive c False False \<and> at_rest k w' b \<and>
       peekAny (bkey b) w = None \<and> bauth b = (\<not> cUnauthenticatedSeal cfg) \<and> bclosed b = (cClosedAtRest cfg \<and> platform k \<noteq> Stub))"

lemma born_closed:
  assumes o: "other_step k w w4" "peekAny (bkey st) w = None" and inv: "buf_inv k w4 st" "absB k w4 st = ALive c False False" "at_rest k w4 st"
    and st: "bopeners st = 0" "\<not> bclosed st" "bauth st = (\<not> cUnauthenticatedSeal cfg)" and np: "platform k \<noteq> Stub" "cClosedAtRest cfg"
  shows "\<exists>res. (case mprotectSecretMem k (bregion st) PROT_NONE (mem w4) of
               (Some e, m5) \<Rightarrow> do { (_, _, w6) \<leftarrow> Destroy k st (w4\<lparr>mem := m5\<rparr>); Some (Inl e, w6) }
             | (None, m5) \<Rightarrow> Some (Inr (st\<lparr>bclosed := True, backing := bk\<rparr>), w4\<lparr>mem := m5\<rparr>)) = Some res \<and> born_buffer k cfg c w res"
proof -
  have l: "\<not> destroyed st" "\<not> cells w4 (bwiped st)" "\<not> bsealed st" using inv(2) by (auto simp: absB_def split: if_splits)
  obtain n cap mp where s: "bdata st = Some n" "n \<le> cap" "mid k w4 st cap w4 mp" "mode_ok k (cells w4 (bcipher st)) st mp"
    "mapping_of w4 st = mp" "absB k w4 st = ALive (take n (plainOf k (cells w4 (bcipher st)) mp)) (bsealed st) (breadOnly st)"
    by (rule mid_start [OF inv(1) l(1,2)])
  obtain e m5 where e: "mprotectSecretMem k (bregion st) PROT_NONE (mem w4) = (e, m5)" by fastforce
  from s(3) e show ?thesis
  proof (cases rule: mid_mprotect)
    case ok
    let ?b = "st\<lparr>bclosed := True, backing := bk\<rparr>"
    have m: "mid k w4 ?b cap (w4\<lparr>mem := m5\<rparr>) (setp k PROT_NONE mp)" using ok(2) by (simp add: mid_def destroyed_def buf_can_def)
    have "mode_ok k (cells (w4\<lparr>mem := m5\<rparr>) (bcipher ?b)) ?b (setp k PROT_NONE mp)"
      using s(4) np st l(3) by (auto simp: mode_ok_def setp_locked)
    note fin = mid_finish [OF m same_ident_refl _ s(2) this, simplified, OF s(1)]
    have "other_step k w (w4\<lparr>mem := m5\<rparr>)" using other_step_world [OF o(1) _ o(2)] fin(1) by (simp add: buf_post_def)
    moreover have "at_rest k (w4\<lparr>mem := m5\<rparr>) ?b" using fin(2) np st l by (simp add: at_rest_def restProtection_def)
    ultimately show ?thesis using e ok(1) fin s(6) inv(2) o(2) st np by (auto simp: born_buffer_def buf_post_def)
  next
    case failed
    have "mode_ok k (cells (w4\<lparr>mem := m5\<rparr>) (bcipher st)) st mp" using s(4) by simp
    note fin = mid_finish [OF failed(3) same_ident_refl s(1,2) this]
    have i5: "buf_inv k (w4\<lparr>mem := m5\<rparr>) st" and o5: "other_step k w (w4\<lparr>mem := m5\<rparr>)"
      using fin(1) other_step_world [OF o(1) _ o(2)] by (auto simp: buf_post_def)
    have "flag_down (w4\<lparr>mem := m5\<rparr>) st" using l(2) by (simp add: flag_down_def)
    with i5 l(1) show ?thesis
    proof (rule Destroy_spec)
      fix e2 b' w' assume "Destroy k st (w4\<lparr>mem := m5\<rparr>) = Some (e2, b', w')" "buf_post k (w4\<lparr>mem := m5\<rparr>) st w' b'"
      then show ?thesis using e failed(1) other_step_world [OF o5 _ o(2)] by (simp add: born_buffer_def buf_post_def)
    qed
  qed
qed

lemma newSecureBuffer_spec:
  assumes K: "kernel_ok k" and I: "jan_inv k w" and R: "ring_ok k w" and nu: "base r \<notin> used w"
    and mp: "region_at r (mem w) mp" "mprot mp = PROT_RW" "platform k \<noteq> Stub \<longrightarrow> mlocked_in mp"
    and sz: "0 < innerLen r" "innerLen r \<le> outerLen r" "n \<le> innerLen r"
    and cr: "canary_ready (cpkg w)" and ins: "insecure info = (platform k = Stub)"
  shows "\<exists>res. newSecureBuffer k r n info cfg w = Some res \<and> born_buffer k cfg (take n (mbytes mp)) w res"
proof -
  obtain mu w1 where l: "newLock w = (mu, w1)" by fastforce
  obtain sc w2 where c1: "newCell w1 = (sc, w2)" by fastforce
  obtain wp w3 where c2: "newCell w2 = (wp, w3)" by fastforce
  note L = newLock_inv [OF I l] note C1 = newCell_inv [OF L(1) c1] note C2 = newCell_inv [OF C1(1) c2]
  let ?can = "bufferCanary (int n) (int (innerLen r))"
  have f3: "frame {} w w3" using L(2) C1(2) C2(2) frame_trans by blast
  have m3: "mem w3 = mem w" "sealKeys w3 = sealKeys w" "used w3 = used w" "\<not> cells w3 wp" "\<not> cells w3 sc" "sc \<noteq> wp" "cpkg w3 = cpkg w"
    using L C1 C2 by (simp_all add: used_def)
  have nc: "jmu e \<noteq> mu \<and> cells_of e \<inter> {sc, wp} = {}" if "peekAny key w = Some e" for key e
    using jan_invD(3) [OF I that] L(3,5) C1(3,4) C2(3) by (auto simp: entry_ok_def)
  have fresh: "fresh w3 r mu (insert wp (set_option (Some sc)))"
    using nu m3(3) L C1 C2 nc by (auto simp: fresh_def)
  obtain res w4 where reg: "register r ?can mu (Some sc) (Some wp) w3 = (res, w4)" by fastforce
  have a: "Some sc \<noteq> Some wp" "region_at r (mem w3) mp" "chain 0 (zones ?can) (int (innerLen r))" "zones ?can = [] \<or> canary_ready (cpkg w3)"
    using m3 mp(1) cr by (auto intro: chain_bufferCanary)
  note G = register_fresh [OF C2(1) fresh a(1,2) mp(2) sz(1,2) a(3,4) reg]
  have G': "jan_inv k w4" "frame {} w w4" "mem w4 = mem w" "sealKeys w4 = sealKeys w" "cells w4 = cells w3"
    using G(1,2,5,6,8) m3 frame_trans [OF f3] by auto
  note N = newSecureBuffer_def [of k r n info cfg w, unfolded l c1 c2 Let_def prod.case reg]
  show ?thesis
  proof (cases res)
    case (Inl e)
    have nu4: "base r \<notin> used w4" using G(4) [OF Inl] nu m3(3) by simp
    have r4: "region_at r (mem w4) mp" using mp(1) G'(3) by simp
    show ?thesis
    proof (rule discardRegion_spec [OF G'(1) nu4 r4 mp(2)])
      fix m' assume d: "discardRegion k r w4 = Some (w4\<lparr>mem := m'\<rparr>)" "jan_inv k (w4\<lparr>mem := m'\<rparr>)" "frame {} w4 (w4\<lparr>mem := m'\<rparr>)"
      have "other_step k w (w4\<lparr>mem := m'\<rparr>)"
        by (rule other_step_frame [OF d(2) R frame_trans [OF G'(2) d(3)]]) (simp add: G'(4))
      then show ?thesis using N Inl d(1) by (simp add: born_buffer_def)
    qed
  next
    case (Inr key)
    have E: "peekAny key w3 = None" "wipedset w4 key = None" "key \<noteq> 0" "regions w4 key =
       Some \<lparr>jregion = r, jmu = mu, jcanary = ?can, jsealCipher = Some sc, jwiped = Some wp\<rparr>"
      using G(3) [OF Inr] by simp_all
    have k0: "peekAny key w = None" using E(1) L(9) C1(9) C2(9) by simp
    have o4: "other_step k w w4" by (rule other_step_frame [OF G'(1) R G'(2,4)])
    define st where "st = \<lparr>bdata = Some n, bregion = r, bmu = mu, bcleanup = False, bkey = 0, bsealed = False, breadOnly = False,
                bcipher = sc, bwiped = wp, backing = info\<lparr>unauthenticatedSeal := cUnauthenticatedSeal cfg\<rparr>, bauth = \<not> cUnauthenticatedSeal cfg, btagged = False,
                bgen = 0, bnonce = zeros sealNonceLen, btag = zeros sealTagLen, bclosed = False, bopeners = 0\<rparr>\<lparr>bkey := key, bcleanup := True\<rparr>"
    have r: "bregion st = r" by (simp add: st_def)
    have N: "newSecureBuffer k r n info cfg w =
      (if cClosedAtRest cfg \<and> \<not> insecure (info\<lparr>unauthenticatedSeal := cUnauthenticatedSeal cfg\<rparr>) then
         case mprotectSecretMem k r PROT_NONE (mem w4) of
               (Some e, m5) \<Rightarrow> do { (_, _, w6) \<leftarrow> Destroy k st (w4\<lparr>mem := m5\<rparr>); Some (Inl e, w6) }
             | (None, m5) \<Rightarrow> Some (Inr (st\<lparr>bclosed := True, backing := info\<lparr>unauthenticatedSeal := cUnauthenticatedSeal cfg\<rparr>\<lparr>closedAtRest := True\<rparr>\<rparr>), w4\<lparr>mem := m5\<rparr>)
       else Some (Inr st, w4))"
      unfolding N Inr sum.case st_def by (rule refl)
    have nr: "key \<notin> ring_keys w4" using o4 k0 R by (auto simp: other_step_def ring_keys_def G'(4) ring_ok_def owned_def split: if_splits)
    have "buf_owned w4 st n" using E m3(4) G'(5) by (auto simp: st_def owned_def peekAny_def buf_can_def)
    moreover have "region_at r (mem w4) mp \<and> mode_ok k (cells w4 sc) st mp"
      using mp m3(5) G'(3,5) by (auto simp: st_def mode_ok_def usable_def)
    ultimately have inv: "buf_inv k w4 st" using K o4 nr sz by (auto simp: buf_inv_def buf_ok_def other_step_def st_def destroyed_def)
    have mo: "mapping_of w4 st = mp" using mp(1) G'(3) by (simp add: mapping_of_def st_def region_at_def)
    have ab: "absB k w4 st = ALive (take n (mbytes mp)) False False"
      using mo m3(4,5) G'(5) sz(1) by (simp add: absB_def st_def destroyed_def plainOf_def)
    have ar: "at_rest k w4 st" using mo mp(2) by (auto simp: at_rest_def st_def restProtection_def)
    show ?thesis
    proof (cases "cClosedAtRest cfg \<and> platform k \<noteq> Stub")
      case True
      have "peekAny (bkey st) w = None" "bopeners st = 0" "\<not> bclosed st" "bauth st = (\<not> cUnauthenticatedSeal cfg)"
        using k0 by (simp_all add: st_def)
      from born_closed [OF o4 this(1) inv ab ar this(2-4)] show ?thesis unfolding N using True ins r by simp
    next
      case False
      then have "newSecureBuffer k r n info cfg w = Some (Inr st, w4)" unfolding N using ins by auto
      moreover have "born_buffer k cfg (take n (mbytes mp)) w (Inr st, w4)"
        using False o4 inv ab ar k0 by (auto simp: st_def born_buffer_def)
      ultimately show ?thesis by blast
    qed
  qed
qed

lemma jan_inv_cpkg:
  assumes I: "jan_inv k w" and c: "canary_ready (cpkg w) \<longrightarrow> c = cpkg w" "canary_ok c"
  shows "jan_inv k (w\<lparr>cpkg := c\<rparr>)" "frame {} w (w\<lparr>cpkg := c\<rparr>)"
proof -
  have p: "peekAny key (w\<lparr>cpkg := c\<rparr>) = peekAny key w" for key by (simp add: peekAny_def split: option.split)
  have "entry_ok k (w\<lparr>cpkg := c\<rparr>) e" if "entry_ok k w e" for e using that c(1) by (auto simp: entry_ok_def)
  then show "jan_inv k (w\<lparr>cpkg := c\<rparr>)" using I c(2) p by (auto simp: jan_inv_def)
  show "frame {} w (w\<lparr>cpkg := c\<rparr>)" using c(1) by (auto simp: frame_def kept_def)
qed

lemma used_cpkg [simp]: "used (w\<lparr>cpkg := c\<rparr>) = used w"
  by (auto simp: used_def peekAny_def split: option.splits)

lemma fillSlack_spec:
  assumes K: "kernel_ok k" and I: "jan_inv k w" and nu: "base r \<notin> used w" and mp: "region_at r (mem w) (born k r)" and n: "n \<le> innerLen r"
  obtains (ok) w2 mp2 where "fillSlack k r n w = Some (None, w2)" "jan_inv k w2" "frame {} w w2" "sealKeys w2 = sealKeys w"
      "base r \<notin> used w2" "canary_ready (cpkg w2)" "region_at r (mem w2) mp2" "mprot mp2 = PROT_RW"
      "platform k \<noteq> Stub \<longrightarrow> mlocked_in mp2" "take n (mbytes mp2) = zeros n"
  | (failed) e w2 where "fillSlack k r n w = Some (Some e, w2)" "jan_inv k w2" "frame {} w w2" "sealKeys w2 = sealKeys w"
proof -
  let ?rnd = "rand k (calls (mem w)) canaryLen"
  have rd: "readMem r (mem w) = Some (zeros (innerLen r))" using mp readMem_Some [OF mp] by (simp add: born_def)
  have ro: "rand_ok ?rnd" using K by (auto simp: rand_ok_def kernel_ok_def split: option.split)
  from jan_invD(9) [OF I] ro show thesis
  proof (cases rule: canaryInit_cases)
    case (ready c1)
    let ?b = "zeros n @ canaryFill (canaryPattern c1) (innerLen r - n)"
    let ?m1 = "upd_mapping (base r) (\<lambda>mp. mp\<lparr>mbytes := ?b\<rparr>) (mem w)"
    let ?mp = "(born k r)\<lparr>mbytes := ?b\<rparr>"
    have wr: "writeMem r ?b (mem w) = Some ?m1" by (rule writeMem_Some [OF mp]) (use n in \<open>auto simp: born_def\<close>)
    have c: "canary_ready (cpkg w) \<longrightarrow> c1 = cpkg w" using ready(1) by auto
    note I1 = jan_inv_cpkg [OF I c canary_ready_ok [OF ready(2)]]
    have u: "mem_upd (base r) (\<lambda>mp. mp\<lparr>mbytes := ?b\<rparr>) (mem w) ?m1" using mp by (auto simp: mem_upd_def region_at_def)
    have "maps ?m1 a = maps (mem w) a" if "a \<in> used (w\<lparr>cpkg := c1\<rparr>)" for a
      using mem_updD(2) [OF u, of a] that nu by auto
    moreover have "mem_ok ?m1" using mem_ok_dom [OF jan_invD(8) [OF I]] mem_updD(5,6) [OF u] by simp
    ultimately have I2: "jan_inv k (w\<lparr>cpkg := c1, mem := ?m1\<rparr>)" "frame {} (w\<lparr>cpkg := c1\<rparr>) (w\<lparr>cpkg := c1, mem := ?m1\<rparr>)"
      using jan_inv_mem [OF I1(1), of ?m1] by auto
    have "fillSlack k r n w = Some (None, w\<lparr>cpkg := c1, mem := ?m1\<rparr>)"
      using rd ready(1) wr n by (simp add: fillSlack_def fillCanary_def)
    moreover have "region_at r ?m1 ?mp" using mp mem_updD(1) [OF u] n by (simp add: region_at_def born_def)
    ultimately show thesis
      using ok [of "w\<lparr>cpkg := c1, mem := ?m1\<rparr>" ?mp] I2 frame_trans [OF I1(2) I2(2)] nu ready(2) by (simp add: born_def)
  next
    case (failed e c1)
    have c: "canary_ready (cpkg w) \<longrightarrow> c1 = cpkg w" using failed(1) by auto
    note I1 = jan_inv_cpkg [OF I c failed(2)]
    obtain e2 m2 where f: "freeSecretMem k r (mem w) = (e2, m2)" by fastforce
    have w2: "mem_within {base r} (mem w) m2" by (rule freeSecretMem_within [OF f])
    have "maps m2 a = maps (mem w) a" if "a \<in> used (w\<lparr>cpkg := c1\<rparr>)" for a
    proof -
      have "a \<noteq> base r" using that nu by auto
      then show ?thesis using w2 by (simp add: mem_within_def)
    qed
    moreover have "mem_ok m2" using mem_ok_dom [OF jan_invD(8) [OF I]] w2 by (auto simp: mem_within_def)
    ultimately have I2: "jan_inv k (w\<lparr>cpkg := c1, mem := m2\<rparr>)" "frame {} (w\<lparr>cpkg := c1\<rparr>) (w\<lparr>cpkg := c1, mem := m2\<rparr>)"
      using jan_inv_mem [OF I1(1), of m2] by auto
    have "fillSlack k r n w = Some (Some e, w\<lparr>cpkg := c1, mem := m2\<rparr>)"
      using rd failed(1) f by (simp add: fillSlack_def fillCanary_def)
    then show thesis using that(2) I2 frame_trans [OF I1(2) I2(2)] by simp
  qed
qed

lemma born_trans:
  assumes f: "frame {} w w1" "sealKeys w1 = sealKeys w" and b: "born_buffer k cfg c w1 res"
  shows "born_buffer k cfg c w res"
proof -
  have n: "peekAny x w = None" if "peekAny x w1 = None" for x
    using f(1) that kept_peek [of x w w1] by (cases "peekAny x w") (auto simp: frame_def)
  have "other_step k w w2" if "other_step k w1 w2" for w2
    using that n frame_trans [OF frame_mono [OF f(1)], of "ring_keys w"] f(2)
    by (auto simp: other_step_def ring_keys_def split: if_splits)
  then show ?thesis using b n by (auto simp: born_buffer_def split: prod.splits sum.splits)
qed

lemma cfg_alloc_cases:
  assumes "kernel_ok k" "mem_ok m" "cfg_alloc cfg k sz m = (res, m')"
  shows "mem_grow m m'" "res = Inr (r, n, info) \<Longrightarrow> region_at r m' (born k r) \<and> maps m (base r) = None \<and> n = sz \<and> 0 < sz \<and>
    sz \<le> int (innerLen r) \<and> innerLen r \<le> outerLen r \<and> insecure info = (platform k = Stub)"
proof -
  have "mem_grow m m' \<and> (res = Inr (r, n, info) \<longrightarrow> region_at r m' (born k r) \<and> maps m (base r) = None \<and> n = sz \<and> 0 < sz \<and>
    sz \<le> int (innerLen r) \<and> innerLen r \<le> outerLen r \<and> insecure info = (platform k = Stub))"
  proof (cases "noMemfdSecret cfg")
    case True
    then have a: "allocMapAnon k sz m = (res, m')" using assms(3) by (simp add: cfg_alloc_def)
    show ?thesis using anon.grows [OF assms(1,2) a] anon.new_region [OF assms(1,2), of sz r n info m'] a by auto
  next
    case False
    then have a: "allocSecretMem k sz m = (res, m')" using assms(3) by (simp add: cfg_alloc_def)
    show ?thesis using sec.grows [OF assms(1,2) a] sec.new_region [OF assms(1,2), of sz r n info m'] a by auto
  qed
  then show "mem_grow m m'" "res = Inr (r, n, info) \<Longrightarrow> region_at r m' (born k r) \<and> maps m (base r) = None \<and> n = sz \<and> 0 < sz \<and>
    sz \<le> int (innerLen r) \<and> innerLen r \<le> outerLen r \<and> insecure info = (platform k = Stub)" by auto
qed

lemma allocBuffer_spec:
  assumes K: "kernel_ok k" and I: "jan_inv k w" and R: "ring_ok k w"
  shows "\<exists>res. allocBuffer k sz cfg w = Some res \<and> born_buffer k cfg (zeros (nat sz)) w res"
proof (cases "gateInsecure (platformHasSecureMemory k) cfg")
  case (Some e)
  then show ?thesis using I R other_step_frame [OF I R] by (simp add: allocBuffer_def born_buffer_def)
next
  case None
  obtain res m1 where a: "cfg_alloc cfg k sz (mem w) = (res, m1)" by fastforce
  note A = cfg_alloc_cases [OF K jan_invD(8) [OF I] a]
  have I1: "jan_inv k (w\<lparr>mem := m1\<rparr>)" "frame {} w (w\<lparr>mem := m1\<rparr>)" using jan_inv_grow [OF I A(1)] by simp_all
  show ?thesis
  proof (cases res)
    case (Inl e)
    have "other_step k w (w\<lparr>mem := m1\<rparr>)" by (rule other_step_frame [OF I1(1) R I1(2)]) simp
    then show ?thesis using None a Inl by (simp add: allocBuffer_def born_buffer_def)
  next
    case (Inr t)
    then obtain r n info where t: "res = Inr (r, n, info)" by (cases t) auto
    note T = A(2) [OF t]
    have nu: "base r \<notin> used (w\<lparr>mem := m1\<rparr>)" using used_mapped [OF I, of "base r"] T by auto
    have nn: "nat n \<le> innerLen r" using T by (simp add: nat_le_iff)
    have r1: "region_at r (mem (w\<lparr>mem := m1\<rparr>)) (born k r)" using T by simp
    from K I1(1) nu r1 nn show ?thesis
    proof (cases rule: fillSlack_spec)
      case (ok w2 mp2)
      have f: "frame {} w w2" "sealKeys w2 = sealKeys w" using frame_trans [OF I1(2) ok(3)] ok(4) by auto
      have "ring_ok k w2" using ring_ok_frame [OF R f(1) _ f(2)] by simp
      moreover have "0 < innerLen r" "innerLen r \<le> outerLen r" "insecure info = (platform k = Stub)" using T by auto
      ultimately obtain res where "newSecureBuffer k r (nat n) info cfg w2 = Some res" "born_buffer k cfg (take (nat n) (mbytes mp2)) w2 res"
        using newSecureBuffer_spec [OF K ok(2) _ ok(5,7,8,9) _ _ nn ok(6)] by blast
      then show ?thesis using None a t ok(1,10) born_trans [OF f] T by (simp add: allocBuffer_def)
    next
      case (failed e w2)
      have "other_step k w w2" by (rule other_step_frame [OF failed(2) R frame_trans [OF I1(2) failed(3)]]) (use failed(4) in simp)
      then show ?thesis using None a t failed(1) by (simp add: allocBuffer_def born_buffer_def)
    qed
  qed
qed

lemma NewEmptyBuffer_spec:
  assumes "kernel_ok k" "jan_inv k w" "ring_ok k w"
  shows "\<exists>res. NewEmptyBuffer k sz opts w = Some res \<and> born_buffer k (applyOptions opts) (zeros (nat sz)) w res \<and>
    (sz \<le> 0 \<longrightarrow> res = (Inl (ErrMsg ''invalid size''), w))"
  using allocBuffer_spec [OF assms, of sz "applyOptions opts"] other_step_frame [OF assms(2,3)]
  by (auto simp: NewEmptyBuffer_def born_buffer_def)

text \<open>Filling a new buffer: the contents, or the buffer is destroyed.\<close>

lemma fillInitial_live:
  assumes inv: "buf_inv k w b" and c: "absB k w b = ALive c False False"
  obtains (ok) w' where "fillInitial k raw b w = Some (None, b, w')" "buf_post k w b w' b"
      "absB k w' b = ALive (goCopy 0 raw c) False False" "at_rest k w b \<Longrightarrow> at_rest k w' b"
  | (failed) b' w' where "fillInitial k raw b w = Some (Some ErrOS, b', w')" "buf_post k w b w' b'" "destroyed b'" "bclosed b"
proof -
  have l: "\<not> destroyed b" "\<not> cells w (bwiped b)" "\<not> bsealed b" "\<not> breadOnly b" using c by (auto simp: absB_def split: if_splits)
  have n: "bdata b = Some (length c)" using inv c l by (cases rule: live_cases) auto
  have d: "does k (the (bdata b)) (\<lambda>_. False) (copyInto 0 (the (bdata b)) raw) (\<lambda>c. int (min (length raw) (length c))) (\<lambda>c. goCopy 0 raw c)"
    by (rule does_cong [OF does_copyIn]) auto
  have c': "absB k w b = ALive c False (breadOnly b)" using c l by simp
  have f: "\<And>c. length (goCopy 0 raw c) = length c" by simp
  from inv l(1-3) c' d f show thesis
  proof (rule copyClosed_spec [where dflt = 0])
    fix r e w' assume s: "copyClosed k (copyInto 0 (the (bdata b)) raw) 0 b w = Some (r, e, b, w')" "buf_post k w b w' b"
      "e = None \<and> r = int (min (length raw) (length c)) \<and> absB k w' b = ALive (goCopy 0 raw c) False (breadOnly b) \<or>
       bclosed b \<and> e = Some ErrOS \<and> (r = 0 \<and> absB k w' b = absB k w b \<or>
         r = int (min (length raw) (length c)) \<and> absB k w' b = ALive (goCopy 0 raw c) False (breadOnly b))"
      "at_rest k w b \<Longrightarrow> e = None \<Longrightarrow> at_rest k w' b"
    obtain x oe ce where o: "whileOpen k (copyInto 0 (the (bdata b)) raw) 0 b w = Some (x, oe, ce, b, w')" "e = (if oe \<noteq> None then oe else ce)"
      using s(1) by (auto simp: copyClosed_def split: bind_splits)
    show thesis
    proof (cases e)
      case None
      then show thesis using ok [of w'] o l s by (auto simp: fillInitial_def split: if_splits)
    next
      case (Some er)
      then have er: "er = ErrOS" "bclosed b" using s(3) by auto
      have lv: "\<not> cells w' (bwiped b)" using s(3) c by (auto simp: absB_def split: if_splits)
      have inv': "buf_inv k w' b" using s(2) by (simp add: buf_post_def)
      have "flag_down w' b" using lv by (simp add: flag_down_def)
      with inv' l(1) show thesis
      proof (rule Destroy_spec)
        fix e2 b' w2 assume D: "Destroy k b w' = Some (e2, b', w2)" "b' = b\<lparr>bcleanup := False, bdata := None, bregion := noRegion\<rparr>" "buf_post k w' b w2 b'"
        have "buf_post k w b w2 b'" using s(2) D(3) world_step_trans by (auto simp: buf_post_def)
        moreover have "fillInitial k raw b w = Some (Some ErrOS, b', w2)" using o l D(1) Some er by (auto simp: fillInitial_def)
        ultimately show thesis using failed D(2) er by (simp add: destroyed_def noRegion_def)
      qed
    qed
  qed (use l in auto)
qed

lemma NewBuffer_spec:
  assumes W: "kernel_ok k" "jan_inv k w" "ring_ok k w" and raw: "raw \<noteq> []"
  shows "\<exists>res w'. NewBuffer k raw opts w = Some (res, zeros (length raw), w') \<and> born_buffer k (applyOptions opts) raw w (res, w')"
proof -
  let ?cfg = "applyOptions opts"
  obtain res w1 where a: "allocBuffer k (int (length raw)) ?cfg w = Some (res, w1)" "born_buffer k ?cfg (zeros (length raw)) w (res, w1)"
    using allocBuffer_spec [OF W, of "int (length raw)" ?cfg] by auto
  have wipe: "fst (secureWipe raw) = zeros (length raw)" by simp
  show ?thesis
  proof (cases res)
    case (Inl e)
    then show ?thesis using a raw wipe by (simp add: NewBuffer_def born_buffer_def)
  next
    case (Inr b)
    then have B: "other_step k w w1" "buf_inv k w1 b" "absB k w1 b = ALive (zeros (length raw)) False False" "at_rest k w1 b" "peekAny (bkey b) w = None"
      "bauth b = (\<not> cUnauthenticatedSeal ?cfg)" "bclosed b = (cClosedAtRest ?cfg \<and> platform k \<noteq> Stub)"
      using a(2) by (auto simp: born_buffer_def)
    from B(2,3) show ?thesis
    proof (cases rule: fillInitial_live [where raw = raw])
      case (ok w')
      have "other_step k w w'" using other_step_world [OF B(1) _ B(5)] ok(2) by (simp add: buf_post_def)
      moreover have "goCopy 0 raw (zeros (length raw)) = raw" by (rule goCopy_whole) simp
      ultimately show ?thesis
        using a(1) Inr raw wipe ok B by (simp add: NewBuffer_def born_buffer_def buf_post_def)
    next
      case (failed b' w')
      have "other_step k w w'" using other_step_world [OF B(1) _ B(5)] failed(2) by (simp add: buf_post_def)
      then show ?thesis using a(1) Inr raw wipe failed by (simp add: NewBuffer_def born_buffer_def)
    qed
  qed
qed

end
