(* ===== verification/Buffer_Correct.thy ===== *)
theory Buffer_Correct
  imports Buffer_Life
begin

text \<open>
  The properties of a \<^verbatim>\<open>SecureBuffer\<close>, over the specifications proved in the theories
  before. A buffer as its caller sees it is destroyed, wiped, or live with contents and two flags;
  every method is a step of that abstract buffer.
\<close>

section \<open>An example\<close>

definition ex_buffer :: bufferState where
  "ex_buffer = \<lparr>bdata = Some 32, bregion = ex_region, bmu = 0, bcleanup = True, bkey = 1, bsealed = False, breadOnly = False,
     bcipher = 0, bwiped = 1, backing = \<lparr>offHeap = True, mlocked = True, memfdSecret = False, noDump = True, noFork = True,
       guardPages = True, insecure = False, unauthenticatedSeal = False, closedAtRest = False\<rparr>, bauth = True, btagged = False,
     bgen = 0, bnonce = zeros sealNonceLen, btag = zeros sealTagLen, bclosed = False, bopeners = 0\<rparr>"

lemma bufferCanary_full: "bufferCanary (int n) (int n) = zeroLayout"
  by (simp add: bufferCanary_def zeroLayout_def)

lemmas ex_defs = ex_buffer_def ex_region_def ex_world_def ex_entry_def ex_mapped_def ex_memory_def ex_kernel_def born_def

lemma ex_mapping: "mapping_of ex_world ex_buffer = born ex_kernel ex_region"
  by (simp add: mapping_of_def ex_defs)

lemma ex_owned: "buf_owned ex_world ex_buffer 32"
  by (simp add: owned_def ex_peek buf_can_def bufferCanary_full [of 32, simplified]) (simp add: ex_defs zeroLayout_def bufferCanary_def)

lemma ex_buffer_inv: "buf_inv ex_kernel ex_world ex_buffer"
proof -
  have "region_at (bregion ex_buffer) (mem ex_world) (born ex_kernel ex_region)" by (simp add: region_at_def ex_defs)
  moreover have "mode_ok ex_kernel (cells ex_world (bcipher ex_buffer)) ex_buffer (born ex_kernel ex_region)"
    by (simp add: mode_ok_def usable_def ex_defs)
  moreover have "ring_ok ex_kernel ex_world" "ring_keys ex_world = {}" by (simp_all add: ring_ok_def ring_keys_def ex_world_def)
  ultimately show ?thesis using ex_world_inv ex_owned
    by (auto simp: buf_inv_def buf_ok_def destroyed_def ex_buffer_def ex_region_def)
qed

lemma ex_abs: "absB ex_kernel ex_world ex_buffer = ALive (zeros 32) False False"
  by (simp add: absB_def ex_mapping plainOf_def) (simp add: ex_defs destroyed_def)

section \<open>Refinement\<close>

text \<open>
  C6. The reading methods refine the abstract buffer: from every state that satisfies the invariant
  \<^verbatim>\<open>CopyOut\<close>, \<^verbatim>\<open>ByteAt\<close>, \<^verbatim>\<open>ConstantTimeEqual\<close>,
  \<^verbatim>\<open>ExposeString\<close> and \<^verbatim>\<open>WriteTo\<close> return without a fault, with
  \<^verbatim>\<open>ErrDestroyed\<close>, \<^verbatim>\<open>ErrWiped\<close> or \<^verbatim>\<open>ErrSealed\<close> in that order of
  precedence, an error for an index out of range, or the result the contents give; they change
  neither the contents nor any other registration, and without an error the region is at rest again.
\<close>

theorem Buffer_reads:
  "refines k (\<lambda>_ _. True) (CopyOut k dst off) (accessSpec False (aCopyOut dst off) (0, dst)) \<and>
   refines k (\<lambda>_ _. True) (ByteAt k i) (accessSpec False (aByteAt i) 0) \<and>
   refines k (\<lambda>_ _. True) (ConstantTimeEqual k other) (accessSpec False (aEqual other) False) \<and>
   refines k (\<lambda>_ _. True) (ExposeString k) (accessSpec False aExpose []) \<and>
   refines k (\<lambda>_ _. True) (WriteTo k wr) (accessSpec False (aWriteTo wr) 0)"
  using refines_CopyOut refines_ByteAt refines_ConstantTimeEqual refines_ExposeString refines_WriteTo by blast

text \<open>
  C5. The writing methods refine the abstract buffer: \<^verbatim>\<open>CopyIn\<close>,
  \<^verbatim>\<open>SetByteAt\<close>, \<^verbatim>\<open>ReadFrom\<close> and \<^verbatim>\<open>Truncate\<close> never fault, refuse a
  destroyed, wiped, sealed or read-only buffer and an index out of range without changing anything,
  and otherwise replace exactly the bytes they name.
\<close>

theorem Buffer_writes:
  "refines k (\<lambda>_ _. True) (CopyIn k src off) (accessSpec True (aCopyIn src off) 0) \<and>
   refines k (\<lambda>_ _. True) (proc (SetByteAt k i v)) (accessSpec True (aSetByteAt i v) ()) \<and>
   refines k (\<lambda>_ _. True) (ReadFrom k rd) (accessSpec True (aReadFrom rd) 0) \<and>
   refines k (\<lambda>_ _. True) (proc (Truncate k n)) (truncSpec n)"
  using refines_CopyIn refines_SetByteAt refines_ReadFrom refines_Truncate by blast

text \<open>
  C8. The borrowing methods and the protection methods refine the abstract buffer. A callback sees
  the contents and leaves what it wrote through the slice; on a read-only buffer it has to be one
  that only reads. \<^verbatim>\<open>ReadOnly\<close> and \<^verbatim>\<open>ReadWrite\<close>, which hold the lock alone,
  change the one flag or nothing.
\<close>

theorem Buffer_borrows:
  "refines k (mayRun fn) (proc (WithBytesErr k (Some fn))) (accessSpec False (aCallback fn) ()) \<and>
   refines k (mayRun (\<lambda>c. (None, f c))) (proc (WithBytes k (Some f))) (accessSpec False (aCallback (\<lambda>c. (None, f c))) ()) \<and>
   refines k (\<lambda>_ b. bopeners b = 0) (proc (ReadOnly k)) (protSpec True) \<and>
   refines k (\<lambda>_ b. bopeners b = 0) (proc (ReadWrite k)) (protSpec False)"
  using refines_WithBytesErr refines_WithBytes refines_ReadOnly refines_ReadWrite by blast

text \<open>
  C1. \<^verbatim>\<open>Seal\<close>, \<^verbatim>\<open>Unseal\<close> and \<^verbatim>\<open>Destroy\<close> refine the abstract buffer:
  whichever of the calls to the system fails, they return without a fault and the contents are what
  they were. A nil error of \<^verbatim>\<open>Seal\<close> means sealed, \<^verbatim>\<open>Unseal\<close> leaves a sealed
  buffer sealed exactly when it returns an error, and after \<^verbatim>\<open>Destroy\<close> the buffer is
  destroyed whatever it returns.
\<close>

theorem Buffer_seals:
  "refines k (\<lambda>_ b. bopeners b = 0) (proc (Seal k)) sealSpec \<and>
   refines k (\<lambda>_ b. bopeners b = 0) (proc (Unseal k)) unsealSpec \<and>
   refines k flag_down (proc (Destroy k)) destroySpec"
  using refines_Seal refines_Unseal refines_Destroy by blast

section \<open>Round trips\<close>

text \<open>
  What \<^verbatim>\<open>CopyIn\<close> stored \<^verbatim>\<open>CopyOut\<close> gives back: if a copy of \<open>src\<close> to an
  offset reports that all of it was stored, a copy from the same offset into a slice of that length
  returns \<open>src\<close>, or an error of the system when the buffer is closed at rest.
\<close>

theorem CopyIn_CopyOut:
  assumes "buf_inv k w b" "CopyIn k src off b w = Some (int (length src), None, b1, w1)" "src \<noteq> []" "length dst = length src"
  shows "\<exists>r e b2 w2. CopyOut k dst off b1 w1 = Some (r, e, b2, w2) \<and>
    (e = None \<and> r = (int (length src), src) \<or> bclosed b1 \<and> e = Some ErrOS)"
proof -
  have "refines k (\<lambda>_ _. True) (CopyIn k src off) (accessSpec True (aCopyIn src off) 0)" by (rule refines_CopyIn)
  then have p: "buf_post k w b w1 b1" and a: "accessSpec True (aCopyIn src off) 0 (bclosed b) (absB k w b) (int (length src)) None (absB k w1 b1)"
    using assms(1,2) unfolding refines_def by fastforce+
  obtain c s ro where c: "absB k w b = ALive c s ro" "\<not> s" "\<not> ro" "aCopyIn src off c = Inr (int (length src), None, acontents (absB k w1 b1))"
    "absB k w1 b1 = ALive (acontents (absB k w1 b1)) s ro"
    using a by (auto simp: accessSpec_def split: abuf.splits if_splits sum.splits)
  then have off: "0 \<le> off" "off < int (length c)" and ls: "nat off + length src \<le> length c"
    and c1: "acontents (absB k w1 b1) = goCopy (nat off) src c"
    by (auto simp: aCopyIn_def inRange_simps min_def split: if_splits)
  have "goCopy 0 (drop (nat off) (goCopy (nat off) src c)) dst = src"
    using goCopy_goCopy_read [OF ls] ls assms(4) by (simp add: goCopy_def [of 0])
  then have out: "aCopyOut dst off (goCopy (nat off) src c) = Inr ((int (length src), src), None, goCopy (nat off) src c)"
    using off ls assms(4) by (simp add: aCopyOut_def inRange_def)
  have "refines k (\<lambda>_ _. True) (CopyOut k dst off) (accessSpec False (aCopyOut dst off) (0, dst))" by (rule refines_CopyOut)
  then obtain r e b2 w2 where "CopyOut k dst off b1 w1 = Some (r, e, b2, w2)"
    "accessSpec False (aCopyOut dst off) (0, dst) (bclosed b1) (absB k w1 b1) r e (absB k w2 b2)"
    using p unfolding refines_def buf_post_def by blast
  then show ?thesis using c(2,5) c1 out by (auto simp: accessSpec_def)
qed

lemma ex_CopyIn: "\<exists>b1 w1. CopyIn ex_kernel [5, 6] 3 ex_buffer ex_world = Some (2, None, b1, w1)"
proof -
  have "refines ex_kernel (\<lambda>_ _. True) (CopyIn ex_kernel [5, 6] 3) (accessSpec True (aCopyIn [5, 6] 3) 0)" by (rule refines_CopyIn)
  then obtain r e b1 w1 where "CopyIn ex_kernel [5, 6] 3 ex_buffer ex_world = Some (r, e, b1, w1)"
    "accessSpec True (aCopyIn [5, 6] 3) 0 (bclosed ex_buffer) (absB ex_kernel ex_world ex_buffer) r e (absB ex_kernel w1 b1)"
    using ex_buffer_inv unfolding refines_def by blast
  moreover have "\<not> bclosed ex_buffer" by (simp add: ex_buffer_def)
  ultimately show ?thesis by (auto simp: accessSpec_def ex_abs aCopyIn_def inRange_def)
qed

theorem CopyIn_CopyOut_witness:
  "\<exists>b1 w1 r e b2 w2. CopyIn ex_kernel [5, 6] 3 ex_buffer ex_world = Some (2, None, b1, w1) \<and>
     CopyOut ex_kernel [0, 0] 3 b1 w1 = Some (r, e, b2, w2) \<and> (e = None \<and> r = (2, [5, 6]) \<or> bclosed b1 \<and> e = Some ErrOS)"
proof -
  obtain b1 w1 where c: "CopyIn ex_kernel [5, 6] 3 ex_buffer ex_world = Some (2, None, b1, w1)" using ex_CopyIn by blast
  then show ?thesis using CopyIn_CopyOut [OF ex_buffer_inv, of "[5, 6]" 3 b1 w1 "[0, 0]"] by auto
qed

text \<open>
  C2. What \<^verbatim>\<open>Seal\<close> put to rest \<^verbatim>\<open>Unseal\<close> wakes with the contents it had. After a
  successful \<^verbatim>\<open>Seal\<close> the region is inaccessible and the buffer refuses every access;
  a following \<^verbatim>\<open>Unseal\<close> restores the buffer as it was before, or returns an error of
  the system and leaves it sealed. It never reports a failed verification.
\<close>

theorem Seal_Unseal:
  assumes "buf_inv k w b" "absB k w b = ALive c False ro" "bopeners b = 0"
  shows "\<exists>e b1 w1. Seal k b w = Some (e, b1, w1) \<and> (e = None \<longrightarrow>
    absB k w1 b1 = ALive c True ro \<and> (platform k \<noteq> Stub \<longrightarrow> mprot (mapping_of w1 b1) = PROT_NONE) \<and>
    (\<exists>e2 b2 w2. Unseal k b1 w1 = Some (e2, b2, w2) \<and>
       (e2 = None \<and> absB k w2 b2 = absB k w b \<and> at_rest k w2 b2 \<or> osError e2 \<and> absB k w2 b2 = ALive c True ro)))"
proof -
  have l: "\<not> destroyed b" "\<not> cells w (bwiped b)" "\<not> bsealed b" "ro = breadOnly b"
    using assms(2) by (auto simp: absB_def split: if_splits)
  from assms(1) l(1-3) assms(3) assms(2) [unfolded l(4)] show ?thesis
  proof (cases rule: Seal_live)
    case (1 e b1 w1 s')
    show ?thesis
    proof (cases e)
      case None
      then have t: "s'" "tag_covers w1 b1" "closedNow k w1 b1" "bopeners b1 = 0" using 1(4) by auto
      have inv1: "buf_inv k w1 b1" using 1(2) by (simp add: buf_post_def)
      have ro1: "breadOnly b1 = breadOnly b" using 1(3) by (auto simp: absB_def split: if_splits)
      have a1: "absB k w1 b1 = ALive c True (breadOnly b1)" using 1(3) t(1) ro1 by simp
      from inv1 a1 t(4) show ?thesis
      proof (cases rule: Unseal_sealed)
        case u: (1 res)
        obtain e2 b2 w2 where r: "res = (e2, b2, w2)" by (cases res)
        have "e2 = None \<or> osError e2" using u(4) t(2) r by (auto simp: tag_covers_def)
        moreover have "e2 \<noteq> None" if "osError e2" using that by (auto simp: osError_def)
        ultimately show ?thesis
          using 1(1) None a1 u(1,2) r t(3) ro1 l(4) assms(2) by (auto simp: unsealed_def closedNow_def)
      qed
    qed (use 1 in auto)
  qed
qed

lemmas seal_defs = Seal_def Unseal_def sealBody_def sealTail_def sealEncrypt_def unsealVerify_def unsealDecrypt_def unsealRestore_def
  mprotectSecretMem_def mprotect_def relockSecretMem_def sys_def upd_mapping_def set_prot_def osErr_def restProtection_def

lemma ex_unauth_inv: "buf_inv ex_kernel ex_world (ex_buffer\<lparr>bauth := False\<rparr>)" "absB ex_kernel ex_world (ex_buffer\<lparr>bauth := False\<rparr>) = ALive (zeros 32) False False"
proof -
  have "mode_ok k c (b\<lparr>bauth := False\<rparr>) mp = mode_ok k c b mp" "buf_can (b\<lparr>bauth := False\<rparr>) n = buf_can b n" for k c b mp n
    by (simp_all add: mode_ok_def usable_def buf_can_def)
  then show "buf_inv ex_kernel ex_world (ex_buffer\<lparr>bauth := False\<rparr>)" using ex_buffer_inv
    by (auto simp: buf_inv_def buf_ok_def destroyed_def split: if_splits)
  have "absB k w (b\<lparr>bauth := False\<rparr>) = absB k w b" for k w b by (simp add: absB_def mapping_of_def destroyed_def)
  then show "absB ex_kernel ex_world (ex_buffer\<lparr>bauth := False\<rparr>) = ALive (zeros 32) False False" using ex_abs by simp
qed

lemma ex_seal: "Seal ex_kernel (ex_buffer\<lparr>bauth := False\<rparr>) ex_world = Some (None, ex_buffer\<lparr>bauth := False, bsealed := True\<rparr>,
    ex_world\<lparr>mem := upd_mapping (Mapped 2) (set_prot ex_kernel PROT_NONE) (ex_mapped\<lparr>calls := 1\<rparr>)\<rparr>)"
  by (simp add: seal_defs destroyed_def Let_def ex_defs)

lemma ex_unseal: "map_option fst (Unseal ex_kernel (ex_buffer\<lparr>bauth := False, bsealed := True\<rparr>)
    (ex_world\<lparr>mem := upd_mapping (Mapped 2) (set_prot ex_kernel PROT_NONE) (ex_mapped\<lparr>calls := 1\<rparr>)\<rparr>)) = Some None"
  by (simp add: seal_defs destroyed_def Let_def ex_defs)

theorem Seal_Unseal_witness:
  "\<exists>b1 w1. Seal ex_kernel (ex_buffer\<lparr>bauth := False\<rparr>) ex_world = Some (None, b1, w1) \<and> absB ex_kernel w1 b1 = ALive (zeros 32) True False \<and>
     (\<exists>b2 w2. Unseal ex_kernel b1 w1 = Some (None, b2, w2) \<and> absB ex_kernel w2 b2 = ALive (zeros 32) False False)"
proof -
  have z: "bopeners (ex_buffer\<lparr>bauth := False\<rparr>) = 0" by (simp add: ex_buffer_def)
  show ?thesis using Seal_Unseal [OF ex_unauth_inv z] ex_seal ex_unseal ex_unauth_inv(2) by (auto simp: osError_def)
qed

section \<open>Integrity\<close>

text \<open>
  C3. A tagged buffer whose bytes at rest no longer match the tag, or whose tag was made under
  another prekey, is never unsealed: \<^verbatim>\<open>Unseal\<close> returns an error and the buffer stays sealed.
  The tag is recomputed with the live prekey over the identity of the buffer, the nonce and the
  bytes that are in the region.
\<close>

theorem Unseal_rejects:
  assumes "buf_inv k w b" "absB k w b = ALive c True ro" "bopeners b = 0" "btagged b" "prekeyOf w = Some p"
    and "kgen (sealKeys w) \<noteq> bgen b \<or> sealComputeTag p (bkey b) (bnonce b) (mbytes (mapping_of w b)) \<noteq> btag b"
  shows "\<exists>e b' w'. Unseal k b w = Some (Some e, b', w') \<and> buf_inv k w' b' \<and> absB k w' b' = ALive c True ro"
proof -
  have ro: "absB k w b = ALive c True (breadOnly b)" "ro = breadOnly b" using assms(2) by (auto simp: absB_def split: if_splits)
  from assms(1) ro(1) assms(3) show ?thesis
  proof (cases rule: Unseal_sealed)
    case (1 res)
    obtain e b' w' where r: "res = (e, b', w')" by (cases res)
    have "\<not> tag_ok w b (mbytes (mapping_of w b))" using assms(5,6) by (auto simp: tag_ok_def)
    then have "e \<noteq> None" using 1(3) assms(4,5) r by auto
    then show ?thesis using 1(1,2) r ro by (auto simp: unsealed_def buf_post_def)
  qed
qed

lemma length_sealComputeTag: "length (sealComputeTag p i n b) = sealTagLen"
  by (simp add: sealComputeTag_def sealPRF_prf_def Let_def sealTagLen_def)

definition ex_keyregion :: secRegion where
  "ex_keyregion = \<lparr>base = Mapped 5, outerLen = 96, innerLen = 32\<rparr>"

definition ex_keyentry :: janitorRegion where
  "ex_keyentry = \<lparr>jregion = ex_keyregion, jmu = 1, jcanary = zeroLayout, jsealCipher = None, jwiped = Some 2\<rparr>"

definition ex_keyed :: world where
  "ex_keyed = ex_world\<lparr>mem := ex_memory\<lparr>maps := [Mapped 2 \<mapsto> born ex_kernel ex_region, Mapped 5 \<mapsto> born ex_kernel ex_keyregion]\<rparr>,
     regions := [1 \<mapsto> ex_entry, 2 \<mapsto> ex_keyentry], ncells := 3, nlocks := 2,
     sealKeys := \<lparr>kregion = ex_keyregion, klock = Some 1, kwiped = 2, kkey = 2, kgen = 1\<rparr>\<rparr>"

definition ex_sealed :: bufferState where
  "ex_sealed = ex_buffer\<lparr>bsealed := True, btagged := True, bgen := 1, btag := []\<rparr>"

lemma ex_keyed_peek: "peekAny key ex_keyed = (if key = 1 then Some ex_entry else if key = 2 then Some ex_keyentry else None)"
  by (simp add: peekAny_def ex_keyed_def ex_world_def)

lemma ex_keyed_inv: "jan_inv ex_kernel ex_keyed"
proof -
  have "entry_ok ex_kernel ex_keyed ex_entry" "entry_ok ex_kernel ex_keyed ex_keyentry"
    by (simp_all add: entry_ok_def region_at_def ex_defs ex_keyed_def ex_keyentry_def ex_keyregion_def cells_of_def newQuarantine_def)
  moreover have "quar_inv (quar ex_keyed)" "quar_mapped (quar ex_keyed) (mem ex_keyed)" "mem_ok (mem ex_keyed)"
    "canary_ok (cpkg ex_keyed)" "wipedset ex_keyed = Map.empty"
    by (simp_all add: ex_keyed_def ex_defs newQuarantine_def quar_inv_def quar_mapped_def within_def mem_ok_def)
  moreover have "apart ex_entry ex_keyentry" "apart ex_keyentry ex_entry"
    by (simp_all add: apart_def ex_defs ex_keyentry_def ex_keyregion_def cells_of_def)
  ultimately show ?thesis by (auto simp: jan_inv_def ex_keyed_peek)
qed

lemma ex_sealed_inv: "buf_inv ex_kernel ex_keyed ex_sealed"
proof -
  have "region_at (bregion ex_sealed) (mem ex_keyed) (born ex_kernel ex_region)" by (simp add: region_at_def ex_defs ex_sealed_def ex_keyed_def)
  moreover have "mode_ok ex_kernel (cells ex_keyed (bcipher ex_sealed)) ex_sealed (born ex_kernel ex_region)"
    by (simp add: mode_ok_def usable_def ex_defs ex_sealed_def ex_keyed_def)
  moreover have "owned ex_keyed 2 ex_keyregion 1 zeroLayout None 2"
    by (simp add: owned_def ex_keyed_peek) (simp add: ex_keyed_def ex_keyentry_def ex_world_def)
  then have "ring_ok ex_kernel ex_keyed" "ring_keys ex_keyed = {2}"
    by (auto simp: ring_ok_def ring_keys_def region_at_def ex_keyed_def ex_keyregion_def born_def)
  moreover have "buf_owned ex_keyed ex_sealed 32"
    by (simp add: owned_def ex_keyed_peek buf_can_def) (simp add: ex_defs ex_sealed_def ex_keyed_def zeroLayout_def bufferCanary_def)
  ultimately show ?thesis using ex_keyed_inv
    by (auto simp: buf_inv_def buf_ok_def destroyed_def ex_sealed_def ex_buffer_def ex_region_def)
qed

lemma ex_sealed_abs: "absB ex_kernel ex_keyed ex_sealed = ALive (zeros 32) True False"
  by (simp add: absB_def mapping_of_def plainOf_def destroyed_def ex_sealed_def ex_keyed_def ex_defs)

lemma ex_prekey: "prekeyOf ex_keyed = Some (zeros 32)"
  by (simp add: prekeyOf_def ex_keyed_def ex_keyregion_def born_def ex_world_def)

theorem Unseal_rejects_witness:
  "\<exists>e b' w'. Unseal ex_kernel ex_sealed ex_keyed = Some (Some e, b', w') \<and> absB ex_kernel w' b' = ALive (zeros 32) True False"
proof -
  have "length (sealComputeTag (zeros 32) (bkey ex_sealed) (bnonce ex_sealed) (mbytes (mapping_of ex_keyed ex_sealed))) = sealTagLen"
    by (rule length_sealComputeTag)
  then have "sealComputeTag (zeros 32) (bkey ex_sealed) (bnonce ex_sealed) (mbytes (mapping_of ex_keyed ex_sealed)) \<noteq> btag ex_sealed"
    by (auto simp: ex_sealed_def sealTagLen_def)
  then show ?thesis
    using Unseal_rejects [OF ex_sealed_inv ex_sealed_abs _ _ ex_prekey] by (auto simp: ex_sealed_def ex_buffer_def)
qed

text \<open>
  C10. Where the page size does not divide the 16384 bytes of the prekey, as with pages of 64 KiB,
  no authenticated buffer can be sealed: \<^verbatim>\<open>Seal\<close> returns an error on every call, and the
  contents stay readable.
\<close>

theorem Seal_large_pages:
  assumes "buf_inv k w b" "absB k w b = ALive c False ro" "bopeners b = 0" "bauth b"
    and "klock (sealKeys w) = None" "\<not> pageOf k dvd int sealPrekeyLen"
  shows "\<exists>e b1 w1. Seal k b w = Some (Some e, b1, w1)"
proof -
  have l: "\<not> destroyed b" "\<not> cells w (bwiped b)" "\<not> bsealed b" "ro = breadOnly b"
    using assms(2) by (auto simp: absB_def split: if_splits)
  from assms(1) l(1-3) assms(3) assms(2) [unfolded l(4)] show ?thesis
  proof (cases rule: Seal_live)
    case (1 e b1 w1 s')
    then show ?thesis using assms(4-6) by (cases e) auto
  qed
qed

definition ex_large :: kernel where
  "ex_large = ex_kernel\<lparr>pageSize := 65536\<rparr>"

lemma ex_large_inv: "buf_inv ex_large ex_world ex_buffer" "absB ex_large ex_world ex_buffer = ALive (zeros 32) False False"
proof -
  have e: "entry_ok ex_large w f = entry_ok ex_kernel w f" "mode_ok ex_large x b mp = mode_ok ex_kernel x b mp" for w f x b mp
    by (simp_all add: entry_ok_def mode_ok_def usable_def ex_large_def ex_kernel_def)
  have "kernel_ok ex_large" by (simp add: kernel_ok_def ex_large_def ex_kernel_def)
  moreover have "jan_inv ex_large ex_world" "ring_ok ex_large ex_world" using ex_buffer_inv e
    by (simp_all add: jan_inv_def buf_inv_def ring_ok_def)
  moreover have "buf_ok ex_large ex_world ex_buffer" "\<not> destroyed ex_buffer \<longrightarrow> bkey ex_buffer \<notin> ring_keys ex_world"
    using ex_buffer_inv e by (auto simp: buf_inv_def buf_ok_def)
  ultimately show "buf_inv ex_large ex_world ex_buffer" by (simp add: buf_inv_def)
  show "absB ex_large ex_world ex_buffer = ALive (zeros 32) False False"
    by (simp add: absB_def ex_mapping plainOf_def) (simp add: ex_defs destroyed_def)
qed

theorem Seal_large_pages_witness: "\<exists>e b1 w1. Seal ex_large ex_buffer ex_world = Some (Some e, b1, w1)"
proof -
  have "bopeners ex_buffer = 0" "bauth ex_buffer" "klock (sealKeys ex_world) = None" "\<not> pageOf ex_large dvd int sealPrekeyLen"
    by (simp_all add: ex_buffer_def ex_world_def pageOf_def ex_large_def ex_kernel_def sealPrekeyLen_def)
  from Seal_large_pages [OF ex_large_inv this] show ?thesis .
qed

section \<open>The end and the beginning\<close>





text \<open>
  C7. \<^verbatim>\<open>NewBuffer\<close> never faults and wipes the caller's slice on every path past the check
  for an empty input; a buffer it returns satisfies the invariant, holds the bytes given, is
  registered under a key that was free, and rests with the protection its options ask for. Whatever
  it returns, no other registration is touched.
\<close>

theorem NewBuffer_correct:
  assumes "kernel_ok k" "jan_inv k w" "ring_ok k w" "raw \<noteq> []"
  shows "\<exists>res w'. NewBuffer k raw opts w = Some (res, zeros (length raw), w') \<and> jan_inv k w' \<and> ring_ok k w' \<and> frame (ring_keys w) w w' \<and>
    (case res of Inl e \<Rightarrow> True
     | Inr b \<Rightarrow> buf_inv k w' b \<and> absB k w' b = ALive raw False False \<and> at_rest k w' b \<and> peekAny (bkey b) w = None \<and>
         bauth b = (\<not> cUnauthenticatedSeal (applyOptions opts)) \<and>
         bclosed b = (cClosedAtRest (applyOptions opts) \<and> platform k \<noteq> Stub))"
proof -
  obtain res w' where "NewBuffer k raw opts w = Some (res, zeros (length raw), w')" "born_buffer k (applyOptions opts) raw w (res, w')"
    using NewBuffer_spec [OF assms, of opts] by blast
  then show ?thesis by (cases res) (auto simp: born_buffer_def other_step_def)
qed

theorem NewBuffer_correct_witness:
  "\<exists>res w'. NewBuffer ex_kernel [1, 2, 3] [Some WithClosedAtRest] ex_world = Some (res, [0, 0, 0], w') \<and> jan_inv ex_kernel w' \<and>
    kept 1 ex_world w'"
proof -
  have r: "ring_ok ex_kernel ex_world" "ring_keys ex_world = {}" by (simp_all add: ring_ok_def ring_keys_def ex_world_def)
  obtain res w' where n: "NewBuffer ex_kernel [1, 2, 3] [Some WithClosedAtRest] ex_world = Some (res, zeros (length [1, 2, 3 :: byte]), w')"
    "jan_inv ex_kernel w'" "frame (ring_keys ex_world) ex_world w'"
    using NewBuffer_correct [OF ex_kernel_ok ex_world_inv r(1), of "[1, 2, 3]" "[Some WithClosedAtRest]"] by auto
  moreover have "kept 1 ex_world w'" using n(3) r(2) by (simp add: frame_def ex_peek)
  moreover have "zeros (length [1, 2, 3 :: byte]) = [0, 0, 0]" by simp
  ultimately show ?thesis by auto
qed


text \<open>A second buffer in the world of the example.\<close>

definition ex_two :: world where
  "ex_two = ex_keyed\<lparr>regions := [1 \<mapsto> ex_entry, 2 \<mapsto> ex_keyentry\<lparr>jsealCipher := Some 3\<rparr>], ncells := 4, sealKeys := sealKeys ex_world\<rparr>"

definition ex_second :: bufferState where
  "ex_second = ex_buffer\<lparr>bkey := 2, bregion := ex_keyregion, bmu := 1, bcipher := 3, bwiped := 2\<rparr>"

lemmas ex_two_defs = ex_two_def ex_second_def ex_keyed_def ex_keyentry_def ex_keyregion_def ex_defs

lemma ex_two_peek: "peekAny key ex_two = (if key = 1 then Some ex_entry else if key = 2 then Some (ex_keyentry\<lparr>jsealCipher := Some 3\<rparr>) else None)"
  by (simp add: peekAny_def ex_two_def ex_keyed_def ex_world_def)

lemma ex_two_inv: "jan_inv ex_kernel ex_two" "ring_ok ex_kernel ex_two" "ring_keys ex_two = {}"
proof -
  have "entry_ok ex_kernel ex_two ex_entry" "entry_ok ex_kernel ex_two (ex_keyentry\<lparr>jsealCipher := Some 3\<rparr>)"
    by (simp_all add: entry_ok_def region_at_def ex_two_defs cells_of_def newQuarantine_def)
  moreover have "quar_inv (quar ex_two)" "quar_mapped (quar ex_two) (mem ex_two)" "mem_ok (mem ex_two)"
    "canary_ok (cpkg ex_two)" "wipedset ex_two = Map.empty"
    by (simp_all add: ex_two_defs newQuarantine_def quar_inv_def quar_mapped_def within_def mem_ok_def)
  moreover have "apart ex_entry (ex_keyentry\<lparr>jsealCipher := Some 3\<rparr>)" "apart (ex_keyentry\<lparr>jsealCipher := Some 3\<rparr>) ex_entry"
    by (simp_all add: apart_def ex_two_defs cells_of_def)
  ultimately show "jan_inv ex_kernel ex_two" by (auto simp: jan_inv_def ex_two_peek)
  show "ring_ok ex_kernel ex_two" "ring_keys ex_two = {}" by (simp_all add: ring_ok_def ring_keys_def ex_two_def ex_world_def)
qed

lemma ex_two_buffers: "buf_inv ex_kernel ex_two ex_buffer" "buf_inv ex_kernel ex_two ex_second" "absB ex_kernel ex_two ex_second = ALive (zeros 32) False False"
proof -
  have "region_at (bregion ex_buffer) (mem ex_two) (born ex_kernel ex_region)" "region_at (bregion ex_second) (mem ex_two) (born ex_kernel ex_keyregion)"
    by (simp_all add: region_at_def ex_two_defs)
  moreover have "mode_ok ex_kernel (cells ex_two (bcipher ex_buffer)) ex_buffer (born ex_kernel ex_region)"
    "mode_ok ex_kernel (cells ex_two (bcipher ex_second)) ex_second (born ex_kernel ex_keyregion)"
    by (simp_all add: mode_ok_def usable_def ex_two_defs)
  moreover have "buf_owned ex_two ex_buffer 32" "buf_owned ex_two ex_second 32"
    by (simp_all add: owned_def ex_two_peek buf_can_def) (simp_all add: ex_two_defs zeroLayout_def bufferCanary_def)
  ultimately show "buf_inv ex_kernel ex_two ex_buffer" "buf_inv ex_kernel ex_two ex_second"
    using ex_two_inv by (auto simp: buf_inv_def buf_ok_def destroyed_def ex_second_def ex_buffer_def ex_region_def ex_keyregion_def)
  show "absB ex_kernel ex_two ex_second = ALive (zeros 32) False False"
    by (simp add: absB_def mapping_of_def plainOf_def destroyed_def ex_two_defs)
qed


text \<open>
  \<^verbatim>\<open>Truncate\<close> leaves nothing of what it cuts off: after a nil error the bytes between the
  new and the old length are zero in the region itself, though the buffer still owns them.
\<close>

theorem Truncate_wipes:
  assumes "buf_inv k w b" "absB k w b = ALive c False False" "0 \<le> n" "n \<le> int (length c)" "Truncate k n b w = Some (None, b', w')"
  shows "subslice (nat n) (length c) (mbytes (mapping_of w' b')) = zeros (length c - nat n) \<and> absB k w' b' = ALive (take (nat n) c) False False"
proof -
  have l: "\<not> destroyed b" "\<not> cells w (bwiped b)" "\<not> bsealed b" "\<not> breadOnly b"
    using assms(2) by (auto simp: absB_def split: if_splits)
  have c: "absB k w b = ALive c False (breadOnly b)" using assms(2) l by simp
  have d: "bdata b = Some (length c)" using assms(1) c l by (cases rule: live_cases) auto
  from assms(1) l c d assms(3,4) show ?thesis
    by (rule Truncate_live) (use assms(5) in \<open>auto simp: subslice_def\<close>)
qed

theorem Truncate_wipes_witness:
  "\<exists>b' w'. Truncate ex_kernel 1 ex_buffer ex_world = Some (None, b', w') \<and>
     subslice 1 32 (mbytes (mapping_of w' b')) = zeros 31 \<and> absB ex_kernel w' b' = ALive [0] False False"
proof -
  have "refines ex_kernel (\<lambda>_ _. True) (proc (Truncate ex_kernel 1)) (truncSpec 1)" by (rule refines_Truncate)
  then obtain e b' w' where t: "Truncate ex_kernel 1 ex_buffer ex_world = Some (e, b', w')"
    "truncSpec 1 (bclosed ex_buffer) (absB ex_kernel ex_world ex_buffer) () e (absB ex_kernel w' b')"
    using ex_buffer_inv unfolding refines_def by (fastforce simp: proc_def)
  have "\<not> bclosed ex_buffer" by (simp add: ex_buffer_def)
  then have "e = None" using t(2) by (simp add: truncSpec_def ex_abs)
  then show ?thesis using Truncate_wipes [OF ex_buffer_inv ex_abs, of 1 b' w'] t(1) by auto
qed

end
