(* ===== verification/Secure_Arena.thy ===== *)
theory Secure_Arena
  imports Buffer_Life
begin

text \<open>
  \<^verbatim>\<open>SecureArena\<close> (\<^verbatim>\<open>securearena.go\<close>): a slab of fixed-size slots with an
  intrusive first-in, first-out free list, and the handles of its slots. The sections that run under
  one lock are one function each; \<^verbatim>\<open>Release\<close> has two of them, the claim with the wipe
  under the arena's read lock and the push under \<^verbatim>\<open>alloc\<close>.
\<close>

section \<open>State\<close>

record slotMeta =
  sgeneration :: "64 word"
  snext :: int

record arenaState =
  amu :: lockid
  aregion :: secRegion
  rdOnly :: bool
  aslots :: "slotMeta list"
  freeHead :: int
  freeTail :: int
  alive :: int
  aslotSize :: int
  astride :: int
  acount :: int
  abacking :: allocInfo
  adestroyed :: bool
  areleased :: bool
  awiped :: cell
  acleanup :: bool
  ajanitorKey :: key

text \<open>A receiver: a nil pointer, a zero value, or an arena \<^verbatim>\<open>NewArena\<close> returned.\<close>

datatype SecureArena = NilArena | ZeroArena | LiveArena arenaState

text \<open>A handle; the arena it points to is an argument of its methods.\<close>

record ArenaSlot =
  hidx :: nat
  hgeneration :: "64 word"

text \<open>A conversion to \<^verbatim>\<open>int32\<close>.\<close>

definition toInt32 :: "int \<Rightarrow> int" where
  "toInt32 x = (x + 2 ^ 31) mod 2 ^ 32 - 2 ^ 31"

definition maxInt32 :: int where
  "maxInt32 = 2 ^ 31 - 1"

text \<open>The arithmetic of \<^verbatim>\<open>int\<close>.\<close>

definition wrapInt :: "kernel \<Rightarrow> int \<Rightarrow> int" where
  "wrapInt k x = (x + 2 ^ (intSize k - 1)) mod 2 ^ intSize k - 2 ^ (intSize k - 1)"

section \<open>The free list\<close>

definition seedSlots :: "nat \<Rightarrow> slotMeta list" where
  "seedSlots n = (map (\<lambda>i. \<lparr>sgeneration = 0, snext = toInt32 (int i + 1)\<rparr>) [0..<n])[n - 1 := \<lparr>sgeneration = 0, snext = -1\<rparr>]"

definition setNext :: "nat \<Rightarrow> int \<Rightarrow> arenaState \<Rightarrow> arenaState" where
  "setNext i v a = a\<lparr>aslots := (aslots a)[i := (aslots a ! i)\<lparr>snext := v\<rparr>]\<rparr>"

definition setGeneration :: "nat \<Rightarrow> 64 word \<Rightarrow> arenaState \<Rightarrow> arenaState" where
  "setGeneration i g a = a\<lparr>aslots := (aslots a)[i := (aslots a ! i)\<lparr>sgeneration := g\<rparr>]\<rparr>"

definition generationOf :: "nat \<Rightarrow> arenaState \<Rightarrow> 64 word" where
  "generationOf i a = sgeneration (aslots a ! i)"

definition popFree :: "arenaState \<Rightarrow> (nat \<times> arenaState) option" where
  "popFree a = (let i = freeHead a in
     if i < 0 then None
     else let a1 = a\<lparr>freeHead := snext (aslots a ! nat i)\<rparr>;
              a2 = (if freeHead a1 < 0 then a1\<lparr>freeTail := -1\<rparr> else a1)
          in Some (nat i, setNext (nat i) (-1) a2))"

definition pushFree :: "nat \<Rightarrow> arenaState \<Rightarrow> arenaState" where
  "pushFree i a = (let a1 = setNext i (-1) (a\<lparr>alive := alive a - 1\<rparr>);
     a2 = (if 0 \<le> freeTail a1 then setNext (nat (freeTail a1)) (int i) a1 else a1\<lparr>freeHead := int i\<rparr>)
     in a2\<lparr>freeTail := int i\<rparr>)"

section \<open>The arena\<close>

text \<open>\<^verbatim>\<open>Acquire\<close> under \<^verbatim>\<open>alloc\<close>.\<close>

definition acquireSlot :: "arenaState \<Rightarrow> world \<Rightarrow> (err + ArenaSlot) \<times> arenaState" where
  "acquireSlot a w =
     (if adestroyed a then (Inl ErrDestroyed, a)
      else if cells w (awiped a) then (Inl ErrWiped, a)
      else case popFree a of
        None \<Rightarrow> (Inl ErrArenaFull, a)
      | Some (i, a1) \<Rightarrow> (let gen = generationOf i a1 + 1; a2 = setGeneration i gen a1
          in (Inr \<lparr>hidx = i, hgeneration = gen\<rparr>, a2\<lparr>alive := alive a2 + 1\<rparr>)))"

definition ArenaAcquire :: "SecureArena \<Rightarrow> world \<Rightarrow> (err + ArenaSlot) \<times> SecureArena" where
  "ArenaAcquire s w = (case s of
     LiveArena a \<Rightarrow> (case acquireSlot a w of (r, a1) \<Rightarrow> (r, LiveArena a1))
   | _ \<Rightarrow> (Inl ErrDestroyed, s))"

text \<open>The test \<^verbatim>\<open>region.inner == nil\<close>.\<close>

definition arenaDestroyed :: "arenaState \<Rightarrow> bool" where
  "arenaDestroyed a \<longleftrightarrow> innerLen (aregion a) = 0"

text \<open>\<^verbatim>\<open>Destroy\<close> before it has the exclusive lock, and from then on.\<close>

definition destroyMark :: "arenaState \<Rightarrow> arenaState" where
  "destroyMark a = a\<lparr>adestroyed := True\<rparr>"

definition destroySlab :: "kernel \<Rightarrow> arenaState \<Rightarrow> world \<Rightarrow> (error \<times> arenaState \<times> world) option" where
  "destroySlab k a w =
     (if arenaDestroyed a then Some (None, a, w)
      else do {
        (e, w1) \<leftarrow> release k (ajanitorKey a) True w;
        Some (e, a\<lparr>acleanup := False, aregion := noRegion, areleased := True\<rparr>, w1)
      })"

definition ArenaDestroy :: "kernel \<Rightarrow> SecureArena \<Rightarrow> world \<Rightarrow> (error \<times> SecureArena \<times> world) option" where
  "ArenaDestroy k s w = (case s of
     LiveArena a \<Rightarrow> do { (e, a1, w1) \<leftarrow> destroySlab k (destroyMark a) w; Some (e, LiveArena a1, w1) }
   | _ \<Rightarrow> Some (None, s, w))"

definition ArenaIsDestroyed :: "SecureArena \<Rightarrow> bool" where
  "ArenaIsDestroyed s = (case s of LiveArena a \<Rightarrow> areleased a | _ \<Rightarrow> True)"

definition LiveCount :: "SecureArena \<Rightarrow> int" where
  "LiveCount s = (case s of LiveArena a \<Rightarrow> alive a | _ \<Rightarrow> 0)"

definition ArenaCap :: "SecureArena \<Rightarrow> int" where
  "ArenaCap s = (case s of LiveArena a \<Rightarrow> acount a | _ \<Rightarrow> 0)"

definition SlotSize :: "SecureArena \<Rightarrow> int" where
  "SlotSize s = (case s of LiveArena a \<Rightarrow> aslotSize a | _ \<Rightarrow> 0)"

definition readOnlySlab :: "kernel \<Rightarrow> arenaState \<Rightarrow> world \<Rightarrow> error \<times> arenaState \<times> world" where
  "readOnlySlab k a w =
     (if arenaDestroyed a then (Some ErrDestroyed, a, w)
      else if cells w (awiped a) then (Some ErrWiped, a, w)
      else case mprotectSecretMem k (aregion a) PROT_READ (mem w) of
        (Some e, m1) \<Rightarrow> (Some e, a, w\<lparr>mem := m1\<rparr>)
      | (None, m1) \<Rightarrow> (None, a\<lparr>rdOnly := True\<rparr>, w\<lparr>mem := m1\<rparr>))"

definition ArenaReadOnly :: "kernel \<Rightarrow> SecureArena \<Rightarrow> world \<Rightarrow> error \<times> SecureArena \<times> world" where
  "ArenaReadOnly k s w = (case s of
     NilArena \<Rightarrow> (Some (ErrMsg ''nil receiver''), s, w)
   | ZeroArena \<Rightarrow> (Some ErrDestroyed, s, w)
   | LiveArena a \<Rightarrow> (case readOnlySlab k a w of (e, a1, w1) \<Rightarrow> (e, LiveArena a1, w1)))"

definition readWriteSlab :: "kernel \<Rightarrow> arenaState \<Rightarrow> world \<Rightarrow> error \<times> arenaState \<times> world" where
  "readWriteSlab k a w =
     (if arenaDestroyed a then (Some ErrDestroyed, a, w)
      else if cells w (awiped a) then (Some ErrWiped, a, w)
      else case mprotectSecretMem k (aregion a) PROT_RW (mem w) of
        (Some e, m1) \<Rightarrow> (Some e, a, w\<lparr>mem := m1\<rparr>)
      | (None, m1) \<Rightarrow> (None, a\<lparr>rdOnly := False\<rparr>, w\<lparr>mem := m1\<rparr>))"

definition ArenaReadWrite :: "kernel \<Rightarrow> SecureArena \<Rightarrow> world \<Rightarrow> error \<times> SecureArena \<times> world" where
  "ArenaReadWrite k s w = (case s of
     NilArena \<Rightarrow> (Some (ErrMsg ''nil receiver''), s, w)
   | ZeroArena \<Rightarrow> (Some ErrDestroyed, s, w)
   | LiveArena a \<Rightarrow> (case readWriteSlab k a w of (e, a1, w1) \<Rightarrow> (e, LiveArena a1, w1)))"

section \<open>The slots\<close>

definition slotStart :: "ArenaSlot \<Rightarrow> arenaState \<Rightarrow> nat" where
  "slotStart s a = hidx s * nat (astride a)"

definition slotEnd :: "ArenaSlot \<Rightarrow> arenaState \<Rightarrow> nat" where
  "slotEnd s a = slotStart s a + nat (aslotSize a)"

definition IsLive :: "ArenaSlot option \<Rightarrow> arenaState \<Rightarrow> bool" where
  "IsLive s a = (case s of None \<Rightarrow> False | Some h \<Rightarrow> generationOf (hidx h) a = hgeneration h)"

definition SlotIndex :: "ArenaSlot option \<Rightarrow> int" where
  "SlotIndex s = (case s of None \<Rightarrow> -1 | Some h \<Rightarrow> int (hidx h))"

definition SlotWithBytesErr ::
    "(bytes \<Rightarrow> error \<times> bytes) option \<Rightarrow> ArenaSlot option \<Rightarrow> arenaState \<Rightarrow> world \<Rightarrow> (error \<times> world) option" where
  "SlotWithBytesErr fn s a w = (case fn of None \<Rightarrow> Some (Some (ErrMsg ''nil fn''), w)
   | Some f \<Rightarrow> (case s of None \<Rightarrow> Some (Some ErrSlotReleased, w)
     | Some h \<Rightarrow>
        if adestroyed a then Some (Some ErrDestroyed, w)
        else if arenaDestroyed a then Some (Some ErrDestroyed, w)
        else if cells w (awiped a) then Some (Some ErrWiped, w)
        else if generationOf (hidx h) a \<noteq> hgeneration h then Some (Some ErrSlotReleased, w)
        else do {
          c \<leftarrow> readMem (aregion a) (mem w);
          (let b = subslice (slotStart h a) (slotEnd h a) c; c' = patch (slotStart h a) (goCopy 0 (snd (f b)) b) c
           in if c' = c then Some (fst (f b), w)
              else do { m \<leftarrow> writeMem (aregion a) c' (mem w); Some (fst (f b), w\<lparr>mem := m\<rparr>) })
        }))"

definition SlotWithBytes :: "(bytes \<Rightarrow> bytes) option \<Rightarrow> ArenaSlot option \<Rightarrow> arenaState \<Rightarrow> world \<Rightarrow> (error \<times> world) option" where
  "SlotWithBytes fn s a w = (case fn of None \<Rightarrow> Some (Some (ErrMsg ''nil fn''), w)
   | Some f \<Rightarrow> SlotWithBytesErr (Some (\<lambda>b. (None, f b))) s a w)"

text \<open>
  The section of \<^verbatim>\<open>Release\<close> under the read lock: it returns, or it has claimed the slot, with
  whether the strip was found changed.
\<close>

datatype claimed = Returned error | Claimed bool

text \<open>The check of the strip, its re-arming and the wipe of the slot.\<close>

definition wipeSlot :: "kernel \<Rightarrow> ArenaSlot \<Rightarrow> arenaState \<Rightarrow> world \<Rightarrow> (bool \<times> world) option" where
  "wipeSlot k s a w = (let st = slotStart s a; en = slotEnd s a; hi = st + nat (astride a) in do {
     (violated, w1) \<leftarrow> (if cells w (awiped a) then Some (False, w)
       else do {
         c \<leftarrow> readMem (aregion a) (mem w);
         (case canaryIntact (rand k (calls (mem w)) canaryLen) (subslice en hi c) (cpkg w) of
           (True, p1) \<Rightarrow> Some (False, w\<lparr>cpkg := p1\<rparr>)
         | (False, p1) \<Rightarrow> (case fillCanary (rand k (calls (mem w)) canaryLen) (subslice en hi c) p1 of
             (Some _, _, p2) \<Rightarrow> Some (True, w\<lparr>cpkg := p2\<rparr>)
           | (None, z, p2) \<Rightarrow> do { m \<leftarrow> writeMem (aregion a) (patch en z c) (mem w); Some (True, w\<lparr>cpkg := p2, mem := m\<rparr>) }))
       });
     m2 \<leftarrow> secureWipeSlice (aregion a) st en (mem w1);
     Some (violated, w1\<lparr>mem := m2\<rparr>)
   })"

definition releaseClaim :: "kernel \<Rightarrow> ArenaSlot \<Rightarrow> arenaState \<Rightarrow> world \<Rightarrow> (claimed \<times> arenaState \<times> world) option" where
  "releaseClaim k s a w = (let live = \<not> arenaDestroyed a in
     if live \<and> rdOnly a \<and> \<not> cells w (awiped a) then Some (Returned (Some ErrReadOnly), a, w)
     else if generationOf (hidx s) a \<noteq> hgeneration s then Some (Returned None, a, w)
     else let a1 = setGeneration (hidx s) (hgeneration s + 1) a in
       if live then do { (v, w1) \<leftarrow> wipeSlot k s a1 w; Some (Claimed v, a1, w1) }
       else Some (Claimed False, a1, w))"

definition ArenaRelease :: "kernel \<Rightarrow> ArenaSlot option \<Rightarrow> arenaState \<Rightarrow> world \<Rightarrow> (error \<times> arenaState \<times> world) option" where
  "ArenaRelease k s a w = (case s of None \<Rightarrow> Some (None, a, w)
   | Some h \<Rightarrow>
       if generationOf (hidx h) a \<noteq> hgeneration h then Some (None, a, w)
       else do {
         (c, a1, w1) \<leftarrow> releaseClaim k h a w;
         (case c of Returned e \<Rightarrow> Some (e, a1, w1)
          | Claimed violated \<Rightarrow> Some (if violated then Some ErrCanaryViolation else None, pushFree (hidx h) a1, w1))
       })"

section \<open>The constructor\<close>

text \<open>Arming the strips and the page-rounding tail; on a failure the region is given back.\<close>

definition armSlab :: "kernel \<Rightarrow> secRegion \<Rightarrow> canaryLayout \<Rightarrow> world \<Rightarrow> (error \<times> world) option" where
  "armSlab k r canary w = do {
     b \<leftarrow> readMem r (mem w);
     (case arm (rand k (calls (mem w)) canaryLen) canary b (cpkg w) of
       (Some e, _, p) \<Rightarrow> Some (Some e, w\<lparr>cpkg := p, mem := snd (freeSecretMem k r (mem w))\<rparr>)
     | (None, b', p) \<Rightarrow> do { m \<leftarrow> writeMem r b' (mem w); Some (None, w\<lparr>cpkg := p, mem := m\<rparr>) })
   }"

text \<open>The state over an armed slab, and its registration.\<close>

definition newArenaState :: "kernel \<Rightarrow> secRegion \<Rightarrow> allocInfo \<Rightarrow> canaryLayout \<Rightarrow> int \<Rightarrow> int \<Rightarrow> int \<Rightarrow> world \<Rightarrow> ((err + arenaState) \<times> world) option" where
  "newArenaState k r info canary sz strd cnt w =
     (let (mu, w1) = newLock w; (wp, w2) = newCell w1;
          a = \<lparr>amu = mu, aregion = r, rdOnly = False, aslots = seedSlots (nat cnt), freeHead = 0,
               freeTail = toInt32 (cnt - 1), alive = 0, aslotSize = sz, astride = strd, acount = cnt, abacking = info,
               adestroyed = False, areleased = False, awiped = wp, acleanup = False, ajanitorKey = 0\<rparr>
      in case register r canary mu None (Some wp) w2 of
        (Inl e, w3) \<Rightarrow> do { w4 \<leftarrow> discardRegion k r w3; Some (Inl e, w4) }
      | (Inr key, w3) \<Rightarrow> Some (Inr (a\<lparr>ajanitorKey := key, acleanup := True\<rparr>), w3))"

definition NewArena :: "kernel \<Rightarrow> int \<Rightarrow> int \<Rightarrow> copt option list \<Rightarrow> world \<Rightarrow> ((err + arenaState) \<times> world) option" where
  "NewArena k sz cnt opts w = (let cfg = applyOptions opts in
     if cClosedAtRest cfg then Some (Inl (ErrMsg ''WithClosedAtRest applies to SecureBuffer only''), w)
     else if sz \<le> 0 then Some (Inl (ErrMsg ''slotSize must be > 0''), w)
     else if cnt \<le> 0 then Some (Inl (ErrMsg ''count must be > 0''), w)
     else if maxInt32 < cnt then Some (Inl (ErrMsg ''count too large''), w)
     else let strd = wrapInt k (sz + int canaryLen) in
     if maxInt k div cnt - int canaryLen < sz then Some (Inl (ErrMsg ''overflows int''), w)
     else case gateInsecure (platformHasSecureMemory k) cfg of
       Some e \<Rightarrow> Some (Inl e, w)
     | None \<Rightarrow> (case cfg_alloc cfg k (wrapInt k (strd * cnt)) (mem w) of
         (Inl e, m1) \<Rightarrow> Some (Inl e, w\<lparr>mem := m1\<rparr>)
       | (Inr (r, _, info), m1) \<Rightarrow> (let canary = arenaCanary strd sz cnt (int (innerLen r)) in do {
           (ae, w1) \<leftarrow> armSlab k r canary (w\<lparr>mem := m1\<rparr>);
           (case ae of
             Some e \<Rightarrow> Some (Inl e, w1)
           | None \<Rightarrow> newArenaState k r info canary sz strd cnt w1)
         })))"

end
