(* ===== verification/Arena_Pool.thy ===== *)
theory Arena_Pool
  imports Secure_Arena
begin

text \<open>
  The free list of a \<^verbatim>\<open>SecureArena\<close>: the links in the slots' metadata, from
  \<^verbatim>\<open>freeHead\<close> to \<^verbatim>\<open>freeTail\<close>, hold a first-in, first-out queue of slot
  indices without a cycle.
\<close>

section \<open>A first-in, first-out pool\<close>

text \<open>The contract of a pool of indices and what its client can rely on.\<close>

locale fifo_pool =
  fixes pop :: "'s \<Rightarrow> (nat \<times> 's) option" and push :: "nat \<Rightarrow> 's \<Rightarrow> 's"
    and content :: "'s \<Rightarrow> nat list" and good :: "'s \<Rightarrow> bool" and room :: "'s \<Rightarrow> nat"
  assumes pop_empty: "good s \<Longrightarrow> content s = [] \<Longrightarrow> pop s = None"
    and pop_head: "good s \<Longrightarrow> content s = i # is \<Longrightarrow> \<exists>s'. pop s = Some (i, s') \<and> content s' = is \<and> good s' \<and> room s' = room s"
    and push_last: "good s \<Longrightarrow> i < room s \<Longrightarrow> i \<notin> set (content s) \<Longrightarrow>
      content (push i s) = content s @ [i] \<and> good (push i s) \<and> room (push i s) = room s"
begin

primrec pops :: "nat \<Rightarrow> 's \<Rightarrow> nat list \<times> 's" where
  "pops 0 s = ([], s)"
| "pops (Suc n) s = (case pop s of None \<Rightarrow> ([], s) | Some (i, s1) \<Rightarrow> (case pops n s1 of (is, s2) \<Rightarrow> (i # is, s2)))"

lemma pops_take:
  "good s \<Longrightarrow> fst (pops n s) = take n (content s) \<and> content (snd (pops n s)) = drop n (content s) \<and> good (snd (pops n s))"
proof (induction n arbitrary: s)
  case (Suc n)
  show ?case
  proof (cases "content s")
    case Nil
    then show ?thesis using pop_empty [OF Suc.prems] Suc.prems by simp
  next
    case (Cons i "is")
    then obtain s' where "pop s = Some (i, s')" "content s' = is" "good s'" using pop_head [OF Suc.prems] by blast
    then show ?thesis using Suc.IH [of s'] Cons by (auto split: prod.split)
  qed
qed simp

lemma pop_None_iff: "good s \<Longrightarrow> pop s = None \<longleftrightarrow> content s = []"
  using pop_empty pop_head by (cases "content s") fastforce+

text \<open>What was pushed last comes out last.\<close>

lemma pushed_is_last:
  assumes "good s" "i < room s" "i \<notin> set (content s)"
  shows "fst (pops n (push i s)) = take n (content s @ [i])"
  using pops_take [of "push i s" n] push_last [OF assms] by simp

end

section \<open>The links\<close>

fun segment :: "slotMeta list \<Rightarrow> int \<Rightarrow> nat list \<Rightarrow> bool" where
  "segment sl h [] \<longleftrightarrow> h = -1"
| "segment sl h (i # is) \<longleftrightarrow> h = int i \<and> i < length sl \<and> segment sl (snext (sl ! i)) is"

definition linked :: "arenaState \<Rightarrow> nat list \<Rightarrow> bool" where
  "linked a fl \<longleftrightarrow> segment (aslots a) (freeHead a) fl \<and> distinct fl \<and> freeTail a = (if fl = [] then -1 else int (last fl))"

text \<open>The free list as the loop that follows the links reads it.\<close>

fun walkFree :: "nat \<Rightarrow> slotMeta list \<Rightarrow> int \<Rightarrow> nat list" where
  "walkFree 0 sl h = []"
| "walkFree (Suc n) sl h = (if h < 0 then [] else nat h # walkFree n sl (snext (sl ! nat h)))"

definition freeList :: "arenaState \<Rightarrow> nat list" where
  "freeList a = walkFree (length (aslots a)) (aslots a) (freeHead a)"

lemma segment_bounded: "segment sl h fl \<Longrightarrow> set fl \<subseteq> {..<length sl}"
  by (induction sl h fl rule: segment.induct) auto

lemma walkFree_segment: "segment sl h fl \<Longrightarrow> length fl \<le> n \<Longrightarrow> walkFree n sl h = fl"
proof (induction sl h fl arbitrary: n rule: segment.induct)
  case (1 sl h)
  then show ?case by (cases n) auto
next
  case (2 sl h i "is")
  then show ?case by (cases n) auto
qed

lemma distinct_bounded: "distinct fl \<Longrightarrow> set fl \<subseteq> {..<n} \<Longrightarrow> length fl \<le> n"
  using card_mono [of "{..<n}" "set fl"] distinct_card [of fl] by simp

lemma linked_freeList: "linked a fl \<Longrightarrow> freeList a = fl"
  unfolding linked_def freeList_def
  using walkFree_segment segment_bounded distinct_bounded by blast

lemma segment_upd [simp]: "i \<notin> set fl \<Longrightarrow> segment (sl[i := x]) h fl = segment sl h fl"
  by (induction sl h fl rule: segment.induct) auto

lemma segment_snoc:
  "segment sl h (fl @ [t]) \<Longrightarrow> t \<notin> set fl \<Longrightarrow> distinct fl \<Longrightarrow> i < length sl \<Longrightarrow> i \<notin> set (fl @ [t]) \<Longrightarrow> snext (sl ! i) = -1 \<Longrightarrow>
    segment (sl[t := (sl ! t)\<lparr>snext := int i\<rparr>]) h (fl @ [t, i])"
  by (induction fl arbitrary: h) (auto simp: nth_list_update)

lemma segment_hd: "segment sl h fl \<Longrightarrow> 0 \<le> h \<longleftrightarrow> fl \<noteq> []"
  by (cases fl) auto

definition sameSlots :: "arenaState \<Rightarrow> arenaState \<Rightarrow> bool" where
  "sameSlots a a' \<longleftrightarrow> length (aslots a') = length (aslots a) \<and> freeHead a' = freeHead a \<and> freeTail a' = freeTail a \<and>
     map snext (aslots a') = map snext (aslots a)"

lemma linked_same: "sameSlots a a' \<Longrightarrow> linked a' fl = linked a fl"
proof -
  assume s: "sameSlots a a'"
  have "snext (aslots a' ! i) = snext (aslots a ! i)" if "i < length (aslots a)" for i
    using s that by (metis nth_map sameSlots_def)
  then have "segment (aslots a') h fl = segment (aslots a) h fl" for h fl
    using s by (induction fl arbitrary: h) (auto simp: sameSlots_def)
  then show ?thesis using s by (simp add: linked_def sameSlots_def)
qed

lemma sameSlots_setGeneration [simp]: "sameSlots a (setGeneration i g a)"
proof -
  have "map snext ((aslots a)[i := (aslots a ! i)\<lparr>sgeneration := g\<rparr>]) = map snext (aslots a)"
    by (rule nth_equalityI, simp, cases "i < length (aslots a)") (auto simp: nth_list_update list_update_beyond)
  then show ?thesis by (simp add: sameSlots_def setGeneration_def)
qed

lemma sgeneration_upd [simp]: "sgeneration x = sgeneration (sl ! i) \<Longrightarrow> sgeneration (sl[i := x] ! j) = sgeneration (sl ! j)"
  by (cases "i < length sl") (auto simp: nth_list_update list_update_beyond)

section \<open>Pop and push\<close>

lemma popFree_empty: "linked a [] \<Longrightarrow> popFree a = None"
  by (simp add: popFree_def linked_def)

lemma popFree_Cons:
  assumes "linked a (i # fl)"
  obtains a' where "popFree a = Some (i, a')" "linked a' fl" "length (aslots a') = length (aslots a)"
    "\<And>j. generationOf j a' = generationOf j a" "a' = a\<lparr>freeHead := freeHead a', freeTail := freeTail a', aslots := aslots a'\<rparr>"
proof -
  have i: "freeHead a = int i" "i < length (aslots a)" "segment (aslots a) (snext (aslots a ! i)) fl" "i \<notin> set fl" "distinct fl"
    "freeTail a = int (last (i # fl))" using assms by (auto simp: linked_def)
  let ?sl = "(aslots a)[i := (aslots a ! i)\<lparr>snext := -1\<rparr>]"
  let ?h = "snext (aslots a ! i)"
  let ?a = "a\<lparr>freeHead := ?h, freeTail := if ?h < 0 then -1 else freeTail a, aslots := ?sl\<rparr>"
  have "popFree a = Some (i, ?a)" using i by (auto simp: popFree_def setNext_def Let_def)
  moreover have "segment ?sl ?h fl" using i by simp
  then have "linked ?a fl" using i segment_hd [OF i(3)] by (auto simp: linked_def)
  moreover have "generationOf j ?a = generationOf j a" for j
    by (simp add: generationOf_def)
  ultimately show thesis using that [of ?a] by simp
qed

lemma pushFree_linked:
  assumes l: "linked a fl" and i: "i < length (aslots a)" "i \<notin> set fl"
  shows "linked (pushFree i a) (fl @ [i])" "length (aslots (pushFree i a)) = length (aslots a)"
    "generationOf j (pushFree i a) = generationOf j a" "alive (pushFree i a) = alive a - 1"
    "pushFree i a = a\<lparr>freeHead := freeHead (pushFree i a), freeTail := int i, aslots := aslots (pushFree i a), alive := alive a - 1\<rparr>"
proof -
  let ?sl = "(aslots a)[i := (aslots a ! i)\<lparr>snext := -1\<rparr>]"
  have s: "segment ?sl (freeHead a) fl" using l i by (simp add: linked_def)
  have n: "snext (?sl ! i) = -1" using i by simp
  have "linked (pushFree i a) (fl @ [i]) \<and> length (aslots (pushFree i a)) = length (aslots a) \<and>
    generationOf j (pushFree i a) = generationOf j a \<and> alive (pushFree i a) = alive a - 1 \<and>
    pushFree i a = a\<lparr>freeHead := freeHead (pushFree i a), freeTail := int i, aslots := aslots (pushFree i a), alive := alive a - 1\<rparr>"
  proof (cases fl rule: rev_cases)
    case Nil
    then have "pushFree i a = a\<lparr>alive := alive a - 1, aslots := ?sl, freeHead := int i, freeTail := int i\<rparr>"
      using l by (simp add: pushFree_def setNext_def linked_def Let_def)
    then show ?thesis using Nil n i by (cases "j = i") (auto simp: linked_def generationOf_def)
  next
    case (snoc fs t)
    let ?sl2 = "?sl[t := (?sl ! t)\<lparr>snext := int i\<rparr>]"
    have t: "t \<notin> set fs" "distinct fs" "i \<noteq> t" "freeTail a = int t" using l snoc i by (auto simp: linked_def)
    have tb: "t < length (aslots a)" using l snoc segment_bounded [of "aslots a" "freeHead a" fl] by (auto simp: linked_def)
    have "pushFree i a = a\<lparr>alive := alive a - 1, aslots := ?sl2, freeTail := int i\<rparr>"
      using t by (simp add: pushFree_def setNext_def Let_def)
    moreover have "segment ?sl2 (freeHead a) (fl @ [i])"
      using segment_snoc [of ?sl "freeHead a" fs t i] s snoc t i n by simp
    moreover have "sgeneration (?sl2 ! j) = sgeneration (aslots a ! j)"
      using t(3) by simp
    ultimately show ?thesis using snoc i l by (auto simp: linked_def generationOf_def)
  qed
  then show "linked (pushFree i a) (fl @ [i])" "length (aslots (pushFree i a)) = length (aslots a)"
    "generationOf j (pushFree i a) = generationOf j a" "alive (pushFree i a) = alive a - 1"
    "pushFree i a = a\<lparr>freeHead := freeHead (pushFree i a), freeTail := int i, aslots := aslots (pushFree i a), alive := alive a - 1\<rparr>"
    by blast+
qed

text \<open>The free list implements the pool.\<close>

definition pool_ok :: "arenaState \<Rightarrow> bool" where
  "pool_ok a \<longleftrightarrow> linked a (freeList a)"

lemma pool_okI: "linked a fl \<Longrightarrow> pool_ok a \<and> freeList a = fl"
  by (simp add: pool_ok_def linked_freeList)

interpretation links: fifo_pool popFree pushFree freeList pool_ok "\<lambda>a. length (aslots a)"
proof
  fix a assume "pool_ok a" "freeList a = []"
  then show "popFree a = None" using popFree_empty by (simp add: pool_ok_def)
next
  fix a i "is" assume "pool_ok a" "freeList a = i # is"
  then have "linked a (i # is)" by (simp add: pool_ok_def)
  then show "\<exists>a'. popFree a = Some (i, a') \<and> freeList a' = is \<and> pool_ok a' \<and> length (aslots a') = length (aslots a)"
  proof (rule popFree_Cons)
    fix a' assume "popFree a = Some (i, a')" "linked a' is" "length (aslots a') = length (aslots a)"
    then show ?thesis using pool_okI [of a' "is"] by blast
  qed
next
  fix a i assume "pool_ok a" "i < length (aslots a)" "i \<notin> set (freeList a)"
  then show "freeList (pushFree i a) = freeList a @ [i] \<and> pool_ok (pushFree i a) \<and> length (aslots (pushFree i a)) = length (aslots a)"
    using pushFree_linked(1,2) [of a "freeList a" i] pool_okI [of "pushFree i a" "freeList a @ [i]"] by (simp add: pool_ok_def)
qed

text \<open>So does \<^verbatim>\<open>Acquire\<close>, on an arena that is neither destroyed nor wiped.\<close>

definition acquireIdx :: "world \<Rightarrow> arenaState \<Rightarrow> (nat \<times> arenaState) option" where
  "acquireIdx w a = (case acquireSlot a w of (Inr h, a1) \<Rightarrow> Some (hidx h, a1) | _ \<Rightarrow> None)"

definition in_service :: "world \<Rightarrow> arenaState \<Rightarrow> bool" where
  "in_service w a \<longleftrightarrow> \<not> adestroyed a \<and> \<not> cells w (awiped a)"

lemma acquireSlot_Cons:
  assumes l: "linked a (i # fl)" and s: "in_service w a"
  obtains a' where "acquireSlot a w = (Inr \<lparr>hidx = i, hgeneration = generationOf i a + 1\<rparr>, a')" "linked a' fl"
    "length (aslots a') = length (aslots a)" "alive a' = alive a + 1"
    "\<And>j. generationOf j a' = (if j = i then generationOf i a + 1 else generationOf j a)"
    "a' = a\<lparr>freeHead := freeHead a', freeTail := freeTail a', aslots := aslots a', alive := alive a'\<rparr>"
proof -
  from l obtain a1 where p: "popFree a = Some (i, a1)" "linked a1 fl" "length (aslots a1) = length (aslots a)"
    "\<And>j. generationOf j a1 = generationOf j a" "a1 = a\<lparr>freeHead := freeHead a1, freeTail := freeTail a1, aslots := aslots a1\<rparr>"
    by (rule popFree_Cons) blast
  let ?a2 = "setGeneration i (generationOf i a + 1) a1"
  let ?a = "?a2\<lparr>alive := alive ?a2 + 1\<rparr>"
  have i: "i < length (aslots a1)" using l p(3) by (auto simp: linked_def)
  have "acquireSlot a w = (Inr \<lparr>hidx = i, hgeneration = generationOf i a + 1\<rparr>, ?a)"
    using s p(1,4) by (simp add: acquireSlot_def in_service_def Let_def)
  moreover have "linked ?a fl" using linked_same [OF sameSlots_setGeneration [of a1 i]] linked_same [of ?a2 ?a fl] p(2) by (simp add: sameSlots_def)
  moreover have al: "alive a1 = alive a" by (subst p(5)) simp
  moreover have "generationOf j ?a = (if j = i then generationOf i a + 1 else generationOf j a)" for j
    using p(4) [of j] i by (auto simp: generationOf_def setGeneration_def nth_list_update)
  moreover have "?a = a\<lparr>freeHead := freeHead ?a, freeTail := freeTail ?a, aslots := aslots ?a, alive := alive ?a\<rparr>"
    by (subst p(5), simp add: setGeneration_def, subst p(5), simp)
  ultimately show thesis using that [of ?a] p(3) by (simp add: setGeneration_def)
qed

lemma pushFree_service [simp]: "in_service w (pushFree i a) = in_service w a"
  by (simp add: in_service_def pushFree_def setNext_def Let_def)

interpretation acq: fifo_pool "acquireIdx w" pushFree freeList "\<lambda>a. pool_ok a \<and> in_service w a" "\<lambda>a. length (aslots a)"
  for w
proof
  fix a assume a: "pool_ok a \<and> in_service w a" "freeList a = []"
  then show "acquireIdx w a = None"
    using links.pop_empty [of a] by (simp add: acquireIdx_def acquireSlot_def in_service_def)
next
  fix a i "is" assume a: "pool_ok a \<and> in_service w a" "freeList a = i # is"
  then have "linked a (i # is)" "in_service w a" by (auto simp: pool_ok_def)
  then show "\<exists>a'. acquireIdx w a = Some (i, a') \<and> freeList a' = is \<and> (pool_ok a' \<and> in_service w a') \<and> length (aslots a') = length (aslots a)"
  proof (rule acquireSlot_Cons)
    fix a' assume b: "acquireSlot a w = (Inr \<lparr>hidx = i, hgeneration = generationOf i a + 1\<rparr>, a')" "linked a' is"
      "length (aslots a') = length (aslots a)" "a' = a\<lparr>freeHead := freeHead a', freeTail := freeTail a', aslots := aslots a', alive := alive a'\<rparr>"
    have "in_service w a'" using a(1) by (subst b(4)) (simp add: in_service_def)
    then show ?thesis using b pool_okI [OF b(2)] by (simp add: acquireIdx_def)
  qed
next
  fix a i assume "pool_ok a \<and> in_service w a" "i < length (aslots a)" "i \<notin> set (freeList a)"
  then show "freeList (pushFree i a) = freeList a @ [i] \<and> (pool_ok (pushFree i a) \<and> in_service w (pushFree i a)) \<and>
      length (aslots (pushFree i a)) = length (aslots a)"
    using links.push_last [of a i] by simp
qed

section \<open>The seed\<close>

lemma length_seedSlots [simp]: "length (seedSlots n) = n"
  by (simp add: seedSlots_def)

lemma seed_segment: "i \<le> n \<Longrightarrow> 0 < n \<Longrightarrow> int n \<le> maxInt32 \<Longrightarrow>
    segment (seedSlots n) (if i < n then int i else -1) [i..<n]"
proof (induction "n - i" arbitrary: i)
  case 0
  then show ?case by simp
next
  case (Suc d)
  then have i: "i < n" by simp
  have "snext (seedSlots n ! i) = (if Suc i < n then int (Suc i) else -1)"
    using i Suc.prems by (auto simp: seedSlots_def nth_list_update toInt32_def maxInt32_def)
  then show ?case using Suc.hyps(1) [of "Suc i"] Suc i by (simp add: upt_conv_Cons)
qed

lemma seed_linked:
  assumes "0 < n" "int n \<le> maxInt32" "aslots a = seedSlots n" "freeHead a = 0" "freeTail a = toInt32 (int n - 1)"
  shows "linked a [0..<n]" "generationOf i a = 0 \<or> n \<le> i"
proof -
  show "linked a [0..<n]" using seed_segment [of 0 n] assms by (simp add: linked_def toInt32_def maxInt32_def)
  show "generationOf i a = 0 \<or> n \<le> i" using assms(1,3) by (auto simp: generationOf_def seedSlots_def nth_list_update)
qed

end
