(* ===== verification/Arena_Inv.thy ===== *)
theory Arena_Inv
  imports Arena_Pool
begin

text \<open>
  The slab behind a \<^verbatim>\<open>SecureArena\<close>: where the slots lie, what a borrow and the wipe of a
  slot change, and what the emergency wipe does to the registration of an arena.
\<close>

section \<open>Geometry\<close>

lemma patch_subslice: "lo \<le> hi \<Longrightarrow> hi \<le> length b \<Longrightarrow> patch lo (subslice lo hi b) b = b"
  by (rule nth_equalityI) (auto simp: nth_patch nth_subslice)

definition slotAt :: "arenaState \<Rightarrow> nat \<Rightarrow> bytes \<Rightarrow> bytes" where
  "slotAt a i b = subslice (i * nat (astride a)) (i * nat (astride a) + nat (aslotSize a)) b"

definition stripAt :: "arenaState \<Rightarrow> nat \<Rightarrow> bytes \<Rightarrow> bytes" where
  "stripAt a i b = subslice (i * nat (astride a) + nat (aslotSize a)) (i * nat (astride a) + nat (astride a)) b"

definition shape :: "arenaState \<Rightarrow> bool" where
  "shape a \<longleftrightarrow> 0 < aslotSize a \<and> astride a = aslotSize a + int canaryLen \<and> 0 < acount a \<and> acount a = int (length (aslots a)) \<and>
     (\<not> arenaDestroyed a \<longrightarrow> acount a * astride a \<le> int (innerLen (aregion a)))"

lemma nat_stride: "shape a \<Longrightarrow> nat (astride a) = nat (aslotSize a) + canaryLen"
  by (simp add: shape_def nat_add_distrib)

text \<open>Slot \<open>i\<close> and its strip end inside the slab, and at or before every later slot.\<close>

lemma slot_inside:
  assumes "shape a" "\<not> arenaDestroyed a" "i < length (aslots a)"
  shows "i * nat (astride a) + nat (astride a) \<le> innerLen (aregion a)"
proof -
  have "int ((i + 1) * nat (astride a)) \<le> int (length (aslots a) * nat (astride a))"
    using assms(3) by (simp only: of_nat_le_iff) (intro mult_le_mono1, simp)
  also have "\<dots> = acount a * astride a" using assms(1) by (simp add: shape_def)
  also have "\<dots> \<le> int (innerLen (aregion a))" using assms unfolding shape_def by blast
  finally have "(i + 1) * nat (astride a) \<le> innerLen (aregion a)" by (simp only: of_nat_le_iff)
  then show ?thesis by simp
qed

lemma slot_apart:
  assumes "(i :: nat) < j"
  shows "i * n + n \<le> j * n"
proof -
  have "(i + 1) * n \<le> j * n" using assms by (intro mult_le_mono1) simp
  then show ?thesis by simp
qed

lemma slotAt_patch_other:
  assumes s: "shape a" and l: "i * nat (astride a) + length new \<le> i * nat (astride a) + nat (astride a)"
    and b: "i * nat (astride a) + nat (astride a) \<le> length b" "j * nat (astride a) + nat (astride a) \<le> length b"
    and o: "off + length new \<le> nat (astride a)" and n: "j \<noteq> i"
  shows "slotAt a j (patch (i * nat (astride a) + off) new b) = slotAt a j b"
proof (cases "i < j")
  case True
  then show ?thesis unfolding slotAt_def
    using slot_apart [OF True, of "nat (astride a)"] nat_stride [OF s] b o by (intro subslice_patch_after) auto
next
  case False
  then have "j < i" using n by simp
  then show ?thesis unfolding slotAt_def
    using slot_apart [OF \<open>j < i\<close>, of "nat (astride a)"] nat_stride [OF s] b o by (intro subslice_patch_before) auto
qed

section \<open>The slab\<close>

definition arena_can :: "arenaState \<Rightarrow> canaryLayout" where
  "arena_can a = arenaCanary (astride a) (aslotSize a) (acount a) (int (innerLen (aregion a)))"

abbreviation arena_owned :: "world \<Rightarrow> arenaState \<Rightarrow> bool" where
  "arena_owned w a \<equiv> owned w (ajanitorKey a) (aregion a) (amu a) (arena_can a) None (awiped a)"

definition slab :: "world \<Rightarrow> arenaState \<Rightarrow> mapping" where
  "slab w a = the (maps (mem w) (base (aregion a)))"

text \<open>The registration of an arena that still has its slab, with the slab mapped as \<open>mp\<close>.\<close>

definition backed :: "kernel \<Rightarrow> world \<Rightarrow> arenaState \<Rightarrow> mapping \<Rightarrow> bool" where
  "backed k w a mp \<longleftrightarrow> kernel_ok k \<and> jan_inv k w \<and> ring_ok k w \<and> arena_owned w a \<and> ajanitorKey a \<notin> ring_keys w \<and>
     region_at (aregion a) (mem w) mp"

lemma backedD:
  assumes "backed k w a mp"
  shows "kernel_ok k" "jan_inv k w" "ring_ok k w" "arena_owned w a" "ajanitorKey a \<notin> ring_keys w"
    "region_at (aregion a) (mem w) mp" "length (mbytes mp) = innerLen (aregion a)" "slab w a = mp"
    "\<not> arenaDestroyed a" "platform k = Stub \<Longrightarrow> mprot mp = PROT_RW"
proof -
  show *: "kernel_ok k" "jan_inv k w" "ring_ok k w" "arena_owned w a" "ajanitorKey a \<notin> ring_keys w"
    "region_at (aregion a) (mem w) mp" using assms by (auto simp: backed_def)
  show "length (mbytes mp) = innerLen (aregion a)" "slab w a = mp" using *(6) by (auto simp: region_at_def slab_def)
  show "\<not> arenaDestroyed a" using ownedD(3) [OF *(4,2)] by (simp add: arenaDestroyed_def)
  show "platform k = Stub \<Longrightarrow> mprot mp = PROT_RW" using ownedD(2) [OF *(4,2)] *(6) by (auto simp: region_at_def)
qed

lemma backed_cong:
  assumes "aregion a' = aregion a" "amu a' = amu a" "astride a' = astride a" "aslotSize a' = aslotSize a" "acount a' = acount a"
    "awiped a' = awiped a" "ajanitorKey a' = ajanitorKey a"
  shows "backed k w a' mp = backed k w a mp"
  by (simp add: backed_def arena_can_def assms)

text \<open>A change of the slab's mapping.\<close>

lemma backed_upd:
  assumes b: "backed k w a mp" and u: "mem_upd (base (aregion a)) f (mem w) m'"
    and l: "length (mbytes (f mp)) = length (mbytes mp)" and s: "platform k = Stub \<longrightarrow> mprot (f mp) = PROT_RW"
  shows "backed k (w\<lparr>mem := m'\<rparr>) a (f mp)" "world_step k (ajanitorKey a) w (w\<lparr>mem := m'\<rparr>)"
proof -
  note B = backedD [OF b]
  obtain e where e: "peekAny (ajanitorKey a) w = Some e" "jregion e = aregion a" using B(4) by (auto simp: owned_def)
  have j: "jan_inv k (w\<lparr>mem := m'\<rparr>)"
    by (rule jan_inv_own [OF B(2) e(1), of f m' mp]) (use u l s e(2) B(6,7) in \<open>auto simp: region_at_def\<close>)
  have "frame {ajanitorKey a} w (w\<lparr>mem := m'\<rparr>)" using frame_upd [OF B(2) e(1)] u e(2) by simp
  then show ws: "world_step k (ajanitorKey a) w (w\<lparr>mem := m'\<rparr>)" using j B(3,5) by (intro world_step_frame) auto
  show "backed k (w\<lparr>mem := m'\<rparr>) a (f mp)"
    using B mem_updD(1) [OF u] l world_stepD(1,2) [OF ws] by (simp add: backed_def region_at_def ring_keys_def split: if_splits)
qed

text \<open>The canary pattern has been drawn while an arena is registered and not wiped.\<close>

lemma backed_ready:
  assumes b: "backed k w a mp" and s: "shape a" and n: "\<not> cells w (awiped a)"
  shows "canary_ready (cpkg w)"
proof -
  note B = backedD [OF b]
  obtain e where e: "peekAny (ajanitorKey a) w = Some e" "jcanary e = arena_can a" using B(4) n by (auto simp: owned_def)
  have "(0 * astride a + aslotSize a, (0 + 1) * astride a) \<in> set (zones (arena_can a))"
    using s by (auto simp: arena_can_def shape_def zones_def strips_def arenaCanary_def Let_def canaryLen_def)
  then have "zones (jcanary e) \<noteq> []" using e(2) by auto
  then show ?thesis using jan_invD(3) [OF B(2) e(1)] by (simp add: entry_ok_def)
qed

section \<open>A borrow\<close>

lemma borrow_spec:
  assumes b: "backed k w a mp" and s: "shape a" "\<not> adestroyed a" "\<not> cells w (awiped a)" "hidx h < length (aslots a)" "generationOf (hidx h) a = hgeneration h"
    and p: "mprot mp \<noteq> PROT_NONE" and f: "mprot mp \<noteq> PROT_RW \<longrightarrow> goCopy 0 (snd (f (slotAt a (hidx h) (mbytes mp)))) (slotAt a (hidx h) (mbytes mp)) = slotAt a (hidx h) (mbytes mp)"
  obtains w' mp' where "SlotWithBytesErr (Some f) (Some h) a w = Some (fst (f (slotAt a (hidx h) (mbytes mp))), w')"
    "backed k w' a mp'" "world_step k (ajanitorKey a) w w'" "cells w' = cells w" "mprot mp' = mprot mp"
    "slotAt a (hidx h) (mbytes mp') = goCopy 0 (snd (f (slotAt a (hidx h) (mbytes mp)))) (slotAt a (hidx h) (mbytes mp))"
    "\<And>j. j < length (aslots a) \<Longrightarrow> j \<noteq> hidx h \<Longrightarrow> slotAt a j (mbytes mp') = slotAt a j (mbytes mp)"
    "\<And>j. j < length (aslots a) \<Longrightarrow> stripAt a j (mbytes mp') = stripAt a j (mbytes mp)"
proof -
  note B = backedD [OF b]
  let ?c = "mbytes mp" let ?i = "hidx h" let ?st = "?i * nat (astride a)"
  let ?b = "slotAt a ?i ?c" let ?n = "goCopy 0 (snd (f ?b)) ?b" let ?c' = "patch ?st ?n ?c"
  note ins = slot_inside [OF s(1) B(9)]
  have ln: "length ?b = nat (aslotSize a)" using ins [OF s(4)] B(7) nat_stride [OF s(1)] by (simp add: slotAt_def)
  have gl: "length ?n = nat (aslotSize a)" using ln by simp
  have e: "SlotWithBytesErr (Some f) (Some h) a w = (if ?c' = ?c then Some (fst (f ?b), w)
      else do { m \<leftarrow> writeMem (aregion a) ?c' (mem w); Some (fst (f ?b), w\<lparr>mem := m\<rparr>) })"
    using s B(9) readMem_Some [OF B(6) p] by (simp add: SlotWithBytesErr_def Let_def slotAt_def slotStart_def slotEnd_def)
  have lc: "length ?c' = length ?c" using ins [OF s(4)] B(7) nat_stride [OF s(1)] ln by simp
  have own: "slotAt a ?i ?c' = ?n"
    using subslice_patch_same [of ?st ?n ?c] ins [OF s(4)] B(7) nat_stride [OF s(1)] ln by (simp add: slotAt_def)
  have oth: "slotAt a j ?c' = slotAt a j ?c" if "j < length (aslots a)" "j \<noteq> ?i" for j
    using slotAt_patch_other [OF s(1), of ?i ?n ?c j 0] ins [OF s(4)] ins [OF that(1)] B(7) nat_stride [OF s(1)] ln that(2) by simp
  have str: "stripAt a j ?c' = stripAt a j ?c" if "j < length (aslots a)" for j
  proof (cases "?i \<le> j")
    case True
    have "?st \<le> j * nat (astride a)" using True by (rule mult_le_mono1)
    then show ?thesis unfolding stripAt_def
      using ins [OF that] ins [OF s(4)] B(7) nat_stride [OF s(1)] gl by (intro subslice_patch_after) linarith+
  next
    case False
    then have "j < ?i" by simp
    from slot_apart [OF this, of "nat (astride a)"] show ?thesis unfolding stripAt_def
      using ins [OF s(4)] B(7) nat_stride [OF s(1)] ln by (intro subslice_patch_before) auto
  qed
  show thesis
  proof (cases "?c' = ?c")
    case True
    have "jan_inv k w" "ring_ok k w" by (rule B)+
    then have "world_step k (ajanitorKey a) w w" by (rule world_step_refl)
    then show thesis using that [of w mp] e True b own by simp
  next
    case False
    have "mprot mp = PROT_RW"
    proof (rule ccontr)
      assume "mprot mp \<noteq> PROT_RW"
      then have "?n = ?b" using f by simp
      then have "?c' = ?c" using ins [OF s(4)] B(7) nat_stride [OF s(1)] by (simp add: slotAt_def patch_subslice)
      then show False using False by simp
    qed
    then have wr: "writeMem (aregion a) ?c' (mem w) = Some (upd_mapping (base (aregion a)) (\<lambda>mp. mp\<lparr>mbytes := ?c'\<rparr>) (mem w))"
      using lc B(7) by (intro writeMem_Some [OF B(6)]) auto
    let ?m = "upd_mapping (base (aregion a)) (\<lambda>mp. mp\<lparr>mbytes := ?c'\<rparr>) (mem w)"
    have u: "mem_upd (base (aregion a)) (\<lambda>mp. mp\<lparr>mbytes := ?c'\<rparr>) (mem w) ?m" by (simp add: mem_upd_def upd_mapping_def)
    note U = backed_upd [OF b u]
    show thesis using that [of "w\<lparr>mem := ?m\<rparr>" "mp\<lparr>mbytes := ?c'\<rparr>"] e False wr U lc own oth str \<open>mprot mp = PROT_RW\<close> by simp
  qed
qed

section \<open>The wipe of a slot\<close>

lemma backed_write:
  assumes b: "backed k w a mp" and rw: "mprot mp = PROT_RW" and l: "length c = length (mbytes mp)"
  obtains m' where "writeMem (aregion a) c (mem w) = Some m'" "backed k (w\<lparr>mem := m'\<rparr>) a (mp\<lparr>mbytes := c\<rparr>)"
    "world_step k (ajanitorKey a) w (w\<lparr>mem := m'\<rparr>)" "released m' = released (mem w)"
proof -
  note B = backedD [OF b]
  let ?m = "upd_mapping (base (aregion a)) (\<lambda>mp. mp\<lparr>mbytes := c\<rparr>) (mem w)"
  have u: "mem_upd (base (aregion a)) (\<lambda>mp. mp\<lparr>mbytes := c\<rparr>) (mem w) ?m" by (simp add: mem_upd_def upd_mapping_def)
  note U = backed_upd [OF b u]
  have "writeMem (aregion a) c (mem w) = Some ?m" using rw l B(7) by (intro writeMem_Some [OF B(6)]) auto
  then show thesis using that [of ?m] U l rw mem_updD(4) [OF u] by simp
qed

lemma backed_wipe:
  assumes b: "backed k w a mp" and rw: "mprot mp = PROT_RW" and l: "lo \<le> hi" "hi \<le> innerLen (aregion a)"
  obtains m' where "secureWipeSlice (aregion a) lo hi (mem w) = Some m'"
    "backed k (w\<lparr>mem := m'\<rparr>) a (mp\<lparr>mbytes := patch lo (zeros (hi - lo)) (mbytes mp)\<rparr>)"
    "world_step k (ajanitorKey a) w (w\<lparr>mem := m'\<rparr>)"
proof -
  note B = backedD [OF b]
  obtain m' where m: "secureWipeSlice (aregion a) lo hi (mem w) = Some m'"
    "mem_upd (base (aregion a)) (\<lambda>mp. mp\<lparr>mbytes := patch lo (zeros (hi - lo)) (mbytes mp)\<rparr>) (mem w) m'"
    using secureWipeSlice_Some [OF B(6) rw l] by blast
  have "length (patch lo (zeros (hi - lo)) (mbytes mp)) = length (mbytes mp)" using l B(7) by simp
  then show thesis using that [OF m(1)] backed_upd [OF b m(2)] rw by simp
qed

text \<open>
  \<^verbatim>\<open>Release\<close> finds the strip changed exactly when it does not hold the pattern, and leaves
  the slot zero, the strip armed and every other slot alone.
\<close>

lemma wipeSlot_spec:
  assumes b: "backed k w a mp" and s: "shape a" "hidx h < length (aslots a)" and rw: "mprot mp = PROT_RW"
  obtains v w' mp' where "wipeSlot k h a w = Some (v, w')" "backed k w' a mp'" "world_step k (ajanitorKey a) w w'" "cells w' = cells w"
    "mprot mp' = PROT_RW" "slotAt a (hidx h) (mbytes mp') = zeros (nat (aslotSize a))"
    "\<And>j. j < length (aslots a) \<Longrightarrow> j \<noteq> hidx h \<Longrightarrow> slotAt a j (mbytes mp') = slotAt a j (mbytes mp)"
    "v \<longleftrightarrow> \<not> cells w (awiped a) \<and> stripAt a (hidx h) (mbytes mp) \<noteq> canaryFill (canaryPattern (cpkg w)) canaryLen"
    "\<not> cells w (awiped a) \<Longrightarrow> stripAt a (hidx h) (mbytes mp') = canaryFill (canaryPattern (cpkg w)) canaryLen"
proof -
  note B = backedD [OF b] note ns = nat_stride [OF s(1)] note ins = slot_inside [OF s(1) B(9)]
  let ?c = "mbytes mp" let ?i = "hidx h" let ?st = "?i * nat (astride a)" let ?en = "?st + nat (aslotSize a)" let ?hi = "?st + nat (astride a)"
  let ?p = "canaryFill (canaryPattern (cpkg w)) canaryLen" let ?strip = "subslice ?en ?hi ?c"
  let ?v = "\<not> cells w (awiped a) \<and> ?strip \<noteq> ?p"
  let ?c1 = "if ?v then patch ?en ?p ?c else ?c"
  have sl: "length ?strip = canaryLen" using ins [OF s(2)] B(7) ns by simp
  have l1: "length ?c1 = length ?c" using ins [OF s(2)] B(7) ns by simp
  obtain w1 where w1: "(if cells w (awiped a) then Some (False, w)
       else do {
         c \<leftarrow> readMem (aregion a) (mem w);
         (case canaryIntact (rand k (calls (mem w)) canaryLen) (subslice ?en ?hi c) (cpkg w) of
           (True, p1) \<Rightarrow> Some (False, w\<lparr>cpkg := p1\<rparr>)
         | (False, p1) \<Rightarrow> (case fillCanary (rand k (calls (mem w)) canaryLen) (subslice ?en ?hi c) p1 of
             (Some _, _, p2) \<Rightarrow> Some (True, w\<lparr>cpkg := p2\<rparr>)
           | (None, z, p2) \<Rightarrow> do { m \<leftarrow> writeMem (aregion a) (patch ?en z c) (mem w); Some (True, w\<lparr>cpkg := p2, mem := m\<rparr>) }))
       }) = Some (?v, w1)" "backed k w1 a (mp\<lparr>mbytes := ?c1\<rparr>)" "world_step k (ajanitorKey a) w w1" "cells w1 = cells w"
  proof (cases "cells w (awiped a)")
    case True
    then show thesis using that [of w] b world_step_refl [OF B(2,3)] by simp
  next
    case False
    have cr: "canary_ready (cpkg w)" by (rule backed_ready [OF b s(1) False])
    have rd: "readMem (aregion a) (mem w) = Some ?c" using readMem_Some [OF B(6)] rw by simp
    show thesis
    proof (cases "?strip = ?p")
      case True
      then show thesis using that [of w] b world_step_refl [OF B(2,3)] False rd cr sl by simp
    next
      case ne: False
      have lp: "length (patch ?en ?p ?c) = length ?c" using ins [OF s(2)] B(7) ns by simp
      from b rw lp obtain m' where m: "writeMem (aregion a) (patch ?en ?p ?c) (mem w) = Some m'"
        "backed k (w\<lparr>mem := m'\<rparr>) a (mp\<lparr>mbytes := patch ?en ?p ?c\<rparr>)" "world_step k (ajanitorKey a) w (w\<lparr>mem := m'\<rparr>)"
        by (rule backed_write) blast
      have "canaryFill (canaryPattern (cpkg w)) (length ?strip) \<noteq> ?strip" using ne sl by metis
      then show thesis using that [of "w\<lparr>mem := m'\<rparr>"] m False rd cr sl ne by simp
    qed
  qed
  have st: "?st \<le> ?en" "?en \<le> innerLen (aregion a)" using ins [OF s(2)] ns by auto
  let ?c2 = "patch ?st (zeros (nat (aslotSize a))) ?c1"
  have "mprot (mp\<lparr>mbytes := ?c1\<rparr>) = PROT_RW" using rw by simp
  from w1(2) this st obtain m2 where m2: "secureWipeSlice (aregion a) ?st ?en (mem w1) = Some m2"
    "backed k (w1\<lparr>mem := m2\<rparr>) a (mp\<lparr>mbytes := ?c2\<rparr>)" "world_step k (ajanitorKey a) w1 (w1\<lparr>mem := m2\<rparr>)"
    by (rule backed_wipe) simp
  have r: "wipeSlot k h a w = Some (?v, w1\<lparr>mem := m2\<rparr>)"
    unfolding wipeSlot_def Let_def slotStart_def slotEnd_def w1(1) using m2(1) by simp
  have own: "slotAt a ?i ?c2 = zeros (nat (aslotSize a))"
    using subslice_patch_same [of ?st "zeros (nat (aslotSize a))" ?c1] ins [OF s(2)] B(7) ns l1 by (simp add: slotAt_def)
  have oth: "slotAt a j ?c2 = slotAt a j ?c" if "j < length (aslots a)" "j \<noteq> ?i" for j
  proof -
    have "slotAt a j ?c2 = slotAt a j ?c1"
      using slotAt_patch_other [OF s(1), of ?i "zeros (nat (aslotSize a))" ?c1 j 0] ins [OF s(2)] ins [OF that(1)] B(7) ns l1 that(2) by simp
    also have "\<dots> = slotAt a j ?c"
      using slotAt_patch_other [OF s(1), of ?i ?p ?c j "nat (aslotSize a)"] ins [OF s(2)] ins [OF that(1)] B(7) ns that(2) by simp
    finally show ?thesis .
  qed
  have str: "stripAt a ?i ?c2 = ?p" if "\<not> cells w (awiped a)"
  proof -
    have "stripAt a ?i ?c2 = stripAt a ?i ?c1" unfolding stripAt_def
      using ins [OF s(2)] B(7) ns l1 by (intro subslice_patch_after) auto
    also have "\<dots> = ?p"
      using subslice_patch_same [of ?en ?p ?c] ins [OF s(2)] B(7) ns that by (auto simp: stripAt_def add.assoc)
    finally show ?thesis .
  qed
  have mb: "mbytes (mp\<lparr>mbytes := c\<rparr>) = c" for c by simp
  show thesis
  proof (rule that [OF r m2(2) world_step_trans [OF w1(3) m2(3)]])
    show "cells (w1\<lparr>mem := m2\<rparr>) = cells w" "mprot (mp\<lparr>mbytes := ?c2\<rparr>) = PROT_RW" using w1(4) rw by simp_all
    show "?v \<longleftrightarrow> \<not> cells w (awiped a) \<and> stripAt a ?i ?c \<noteq> ?p" by (simp only: stripAt_def)
  qed (unfold mb, (rule own oth str | assumption)+)
qed

section \<open>The emergency wipe of a registration\<close>

lemma wipeAndFree_keeps: "wipeAndFree k e False w = Some (er, w1) \<Longrightarrow> regions w1 = regions w \<and> wipedset w1 = wipedset w"
  by (auto simp: wipeAndFree_def canaryCheck_def Let_def split: option.splits prod.splits if_splits bind_splits)

text \<open>An owner keeps its registration; its region is left alone or emptied with its flag set.\<close>

lemma owned_wiped:
  assumes I: "jan_inv k w" and o: "owned w key r mu can sc wp" and x: "wipeInPlace k x w = Some (er, w')"
  shows "owned w' key r mu can sc wp" "kept key w w' \<or> cells w' wp \<and> (\<exists>mp. maps (mem w') (base r) = Some mp \<and> scrubbed r mp)"
proof -
  obtain e where e: "peekAny key w = Some e" "jregion e = r" "jmu e = mu" "jwiped e = Some wp" using o by (auto simp: owned_def)
  obtain er1 w1 where s: "wipeInPlace k x w = Some (er1, w1)" "\<And>key'. key' \<noteq> x \<Longrightarrow> kept key' w w1"
    "if peekAny x w = None then kept x w w1 else swept w w1 er1 x" by (rule wipeInPlace_spec [OF I, of x]) blast
  have w1: "w1 = w'" using s(1) x by simp
  have "owned w' key r mu can sc wp \<and> (kept key w w' \<or> cells w' wp \<and> (\<exists>mp. maps (mem w') (base r) = Some mp \<and> scrubbed r mp))"
  proof (cases "kept key w w'")
    case True
    then show ?thesis using owned_kept [OF o] by simp
  next
    case False
    then have k: "key = x" using s(2) w1 by auto
    then have em: "emptied w' x" using False s(3) w1 e(1) by (auto simp: swept_def split: if_splits)
    have wl: "wipeLocked k x (jmu e) w = Some (er, w')" using x e(1) k by (simp add: wipeInPlace_def)
    obtain f mp c where f: "regions w' x = None" "wipedset w' x = Some f" "maps (mem w') (base (jregion f)) = Some mp"
      "scrubbed (jregion f) mp" "jwiped f = Some c" "cells w' c" using em by (auto simp: emptied_def)
    have "jregion f = r \<and> jmu f = mu \<and> jwiped f = Some wp"
      using e(1) [folded k, unfolded k]
    proof (cases rule: moveToWipedIf_cases)
      case live
      then show ?thesis using wl f(1,2) e
        by (auto simp: wipeLocked_def markWiped_def returnToLive_def dest!: wipeAndFree_keeps split: bind_splits if_splits option.splits)
    next
      case wiped
      then show ?thesis using wl f(1,2) e
        by (auto simp: wipeLocked_def markWiped_def dest!: wipeAndFree_keeps split: bind_splits if_splits option.splits)
    qed
    then show ?thesis using f k by (auto simp: owned_def peekAny_def)
  qed
  then show "owned w' key r mu can sc wp" "kept key w w' \<or> cells w' wp \<and> (\<exists>mp. maps (mem w') (base r) = Some mp \<and> scrubbed r mp)" by auto
qed

lemma wipe_keeps_ring:
  assumes I: "jan_inv k w" and R: "ring_ok k w" and x: "wipeInPlace k x w = Some (er, w')"
  shows "ring_ok k w'" "jan_inv k w'" "ring_keys w' = ring_keys w"
proof -
  obtain er1 w1 where "wipeInPlace k x w = Some (er1, w1)" "jan_inv k w1" "same_rest w w1" by (rule wipeInPlace_spec [OF I, of x]) blast
  then have w1: "jan_inv k w'" "sealKeys w' = sealKeys w" using x by (auto simp: same_rest_def)
  then show "jan_inv k w'" "ring_keys w' = ring_keys w" by (auto simp: ring_keys_def)
  show "ring_ok k w'"
  proof (cases "klock (sealKeys w)")
    case None
    then show ?thesis using w1(2) by (simp add: ring_ok_def)
  next
    case (Some l)
    let ?K = "sealKeys w"
    have o: "owned w (kkey ?K) (kregion ?K) l zeroLayout None (kwiped ?K)"
      and m: "\<not> cells w (kwiped ?K) \<Longrightarrow> \<exists>mp. region_at (kregion ?K) (mem w) mp \<and> mprot mp \<noteq> PROT_NONE"
      using R Some by (auto simp: ring_ok_def)
    note W = owned_wiped [OF I o x]
    have "\<exists>mp. region_at (kregion ?K) (mem w') mp \<and> mprot mp \<noteq> PROT_NONE" if n: "\<not> cells w' (kwiped ?K)"
    proof -
      have kp: "kept (kkey ?K) w w'" using W(2) n by auto
      obtain e where "peekAny (kkey ?K) w = Some e" "jregion e = kregion ?K" "jwiped e = Some (kwiped ?K)" using o by (auto simp: owned_def)
      then have "maps (mem w') (base (kregion ?K)) = maps (mem w) (base (kregion ?K))" "cells w' (kwiped ?K) = cells w (kwiped ?K)"
        using kp by (auto simp: kept_def cells_of_def)
      then show ?thesis using m n by (simp add: region_at_def)
    qed
    then show ?thesis using W(1) w1(2) Some by (simp add: ring_ok_def)
  qed
qed

end
