(* ===== verification/Arena_Run.thy ===== *)
theory Arena_Run
  imports Arena_Inv
begin

text \<open>
  A \<^verbatim>\<open>SecureArena\<close> in use: the sections its methods run under one lock, in any interleaving,
  with the steps of the other users of the library, the emergency wipe and a caller that writes past
  the end of its slot. The invariant of every state such a run reaches.
\<close>

section \<open>Runs\<close>

text \<open>
  The arena, the world, the slots a \<^verbatim>\<open>Release\<close> has claimed and not yet put back, and every
  handle \<^verbatim>\<open>Acquire\<close> has returned.
\<close>

record arenaSys =
  sarena :: arenaState
  sworld :: world
  spending :: "nat list"
  sissued :: "ArenaSlot list"

inductive arena_step :: "kernel \<Rightarrow> arenaSys \<Rightarrow> arenaSys \<Rightarrow> bool" for k where
  acquire: "acquireSlot (sarena s) (sworld s) = (Inr h, a') \<Longrightarrow>
    arena_step k s (s\<lparr>sarena := a', sissued := h # sissued s\<rparr>)"
| borrow: "h \<in> set (sissued s) \<Longrightarrow> SlotWithBytesErr (Some f) (Some h) (sarena s) (sworld s) = Some (e, w') \<Longrightarrow>
    arena_step k s (s\<lparr>sworld := w'\<rparr>)"
| overflow: "h \<in> set (sissued s) \<Longrightarrow> IsLive (Some h) (sarena s) \<Longrightarrow>
    readMem (aregion (sarena s)) (mem (sworld s)) = Some c \<Longrightarrow> length z = canaryLen \<Longrightarrow>
    writeMem (aregion (sarena s)) (patch (slotEnd h (sarena s)) z c) (mem (sworld s)) = Some m' \<Longrightarrow>
    arena_step k s (s\<lparr>sworld := (sworld s)\<lparr>mem := m'\<rparr>\<rparr>)"
| claim: "h \<in> set (sissued s) \<Longrightarrow> releaseClaim k h (sarena s) (sworld s) = Some (Claimed v, a', w') \<Longrightarrow>
    arena_step k s (s\<lparr>sarena := a', sworld := w', spending := spending s @ [hidx h]\<rparr>)"
| push: "i \<in> set (spending s) \<Longrightarrow>
    arena_step k s (s\<lparr>sarena := pushFree i (sarena s), spending := remove1 i (spending s)\<rparr>)"
| read_only: "readOnlySlab k (sarena s) (sworld s) = (e, a', w') \<Longrightarrow> arena_step k s (s\<lparr>sarena := a', sworld := w'\<rparr>)"
| read_write: "readWriteSlab k (sarena s) (sworld s) = (e, a', w') \<Longrightarrow> arena_step k s (s\<lparr>sarena := a', sworld := w'\<rparr>)"
| destroy_mark: "arena_step k s (s\<lparr>sarena := destroyMark (sarena s)\<rparr>)"
| destroy: "adestroyed (sarena s) \<Longrightarrow> destroySlab k (sarena s) (sworld s) = Some (e, a', w') \<Longrightarrow>
    arena_step k s (s\<lparr>sarena := a', sworld := w'\<rparr>)"
| wipe: "wipeInPlace k x (sworld s) = Some (er, w') \<Longrightarrow> arena_step k s (s\<lparr>sworld := w'\<rparr>)"
| other: "x \<noteq> ajanitorKey (sarena s) \<Longrightarrow> world_step k x (sworld s) w' \<Longrightarrow> arena_step k s (s\<lparr>sworld := w'\<rparr>)"

text \<open>The states \<open>n\<close> steps after \<^verbatim>\<open>NewArena\<close> returned.\<close>

inductive arena_reach :: "kernel \<Rightarrow> nat \<Rightarrow> arenaSys \<Rightarrow> bool" for k where
  start: "kernel_ok k \<Longrightarrow> jan_inv k w \<Longrightarrow> ring_ok k w \<Longrightarrow> NewArena k sz cnt opts w = Some (Inr a, w') \<Longrightarrow>
    arena_reach k 0 \<lparr>sarena = a, sworld = w', spending = [], sissued = []\<rparr>"
| step: "arena_reach k n s \<Longrightarrow> arena_step k s s' \<Longrightarrow> arena_reach k (Suc n) s'"

section \<open>The slots\<close>

definition pool_inv :: "nat \<Rightarrow> arenaState \<Rightarrow> nat list \<Rightarrow> ArenaSlot list \<Rightarrow> bool" where
  "pool_inv n a pend issued \<longleftrightarrow> pool_ok a \<and> distinct (freeList a @ pend) \<and> set pend \<subseteq> {..<length (aslots a)} \<and>
     (\<forall>i<length (aslots a). even (unat (generationOf i a)) \<longleftrightarrow> i \<in> set (freeList a @ pend)) \<and>
     (\<forall>i<length (aslots a). unat (generationOf i a) \<le> n) \<and>
     alive a = int (length (aslots a)) - int (length (freeList a)) \<and> distinct issued \<and>
     (\<forall>h\<in>set issued. hidx h < length (aslots a) \<and> odd (unat (hgeneration h)) \<and> hgeneration h \<le> generationOf (hidx h) a)"

lemma pool_invD:
  assumes "pool_inv n a pend issued"
  shows "pool_ok a" "distinct (freeList a @ pend)" "set pend \<subseteq> {..<length (aslots a)}"
    "i < length (aslots a) \<Longrightarrow> even (unat (generationOf i a)) \<longleftrightarrow> i \<in> set (freeList a @ pend)"
    "i < length (aslots a) \<Longrightarrow> unat (generationOf i a) \<le> n"
    "alive a = int (length (aslots a)) - int (length (freeList a))" "distinct issued"
    "h \<in> set issued \<Longrightarrow> hidx h < length (aslots a)" "h \<in> set issued \<Longrightarrow> odd (unat (hgeneration h))"
    "h \<in> set issued \<Longrightarrow> hgeneration h \<le> generationOf (hidx h) a"
    "set (freeList a) \<subseteq> {..<length (aslots a)}"
  using assms segment_bounded [of "aslots a" "freeHead a" "freeList a"] by (auto simp: pool_inv_def pool_ok_def linked_def)

lemma pool_mono: "pool_inv n a pend issued \<Longrightarrow> n \<le> n' \<Longrightarrow> pool_inv n' a pend issued"
  unfolding pool_inv_def by (meson order.trans)

text \<open>Changes of the fields the pool does not read.\<close>

lemma pool_cong:
  assumes "aslots a' = aslots a" "freeHead a' = freeHead a" "freeTail a' = freeTail a" "alive a' = alive a"
  shows "pool_inv n a' pend issued = pool_inv n a pend issued" "freeList a' = freeList a"
  using assms by (simp_all add: pool_inv_def pool_ok_def freeList_def linked_def generationOf_def)

lemma unat_next: "unat (g :: 64 word) < 2 ^ 64 - 1 \<Longrightarrow> unat (g + 1) = Suc (unat g)"
  by (simp add: unat_plus_if' del: One_nat_def)

lemma acquireSlot_cases:
  assumes "acquireSlot a w = (Inr h, a')" "pool_ok a"
  shows "in_service w a" "freeList a = hidx h # freeList a'" "pool_ok a'" "length (aslots a') = length (aslots a)" "alive a' = alive a + 1"
    "hgeneration h = generationOf (hidx h) a + 1"
    "generationOf j a' = (if j = hidx h then hgeneration h else generationOf j a)"
    "a' = a\<lparr>freeHead := freeHead a', freeTail := freeTail a', aslots := aslots a', alive := alive a'\<rparr>"
proof -
  show s: "in_service w a" using assms(1) by (auto simp: acquireSlot_def in_service_def split: if_splits)
  have "popFree a \<noteq> None" using assms(1) by (auto simp: acquireSlot_def split: if_splits option.splits)
  then obtain i fl where fl: "freeList a = i # fl" using links.pop_empty [OF assms(2)] by (cases "freeList a") auto
  then have l: "linked a (i # fl)" using assms(2) by (simp add: pool_ok_def)
  from l s have "freeList a = hidx h # freeList a' \<and> pool_ok a' \<and> length (aslots a') = length (aslots a) \<and> alive a' = alive a + 1 \<and>
    hgeneration h = generationOf (hidx h) a + 1 \<and> generationOf j a' = (if j = hidx h then hgeneration h else generationOf j a) \<and>
    a' = a\<lparr>freeHead := freeHead a', freeTail := freeTail a', aslots := aslots a', alive := alive a'\<rparr>"
  proof (rule acquireSlot_Cons)
    fix b assume b: "acquireSlot a w = (Inr \<lparr>hidx = i, hgeneration = generationOf i a + 1\<rparr>, b)" "linked b fl"
      "length (aslots b) = length (aslots a)" "alive b = alive a + 1"
      "\<And>j. generationOf j b = (if j = i then generationOf i a + 1 else generationOf j a)"
      "b = a\<lparr>freeHead := freeHead b, freeTail := freeTail b, aslots := aslots b, alive := alive b\<rparr>"
    have e: "b = a'" "h = \<lparr>hidx = i, hgeneration = generationOf i a + 1\<rparr>" using assms(1) b(1) by auto
    show ?thesis using b(2-6) pool_okI [OF b(2)] fl unfolding e by (auto simp only: ArenaSlot.select_convs)
  qed
  then show "freeList a = hidx h # freeList a'" "pool_ok a'" "length (aslots a') = length (aslots a)" "alive a' = alive a + 1"
    "hgeneration h = generationOf (hidx h) a + 1"
    "generationOf j a' = (if j = hidx h then hgeneration h else generationOf j a)"
    "a' = a\<lparr>freeHead := freeHead a', freeTail := freeTail a', aslots := aslots a', alive := alive a'\<rparr>" by blast+
qed

lemma pool_acquire:
  assumes P: "pool_inv n a pend issued" and q: "acquireSlot a w = (Inr h, a')" and n: "Suc n < 2 ^ 64"
  shows "pool_inv (Suc n) a' pend (h # issued)" "h \<notin> set issued"
proof -
  note D = pool_invD [OF P] note A = acquireSlot_cases [OF q D(1)]
  let ?i = "hidx h"
  have i: "?i < length (aslots a)" using A(2) D(11) by simp
  have ev: "even (unat (generationOf ?i a))" using D(4) [OF i] A(2) by simp
  have nx: "unat (hgeneration h) = Suc (unat (generationOf ?i a))" using D(5) [OF i] n A(6) unat_next [of "generationOf ?i a"] by simp
  show new: "h \<notin> set issued"
  proof
    assume "h \<in> set issued"
    then have "hgeneration h \<le> generationOf ?i a" by (rule D(10))
    then show False using nx by (simp add: word_le_nat_alt)
  qed
  have "even (unat (generationOf j a')) \<longleftrightarrow> j \<in> set (freeList a' @ pend)" if j: "j < length (aslots a)" for j
    using D(2) D(4) [OF j] A(2) A(7) [of j] ev nx by auto
  moreover have "unat (generationOf j a') \<le> Suc n" if "j < length (aslots a)" for j
    using D(5) [OF that] D(5) [OF i] A(7) [of j] nx by auto
  moreover have "hgeneration g \<le> generationOf (hidx g) a'" if "g \<in> set issued" for g
    using D(10) [OF that] A(7) [of "hidx g"] nx by (auto simp: word_le_nat_alt)
  ultimately show "pool_inv (Suc n) a' pend (h # issued)"
    unfolding pool_inv_def using D A(3-7) A(2) i ev nx new A(7) [of ?i] by auto
qed

lemma pool_claim:
  assumes P: "pool_inv n a pend issued" and h: "h \<in> set issued" "generationOf (hidx h) a = hgeneration h" and n: "Suc n < 2 ^ 64"
  shows "pool_inv (Suc n) (setGeneration (hidx h) (hgeneration h + 1) a) (pend @ [hidx h]) issued"
    "freeList (setGeneration (hidx h) (hgeneration h + 1) a) = freeList a"
proof -
  note D = pool_invD [OF P]
  let ?i = "hidx h" let ?a = "setGeneration ?i (hgeneration h + 1) a"
  have i: "?i < length (aslots a)" by (rule D(8) [OF h(1)])
  have l: "linked ?a (freeList a)" using linked_same [OF sameSlots_setGeneration [of a ?i]] D(1) by (simp add: pool_ok_def)
  note F = pool_okI [OF l]
  show "freeList ?a = freeList a" using F by simp
  have od: "odd (unat (hgeneration h))" by (rule D(9) [OF h(1)])
  have nx: "unat (hgeneration h + 1) = Suc (unat (hgeneration h))" using D(5) [OF i] n h(2) unat_next [of "hgeneration h"] by simp
  have g: "generationOf j ?a = (if j = ?i then hgeneration h + 1 else generationOf j a)" for j
    using i by (auto simp: generationOf_def setGeneration_def nth_list_update)
  have ni: "?i \<notin> set (freeList a @ pend)" using D(4) [OF i] od h(2) by simp
  have "even (unat (generationOf j ?a)) \<longleftrightarrow> j \<in> set (freeList ?a @ pend @ [?i])" if j: "j < length (aslots a)" for j
    using D(4) [OF j] F g [of j] od nx by auto
  moreover have "unat (generationOf j ?a) \<le> Suc n" if "j < length (aslots a)" for j
    using D(5) [OF that] D(5) [OF i] g [of j] nx h(2) by auto
  moreover have "hgeneration x \<le> generationOf (hidx x) ?a" if "x \<in> set issued" for x
    using D(10) [OF that] g [of "hidx x"] nx h(2) by (auto simp: word_le_nat_alt)
  moreover have "length (aslots ?a) = length (aslots a)" "alive ?a = alive a" by (simp_all add: setGeneration_def)
  ultimately show "pool_inv (Suc n) ?a (pend @ [?i]) issued"
    unfolding pool_inv_def using D F i ni by auto
qed

lemma pool_push:
  assumes P: "pool_inv n a pend issued" and i: "i \<in> set pend"
  shows "pool_inv n (pushFree i a) (remove1 i pend) issued" "freeList (pushFree i a) = freeList a @ [i]"
    "set (freeList (pushFree i a) @ remove1 i pend) = set (freeList a @ pend)"
proof -
  note D = pool_invD [OF P]
  have b: "i < length (aslots a)" "i \<notin> set (freeList a)" using D(2,3) i by auto
  note Q = pushFree_linked [OF D(1) [unfolded pool_ok_def] b]
  show F: "freeList (pushFree i a) = freeList a @ [i]" using pool_okI [OF Q(1)] by simp
  have d: "distinct pend" using D(2) by simp
  have r: "set (remove1 i pend) = set pend - {i}" using d by simp
  show s: "set (freeList (pushFree i a) @ remove1 i pend) = set (freeList a @ pend)" using F r i by auto
  have "distinct (freeList (pushFree i a) @ remove1 i pend)" using D(2) F r b d by auto
  moreover have "set (remove1 i pend) \<subseteq> {..<length (aslots a)}" using D(3) r by auto
  ultimately show "pool_inv n (pushFree i a) (remove1 i pend) issued"
    unfolding pool_inv_def s using D pool_okI [OF Q(1)] Q(2-4) by auto
qed

section \<open>The slab\<close>

definition usable_slab :: "world \<Rightarrow> arenaState \<Rightarrow> nat set \<Rightarrow> mapping \<Rightarrow> bool" where
  "usable_slab w a zs mp \<longleftrightarrow> (if cells w (awiped a) then mprot mp = PROT_RW
     else mprot mp \<noteq> PROT_NONE \<and> (\<not> rdOnly a \<longrightarrow> mprot mp = PROT_RW) \<and>
       (\<forall>i\<in>zs. slotAt a i (mbytes mp) = zeros (nat (aslotSize a))))"

definition slab_inv :: "kernel \<Rightarrow> world \<Rightarrow> arenaState \<Rightarrow> nat set \<Rightarrow> bool" where
  "slab_inv k w a zs \<longleftrightarrow> kernel_ok k \<and> jan_inv k w \<and> ring_ok k w \<and> shape a \<and>
     (if arenaDestroyed a then adestroyed a \<and> areleased a
      else \<not> areleased a \<and> (\<exists>mp. backed k w a mp \<and> usable_slab w a zs mp))"

definition arena_inv :: "kernel \<Rightarrow> nat \<Rightarrow> arenaSys \<Rightarrow> bool" where
  "arena_inv k n s \<longleftrightarrow> pool_inv n (sarena s) (spending s) (sissued s) \<and>
     slab_inv k (sworld s) (sarena s) (set (freeList (sarena s) @ spending s))"

lemma slab_mono: "slab_inv k w a zs \<Longrightarrow> zs' \<subseteq> zs \<Longrightarrow> slab_inv k w a zs'"
  unfolding slab_inv_def usable_slab_def by (auto split: if_splits)

text \<open>Changes of the slots' metadata.\<close>

lemma slab_cong:
  assumes "a' = a\<lparr>freeHead := h, freeTail := t, aslots := sl, alive := l\<rparr>" "length sl = length (aslots a)"
  shows "slab_inv k w a' zs = slab_inv k w a zs"
  using assms(2) backed_cong [of a' a k w]
  by (simp add: assms(1) slab_inv_def usable_slab_def shape_def arenaDestroyed_def slotAt_def)

lemma slab_backed:
  assumes "slab_inv k w a zs" "\<not> arenaDestroyed a"
  obtains mp where "backed k w a mp" "usable_slab w a zs mp" "shape a" "\<not> areleased a"
  using assms by (auto simp: slab_inv_def)

lemma slab_step:
  assumes "slab_inv k w a zs" "backed k w' a mp" "usable_slab w' a zs' mp"
  shows "slab_inv k w' a zs'"
  using assms backedD [OF assms(2)] by (auto simp: slab_inv_def)

lemma borrow_cases:
  assumes "SlotWithBytesErr (Some f) (Some h) a w = Some (e, w')" "w' \<noteq> w"
  shows "\<not> adestroyed a" "\<not> arenaDestroyed a" "\<not> cells w (awiped a)" "generationOf (hidx h) a = hgeneration h"
  using assms by (auto simp: SlotWithBytesErr_def split: if_splits)

lemma slab_borrow:
  assumes S: "slab_inv k w a zs" and e: "SlotWithBytesErr (Some f) (Some h) a w = Some (e, w')"
    and i: "hidx h < length (aslots a)" "hidx h \<notin> zs" and zs: "zs \<subseteq> {..<length (aslots a)}"
  shows "slab_inv k w' a zs"
proof (cases "w' = w")
  case False
  note C = borrow_cases [OF e False]
  obtain mp where b: "backed k w a mp" "usable_slab w a zs mp" "shape a" by (rule slab_backed [OF S C(2)])
  have u: "mprot mp \<noteq> PROT_NONE" using b(2) C(3) by (simp add: usable_slab_def)
  have f: "mprot mp \<noteq> PROT_RW \<longrightarrow> goCopy 0 (snd (f (slotAt a (hidx h) (mbytes mp)))) (slotAt a (hidx h) (mbytes mp)) = slotAt a (hidx h) (mbytes mp)"
  proof (rule impI, rule ccontr)
    let ?st = "hidx h * nat (astride a)" let ?b = "slotAt a (hidx h) (mbytes mp)" let ?n = "goCopy 0 (snd (f ?b)) ?b"
    assume rw: "mprot mp \<noteq> PROT_RW" and ne: "?n \<noteq> ?b"
    have ins: "?st + nat (astride a) \<le> length (mbytes mp)" using slot_inside [OF b(3) C(2) i(1)] backedD(7) [OF b(1)] by simp
    have lb: "length ?b = nat (aslotSize a)" using ins nat_stride [OF b(3)] by (simp add: slotAt_def)
    then have own: "slotAt a (hidx h) (patch ?st ?n (mbytes mp)) = ?n"
      using subslice_patch_same [of ?st ?n "mbytes mp"] ins nat_stride [OF b(3)] by (simp add: slotAt_def)
    then have "patch ?st ?n (mbytes mp) \<noteq> mbytes mp" using ne by auto
    then show False
      using e C rw readMem_Some [OF backedD(6) [OF b(1)] u] backedD(6) [OF b(1)]
      by (auto simp: SlotWithBytesErr_def Let_def slotAt_def slotStart_def slotEnd_def writeMem_def region_at_def split: if_splits)
  qed
  from b(1,3) C(1,3) i(1) C(4) u f show ?thesis
  proof (rule borrow_spec)
    fix w2 mp' assume r: "SlotWithBytesErr (Some f) (Some h) a w = Some (fst (f (slotAt a (hidx h) (mbytes mp))), w2)"
      "backed k w2 a mp'" "cells w2 = cells w" "mprot mp' = mprot mp"
      "\<And>j. j < length (aslots a) \<Longrightarrow> j \<noteq> hidx h \<Longrightarrow> slotAt a j (mbytes mp') = slotAt a j (mbytes mp)"
    have "slotAt a j (mbytes mp') = zeros (nat (aslotSize a))" if "j \<in> zs" for j
      using that r(5) [of j] b(2) C(3) i zs by (auto simp: usable_slab_def)
    then have "usable_slab w2 a zs mp'" using b(2) r(3,4) C(3) by (simp add: usable_slab_def)
    then have "slab_inv k w2 a zs" by (rule slab_step [OF S r(2)])
    then show ?thesis using r(1) e by simp
  qed
qed (use S in simp)

lemma slab_overflow:
  assumes S: "slab_inv k w a zs" and i: "hidx h < length (aslots a)" "hidx h \<notin> zs" and zs: "zs \<subseteq> {..<length (aslots a)}"
    and c: "readMem (aregion a) (mem w) = Some c" "length z = canaryLen" "writeMem (aregion a) (patch (slotEnd h a) z c) (mem w) = Some m'"
    and d: "\<not> arenaDestroyed a"
  shows "slab_inv k (w\<lparr>mem := m'\<rparr>) a zs"
proof -
  obtain mp where b: "backed k w a mp" "usable_slab w a zs mp" "shape a" by (rule slab_backed [OF S d])
  note B = backedD [OF b(1)]
  have p: "mprot mp = PROT_RW" "c = mbytes mp" using c(1,3) B(6) by (auto simp: writeMem_def readMem_def region_at_def split: if_splits)
  let ?c = "patch (slotEnd h a) z (mbytes mp)"
  have ins: "hidx h * nat (astride a) + nat (astride a) \<le> length (mbytes mp)" using slot_inside [OF b(3) d i(1)] B(7) by simp
  then have l: "length ?c = length (mbytes mp)" using c(2) nat_stride [OF b(3)] by (simp add: slotEnd_def slotStart_def)
  from b(1) p(1) l obtain m2 where m: "writeMem (aregion a) ?c (mem w) = Some m2" "backed k (w\<lparr>mem := m2\<rparr>) a (mp\<lparr>mbytes := ?c\<rparr>)"
    by (rule backed_write) blast
  have "slotAt a j ?c = slotAt a j (mbytes mp)" if "j \<in> zs" for j
    using slotAt_patch_other [OF b(3), of "hidx h" z "mbytes mp" j "nat (aslotSize a)"] ins c(2) nat_stride [OF b(3)] that i zs
      slot_inside [OF b(3) d, of j] B(7) by (auto simp: slotEnd_def slotStart_def)
  then have "usable_slab (w\<lparr>mem := m2\<rparr>) a zs (mp\<lparr>mbytes := ?c\<rparr>)" using b(2) p(1) by (simp add: usable_slab_def)
  then show ?thesis using slab_step [OF S m(2)] m(1) c(3) p(2) by simp
qed

text \<open>The section of \<^verbatim>\<open>Release\<close> under the read lock, on an arena that still has its slab.\<close>

lemma releaseClaim_live:
  assumes S: "slab_inv k w a zs" and i: "hidx h < length (aslots a)" and zs: "zs \<subseteq> {..<length (aslots a)}"
    and d: "\<not> arenaDestroyed a" and g: "generationOf (hidx h) a = hgeneration h" and ro: "\<not> rdOnly a \<or> cells w (awiped a)"
  obtains v w' mp mp' where "releaseClaim k h a w = Some (Claimed v, setGeneration (hidx h) (hgeneration h + 1) a, w')"
    "slab_inv k w' (setGeneration (hidx h) (hgeneration h + 1) a) (insert (hidx h) zs)" "world_step k (ajanitorKey a) w w'"
    "cells w' = cells w" "backed k w a mp" "backed k w' a mp'" "slotAt a (hidx h) (mbytes mp') = zeros (nat (aslotSize a))"
    "\<And>j. j < length (aslots a) \<Longrightarrow> j \<noteq> hidx h \<Longrightarrow> slotAt a j (mbytes mp') = slotAt a j (mbytes mp)"
    "v \<longleftrightarrow> \<not> cells w (awiped a) \<and> stripAt a (hidx h) (mbytes mp) \<noteq> canaryFill (canaryPattern (cpkg w)) canaryLen"
proof -
  obtain mp where b: "backed k w a mp" "usable_slab w a zs mp" "shape a" by (rule slab_backed [OF S d])
  let ?a = "setGeneration (hidx h) (hgeneration h + 1) a"
  have same: "?a = a\<lparr>freeHead := freeHead a, freeTail := freeTail a, aslots := aslots ?a, alive := alive a\<rparr>" "length (aslots ?a) = length (aslots a)"
    by (simp_all add: setGeneration_def)
  have bk: "backed k w' ?a mp' = backed k w' a mp'" for w' mp' by (rule backed_cong) (simp_all add: setGeneration_def)
  have geo: "shape ?a" "slotAt ?a = slotAt a" "stripAt ?a = stripAt a" "aslotSize ?a = aslotSize a" "awiped ?a = awiped a" "ajanitorKey ?a = ajanitorKey a"
    using b(3) by (auto simp: setGeneration_def shape_def slotAt_def [abs_def] stripAt_def [abs_def] arenaDestroyed_def)
  have rw: "mprot mp = PROT_RW" using b(2) ro by (auto simp: usable_slab_def split: if_splits)
  have "backed k w ?a mp" "hidx h < length (aslots ?a)" using b(1) bk i same(2) by simp_all
  from this(1) geo(1) this(2) rw show thesis
  proof (rule wipeSlot_spec)
    fix v w' mp' assume r: "wipeSlot k h ?a w = Some (v, w')" "backed k w' ?a mp'" "world_step k (ajanitorKey ?a) w w'" "cells w' = cells w"
      "mprot mp' = PROT_RW" "slotAt ?a (hidx h) (mbytes mp') = zeros (nat (aslotSize ?a))"
      "\<And>j. j < length (aslots ?a) \<Longrightarrow> j \<noteq> hidx h \<Longrightarrow> slotAt ?a j (mbytes mp') = slotAt ?a j (mbytes mp)"
      "v \<longleftrightarrow> \<not> cells w (awiped ?a) \<and> stripAt ?a (hidx h) (mbytes mp) \<noteq> canaryFill (canaryPattern (cpkg w)) canaryLen"
    have "slotAt a j (mbytes mp') = zeros (nat (aslotSize a))" if "j \<in> insert (hidx h) zs" "\<not> cells w (awiped a)" for j
      using that r(6) r(7) [of j] b(2) zs same(2) unfolding geo by (cases "j = hidx h") (auto simp: usable_slab_def)
    then have "usable_slab w' a (insert (hidx h) zs) mp'" using r(4,5) by (auto simp: usable_slab_def)
    then have "slab_inv k w' a (insert (hidx h) zs)" using slab_step [OF S] r(2) bk by simp
    then have s: "slab_inv k w' ?a (insert (hidx h) zs)" using slab_cong [OF same] by simp
    have "releaseClaim k h a w = Some (Claimed v, ?a, w')" using d g ro r(1) by (auto simp: releaseClaim_def Let_def)
    note r' = r [unfolded geo same(2) bk]
    from \<open>releaseClaim k h a w = _\<close> s r'(3,4) b(1) r'(2,6,7,8) show thesis by (rule that)
  qed
qed

lemma releaseClaim_cases:
  assumes "releaseClaim k h a w = Some (Claimed v, a', w')"
  shows "generationOf (hidx h) a = hgeneration h" "a' = setGeneration (hidx h) (hgeneration h + 1) a"
    "\<not> arenaDestroyed a \<Longrightarrow> \<not> rdOnly a \<or> cells w (awiped a)" "arenaDestroyed a \<Longrightarrow> w' = w"
  using assms by (auto simp: releaseClaim_def Let_def split: if_splits bind_splits)

lemma slab_claim:
  assumes S: "slab_inv k w a zs" and i: "hidx h < length (aslots a)" and zs: "zs \<subseteq> {..<length (aslots a)}"
    and c: "releaseClaim k h a w = Some (Claimed v, a', w')"
  shows "slab_inv k w' a' (insert (hidx h) zs)"
proof (cases "arenaDestroyed a")
  case True
  have "length (aslots a') = length (aslots a)" using releaseClaim_cases(2) [OF c] by (simp add: setGeneration_def)
  then have "slab_inv k w a' (insert (hidx h) zs) = slab_inv k w a (insert (hidx h) zs)"
    by (intro slab_cong [where h = "freeHead a" and t = "freeTail a" and sl = "aslots a'" and l = "alive a"]) (simp_all add: releaseClaim_cases(2) [OF c] setGeneration_def)
  then show ?thesis using S True releaseClaim_cases(4) [OF c] by (simp add: slab_inv_def)
next
  case False
  from S i zs False releaseClaim_cases(1,3) [OF c] show ?thesis
    by (rule releaseClaim_live) (use False c in auto)
qed

text \<open>The protection of the slab.\<close>

lemma backed_protect:
  assumes b: "backed k w a mp" and p: "mprotectSecretMem k (aregion a) p (mem w) = (e, m')"
  obtains (ok) "e = None" "backed k (w\<lparr>mem := m'\<rparr>) a (setp k p mp)" "world_step k (ajanitorKey a) w (w\<lparr>mem := m'\<rparr>)"
  | (failed) "e = Some ErrOS" "platform k \<noteq> Stub" "backed k (w\<lparr>mem := m'\<rparr>) a mp" "world_step k (ajanitorKey a) w (w\<lparr>mem := m'\<rparr>)"
  using p
proof (cases rule: mprotectSecretMem_cases)
  case ok
  then show thesis
    using that(1) backed_upd [OF b ok(2)] backedD(9,10) [OF b] by (auto simp: setp_def arenaDestroyed_def split: if_splits)
next
  case failed
  then show thesis using that(2) backed_upd [OF b failed(3)] by simp
qed

lemma slab_flag:
  assumes "slab_inv k w a zs" "backed k w' a mp" "usable_slab w' (a\<lparr>rdOnly := v\<rparr>) zs mp"
  shows "slab_inv k w' (a\<lparr>rdOnly := v\<rparr>) zs"
proof -
  have "backed k w' (a\<lparr>rdOnly := v\<rparr>) mp" using assms(2) by (subst backed_cong [of _ a]) simp_all
  then show ?thesis using assms(1,3) backedD [OF assms(2)] by (auto simp: slab_inv_def shape_def arenaDestroyed_def)
qed

lemma slab_readOnly:
  assumes S: "slab_inv k w a zs" and r: "readOnlySlab k a w = (e, a', w')"
  shows "slab_inv k w' a' zs"
proof (cases "arenaDestroyed a \<or> cells w (awiped a)")
  case False
  then obtain mp where b: "backed k w a mp" "usable_slab w a zs mp" "shape a" using slab_backed [OF S] by metis
  obtain pe m1 where p: "mprotectSecretMem k (aregion a) PROT_READ (mem w) = (pe, m1)" by fastforce
  from b(1) p show ?thesis
  proof (cases rule: backed_protect)
    case ok
    have "usable_slab (w\<lparr>mem := m1\<rparr>) (a\<lparr>rdOnly := True\<rparr>) zs (setp k PROT_READ mp)"
      using b(2) False by (cases "platform k = Stub") (auto simp: usable_slab_def slotAt_def)
    then show ?thesis using slab_flag [OF S ok(2)] r False p ok(1) by (auto simp: readOnlySlab_def)
  next
    case failed
    have "usable_slab (w\<lparr>mem := m1\<rparr>) a zs mp" using b(2) by (simp add: usable_slab_def)
    then show ?thesis using slab_step [OF S failed(3)] r False p failed(1) by (auto simp: readOnlySlab_def)
  qed
qed (use S r in \<open>auto simp: readOnlySlab_def split: if_splits\<close>)

lemma slab_readWrite:
  assumes S: "slab_inv k w a zs" and r: "readWriteSlab k a w = (e, a', w')"
  shows "slab_inv k w' a' zs"
proof (cases "arenaDestroyed a \<or> cells w (awiped a)")
  case False
  then obtain mp where b: "backed k w a mp" "usable_slab w a zs mp" "shape a" using slab_backed [OF S] by metis
  obtain pe m1 where p: "mprotectSecretMem k (aregion a) PROT_RW (mem w) = (pe, m1)" by fastforce
  from b(1) p show ?thesis
  proof (cases rule: backed_protect)
    case ok
    have "usable_slab (w\<lparr>mem := m1\<rparr>) (a\<lparr>rdOnly := False\<rparr>) zs (setp k PROT_RW mp)"
      using b(2) False backedD(10) [OF b(1)] by (cases "platform k = Stub") (auto simp: usable_slab_def slotAt_def)
    then show ?thesis using slab_flag [OF S ok(2)] r False p ok(1) by (auto simp: readWriteSlab_def)
  next
    case failed
    have "usable_slab (w\<lparr>mem := m1\<rparr>) a zs mp" using b(2) by (simp add: usable_slab_def)
    then show ?thesis using slab_step [OF S failed(3)] r False p failed(1) by (auto simp: readWriteSlab_def)
  qed
qed (use S r in \<open>auto simp: readWriteSlab_def split: if_splits\<close>)

text \<open>The end of the arena.\<close>

lemma destroySlab_spec:
  assumes S: "slab_inv k w a zs" and m: "adestroyed a" and d: "\<not> arenaDestroyed a"
  obtains e w' where "destroySlab k a w = Some (e, a\<lparr>acleanup := False, aregion := noRegion, areleased := True\<rparr>, w')"
    "slab_inv k w' (a\<lparr>acleanup := False, aregion := noRegion, areleased := True\<rparr>) zs" "world_step k (ajanitorKey a) w w'"
    "peekAny (ajanitorKey a) w' = None"
    "(\<exists>l. released (mem w') = released (mem w) @ l \<and> list_all all_zero l) \<or> errorIs e ErrOS"
proof -
  obtain mp where b: "backed k w a mp" "usable_slab w a zs mp" "shape a" by (rule slab_backed [OF S d])
  note B = backedD [OF b(1)]
  from B(2,4) show thesis
  proof (rule release_owned [where h = True])
    fix er w' assume r: "release k (ajanitorKey a) True w = Some (er, w')" "jan_inv k w'" "peekAny (ajanitorKey a) w' = None"
      "frame {ajanitorKey a} w w'" "sealKeys w' = sealKeys w" "retired (aregion a) er w (quar w') (mem w')"
    have ws: "world_step k (ajanitorKey a) w w'" by (rule world_step_frame [OF r(2) B(3) r(4,5) B(5)])
    let ?a = "a\<lparr>acleanup := False, aregion := noRegion, areleased := True\<rparr>"
    have "slab_inv k w' ?a zs" using b(3) B(1) world_stepD(1,2) [OF ws] m
      by (auto simp: slab_inv_def shape_def arenaDestroyed_def noRegion_def)
    then show thesis using that [of er w'] r(1,3,6) d ws by (simp add: destroySlab_def retired_def)
  qed
qed

text \<open>The steps of others.\<close>

lemma slab_kept:
  assumes S: "slab_inv k w a zs" and w': "jan_inv k w'" "ring_ok k w'"
    and kp: "\<not> arenaDestroyed a \<Longrightarrow> kept (ajanitorKey a) w w' \<and> ajanitorKey a \<notin> ring_keys w'"
  shows "slab_inv k w' a zs" "\<not> arenaDestroyed a \<Longrightarrow> slab w' a = slab w a"
proof -
  have "slab_inv k w' a zs \<and> (\<not> arenaDestroyed a \<longrightarrow> slab w' a = slab w a)"
  proof (cases "arenaDestroyed a")
    case True
    then show ?thesis using S w' by (simp add: slab_inv_def)
  next
    case False
    obtain mp where b: "backed k w a mp" "usable_slab w a zs mp" "shape a" by (rule slab_backed [OF S False])
    note B = backedD [OF b(1)]
    obtain e where e: "peekAny (ajanitorKey a) w = Some e" "jregion e = aregion a" "jwiped e = Some (awiped a)" using B(4) by (auto simp: owned_def)
    have c: "maps (mem w') (base (aregion a)) = maps (mem w) (base (aregion a))" "cells w' (awiped a) = cells w (awiped a)"
      using kp [OF False] e by (auto simp: kept_def cells_of_def)
    have "backed k w' a mp" using B w' kp [OF False] owned_kept [OF B(4)] c(1) by (simp add: backed_def region_at_def)
    moreover have "usable_slab w' a zs mp" using b(2) c(2) by (simp add: usable_slab_def)
    ultimately show ?thesis using slab_step [OF S] c(1) by (auto simp: slab_def)
  qed
  then show "slab_inv k w' a zs" "\<not> arenaDestroyed a \<Longrightarrow> slab w' a = slab w a" by auto
qed

lemma slab_other:
  assumes S: "slab_inv k w a zs" and s: "world_step k x w w'" "x \<noteq> ajanitorKey a"
  shows "slab_inv k w' a zs" "\<not> arenaDestroyed a \<Longrightarrow> slab w' a = slab w a"
proof -
  note W = world_stepD [OF s(1)]
  have "kept (ajanitorKey a) w w' \<and> ajanitorKey a \<notin> ring_keys w'" if d: "\<not> arenaDestroyed a"
  proof -
    obtain mp where b: "backed k w a mp" by (rule slab_backed [OF S d])
    have e: "peekAny (ajanitorKey a) w \<noteq> None" using backedD(4) [OF b] by (auto simp: owned_def)
    show ?thesis using W(5) [OF s(2) [symmetric] backedD(5) [OF b] e] W(4) [of "ajanitorKey a"] s(2) backedD(5) [OF b] e by auto
  qed
  then show "slab_inv k w' a zs" "\<not> arenaDestroyed a \<Longrightarrow> slab w' a = slab w a" using slab_kept [OF S W(1,2)] by blast+
qed

lemma slab_wiped:
  assumes S: "slab_inv k w a zs" and x: "wipeInPlace k x w = Some (er, w')"
  shows "slab_inv k w' a zs"
proof -
  have I: "jan_inv k w" "ring_ok k w" using S by (auto simp: slab_inv_def)
  note R = wipe_keeps_ring [OF I x]
  show ?thesis
  proof (cases "arenaDestroyed a")
    case True
    then show ?thesis using S R by (simp add: slab_inv_def)
  next
    case False
    obtain mp where b: "backed k w a mp" "usable_slab w a zs mp" "shape a" by (rule slab_backed [OF S False])
    note B = backedD [OF b(1)] note W = owned_wiped [OF I(1) B(4) x]
    from W(2) show ?thesis
    proof
      assume "kept (ajanitorKey a) w w'"
      then show ?thesis using slab_kept(1) [OF S R(2,1)] B(5) R(3) by simp
    next
      assume "cells w' (awiped a) \<and> (\<exists>mp. maps (mem w') (base (aregion a)) = Some mp \<and> scrubbed (aregion a) mp)"
      then obtain mp' where m: "cells w' (awiped a)" "maps (mem w') (base (aregion a)) = Some mp'" "scrubbed (aregion a) mp'" by blast
      then have "backed k w' a mp'" using B(1,5) R W(1) by (simp add: backed_def region_at_def scrubbed_def)
      moreover have "usable_slab w' a zs mp'" using m by (simp add: usable_slab_def scrubbed_def)
      ultimately show ?thesis using slab_step [OF S] by blast
    qed
  qed
qed

section \<open>The constructor\<close>

lemma wrapInt_id:
  assumes "kernel_ok k" "0 \<le> x" "x \<le> maxInt k"
  shows "wrapInt k x = x"
proof -
  have "intSize k = 32 \<or> intSize k = 64" using assms(1) by (simp add: kernel_ok_def)
  then show ?thesis using assms(2,3) by (auto simp: wrapInt_def maxInt_def)
qed

text \<open>The overflow test of \<^verbatim>\<open>NewArena\<close> is exact.\<close>

lemma slab_size:
  assumes "0 < sz" "0 < cnt"
  shows "maxInt k div cnt - int canaryLen < sz \<longleftrightarrow> maxInt k < (sz + int canaryLen) * cnt"
proof -
  have "sz + int canaryLen \<le> maxInt k div cnt \<longleftrightarrow> (sz + int canaryLen) * cnt \<le> maxInt k"
  proof
    assume "sz + int canaryLen \<le> maxInt k div cnt"
    then have "(sz + int canaryLen) * cnt \<le> maxInt k div cnt * cnt" using assms(2) by simp
    also have "\<dots> \<le> maxInt k" using div_mult_mod_eq [of "maxInt k" cnt] pos_mod_sign [OF assms(2), of "maxInt k"] by linarith
    finally show "(sz + int canaryLen) * cnt \<le> maxInt k" .
  next
    assume "(sz + int canaryLen) * cnt \<le> maxInt k"
    from zdiv_mono1 [OF this assms(2)] show "sz + int canaryLen \<le> maxInt k div cnt" using assms(2) by simp
  qed
  then show ?thesis by linarith
qed

lemma armSlab_spec:
  assumes K: "kernel_ok k" and I: "jan_inv k w" and nu: "base r \<notin> used w" and mp: "region_at r (mem w) (born k r)"
    and z: "chain 0 (zones can) (int (innerLen r))" "zones can \<noteq> []"
  obtains (ok) w2 mp2 where "armSlab k r can w = Some (None, w2)" "jan_inv k w2" "frame {} w w2" "sealKeys w2 = sealKeys w"
      "base r \<notin> used w2" "canary_ready (cpkg w2)" "region_at r (mem w2) mp2" "mprot mp2 = PROT_RW"
      "mbytes mp2 = foldl (armZone (canaryPattern (cpkg w2))) (zeros (innerLen r)) (zones can)"
      "nextJanitorKey w2 = nextJanitorKey w" "\<And>x. peekAny x w2 = peekAny x w"
  | (failed) e w2 where "armSlab k r can w = Some (Some e, w2)" "jan_inv k w2" "frame {} w w2" "sealKeys w2 = sealKeys w"
      "fst (canaryInit (rand k (calls (mem w)) canaryLen) (cpkg w)) \<noteq> None"
proof -
  let ?rnd = "rand k (calls (mem w)) canaryLen"
  have rd: "readMem r (mem w) = Some (zeros (innerLen r))" using mp readMem_Some [OF mp] by (simp add: born_def)
  have ro: "rand_ok ?rnd" using K by (auto simp: rand_ok_def kernel_ok_def split: option.split)
  have ch: "chain 0 (zones can) (int (length (zeros (innerLen r))))" using z(1) by simp
  note A = arm_eq [OF jan_invD(9) [OF I] ro ch]
  from jan_invD(9) [OF I] ro show thesis
  proof (cases rule: canaryInit_cases)
    case (ready c1)
    let ?b = "foldl (armZone (canaryPattern c1)) (zeros (innerLen r)) (zones can)"
    let ?m1 = "upd_mapping (base r) (\<lambda>mp. mp\<lparr>mbytes := ?b\<rparr>) (mem w)"
    have wr: "writeMem r ?b (mem w) = Some ?m1" by (rule writeMem_Some [OF mp]) (auto simp: born_def)
    have c: "canary_ready (cpkg w) \<longrightarrow> c1 = cpkg w" using ready(1) by auto
    note I1 = jan_inv_cpkg [OF I c canary_ready_ok [OF ready(2)]]
    have u: "mem_upd (base r) (\<lambda>mp. mp\<lparr>mbytes := ?b\<rparr>) (mem w) ?m1" by (simp add: mem_upd_def upd_mapping_def)
    have "maps ?m1 a = maps (mem w) a" if "a \<in> used (w\<lparr>cpkg := c1\<rparr>)" for a
      using mem_updD(2) [OF u, of a] that nu by auto
    moreover have "mem_ok ?m1" using mem_ok_dom [OF jan_invD(8) [OF I]] mem_updD(5,6) [OF u] by simp
    ultimately have I2: "jan_inv k (w\<lparr>cpkg := c1, mem := ?m1\<rparr>)" "frame {} (w\<lparr>cpkg := c1\<rparr>) (w\<lparr>cpkg := c1, mem := ?m1\<rparr>)"
      using jan_inv_mem [OF I1(1), of ?m1] by auto
    have "armSlab k r can w = Some (None, w\<lparr>cpkg := c1, mem := ?m1\<rparr>)"
      using rd ready(1) wr z(2) by (simp add: armSlab_def A)
    moreover have "region_at r ?m1 ((born k r)\<lparr>mbytes := ?b\<rparr>)" using mp mem_updD(1) [OF u] by (simp add: region_at_def)
    ultimately show thesis
      using ok [of "w\<lparr>cpkg := c1, mem := ?m1\<rparr>" "(born k r)\<lparr>mbytes := ?b\<rparr>"] I2 frame_trans [OF I1(2) I2(2)] nu ready(2) by (simp add: born_def)
  next
    case (failed e c1)
    have c: "canary_ready (cpkg w) \<longrightarrow> c1 = cpkg w" using failed(1) by auto
    note I1 = jan_inv_cpkg [OF I c failed(2)]
    obtain e2 m2 where f: "freeSecretMem k r (mem w) = (e2, m2)" by fastforce
    have w2: "mem_within {base r} (mem w) m2" by (rule freeSecretMem_within [OF f])
    have "maps m2 a = maps (mem w) a" if "a \<in> used (w\<lparr>cpkg := c1\<rparr>)" for a
    proof -
      have "a \<noteq> base r" using that nu by auto
      then show ?thesis using w2 by (simp add: mem_within_def)
    qed
    moreover have "mem_ok m2" using mem_ok_dom [OF jan_invD(8) [OF I]] w2 by (auto simp: mem_within_def)
    ultimately have I2: "jan_inv k (w\<lparr>cpkg := c1, mem := m2\<rparr>)" "frame {} (w\<lparr>cpkg := c1\<rparr>) (w\<lparr>cpkg := c1, mem := m2\<rparr>)"
      using jan_inv_mem [OF I1(1), of m2] by auto
    have "armSlab k r can w = Some (Some e, w\<lparr>cpkg := c1, mem := m2\<rparr>)"
      using rd failed(1) f z(2) by (simp add: armSlab_def A)
    then show thesis using that(2) I2 frame_trans [OF I1(2) I2(2)] failed(1) by simp
  qed
qed

text \<open>Between the strips an armed slab is zero, and the strips hold the pattern.\<close>

lemma armed_slots:
  assumes s: "0 < sz" "strd = sz + int canaryLen" "0 < cnt" "cnt * strd \<le> int n" and i: "i < nat cnt"
    and a: "astride a = strd" "aslotSize a = sz"
  shows "slotAt a i (foldl (armZone p) (zeros n) (zones (arenaCanary strd sz cnt (int n)))) = zeros (nat sz)"
proof -
  let ?z = "zones (arenaCanary strd sz cnt (int n))" let ?b = "foldl (armZone p) (zeros n) ?z" let ?st = "i * nat strd"
  have "(int i + 1) * strd \<le> cnt * strd" using s i by (intro mult_right_mono) auto
  moreover have "int ((i + 1) * nat strd) = (int i + 1) * strd" using s by (simp add: algebra_simps)
  ultimately have "int ((i + 1) * nat strd) \<le> int n" using s(4) by linarith
  then have e: "?st + nat strd \<le> n" by (simp only: of_nat_le_iff) simp
  have "?b ! (?st + j) = 0" if j: "j < nat sz" for j
  proof -
    have k: "?st + j < n" using e j s by linarith
    have st: "int ?st = int i * strd" using s by simp
    have "(int i * strd + int j) div strd = int i" "(int i * strd + int j) mod strd = int j" using j s by auto
    then have "\<not> covered ?z (?st + j)"
      using covered_arenaCanary [of sz strd cnt "?st + j" "int n"] k s i j st by (simp only: of_nat_less_iff of_nat_add) auto
    then show ?thesis using arm_zones_other [of "?st + j" "zeros n" ?z p] k by simp
  qed
  moreover have "?st + nat sz \<le> n" using e s by linarith
  ultimately show ?thesis unfolding slotAt_def a by (intro nth_equalityI) (auto simp: nth_subslice)
qed

text \<open>The next identity is taken, or the counter has wrapped to the reserved zero.\<close>

definition collides :: "world \<Rightarrow> bool" where
  "collides w \<longleftrightarrow> nextJanitorKey w + 1 = 0 \<or> peekAny (nextJanitorKey w + 1) w \<noteq> None"

lemma newArenaState_spec:
  assumes K: "kernel_ok k" and I: "jan_inv k w" and R: "ring_ok k w" and nu: "base r \<notin> used w"
    and mp: "region_at r (mem w) mp" "mprot mp = PROT_RW" and cr: "canary_ready (cpkg w)"
    and sz: "0 < innerLen r" "innerLen r \<le> outerLen r" "0 < sz" "strd = sz + int canaryLen" "0 < cnt" "cnt * strd \<le> int (innerLen r)"
    and can: "can = arenaCanary strd sz cnt (int (innerLen r))"
  obtains (refused) w' where "newArenaState k r info can sz strd cnt w = Some (Inl ErrKeyCollision, w')" "other_step k w w'" "collides w"
  | (born) a w' where "newArenaState k r info can sz strd cnt w = Some (Inr a, w')" "other_step k w w'" "backed k w' a mp" "shape a"
      "aslots a = seedSlots (nat cnt)" "freeHead a = 0" "freeTail a = toInt32 (cnt - 1)" "alive a = 0" "\<not> adestroyed a" "\<not> areleased a"
      "\<not> rdOnly a" "aslotSize a = sz" "acount a = cnt" "\<not> cells w' (awiped a)" "peekAny (ajanitorKey a) w = None" "cpkg w' = cpkg w" "astride a = strd"
proof -
  obtain mu w1 where l: "newLock w = (mu, w1)" by fastforce
  obtain wp w2 where c: "newCell w1 = (wp, w2)" by fastforce
  note L = newLock_inv [OF I l] note C = newCell_inv [OF L(1) c]
  have f2: "frame {} w w2" using L(2) C(2) frame_trans by blast
  have m2: "mem w2 = mem w" "sealKeys w2 = sealKeys w" "used w2 = used w" "\<not> cells w2 wp" "cpkg w2 = cpkg w"
    using L C by (simp_all add: used_def)
  have nc: "jmu e \<noteq> mu \<and> cells_of e \<inter> {wp} = {}" if "peekAny key w = Some e" for key e
    using jan_invD(3) [OF I that] L(3,5) C(3,4) by (auto simp: entry_ok_def)
  have fresh: "fresh w2 r mu (insert wp (set_option None))" using nu m2(3) L C nc by (auto simp: fresh_def)
  obtain res w3 where reg: "register r can mu None (Some wp) w2 = (res, w3)" by fastforce
  have a: "None \<noteq> Some wp" "region_at r (mem w2) mp" "chain 0 (zones can) (int (innerLen r))" "zones can = [] \<or> canary_ready (cpkg w2)"
    using m2 mp(1) cr sz unfolding can by (auto intro!: chain_arenaCanary)
  note G = register_fresh [OF C(1) fresh a(1,2) mp(2) sz(1,2) a(3,4) reg]
  have G': "jan_inv k w3" "frame {} w w3" "mem w3 = mem w" "sealKeys w3 = sealKeys w" "cells w3 = cells w2" "cpkg w3 = cpkg w"
    using G(1,2,5,6,8,10) m2 frame_trans [OF f2] by auto
  note N = newArenaState_def [of k r info can sz strd cnt w, unfolded l c Let_def prod.case reg]
  have o3: "other_step k w w3" by (rule other_step_frame [OF G'(1) R G'(2,4)])
  show thesis
  proof (cases res)
    case (Inl e)
    have e: "e = ErrKeyCollision" "base r \<notin> used w3" using G(4) [OF Inl] nu m2(3) by simp_all
    have r3: "region_at r (mem w3) mp" using mp(1) G'(3) by simp
    show thesis
    proof (rule discardRegion_spec [OF G'(1) e(2) r3 mp(2)])
      fix m' assume d: "discardRegion k r w3 = Some (w3\<lparr>mem := m'\<rparr>)" "jan_inv k (w3\<lparr>mem := m'\<rparr>)" "frame {} w3 (w3\<lparr>mem := m'\<rparr>)"
      have "other_step k w (w3\<lparr>mem := m'\<rparr>)"
        by (rule other_step_frame [OF d(2) R frame_trans [OF G'(2) d(3)]]) (simp add: G'(4))
      moreover have "collides w"
      proof -
        have "nextJanitorKey w2 = nextJanitorKey w" using l c by (auto simp: newLock_def newCell_def)
        then show ?thesis using reg Inl C(12,13) L(12,13)
          by (auto simp: collides_def register_def Let_def peekAny_def split: if_splits option.splits)
      qed
      ultimately show thesis using refused N Inl d(1) e(1) by simp
    qed
  next
    case (Inr key)
    have E: "peekAny key w2 = None" "wipedset w3 key = None" "regions w3 key =
       Some \<lparr>jregion = r, jmu = mu, jcanary = can, jsealCipher = None, jwiped = Some wp\<rparr>" using G(3) [OF Inr] by simp_all
    have k0: "peekAny key w = None" using E(1) L(9) C(9) by simp
    have nr: "key \<notin> ring_keys w3" using o3 k0 R by (auto simp: other_step_def ring_keys_def G'(4) ring_ok_def owned_def split: if_splits)
    define st where "st = \<lparr>amu = mu, aregion = r, rdOnly = False, aslots = seedSlots (nat cnt), freeHead = 0,
               freeTail = toInt32 (cnt - 1), alive = 0, aslotSize = sz, astride = strd, acount = cnt, abacking = info,
               adestroyed = False, areleased = False, awiped = wp, acleanup = False, ajanitorKey = 0\<rparr>\<lparr>ajanitorKey := key, acleanup := True\<rparr>"
    have N: "newArenaState k r info can sz strd cnt w = Some (Inr st, w3)" unfolding N Inr sum.case st_def by (rule refl)
    have "arena_owned w3 st" using E m2(4) G'(5) by (auto simp: st_def owned_def peekAny_def arena_can_def can)
    then have "backed k w3 st mp" using K G'(1,3) nr mp(1) o3 by (simp add: backed_def other_step_def st_def)
    moreover have "shape st" using sz by (simp add: shape_def st_def)
    ultimately show thesis using born [OF N o3] m2(4) G'(5,6) k0 by (simp add: st_def)
  qed
qed

text \<open>When \<^verbatim>\<open>NewArena\<close> returns an error.\<close>

definition badSizes :: "kernel \<Rightarrow> int \<Rightarrow> int \<Rightarrow> copt option list \<Rightarrow> bool" where
  "badSizes k sz cnt opts \<longleftrightarrow> cClosedAtRest (applyOptions opts) \<or> sz \<le> 0 \<or> cnt \<le> 0 \<or> maxInt32 < cnt \<or>
     maxInt k < (sz + int canaryLen) * cnt"

definition arenaRefused :: "kernel \<Rightarrow> int \<Rightarrow> int \<Rightarrow> copt option list \<Rightarrow> world \<Rightarrow> bool" where
  "arenaRefused k sz cnt opts w \<longleftrightarrow> badSizes k sz cnt opts \<or> gateInsecure (platformHasSecureMemory k) (applyOptions opts) \<noteq> None \<or>
     (\<exists>e m. cfg_alloc (applyOptions opts) k ((sz + int canaryLen) * cnt) (mem w) = (Inl e, m)) \<or>
     (\<exists>n. fst (canaryInit (rand k n canaryLen) (cpkg w)) \<noteq> None) \<or> collides w"

lemma NewArena_spec:
  assumes K: "kernel_ok k" and I: "jan_inv k w" and R: "ring_ok k w"
  obtains (refused) e w' where "NewArena k sz cnt opts w = Some (Inl e, w')" "other_step k w w'" "arenaRefused k sz cnt opts w"
  | (born) a w' where "NewArena k sz cnt opts w = Some (Inr a, w')" "other_step k w w'" "slab_inv k w' a {..<nat cnt}"
      "pool_inv 0 a [] []" "freeList a = [0..<nat cnt]" "in_service w' a" "\<not> rdOnly a" "aslotSize a = sz" "acount a = cnt"
      "peekAny (ajanitorKey a) w = None" "\<not> arenaDestroyed a" "0 < sz" "0 < cnt" "cnt \<le> maxInt32" "(sz + int canaryLen) * cnt \<le> maxInt k"
      "\<not> cClosedAtRest (applyOptions opts)"
proof -
  let ?cfg = "applyOptions opts"
  have ow: "other_step k w w" using I R other_step_frame [OF I R] by simp
  show thesis
  proof (cases "cClosedAtRest ?cfg \<or> sz \<le> 0 \<or> cnt \<le> 0 \<or> maxInt32 < cnt \<or> maxInt k div cnt - int canaryLen < sz \<or> gateInsecure (platformHasSecureMemory k) ?cfg \<noteq> None")
    case True
    then have "\<exists>e. NewArena k sz cnt opts w = Some (Inl e, w)" by (auto simp: NewArena_def Let_def)
    moreover have "arenaRefused k sz cnt opts w" using True slab_size [of sz cnt k] by (auto simp: arenaRefused_def badSizes_def)
    ultimately show thesis using refused ow by blast
  next
    case False
    let ?strd = "sz + int canaryLen"
    have s: "0 < sz" "0 < cnt" "cnt \<le> maxInt32" "?strd * cnt \<le> maxInt k" using False slab_size [of sz cnt k] by auto
    have "?strd * 1 \<le> ?strd * cnt" using s by (intro mult_left_mono) auto
    then have "?strd \<le> maxInt k" using s(4) by (metis mult.right_neutral order.trans)
    then have st: "wrapInt k ?strd = ?strd" using s(1) by (intro wrapInt_id [OF K]) auto
    have tb: "wrapInt k (?strd * cnt) = ?strd * cnt" using s by (intro wrapInt_id [OF K]) auto
    obtain res m1 where a: "cfg_alloc ?cfg k (?strd * cnt) (mem w) = (res, m1)" by fastforce
    note A = cfg_alloc_cases [OF K jan_invD(8) [OF I] a]
    have I1: "jan_inv k (w\<lparr>mem := m1\<rparr>)" "frame {} w (w\<lparr>mem := m1\<rparr>)" using jan_inv_grow [OF I A(1)] by simp_all
    show thesis
    proof (cases res)
      case (Inl e)
      have "other_step k w (w\<lparr>mem := m1\<rparr>)" by (rule other_step_frame [OF I1(1) R I1(2)]) simp
      moreover have "arenaRefused k sz cnt opts w" using a Inl by (auto simp: arenaRefused_def)
      ultimately show thesis using refused a Inl False st tb by (simp add: NewArena_def Let_def)
    next
      case (Inr t)
      then obtain r n info where t: "res = Inr (r, n, info)" by (cases t) auto
      note T = A(2) [OF t]
      let ?can = "arenaCanary ?strd sz cnt (int (innerLen r))"
      have N: "NewArena k sz cnt opts w = do {
           (ae, w1) \<leftarrow> armSlab k r ?can (w\<lparr>mem := m1\<rparr>);
           (case ae of Some e \<Rightarrow> Some (Inl e, w1) | None \<Rightarrow> newArenaState k r info ?can sz ?strd cnt w1) }"
        using a t False st tb by (simp add: NewArena_def Let_def)
      have nu: "base r \<notin> used (w\<lparr>mem := m1\<rparr>)" using used_mapped [OF I, of "base r"] T by auto
      have r1: "region_at r (mem (w\<lparr>mem := m1\<rparr>)) (Sec_Memory.born k r)" using T by simp
      have fit: "cnt * ?strd \<le> int (innerLen r)" using T by (simp add: mult.commute)
      have z: "chain 0 (zones ?can) (int (innerLen r))" using s fit by (intro chain_arenaCanary) auto
      have z': "zones ?can \<noteq> []"
      proof -
        have "(0 * ?strd + sz, (0 + 1) * ?strd) \<in> set (zones ?can)"
          using s by (auto simp: zones_def strips_def arenaCanary_def Let_def canaryLen_def)
        then show ?thesis by auto
      qed
      from K I1(1) nu r1 z z' show thesis
      proof (cases rule: armSlab_spec)
        case (failed e w2)
        have "other_step k w w2" by (rule other_step_frame [OF failed(2) R frame_trans [OF I1(2) failed(3)]]) (use failed(4) in simp)
        moreover have "arenaRefused k sz cnt opts w" using failed(5) unfolding arenaRefused_def by auto
        ultimately show thesis using refused N failed(1) by simp
      next
        case (ok w2 mp2)
        have f: "frame {} w w2" "sealKeys w2 = sealKeys w" using frame_trans [OF I1(2) ok(3)] ok(4) by auto
        have R2: "ring_ok k w2" using ring_ok_frame [OF R f(1) _ f(2)] by simp
        have lift: "other_step k w w3 \<and> (peekAny x w2 = None \<longrightarrow> peekAny x w = None)" if "other_step k w2 w3" for w3 x
        proof -
          have n: "peekAny x w = None" if "peekAny x w2 = None" for x
            using f(1) that kept_peek [of x w w2] by (cases "peekAny x w") (auto simp: frame_def)
          then show ?thesis using that frame_trans [OF frame_mono [OF f(1)], of "ring_keys w"] f(2)
            by (auto simp: other_step_def ring_keys_def split: if_splits)
        qed
        have T': "0 < innerLen r" "innerLen r \<le> outerLen r" using T by auto
        from K ok(2) R2 ok(5,7,8,6) T' s(1) refl s(2) fit refl show thesis
        proof (cases rule: newArenaState_spec [where info = info])
          case (refused w3)
          have "collides w" using refused(3) ok(10,11) by (simp add: collides_def)
          then show thesis using that(1) N ok(1) lift [OF refused(2)] refused(1) by (simp add: arenaRefused_def)
        next
          case (born a w3)
          have zs: "slotAt a i (mbytes mp2) = zeros (nat sz)" if "i < nat cnt" for i
            unfolding ok(9) using s fit that born(12,17) by (intro armed_slots) auto
          have us: "usable_slab w3 a {..<nat cnt} mp2" using born(11,12,14) ok(8) zs by (simp add: usable_slab_def)
          have nd: "\<not> arenaDestroyed a" by (rule backedD(9) [OF born(3)])
          have S: "slab_inv k w3 a {..<nat cnt}" using backedD [OF born(3)] born(3,4,10) us nd by (auto simp: slab_inv_def)
          have c: "0 < nat cnt" "int (nat cnt) \<le> maxInt32" "freeTail a = toInt32 (int (nat cnt) - 1)" using s born(7) by auto
          note Q = seed_linked [OF c(1,2) born(5,6) c(3)] note P = pool_okI [OF Q(1)]
          have "generationOf i a = 0" if "i < nat cnt" for i using Q(2) [of i] that by auto
          then have "pool_inv 0 a [] []" using P born(5,8) by (simp add: pool_inv_def)
          moreover have "in_service w3 a" using born(9,14) by (simp add: in_service_def)
          ultimately show thesis
            using that(2) [of a w3] N ok(1) born(1,11,12,13,15) lift [OF born(2), of "ajanitorKey a"] S P nd s False by simp
        qed
      qed
    qed
  qed
qed

end
