(* ===== verification/Arena_Correct.thy ===== *)
theory Arena_Correct
  imports Arena_Run
begin

text \<open>
  The properties of \<^verbatim>\<open>SecureArena\<close>: its invariant holds in every state of every run, its
  slots are handed out first-in first-out and zeroed, a stale handle is refused for good, slots are
  isolated from one another, and destroying an arena empties it.
\<close>

section \<open>The invariant\<close>

lemma arena_invD:
  assumes "arena_inv k n s"
  shows "pool_inv n (sarena s) (spending s) (sissued s)"
    "slab_inv k (sworld s) (sarena s) (set (freeList (sarena s) @ spending s))"
    "set (freeList (sarena s) @ spending s) \<subseteq> {..<length (aslots (sarena s))}"
    "acount (sarena s) = int (length (aslots (sarena s)))"
  using assms pool_invD(3,11) [of n "sarena s" "spending s" "sissued s"] by (auto simp: arena_inv_def slab_inv_def shape_def)

text \<open>A handle that is still live names a slot that is neither free nor about to be.\<close>

lemma live_not_free:
  assumes "pool_inv n a pend issued" "h \<in> set issued" "generationOf (hidx h) a = hgeneration h"
  shows "hidx h < length (aslots a)" "hidx h \<notin> set (freeList a @ pend)"
  using pool_invD(8) [OF assms(1,2)] pool_invD(4) [OF assms(1), of "hidx h"] pool_invD(9) [OF assms(1,2)] assms(3) by auto

lemma slab_mark:
  assumes "slab_inv k w a zs"
  shows "slab_inv k w (destroyMark a) zs"
proof -
  let ?a = "destroyMark a"
  have "backed k w ?a mp = backed k w a mp" for mp by (rule backed_cong) (simp_all add: destroyMark_def)
  moreover have "usable_slab w ?a zs mp = usable_slab w a zs mp" for mp by (simp add: usable_slab_def slotAt_def destroyMark_def)
  moreover have "shape ?a = shape a" "arenaDestroyed ?a = arenaDestroyed a" "areleased ?a = areleased a" "adestroyed ?a"
    by (simp_all add: shape_def arenaDestroyed_def destroyMark_def)
  ultimately show ?thesis using assms by (simp add: slab_inv_def split: if_splits)
qed

lemma arena_step_inv:
  assumes "arena_step k s s'" "arena_inv k n s" "Suc n < 2 ^ 64"
  shows "arena_inv k (Suc n) s'"
  using assms(1)
proof cases
  case (acquire h a')
  note P = arena_invD [OF assms(2)] note A = acquireSlot_cases [OF acquire(2) pool_invD(1) [OF P(1)]]
  have "slab_inv k (sworld s) a' (set (freeList (sarena s) @ spending s))" using slab_cong [OF A(8,4)] P(2) by simp
  then have "slab_inv k (sworld s) a' (set (freeList a' @ spending s))" by (rule slab_mono) (use A(2) in auto)
  then show ?thesis using pool_acquire(1) [OF P(1) acquire(2) assms(3)] acquire(1) by (simp add: arena_inv_def)
next
  case (borrow h f e w')
  note P = arena_invD [OF assms(2)]
  have "slab_inv k w' (sarena s) (set (freeList (sarena s) @ spending s))"
  proof (cases "w' = sworld s")
    case False
    note L = live_not_free [OF P(1) borrow(2) borrow_cases(4) [OF borrow(3) False]]
    show ?thesis by (rule slab_borrow [OF P(2) borrow(3) L P(3)])
  qed (use P in simp)
  then show ?thesis using pool_mono [OF P(1), of "Suc n"] borrow(1) by (simp add: arena_inv_def)
next
  case (overflow h c z m')
  note P = arena_invD [OF assms(2)]
  have g: "generationOf (hidx h) (sarena s) = hgeneration h" using overflow(3) by (simp add: IsLive_def)
  have d: "\<not> arenaDestroyed (sarena s)"
  proof
    assume "arenaDestroyed (sarena s)"
    then have "innerLen (aregion (sarena s)) = 0" by (simp add: arenaDestroyed_def)
    then have "length (patch (slotEnd h (sarena s)) z c) = 0" using overflow(6) by (auto simp: writeMem_def split: option.splits if_splits)
    then show False using overflow(5) by (simp add: patch_def canaryLen_def)
  qed
  have "slab_inv k ((sworld s)\<lparr>mem := m'\<rparr>) (sarena s) (set (freeList (sarena s) @ spending s))"
    by (rule slab_overflow [OF P(2) live_not_free [OF P(1) overflow(2) g] P(3) overflow(4,5,6) d])
  then show ?thesis using pool_mono [OF P(1), of "Suc n"] overflow(1) by (simp add: arena_inv_def)
next
  case (claim h v a' w')
  note P = arena_invD [OF assms(2)] note C = releaseClaim_cases [OF claim(3)]
  note Q = pool_claim [OF P(1) claim(2) C(1) assms(3)]
  have "slab_inv k w' a' (insert (hidx h) (set (freeList (sarena s) @ spending s)))"
    by (rule slab_claim [OF P(2) _ P(3) claim(3)]) (rule pool_invD(8) [OF P(1) claim(2)])
  then show ?thesis using Q claim(1) C(2) by (simp add: arena_inv_def)
next
  case (push i)
  note P = arena_invD [OF assms(2)] note Q = pool_push [OF P(1) push(2)]
  have b: "i < length (aslots (sarena s))" "i \<notin> set (freeList (sarena s))" using pool_invD(2,3) [OF P(1)] push(2) by auto
  note L = pushFree_linked [OF pool_invD(1) [OF P(1), unfolded pool_ok_def] b]
  have "slab_inv k (sworld s) (pushFree i (sarena s)) (set (freeList (sarena s) @ spending s))"
    using slab_cong [OF L(5,2)] P(2) by simp
  then show ?thesis using pool_mono [OF Q(1), of "Suc n"] Q(3) push(1) by (simp add: arena_inv_def)
next
  case (read_only e a' w')
  note P = arena_invD [OF assms(2)]
  have "aslots a' = aslots (sarena s)" "freeHead a' = freeHead (sarena s)" "freeTail a' = freeTail (sarena s)" "alive a' = alive (sarena s)"
    using read_only(2) by (auto simp: readOnlySlab_def split: if_splits prod.splits option.splits)
  from pool_cong [OF this] show ?thesis
    using slab_readOnly [OF P(2) read_only(2)] pool_mono [OF P(1), of "Suc n"] read_only(1) by (simp add: arena_inv_def)
next
  case (read_write e a' w')
  note P = arena_invD [OF assms(2)]
  have "aslots a' = aslots (sarena s)" "freeHead a' = freeHead (sarena s)" "freeTail a' = freeTail (sarena s)" "alive a' = alive (sarena s)"
    using read_write(2) by (auto simp: readWriteSlab_def split: if_splits prod.splits option.splits)
  from pool_cong [OF this] show ?thesis
    using slab_readWrite [OF P(2) read_write(2)] pool_mono [OF P(1), of "Suc n"] read_write(1) by (simp add: arena_inv_def)
next
  case destroy_mark
  note P = arena_invD [OF assms(2)]
  let ?a = "destroyMark (sarena s)"
  have "slab_inv k (sworld s) ?a (set (freeList (sarena s) @ spending s))" by (rule slab_mark [OF P(2)])
  moreover have "pool_inv n ?a (spending s) (sissued s) = pool_inv n (sarena s) (spending s) (sissued s)" "freeList ?a = freeList (sarena s)"
    by (rule pool_cong; simp add: destroyMark_def)+
  ultimately show ?thesis using pool_mono [of n ?a "spending s" "sissued s" "Suc n"] P(1) destroy_mark by (simp add: arena_inv_def)
next
  case (destroy e a' w')
  note P = arena_invD [OF assms(2)]
  have "slab_inv k w' a' (set (freeList (sarena s) @ spending s)) \<and> aslots a' = aslots (sarena s) \<and> freeHead a' = freeHead (sarena s) \<and>
    freeTail a' = freeTail (sarena s) \<and> alive a' = alive (sarena s)"
  proof (cases "arenaDestroyed (sarena s)")
    case True
    then show ?thesis using destroy(3) P(2) by (simp add: destroySlab_def)
  next
    case False
    from P(2) destroy(2) False show ?thesis by (rule destroySlab_spec) (use destroy(3) in auto)
  qed
  then show ?thesis using pool_cong [of a' "sarena s"] pool_mono [OF P(1), of "Suc n"] destroy(1) by (simp add: arena_inv_def)
next
  case (wipe x er w')
  note P = arena_invD [OF assms(2)]
  show ?thesis using slab_wiped [OF P(2) wipe(2)] pool_mono [OF P(1), of "Suc n"] wipe(1) by (simp add: arena_inv_def)
next
  case (other x w')
  note P = arena_invD [OF assms(2)]
  show ?thesis using slab_other(1) [OF P(2) other(3,2)] pool_mono [OF P(1), of "Suc n"] other(1) by (simp add: arena_inv_def)
qed

lemma arena_reach_inv: "arena_reach k n s \<Longrightarrow> n < 2 ^ 64 \<Longrightarrow> arena_inv k n s"
proof (induction rule: arena_reach.induct)
  case (start w sz cnt opts a w')
  from start(1-3) show ?case
    by (cases rule: NewArena_spec [where sz = sz and cnt = cnt and opts = opts])
      (use start(4) in \<open>auto simp: arena_inv_def lessThan_atLeast0\<close>)
next
  case (step n s s')
  then show ?case using arena_step_inv by simp
qed

text \<open>Generations only grow.\<close>

lemma arena_step_generation:
  assumes "arena_step k s s'" "arena_inv k n s" "Suc n < 2 ^ 64" "i < length (aslots (sarena s))"
  shows "generationOf i (sarena s) \<le> generationOf i (sarena s')" "length (aslots (sarena s')) = length (aslots (sarena s))"
    "set (sissued s) \<subseteq> set (sissued s')"
proof -
  note P = arena_invD [OF assms(2)] note D = pool_invD [OF P(1)]
  have nx: "g \<le> g + 1" if "unat g \<le> n" for g :: "64 word"
    using unat_next [of g] that assms(3) by (simp add: word_le_nat_alt)
  from assms(1) have "generationOf i (sarena s) \<le> generationOf i (sarena s') \<and> length (aslots (sarena s')) = length (aslots (sarena s)) \<and>
    set (sissued s) \<subseteq> set (sissued s')"
  proof cases
    case (acquire h a')
    note A = acquireSlot_cases [OF acquire(2) D(1)]
    have "hidx h < length (aslots (sarena s))" using A(2) D(11) by simp
    then show ?thesis using A(4) A(7) [of i] A(6) nx [OF D(5)] acquire(1) by auto
  next
    case (claim h v a' w')
    note C = releaseClaim_cases [OF claim(3)]
    have "hidx h < length (aslots (sarena s))" by (rule D(8) [OF claim(2)])
    then have "generationOf i a' = (if i = hidx h then hgeneration h + 1 else generationOf i (sarena s))"
      unfolding C(2) by (auto simp: generationOf_def setGeneration_def nth_list_update)
    then show ?thesis using C(1,2) nx [of "hgeneration h"] D(5) [OF assms(4)] claim(1) by (auto simp: setGeneration_def)
  next
    case (push i')
    have b: "i' < length (aslots (sarena s))" "i' \<notin> set (freeList (sarena s))" using D(2,3) push(2) by auto
    note L = pushFree_linked(2,3) [OF D(1) [unfolded pool_ok_def] b]
    show ?thesis using L(1) L(2) [of i] push(1) by simp
  next
    case (destroy e a' w')
    then show ?thesis by (auto simp: destroySlab_def generationOf_def split: if_splits bind_splits)
  qed (auto simp: generationOf_def destroyMark_def readOnlySlab_def readWriteSlab_def split: if_splits prod.splits option.splits)
  then show "generationOf i (sarena s) \<le> generationOf i (sarena s')" "length (aslots (sarena s')) = length (aslots (sarena s))"
    "set (sissued s) \<subseteq> set (sissued s')" by auto
qed

text \<open>A handle that is no longer live never becomes live again.\<close>

lemma stale_forever:
  "(arena_step k ^^ m) s s' \<Longrightarrow> arena_inv k n s \<Longrightarrow> n + m < 2 ^ 64 \<Longrightarrow> h \<in> set (sissued s) \<Longrightarrow>
   hgeneration h < generationOf (hidx h) (sarena s) \<Longrightarrow>
   arena_inv k (n + m) s' \<and> h \<in> set (sissued s') \<and> hgeneration h < generationOf (hidx h) (sarena s')"
proof (induction m arbitrary: s n)
  case (Suc m)
  from Suc.prems(1) obtain s1 where s1: "arena_step k s s1" "(arena_step k ^^ m) s1 s'" using relpowp_Suc_D2 by metis
  have n: "Suc n < 2 ^ 64" using Suc.prems(3) by simp
  have i: "hidx h < length (aslots (sarena s))" by (rule pool_invD(8) [OF arena_invD(1) [OF Suc.prems(2)] Suc.prems(4)])
  note G = arena_step_generation [OF s1(1) Suc.prems(2) n i]
  have "h \<in> set (sissued s1)" "hgeneration h < generationOf (hidx h) (sarena s1)"
    using G(1,3) Suc.prems(4,5) by auto
  from Suc.IH [OF s1(2) arena_step_inv [OF s1(1) Suc.prems(2) n] _ this] Suc.prems(3) show ?case by simp
qed simp

section \<open>A run\<close>

text \<open>An arena of two slots of four bytes, and its first slot handed out.\<close>

lemma ex_cfg_alloc: "\<exists>t m. cfg_alloc (applyOptions []) ex_kernel 40 (mem ex_empty) = (Inr t, m)"
  by (simp add: cfg_alloc_def applyOptions_def config_zero_def allocSecretMem_def allocSecretMem_linux_def guardedSizes_def ex_kernel_def maxInt_def
      allocMemfdSecret_def memfdOpen_def sys_def mmapNone_def mprotect_def madvise_def mkRegion_def allocMapAnonGuarded_def mlock_def
      ex_empty_def ex_world_def ex_mapped_def ex_memory_def Let_def)

lemma ex_not_refused: "\<not> arenaRefused ex_kernel 4 2 [] ex_empty"
proof -
  have "nextJanitorKey ex_empty + 1 \<noteq> 0" by (simp add: ex_empty_def ex_world_def)
  moreover have "fst (canaryInit (rand ex_kernel n canaryLen) (cpkg ex_empty)) = None" for n
    by (simp add: canaryInit_def ex_kernel_def ex_empty_def ex_world_def canary_zero_def)
  moreover have "\<not> badSizes ex_kernel 4 2 []" "gateInsecure (platformHasSecureMemory ex_kernel) (applyOptions []) = None"
    by (simp_all add: badSizes_def applyOptions_def config_zero_def maxInt32_def maxInt_def canaryLen_def ex_kernel_def gateInsecure_def
        platformHasSecureMemory_def)
  moreover have "\<exists>t m. cfg_alloc (applyOptions []) ex_kernel ((4 + int canaryLen) * 2) (mem ex_empty) = (Inr t, m)"
    using ex_cfg_alloc by (simp add: canaryLen_def)
  ultimately show ?thesis unfolding arenaRefused_def collides_def by (auto simp: ex_empty_peek)
qed

lemma ex_empty_ring: "ring_ok ex_kernel ex_empty"
  by (simp add: ring_ok_def ex_empty_def ex_world_def)

lemma ex_arena:
  obtains s where "arena_reach ex_kernel 0 s" "freeList (sarena s) = [0, 1]" "in_service (sworld s) (sarena s)" "\<not> rdOnly (sarena s)"
    "spending s = []" "sissued s = []" "\<not> arenaDestroyed (sarena s)" "aslotSize (sarena s) = 4"
proof -
  from ex_kernel_ok ex_empty_inv ex_empty_ring show thesis
  proof (cases rule: NewArena_spec [where sz = 4 and cnt = 2 and opts = "[]"])
    case (refused e w')
    then show thesis using ex_not_refused by simp
  next
    case (born a w')
    have "[0..<nat 2] = [0, 1]" by (simp add: upt_rec)
    then show thesis
      using that [OF arena_reach.start [OF ex_kernel_ok ex_empty_inv ex_empty_ring born(1)]] born(5-8,11) by simp
  qed
qed

lemma ex_acquired:
  obtains s where "arena_reach ex_kernel 1 s" "freeList (sarena s) = [1]" "in_service (sworld s) (sarena s)" "\<not> rdOnly (sarena s)"
    "spending s = []" "sissued s = [\<lparr>hidx = 0, hgeneration = 1\<rparr>]" "IsLive (Some \<lparr>hidx = 0, hgeneration = 1\<rparr>) (sarena s)"
    "\<not> arenaDestroyed (sarena s)" "aslotSize (sarena s) = 4"
proof -
  obtain s where s: "arena_reach ex_kernel 0 s" "freeList (sarena s) = [0, 1]" "in_service (sworld s) (sarena s)" "\<not> rdOnly (sarena s)"
    "spending s = []" "sissued s = []" "\<not> arenaDestroyed (sarena s)" "aslotSize (sarena s) = 4" by (rule ex_arena)
  note P = arena_invD(1) [OF arena_reach_inv [OF s(1)], simplified]
  have g: "generationOf 0 (sarena s) = 0"
    using pool_invD(5) [OF P, of 0] pool_invD(11) [OF P] s(2) by (simp add: unat_eq_0)
  from pool_invD(1) [OF P] s(2) have l: "linked (sarena s) [0, 1]" by (simp add: pool_ok_def)
  from l s(3) show thesis
  proof (rule acquireSlot_Cons)
    fix a' assume a: "acquireSlot (sarena s) (sworld s) = (Inr \<lparr>hidx = 0, hgeneration = generationOf 0 (sarena s) + 1\<rparr>, a')" "linked a' [1]"
      "\<And>j. generationOf j a' = (if j = 0 then generationOf 0 (sarena s) + 1 else generationOf j (sarena s))"
      "a' = (sarena s)\<lparr>freeHead := freeHead a', freeTail := freeTail a', aslots := aslots a', alive := alive a'\<rparr>"
    have "arena_reach ex_kernel 1 (s\<lparr>sarena := a', sissued := \<lparr>hidx = 0, hgeneration = 1\<rparr> # sissued s\<rparr>)"
      using arena_reach.step [OF s(1) arena_step.acquire [OF a(1)]] g by simp
    moreover have "in_service (sworld s) a'" "\<not> rdOnly a'" "\<not> arenaDestroyed a'" "aslotSize a' = 4"
      using s(3,4,7,8) by (subst a(4), simp add: in_service_def arenaDestroyed_def)+
    ultimately show thesis
      using that [of "s\<lparr>sarena := a', sissued := \<lparr>hidx = 0, hgeneration = 1\<rparr> # sissued s\<rparr>"] s(5,6) pool_okI [OF a(2)] a(3) [of 0] g
      by (simp add: IsLive_def)
  qed
qed

text \<open>The slot claimed by a \<^verbatim>\<open>Release\<close> that has not put it back yet.\<close>

lemma ex_claimed:
  obtains s where "arena_reach ex_kernel 2 s" "freeList (sarena s) = [1]" "spending s = [0]" "sissued s = [\<lparr>hidx = 0, hgeneration = 1\<rparr>]"
    "\<not> IsLive (Some \<lparr>hidx = 0, hgeneration = 1\<rparr>) (sarena s)"
proof -
  let ?h = "\<lparr>hidx = 0, hgeneration = 1\<rparr> :: ArenaSlot"
  obtain s where s: "arena_reach ex_kernel 1 s" "freeList (sarena s) = [1]" "in_service (sworld s) (sarena s)" "\<not> rdOnly (sarena s)"
    "spending s = []" "sissued s = [?h]" "IsLive (Some ?h) (sarena s)" "\<not> arenaDestroyed (sarena s)" by (rule ex_acquired)
  note P = arena_invD [OF arena_reach_inv [OF s(1)], simplified]
  have i: "hidx ?h < length (aslots (sarena s))" "?h \<in> set (sissued s)" using pool_invD(8) [OF P(1), of ?h] s(6) by auto
  have g: "generationOf (hidx ?h) (sarena s) = hgeneration ?h" using s(7) by (simp add: IsLive_def)
  let ?a = "setGeneration 0 2 (sarena s)"
  obtain v w' where c: "releaseClaim ex_kernel ?h (sarena s) (sworld s) = Some (Claimed v, ?a, w')"
    by (rule releaseClaim_live [OF P(2) i(1) _ s(8) g]) (use P(3) s(4) in auto)
  have "generationOf 0 ?a = 2" using i(1) by (simp add: generationOf_def setGeneration_def)
  moreover have "freeList ?a = [1]" using pool_claim(2) [OF P(1) i(2) g] s(2) by simp
  moreover have "arena_reach ex_kernel 2 (s\<lparr>sarena := ?a, sworld := w', spending := spending s @ [0]\<rparr>)"
    using arena_reach.step [OF s(1) arena_step.claim [OF i(2) c]] by (simp add: numeral_2_eq_2)
  ultimately show thesis using that s(5,6) by (simp add: IsLive_def)
qed

section \<open>Properties\<close>

text \<open>
  C12. In every state of every run of fewer than \<open>2 ^ 64\<close> steps, whatever the interleaving with the
  other users of the library and with the emergency wipe: the free list has no cycle and no
  duplicate, the slots on it or about to return to it are exactly those with an even generation,
  \<^verbatim>\<open>LiveCount\<close> is the number of slots that are not on it, and two live handles of one slot
  are one handle.
\<close>

theorem arena_invariant:
  assumes "arena_reach k n s" "n < 2 ^ 64"
  shows "distinct (freeList (sarena s) @ spending s) \<and>
    set (freeList (sarena s) @ spending s) = {i. int i < ArenaCap (LiveArena (sarena s)) \<and> even (unat (generationOf i (sarena s)))} \<and>
    LiveCount (LiveArena (sarena s)) = ArenaCap (LiveArena (sarena s)) - int (length (freeList (sarena s))) \<and>
    (\<forall>h\<in>set (sissued s). \<forall>g\<in>set (sissued s). hidx h = hidx g \<and> IsLive (Some h) (sarena s) \<and> IsLive (Some g) (sarena s) \<longrightarrow> h = g)"
proof -
  note P = arena_invD [OF arena_reach_inv [OF assms]] note D = pool_invD [OF P(1)]
  have "set (freeList (sarena s) @ spending s) = {i. int i < ArenaCap (LiveArena (sarena s)) \<and> even (unat (generationOf i (sarena s)))}"
    using P(3) D(4) P(4) by (auto simp: ArenaCap_def)
  moreover have "h = g" if "hidx h = hidx g" "IsLive (Some h) (sarena s)" "IsLive (Some g) (sarena s)" for h g :: ArenaSlot
    using that by (cases h; cases g) (simp add: IsLive_def)
  ultimately show ?thesis using D(2,6) P(4) by (auto simp: LiveCount_def ArenaCap_def)
qed

theorem arena_invariant_witness:
  "\<exists>s. arena_reach ex_kernel 1 s \<and> freeList (sarena s) = [1] \<and> LiveCount (LiveArena (sarena s)) = ArenaCap (LiveArena (sarena s)) - 1"
proof -
  obtain s where s: "arena_reach ex_kernel 1 s" "freeList (sarena s) = [1]" by (rule ex_acquired)
  then show ?thesis using arena_invariant [OF s(1)] by auto
qed

text \<open>The slots successive calls of \<^verbatim>\<open>Acquire\<close> hand out.\<close>

primrec acquires :: "nat \<Rightarrow> SecureArena \<Rightarrow> world \<Rightarrow> nat list" where
  "acquires 0 s w = []"
| "acquires (Suc n) s w = (case ArenaAcquire s w of (Inr h, s1) \<Rightarrow> hidx h # acquires n s1 w | (Inl _, _) \<Rightarrow> [])"

lemma acquires_pops: "acquires n (LiveArena a) w = fst (acq.pops w n a)"
  by (induction n arbitrary: a) (auto simp: ArenaAcquire_def acquireIdx_def split: prod.splits sum.splits)

text \<open>
  C16. The free list is a first-in, first-out queue: \<^verbatim>\<open>Acquire\<close> fails with
  \<^verbatim>\<open>ErrArenaFull\<close> exactly when no slot is free, successive calls hand the free slots out in
  the order of the list, and a slot that \<^verbatim>\<open>Release\<close> puts back is handed out after every slot
  that was free before it.
\<close>

theorem Acquire_fifo:
  assumes "arena_reach k n s" "n < 2 ^ 64" "\<not> adestroyed (sarena s)" "\<not> cells (sworld s) (awiped (sarena s))"
  shows "(fst (ArenaAcquire (LiveArena (sarena s)) (sworld s)) = Inl ErrArenaFull \<longleftrightarrow> freeList (sarena s) = []) \<and>
    acquires m (LiveArena (sarena s)) (sworld s) = take m (freeList (sarena s)) \<and>
    (\<forall>i\<in>set (spending s). acquires m (LiveArena (pushFree i (sarena s))) (sworld s) = take m (freeList (sarena s) @ [i]))"
proof -
  note P = arena_invD [OF arena_reach_inv [OF assms(1,2)]] note D = pool_invD [OF P(1)]
  have g: "pool_ok (sarena s) \<and> in_service (sworld s) (sarena s)" using D(1) assms(3,4) by (simp add: in_service_def)
  have full: "fst (ArenaAcquire (LiveArena (sarena s)) (sworld s)) = Inl ErrArenaFull \<longleftrightarrow> freeList (sarena s) = []"
    using acq.pop_None_iff [OF g] g
    by (auto simp: ArenaAcquire_def acquireIdx_def acquireSlot_def in_service_def Let_def split: option.splits prod.splits sum.splits)
  have "acquires m (LiveArena (pushFree i (sarena s))) (sworld s) = take m (freeList (sarena s) @ [i])" if "i \<in> set (spending s)" for i
    using acq.pushed_is_last [OF g, of i m] that D(2,3) by (auto simp: acquires_pops)
  then show ?thesis using full acq.pops_take [OF g, of m] by (simp add: acquires_pops)
qed

theorem Acquire_fifo_witness:
  "\<exists>s. arena_reach ex_kernel 0 s \<and> acquires 2 (LiveArena (sarena s)) (sworld s) = [0, 1]"
proof -
  obtain s where s: "arena_reach ex_kernel 0 s" "freeList (sarena s) = [0, 1]" "in_service (sworld s) (sarena s)" by (rule ex_arena)
  then show ?thesis using Acquire_fifo [OF s(1), of 2] by (auto simp: in_service_def)
qed

text \<open>
  C15. A slot that \<^verbatim>\<open>Acquire\<close> hands out holds zeros, whoever held it before: a callback that
  only reads is called on \<^verbatim>\<open>slotSize\<close> zero bytes, and its error is returned.
\<close>

theorem Acquire_zeroed:
  assumes "arena_reach k n s" "Suc n < 2 ^ 64" "acquireSlot (sarena s) (sworld s) = (Inr h, a')" "\<forall>b. snd (f b) = b"
  shows "SlotWithBytesErr (Some f) (Some h) a' (sworld s) = Some (fst (f (zeros (nat (aslotSize (sarena s))))), sworld s)"
proof -
  let ?a = "sarena s" let ?w = "sworld s"
  note P = arena_invD [OF arena_reach_inv [OF assms(1)]]
  have n: "n < 2 ^ 64" using assms(2) by simp
  note D = pool_invD [OF P(1) [OF n]] note A = acquireSlot_cases [OF assms(3) D(1)]
  have sv: "\<not> adestroyed ?a" "\<not> cells ?w (awiped ?a)" using A(1) by (auto simp: in_service_def)
  have d: "\<not> arenaDestroyed ?a" using P(2) [OF n] sv(1) by (auto simp: slab_inv_def)
  obtain mp where b: "backed k ?w ?a mp" "usable_slab ?w ?a (set (freeList ?a @ spending s)) mp" by (rule slab_backed [OF P(2) [OF n] d])
  have same: "adestroyed a' = adestroyed ?a" "awiped a' = awiped ?a" "aregion a' = aregion ?a" "aslotSize a' = aslotSize ?a" "astride a' = astride ?a"
    by (subst A(8), simp)+
  have p: "mprot mp \<noteq> PROT_NONE" "slotAt ?a (hidx h) (mbytes mp) = zeros (nat (aslotSize ?a))"
    using b(2) sv(2) A(2) by (simp_all add: usable_slab_def)
  have "hidx h < length (aslots ?a)" using A(2) D(11) by simp
  then have "hidx h * nat (astride ?a) + nat (aslotSize ?a) \<le> length (mbytes mp)"
    using slot_inside [OF _ d] P(2) [OF n] nat_stride [of ?a] backedD(7) [OF b(1)] by (fastforce simp: slab_inv_def)
  from patch_subslice [OF le_add1 this] have "patch (slotStart h a') (zeros (nat (aslotSize ?a))) (mbytes mp) = mbytes mp"
    using p(2) by (simp add: slotStart_def same slotAt_def)
  moreover have "subslice (slotStart h a') (slotEnd h a') (mbytes mp) = zeros (nat (aslotSize ?a))"
    using p(2) by (simp add: slotStart_def slotEnd_def same slotAt_def)
  moreover have "generationOf (hidx h) a' = hgeneration h" using A(7) [of "hidx h"] by simp
  ultimately show ?thesis
    using sv d same readMem_Some [OF backedD(6) [OF b(1)] p(1)] assms(4)
    by (simp add: SlotWithBytesErr_def Let_def arenaDestroyed_def goCopy_whole)
qed

theorem Acquire_zeroed_witness:
  "\<exists>s h a'. arena_reach ex_kernel 0 s \<and> acquireSlot (sarena s) (sworld s) = (Inr h, a') \<and>
     SlotWithBytesErr (Some (\<lambda>b. (if b = [0, 0, 0, 0] then Some ErrWiped else None, b))) (Some h) a' (sworld s) = Some (Some ErrWiped, sworld s)"
proof -
  obtain s where s: "arena_reach ex_kernel 0 s" "freeList (sarena s) = [0, 1]" "in_service (sworld s) (sarena s)" "aslotSize (sarena s) = 4"
    by (rule ex_arena)
  have "linked (sarena s) [0, 1]" using pool_invD(1) [OF arena_invD(1) [OF arena_reach_inv [OF s(1)]]] s(2) by (simp add: pool_ok_def)
  then obtain h a' where q: "acquireSlot (sarena s) (sworld s) = (Inr h, a')" using s(3) by (rule acquireSlot_Cons) blast
  have "zeros (nat (aslotSize (sarena s))) = [0, 0, 0, 0]" unfolding s(4) by (simp add: numeral_eq_Suc)
  then show ?thesis using Acquire_zeroed [OF s(1) _ q, of "\<lambda>b. (if b = [0, 0, 0, 0] then Some ErrWiped else None, b)"] s(1) q by auto
qed

text \<open>
  C13. A handle that is no longer live, because its slot was released or has been handed out again,
  is refused for good: after any further steps of the run a borrow through it calls no callback and
  changes nothing, \<^verbatim>\<open>IsLive\<close> is false and \<^verbatim>\<open>Release\<close> does nothing, whoever owns
  the slot by then.
\<close>

theorem stale_handle_refused:
  assumes "arena_reach k n s" "n + m < 2 ^ 64" "h \<in> set (sissued s)" "\<not> IsLive (Some h) (sarena s)" "(arena_step k ^^ m) s s'"
  shows "\<not> IsLive (Some h) (sarena s') \<and> ArenaRelease k (Some h) (sarena s') (sworld s') = Some (None, sarena s', sworld s') \<and>
    (\<exists>e\<in>{ErrSlotReleased, ErrDestroyed, ErrWiped}. SlotWithBytesErr (Some f) (Some h) (sarena s') (sworld s') = Some (Some e, sworld s'))"
proof -
  have I: "arena_inv k n s" using arena_reach_inv [OF assms(1)] assms(2) by simp
  have "hgeneration h < generationOf (hidx h) (sarena s)"
    using pool_invD(10) [OF arena_invD(1) [OF I] assms(3)] assms(4) by (auto simp: IsLive_def)
  from stale_forever [OF assms(5) I assms(2,3) this] have "generationOf (hidx h) (sarena s') \<noteq> hgeneration h" by auto
  then show ?thesis by (auto simp: IsLive_def ArenaRelease_def SlotWithBytesErr_def)
qed

theorem stale_handle_refused_witness:
  "\<exists>s s'. arena_reach ex_kernel 2 s \<and> (arena_step ex_kernel ^^ 1) s s' \<and> freeList (sarena s') = [1, 0] \<and>
     ArenaRelease ex_kernel (Some \<lparr>hidx = 0, hgeneration = 1\<rparr>) (sarena s') (sworld s') = Some (None, sarena s', sworld s')"
proof -
  obtain s where s: "arena_reach ex_kernel 2 s" "freeList (sarena s) = [1]" "spending s = [0]" "sissued s = [\<lparr>hidx = 0, hgeneration = 1\<rparr>]"
    "\<not> IsLive (Some \<lparr>hidx = 0, hgeneration = 1\<rparr>) (sarena s)" by (rule ex_claimed)
  let ?s = "s\<lparr>sarena := pushFree 0 (sarena s), spending := remove1 0 (spending s)\<rparr>"
  have st: "(arena_step ex_kernel ^^ 1) s ?s" using arena_step.push [of 0 s ex_kernel] s(3) unfolding relpowp_1 by simp
  have "freeList (sarena ?s) = [1, 0]"
    using pool_push(2) [OF arena_invD(1) [OF arena_reach_inv [OF s(1)]], of 0] s(2,3) by simp
  moreover have "ArenaRelease ex_kernel (Some \<lparr>hidx = 0, hgeneration = 1\<rparr>) (sarena ?s) (sworld ?s) = Some (None, sarena ?s, sworld ?s)"
    using stale_handle_refused [OF s(1) _ _ s(5) st] s(4) by simp
  ultimately show ?thesis using s(1) st by blast
qed

text \<open>
  C14. A borrow through a live handle of an arena in service never faults, provided the callback does
  not write while the slab is read-only: the callback sees the bytes of its slot, its error is
  returned, the slot holds what it left, and no byte of any other slot or of any canary strip has
  changed.
\<close>

theorem slot_isolation:
  assumes "arena_reach k n s" "n < 2 ^ 64" "h \<in> set (sissued s)" "IsLive (Some h) (sarena s)"
    and "\<not> adestroyed (sarena s)" "\<not> cells (sworld s) (awiped (sarena s))" "rdOnly (sarena s) \<longrightarrow> (\<forall>b. snd (f b) = b)"
  shows "\<exists>w'. SlotWithBytesErr (Some f) (Some h) (sarena s) (sworld s) =
      Some (fst (f (slotAt (sarena s) (hidx h) (mbytes (slab (sworld s) (sarena s))))), w') \<and>
    slotAt (sarena s) (hidx h) (mbytes (slab w' (sarena s))) =
      goCopy 0 (snd (f (slotAt (sarena s) (hidx h) (mbytes (slab (sworld s) (sarena s)))))) (slotAt (sarena s) (hidx h) (mbytes (slab (sworld s) (sarena s)))) \<and>
    (\<forall>j. int j < acount (sarena s) \<longrightarrow> stripAt (sarena s) j (mbytes (slab w' (sarena s))) = stripAt (sarena s) j (mbytes (slab (sworld s) (sarena s))) \<and>
      (j \<noteq> hidx h \<longrightarrow> slotAt (sarena s) j (mbytes (slab w' (sarena s))) = slotAt (sarena s) j (mbytes (slab (sworld s) (sarena s)))))"
proof -
  let ?a = "sarena s" let ?w = "sworld s"
  note P = arena_invD [OF arena_reach_inv [OF assms(1,2)]]
  have d: "\<not> arenaDestroyed ?a" using P(2) assms(5) by (auto simp: slab_inv_def)
  obtain mp where b: "backed k ?w ?a mp" "usable_slab ?w ?a (set (freeList ?a @ spending s)) mp" "shape ?a" by (rule slab_backed [OF P(2) d])
  note B = backedD [OF b(1)]
  have i: "hidx h < length (aslots ?a)" by (rule pool_invD(8) [OF P(1) assms(3)])
  have g: "generationOf (hidx h) ?a = hgeneration h" using assms(4) by (simp add: IsLive_def)
  have p: "mprot mp \<noteq> PROT_NONE" "mprot mp \<noteq> PROT_RW \<longrightarrow> rdOnly ?a" using b(2) assms(6) by (auto simp: usable_slab_def)
  then have f: "mprot mp \<noteq> PROT_RW \<longrightarrow> goCopy 0 (snd (f (slotAt ?a (hidx h) (mbytes mp)))) (slotAt ?a (hidx h) (mbytes mp)) = slotAt ?a (hidx h) (mbytes mp)"
    using assms(7) by (simp add: goCopy_whole)
  from b(1,3) assms(5,6) i g p(1) f show ?thesis
  proof (rule borrow_spec)
    fix w' mp' assume r: "SlotWithBytesErr (Some f) (Some h) ?a ?w = Some (fst (f (slotAt ?a (hidx h) (mbytes mp))), w')"
      "backed k w' ?a mp'"
      "slotAt ?a (hidx h) (mbytes mp') = goCopy 0 (snd (f (slotAt ?a (hidx h) (mbytes mp)))) (slotAt ?a (hidx h) (mbytes mp))"
      "\<And>j. j < length (aslots ?a) \<Longrightarrow> j \<noteq> hidx h \<Longrightarrow> slotAt ?a j (mbytes mp') = slotAt ?a j (mbytes mp)"
      "\<And>j. j < length (aslots ?a) \<Longrightarrow> stripAt ?a j (mbytes mp') = stripAt ?a j (mbytes mp)"
    then show ?thesis using B(8) backedD(8) [OF r(2)] P(4) by auto
  qed
qed

theorem slot_isolation_witness:
  "\<exists>s w'. arena_reach ex_kernel 1 s \<and>
     SlotWithBytesErr (Some (\<lambda>b. (None, [1, 2, 3, 4, 5]))) (Some \<lparr>hidx = 0, hgeneration = 1\<rparr>) (sarena s) (sworld s) = Some (None, w') \<and>
     slotAt (sarena s) 1 (mbytes (slab w' (sarena s))) = slotAt (sarena s) 1 (mbytes (slab (sworld s) (sarena s)))"
proof -
  obtain s where s: "arena_reach ex_kernel 1 s" "freeList (sarena s) = [1]" "in_service (sworld s) (sarena s)" "\<not> rdOnly (sarena s)"
    "sissued s = [\<lparr>hidx = 0, hgeneration = 1\<rparr>]" "IsLive (Some \<lparr>hidx = 0, hgeneration = 1\<rparr>) (sarena s)" by (rule ex_acquired)
  note P = arena_invD [OF arena_reach_inv [OF s(1)], simplified]
  have "int 1 < acount (sarena s)" using P(3,4) s(2) by simp
  then show ?thesis
    using slot_isolation [OF s(1) _ _ s(6), of "\<lambda>b. (None, [1, 2, 3, 4, 5])"] s(1,3,4,5) by (auto simp: in_service_def)
qed

text \<open>
  \<^verbatim>\<open>Release\<close> of a handle: without effect when the handle is stale, refused with
  \<^verbatim>\<open>ErrReadOnly\<close> while the slab is read-only and not wiped; otherwise the handle is dead, the
  slot is zero and last on the free list, every other slot is unchanged, and the error is
  \<^verbatim>\<open>ErrCanaryViolation\<close> exactly when the strip after the slot no longer holds the pattern.
\<close>

theorem ArenaRelease_correct:
  assumes "arena_reach k n s" "Suc n < 2 ^ 64" "h \<in> set (sissued s)"
  shows "(\<not> IsLive (Some h) (sarena s) \<longrightarrow> ArenaRelease k (Some h) (sarena s) (sworld s) = Some (None, sarena s, sworld s)) \<and>
    (IsLive (Some h) (sarena s) \<and> \<not> arenaDestroyed (sarena s) \<and> rdOnly (sarena s) \<and> \<not> cells (sworld s) (awiped (sarena s)) \<longrightarrow>
      ArenaRelease k (Some h) (sarena s) (sworld s) = Some (Some ErrReadOnly, sarena s, sworld s)) \<and>
    (IsLive (Some h) (sarena s) \<and> \<not> arenaDestroyed (sarena s) \<and> (\<not> rdOnly (sarena s) \<or> cells (sworld s) (awiped (sarena s))) \<longrightarrow>
      (\<exists>a' w'. ArenaRelease k (Some h) (sarena s) (sworld s) = Some (if \<not> cells (sworld s) (awiped (sarena s)) \<and>
          stripAt (sarena s) (hidx h) (mbytes (slab (sworld s) (sarena s))) \<noteq> canaryFill (canaryPattern (cpkg (sworld s))) canaryLen
          then Some ErrCanaryViolation else None, a', w') \<and>
        freeList a' = freeList (sarena s) @ [hidx h] \<and> \<not> IsLive (Some h) a' \<and>
        slotAt (sarena s) (hidx h) (mbytes (slab w' (sarena s))) = zeros (nat (aslotSize (sarena s))) \<and>
        (\<forall>j. int j < acount (sarena s) \<and> j \<noteq> hidx h \<longrightarrow>
          slotAt (sarena s) j (mbytes (slab w' (sarena s))) = slotAt (sarena s) j (mbytes (slab (sworld s) (sarena s))))))"
proof -
  let ?a = "sarena s" let ?w = "sworld s" let ?a1 = "setGeneration (hidx h) (hgeneration h + 1) ?a"
  have n: "n < 2 ^ 64" using assms(2) by simp
  note P = arena_invD [OF arena_reach_inv [OF assms(1) n]] note D = pool_invD [OF P(1)]
  have i: "hidx h < length (aslots ?a)" by (rule D(8) [OF assms(3)])
  have "\<exists>a' w'. ArenaRelease k (Some h) ?a ?w = Some (if \<not> cells ?w (awiped ?a) \<and>
          stripAt ?a (hidx h) (mbytes (slab ?w ?a)) \<noteq> canaryFill (canaryPattern (cpkg ?w)) canaryLen then Some ErrCanaryViolation else None, a', w') \<and>
        freeList a' = freeList ?a @ [hidx h] \<and> \<not> IsLive (Some h) a' \<and> slotAt ?a (hidx h) (mbytes (slab w' ?a)) = zeros (nat (aslotSize ?a)) \<and>
        (\<forall>j. int j < acount ?a \<and> j \<noteq> hidx h \<longrightarrow> slotAt ?a j (mbytes (slab w' ?a)) = slotAt ?a j (mbytes (slab ?w ?a)))"
    if l: "IsLive (Some h) ?a" and d: "\<not> arenaDestroyed ?a" and ro: "\<not> rdOnly ?a \<or> cells ?w (awiped ?a)"
  proof -
    have g: "generationOf (hidx h) ?a = hgeneration h" using l by (simp add: IsLive_def)
    note Q = pool_claim [OF P(1) assms(3) g assms(2)]
    have pe: "hidx h \<in> set (spending s @ [hidx h])" by simp
    note U = pool_push [OF Q(1) pe]
    have b: "hidx h < length (aslots ?a1)" "hidx h \<notin> set (freeList ?a1)" using i live_not_free [OF P(1) assms(3) g] Q(2) by (auto simp: setGeneration_def)
    have g1: "generationOf (hidx h) (pushFree (hidx h) ?a1) = hgeneration h + 1"
      using pushFree_linked(3) [OF pool_invD(1) [OF Q(1), unfolded pool_ok_def] b] i by (simp add: generationOf_def setGeneration_def)
    from P(2) i P(3) d g ro show ?thesis
    proof (rule releaseClaim_live)
      fix v w' mp mp' assume r: "releaseClaim k h ?a ?w = Some (Claimed v, ?a1, w')" "backed k ?w ?a mp" "backed k w' ?a mp'"
        "slotAt ?a (hidx h) (mbytes mp') = zeros (nat (aslotSize ?a))"
        "\<And>j. j < length (aslots ?a) \<Longrightarrow> j \<noteq> hidx h \<Longrightarrow> slotAt ?a j (mbytes mp') = slotAt ?a j (mbytes mp)"
        "v \<longleftrightarrow> \<not> cells ?w (awiped ?a) \<and> stripAt ?a (hidx h) (mbytes mp) \<noteq> canaryFill (canaryPattern (cpkg ?w)) canaryLen"
      have e: "ArenaRelease k (Some h) ?a ?w = Some (if v then Some ErrCanaryViolation else None, pushFree (hidx h) ?a1, w')"
        using g r(1) by (simp add: ArenaRelease_def)
      have sl: "slab ?w ?a = mp" "slab w' ?a = mp'" using backedD(8) r(2,3) by auto
      show ?thesis
        using e r(4,5,6) U(2) Q(2) g1 P(4)
        by (intro exI [of _ "pushFree (hidx h) ?a1"] exI [of _ w']) (simp add: IsLive_def sl)
    qed
  qed
  then show ?thesis by (auto simp: IsLive_def ArenaRelease_def releaseClaim_def Let_def)
qed

theorem ArenaRelease_correct_witness:
  "\<exists>s a' w'. arena_reach ex_kernel 1 s \<and> ArenaRelease ex_kernel (Some \<lparr>hidx = 0, hgeneration = 1\<rparr>) (sarena s) (sworld s) =
     Some (if stripAt (sarena s) 0 (mbytes (slab (sworld s) (sarena s))) \<noteq> canaryFill (canaryPattern (cpkg (sworld s))) canaryLen
       then Some ErrCanaryViolation else None, a', w') \<and> freeList a' = [1, 0]"
proof -
  obtain s where s: "arena_reach ex_kernel 1 s" "freeList (sarena s) = [1]" "in_service (sworld s) (sarena s)" "\<not> rdOnly (sarena s)"
    "sissued s = [\<lparr>hidx = 0, hgeneration = 1\<rparr>]" "IsLive (Some \<lparr>hidx = 0, hgeneration = 1\<rparr>) (sarena s)" "\<not> arenaDestroyed (sarena s)" by (rule ex_acquired)
  let ?e = "if stripAt (sarena s) 0 (mbytes (slab (sworld s) (sarena s))) \<noteq> canaryFill (canaryPattern (cpkg (sworld s))) canaryLen
       then Some ErrCanaryViolation else None"
  have "\<exists>a' w'. ArenaRelease ex_kernel (Some \<lparr>hidx = 0, hgeneration = 1\<rparr>) (sarena s) (sworld s) = Some (?e, a', w') \<and> freeList a' = [1, 0]"
    using ArenaRelease_correct [OF s(1), of "\<lparr>hidx = 0, hgeneration = 1\<rparr>"] s by (auto simp: in_service_def)
  then show ?thesis using s(1) by blast
qed

text \<open>
  \<^verbatim>\<open>NewArena\<close> never faults and leaves every other registration alone. It refuses a
  non-positive size or count, a count of more than 31 bits, sizes whose slab does not fit an
  \<^verbatim>\<open>int\<close>, and the closed-at-rest option; where none of these holds, the allocation
  succeeds, the canary pattern can be drawn and the next identity is free, it returns an arena, which
  has all its slots free, in ascending order, zero, and none live.
\<close>

theorem NewArena_correct:
  assumes "kernel_ok k" "jan_inv k w" "ring_ok k w"
  shows "\<exists>res w'. NewArena k sz cnt opts w = Some (res, w') \<and> other_step k w w' \<and>
    (badSizes k sz cnt opts \<longrightarrow> w' = w \<and> (\<exists>e. res = Inl e)) \<and> (\<not> arenaRefused k sz cnt opts w \<longrightarrow> (\<exists>a. res = Inr a)) \<and>
    (\<forall>a. res = Inr a \<longrightarrow> peekAny (ajanitorKey a) w = None \<and> freeList a = [0..<nat cnt] \<and> LiveCount (LiveArena a) = 0 \<and>
      ArenaCap (LiveArena a) = cnt \<and> SlotSize (LiveArena a) = sz \<and> \<not> ArenaIsDestroyed (LiveArena a) \<and>
      (\<forall>i. int i < cnt \<longrightarrow> slotAt a i (mbytes (slab w' a)) = zeros (nat sz)))"
proof -
  have bad: "\<exists>e. NewArena k sz cnt opts w = Some (Inl e, w)" if "badSizes k sz cnt opts"
    using that slab_size [of sz cnt k] by (auto simp: NewArena_def Let_def badSizes_def)
  from assms show ?thesis
  proof (cases rule: NewArena_spec [where sz = sz and cnt = cnt and opts = opts])
    case (refused e w')
    then show ?thesis using bad by auto
  next
    case (born a w')
    obtain mp where b: "backed k w' a mp" "usable_slab w' a {..<nat cnt} mp" "shape a" "\<not> areleased a" by (rule slab_backed [OF born(3,11)])
    have z: "slotAt a i (mbytes (slab w' a)) = zeros (nat sz)" if "int i < cnt" for i
      using b(2) born(6,8) that backedD(8) [OF b(1)] by (simp add: usable_slab_def in_service_def zless_nat_eq_int_zless)
    have "alive a = 0" using pool_invD(6) [OF born(4)] born(5,9) b(3) by (simp add: shape_def)
    then show ?thesis
      using born(1,2,5,8-16) b(4) z by (auto simp: LiveCount_def ArenaCap_def SlotSize_def ArenaIsDestroyed_def badSizes_def)
  qed
qed

theorem NewArena_correct_witness:
  "\<exists>a w'. NewArena ex_kernel 4 2 [] ex_empty = Some (Inr a, w') \<and> freeList a = [0, 1] \<and> slotAt a 1 (mbytes (slab w' a)) = [0, 0, 0, 0]"
proof -
  have u: "[0..<nat 2] = [0, 1]" "zeros (nat 4) = [0, 0, 0, 0]" by (simp_all add: upt_rec numeral_eq_Suc)
  obtain a w' where "NewArena ex_kernel 4 2 [] ex_empty = Some (Inr a, w')" "freeList a = [0..<nat 2]"
    "\<forall>i. int i < 2 \<longrightarrow> slotAt a i (mbytes (slab w' a)) = zeros (nat 4)"
    using NewArena_correct [OF ex_kernel_ok ex_empty_inv ex_empty_ring, of 4 2 "[]"] ex_not_refused by blast
  then show ?thesis using u by auto
qed



end
