(* ===== verification/Ssh_Wire.thy ===== *)
theory Ssh_Wire
  imports Sha2
begin

text \<open>
  The wire encoding of the OpenSSH key container: the cursor \<^verbatim>\<open>sshReader\<close> of
  \<^verbatim>\<open>secmem-crypto/parse_openssh.go\<close>, the writer into a fixed slice \<^verbatim>\<open>sshWriter\<close> of
  \<^verbatim>\<open>openssh_wire.go\<close>, and the table of ciphers. A write outside the slice is the run-time
  panic of Go, the value \<open>None\<close>.
\<close>

section \<open>The reader\<close>

text \<open>Each read returns a value, whether it succeeded, and the bytes left.\<close>

definition sshReader_uint32 :: "bytes \<Rightarrow> 32 word \<times> bool \<times> bytes" where
  "sshReader_uint32 b = (if length b < 4 then (0, False, b) else (word_of_nat (beNat (take 4 b)), True, drop 4 b))"

definition sshReader_str :: "bytes \<Rightarrow> bytes \<times> bool \<times> bytes" where
  "sshReader_str b = (case sshReader_uint32 b of (n, ok, b1) \<Rightarrow>
     if \<not> ok \<or> length b1 < unat n then ([], False, b1) else (take (unat n) b1, True, drop (unat n) b1))"

section \<open>The writer\<close>

record sshWriter =
  wbuf :: bytes
  woff :: nat

definition sshWriter_bytes :: "bytes \<Rightarrow> sshWriter \<Rightarrow> sshWriter option" where
  "sshWriter_bytes p w = (if length (wbuf w) < woff w then None
     else Some (w\<lparr>wbuf := goCopy (woff w) p (wbuf w), woff := woff w + goCopyLen (woff w) p (wbuf w)\<rparr>))"

definition sshWriter_uint32 :: "32 word \<Rightarrow> sshWriter \<Rightarrow> sshWriter option" where
  "sshWriter_uint32 v w = (if length (wbuf w) < woff w + 4 then None
     else Some (w\<lparr>wbuf := patch (woff w) (beBytes 4 (unat v)) (wbuf w), woff := woff w + 4\<rparr>))"

definition sshWriter_length :: "nat \<Rightarrow> sshWriter \<Rightarrow> sshWriter option" where
  "sshWriter_length n w = sshWriter_uint32 (word_of_nat n) w"

definition sshWriter_str :: "bytes \<Rightarrow> sshWriter \<Rightarrow> sshWriter option" where
  "sshWriter_str p w = do { w1 \<leftarrow> sshWriter_uint32 (word_of_nat (length p)) w; sshWriter_bytes p w1 }"

definition sshStrLen :: "nat \<Rightarrow> nat" where
  "sshStrLen n = 4 + n"

text \<open>A Go string constant as bytes.\<close>

definition goString :: "string \<Rightarrow> bytes" where
  "goString s = map of_char s"

section \<open>The ciphers\<close>

definition opensshAESBlock :: nat where "opensshAESBlock = 16"
definition opensshNoneBlock :: nat where "opensshNoneBlock = 8"
definition opensshSaltLen :: nat where "opensshSaltLen = 16"
definition opensshMaxRounds :: nat where "opensshMaxRounds = 2048"
definition chachaOpenSSHKeyLen :: nat where "chachaOpenSSHKeyLen = 64"
definition chachaTagLen :: nat where "chachaTagLen = 16"
definition opensshMaxKeyIVLen :: nat where "opensshMaxKeyIVLen = chachaOpenSSHKeyLen + 16"
definition opensshKDFOptsSize :: nat where "opensshKDFOptsSize = 4 + opensshSaltLen + 4"

lemmas openssh_sizes = opensshAESBlock_def opensshNoneBlock_def opensshSaltLen_def opensshMaxRounds_def
  chachaOpenSSHKeyLen_def chachaTagLen_def opensshMaxKeyIVLen_def opensshKDFOptsSize_def

datatype opensshCipher = cipherUnsupported | cipherAES128CTR | cipherAES192CTR | cipherAES256CTR
  | cipherAES128CBC | cipherAES192CBC | cipherAES256CBC | cipherChaCha20Poly1305

definition keyLen :: "opensshCipher \<Rightarrow> nat" where
  "keyLen c = (case c of cipherAES128CTR \<Rightarrow> 16 | cipherAES128CBC \<Rightarrow> 16
     | cipherAES192CTR \<Rightarrow> 24 | cipherAES192CBC \<Rightarrow> 24
     | cipherAES256CTR \<Rightarrow> 32 | cipherAES256CBC \<Rightarrow> 32
     | cipherChaCha20Poly1305 \<Rightarrow> chachaOpenSSHKeyLen | cipherUnsupported \<Rightarrow> 0)"

definition ivLen :: "opensshCipher \<Rightarrow> nat" where
  "ivLen c = (if c = cipherChaCha20Poly1305 then 0 else opensshAESBlock)"

definition blockLen :: "opensshCipher \<Rightarrow> nat" where
  "blockLen c = (if c = cipherChaCha20Poly1305 then opensshNoneBlock else opensshAESBlock)"

definition tagLen :: "opensshCipher \<Rightarrow> nat" where
  "tagLen c = (if c = cipherChaCha20Poly1305 then chachaTagLen else 0)"

definition cbc :: "opensshCipher \<Rightarrow> bool" where
  "cbc c = (case c of cipherAES128CBC \<Rightarrow> True | cipherAES192CBC \<Rightarrow> True | cipherAES256CBC \<Rightarrow> True | _ \<Rightarrow> False)"

definition opensshCipherByName :: "bytes \<Rightarrow> opensshCipher" where
  "opensshCipherByName name =
     (if name = goString ''aes256-ctr'' then cipherAES256CTR
      else if name = goString ''aes256-cbc'' then cipherAES256CBC
      else if name = goString ''aes128-ctr'' then cipherAES128CTR
      else if name = goString ''aes192-ctr'' then cipherAES192CTR
      else if name = goString ''aes128-cbc'' then cipherAES128CBC
      else if name = goString ''aes192-cbc'' then cipherAES192CBC
      else if name = goString ''chacha20-poly1305@openssh.com'' then cipherChaCha20Poly1305
      else cipherUnsupported)"

section \<open>What the writer writes\<close>

text \<open>The encoding of a string, and the state of a writer that has written \<open>out\<close> and has
  \<open>room\<close> bytes left.\<close>

definition sshStr :: "bytes \<Rightarrow> bytes" where
  "sshStr p = beBytes 4 (length p) @ p"

definition wrote :: "bytes \<Rightarrow> nat \<Rightarrow> sshWriter \<Rightarrow> bool" where
  "wrote out room w \<longleftrightarrow> woff w = length out \<and> length (wbuf w) = length out + room \<and> take (length out) (wbuf w) = out"

text \<open>\<open>f\<close> writes exactly \<open>p\<close> wherever there is room for it.\<close>

definition emits :: "(sshWriter \<Rightarrow> sshWriter option) \<Rightarrow> bytes \<Rightarrow> bool" where
  "emits f p \<longleftrightarrow> (\<forall>out room w. wrote out room w \<longrightarrow> length p \<le> room \<longrightarrow>
     (\<exists>w'. f w = Some w' \<and> wrote (out @ p) (room - length p) w'))"

named_theorems emits_intros \<open>what the writers write\<close>

lemma length_sshStr [simp]: "length (sshStr p) = 4 + length p"
  by (simp add: sshStr_def)

lemma wrote_start: "wrote [] (length b) \<lparr>wbuf = b, woff = 0\<rparr>"
  by (simp add: wrote_def)

lemma wrote_room:
  assumes "wrote out room w"
  obtains r where "wbuf w = out @ r" "length r = room" "woff w = length out"
proof
  show "wbuf w = out @ drop (length out) (wbuf w)" using assms append_take_drop_id [of "length out" "wbuf w"] by (simp add: wrote_def)
qed (use assms in \<open>auto simp: wrote_def\<close>)

lemma emitsI:
  assumes "\<And>out r w. wbuf w = out @ r \<Longrightarrow> woff w = length out \<Longrightarrow> length p \<le> length r \<Longrightarrow>
    f w = Some (w\<lparr>wbuf := out @ p @ drop (length p) r, woff := length out + length p\<rparr>)"
  shows "emits f p"
  unfolding emits_def
proof (intro allI impI)
  fix out room w
  assume w: "wrote out room w" "length p \<le> room"
  obtain r where r: "wbuf w = out @ r" "length r = room" "woff w = length out" by (rule wrote_room [OF w(1)])
  with assms [of w out r] w(2) show "\<exists>w'. f w = Some w' \<and> wrote (out @ p) (room - length p) w'"
    by (simp add: wrote_def)
qed

lemma emits_bind [emits_intros]:
  assumes "emits f p" "emits g q"
  shows "emits (\<lambda>w. f w \<bind> g) (p @ q)"
  unfolding emits_def
proof (intro allI impI)
  fix out room w
  assume w: "wrote out room w" "length (p @ q) \<le> room"
  have "length p \<le> room" using w(2) by simp
  then obtain w1 where w1: "f w = Some w1" "wrote (out @ p) (room - length p) w1"
    using assms(1) w(1) unfolding emits_def by blast
  moreover have "length q \<le> room - length p" using w(2) by simp
  ultimately obtain w2 where "g w1 = Some w2" "wrote ((out @ p) @ q) (room - length p - length q) w2"
    using assms(2) unfolding emits_def by blast
  with w1(1) show "\<exists>w'. f w \<bind> g = Some w' \<and> wrote (out @ p @ q) (room - length (p @ q)) w'" by simp
qed

lemma emits_end: "emits Some []"
  by (simp add: emits_def)

lemma emits_exact:
  assumes "emits f p" "length b = length p"
  obtains w where "f \<lparr>wbuf = b, woff = 0\<rparr> = Some w" "wbuf w = p" "woff w = length p"
proof -
  obtain w where "f \<lparr>wbuf = b, woff = 0\<rparr> = Some w" "wrote p 0 w"
    using assms(1) wrote_start [of b] unfolding emits_def assms(2) by (metis append_Nil diff_self_eq_0 order_refl)
  then show thesis using that by (auto simp: wrote_def)
qed

lemma emits_bytes [emits_intros]: "emits (sshWriter_bytes p) p"
  by (rule emitsI) (simp add: sshWriter_bytes_def goCopy_def goCopyLen_def)

lemma emits_uint32 [emits_intros]: "emits (sshWriter_uint32 v) (beBytes 4 (unat v))"
  by (rule emitsI) (simp add: sshWriter_uint32_def patch_def)

lemma unat_len32: "n < 2 ^ 32 \<Longrightarrow> unat (word_of_nat n :: 32 word) = n"
  by (simp add: unat_of_nat)

lemma emits_length [emits_intros]: "n < 2 ^ 32 \<Longrightarrow> emits (sshWriter_length n) (beBytes 4 n)"
  using emits_uint32 [of "word_of_nat n"] unat_len32 [of n] by (simp add: sshWriter_length_def [abs_def])

lemma emits_str [emits_intros]:
  assumes "length p < 2 ^ 32"
  shows "emits (sshWriter_str p) (sshStr p)"
  using emits_bind [OF emits_uint32 [of "word_of_nat (length p)"] emits_bytes [of p]] unat_len32 [OF assms]
  by (simp add: sshWriter_str_def [abs_def] sshStr_def)

section \<open>What the reader reads\<close>

lemma sshReader_uint32_beBytes [simp]:
  "sshReader_uint32 (beBytes 4 n @ r) = (word_of_nat n, True, r)"
proof -
  have "(word_of_nat (n mod 256 ^ 4) :: 32 word) = word_of_nat n"
    by (intro word_unat_eq_iff [THEN iffD2]) (simp add: unat_of_nat)
  then show ?thesis by (simp add: sshReader_uint32_def beNat_beBytes)
qed

lemma sshReader_str_sshStr [simp]:
  "length p < 2 ^ 32 \<Longrightarrow> sshReader_str (sshStr p @ r) = (p, True, r)"
  by (simp add: sshReader_str_def sshStr_def unat_len32)

text \<open>Conversely, what a successful read returns is a prefix of the input, so a reader never
  goes past it and a read string is one of the input's own.\<close>

lemma sshReader_str_prefix:
  assumes "sshReader_str b = (p, True, r)"
  shows "b = sshStr p @ r \<and> length p < 2 ^ 32"
proof -
  let ?n = "word_of_nat (beNat (take 4 b)) :: 32 word"
  have b: "4 \<le> length b" "p = take (unat ?n) (drop 4 b)" "r = drop (unat ?n) (drop 4 b)" "unat ?n \<le> length b - 4"
    using assms by (auto simp: sshReader_str_def sshReader_uint32_def split: if_splits)
  have "beNat (take 4 b) < 256 ^ 4" using beNat_less [of "take 4 b"] b(1) by simp
  then have n: "unat ?n = beNat (take 4 b)" by (simp add: unat_of_nat)
  then have l: "length p = beNat (take 4 b)" using b by simp
  have "beBytes 4 (length p) = take 4 b" using beBytes_beNat [of "take 4 b"] b(1) l by simp
  moreover have "p @ r = drop 4 b" using b(2,3) by (simp only: append_take_drop_id)
  ultimately have "b = sshStr p @ r" unfolding sshStr_def by (metis append.assoc append_take_drop_id)
  moreover have "length p < 2 ^ 32" using unsigned_less [of ?n, where 'a = nat] l n by simp
  ultimately show ?thesis by simp
qed

end
