(* ===== verification/Pem_Armour.thy ===== *)
theory Pem_Armour
  imports Ssh_Wire "HOL-Library.Sublist"
begin

text \<open>
  The PEM armour of a key file: \<^verbatim>\<open>pemEncode\<close> and \<^verbatim>\<open>pemLen\<close> of
  \<^verbatim>\<open>secmem-crypto/openssh_wire.go\<close>, and the locator \<^verbatim>\<open>pemBlock\<close> of
  \<^verbatim>\<open>parse.go\<close> with its line splitter, over the standard base64 encoding and the
  functions of package \<^verbatim>\<open>bytes\<close> they call.
\<close>

section \<open>Errors of the package\<close>

text \<open>The sentinels a caller can test for, an error of the core module, the padding or offset
  errors that carry no sentinel, and two errors wrapped by one.\<close>

datatype kerr = errMalformed | ErrEncryptedKey | ErrRetiredAlgorithm | ErrUnsupportedKey | ErrBadSeedLength
  | ErrBadScalarLength | ErrHeapTransients | ErrNotEncrypted | IncorrectPasswordError | errCore err | errText string | errBoth kerr kerr

primrec kerrIs :: "kerr \<Rightarrow> kerr \<Rightarrow> bool" where
  "kerrIs errMalformed t \<longleftrightarrow> t = errMalformed"
| "kerrIs ErrEncryptedKey t \<longleftrightarrow> t = ErrEncryptedKey"
| "kerrIs ErrRetiredAlgorithm t \<longleftrightarrow> t = ErrRetiredAlgorithm"
| "kerrIs ErrUnsupportedKey t \<longleftrightarrow> t = ErrUnsupportedKey"
| "kerrIs ErrBadSeedLength t \<longleftrightarrow> t = ErrBadSeedLength"
| "kerrIs ErrBadScalarLength t \<longleftrightarrow> t = ErrBadScalarLength"
| "kerrIs ErrHeapTransients t \<longleftrightarrow> t = ErrHeapTransients"
| "kerrIs ErrNotEncrypted t \<longleftrightarrow> t = ErrNotEncrypted"
| "kerrIs IncorrectPasswordError t \<longleftrightarrow> t = IncorrectPasswordError"
| "kerrIs (errCore e) t \<longleftrightarrow> (case t of errCore f \<Rightarrow> errIs e f | _ \<Rightarrow> False)"
| "kerrIs (errText m) t \<longleftrightarrow> t = errText m"
| "kerrIs (errBoth a b) t \<longleftrightarrow> t = errBoth a b \<or> kerrIs a t \<or> kerrIs b t"

section \<open>Base64\<close>

definition b64Char :: "nat \<Rightarrow> byte" where
  "b64Char n = (if n < 26 then word_of_nat (65 + n) else if n < 52 then word_of_nat (71 + n)
     else if n < 62 then word_of_nat (n - 4) else if n = 62 then 43 else 47)"

definition b64Val :: "byte \<Rightarrow> nat option" where
  "b64Val c = (let n = unat c in
     if 65 \<le> n \<and> n \<le> 90 then Some (n - 65) else if 97 \<le> n \<and> n \<le> 122 then Some (n - 71)
     else if 48 \<le> n \<and> n \<le> 57 then Some (n + 4) else if n = 43 then Some 62 else if n = 47 then Some 63 else None)"

definition b64EncodedLen :: "nat \<Rightarrow> nat" where
  "b64EncodedLen n = (n + 2) div 3 * 4"

definition b64DecodedLen :: "nat \<Rightarrow> nat" where
  "b64DecodedLen n = n div 4 * 3"

fun b64Encode :: "bytes \<Rightarrow> bytes" where
  "b64Encode [] = []"
| "b64Encode [a] = [b64Char (unat a div 4), b64Char (unat a mod 4 * 16), 61, 61]"
| "b64Encode [a, b] = [b64Char (unat a div 4), b64Char (unat a mod 4 * 16 + unat b div 16), b64Char (unat b mod 16 * 4), 61]"
| "b64Encode (a # b # c # r) = [b64Char (unat a div 4), b64Char (unat a mod 4 * 16 + unat b div 16),
     b64Char (unat b mod 16 * 4 + unat c div 64), b64Char (unat c mod 64)] @ b64Encode r"

text \<open>The decoder skips line breaks wherever they stand; \<open>None\<close> is a
  \<^verbatim>\<open>CorruptInputError\<close>. The unused bits of a last quantum are not checked.\<close>

fun b64Quanta :: "bytes \<Rightarrow> bytes option" where
  "b64Quanta [] = Some []"
| "b64Quanta (a # b # c # d # r) = (case (b64Val a, b64Val b) of
     (Some p, Some q) \<Rightarrow> (let x = word_of_nat (p * 4 + q div 16) in
       case b64Val c of
         None \<Rightarrow> (if c = 61 \<and> d = 61 \<and> r = [] then Some [x] else None)
       | Some s \<Rightarrow> (let y = word_of_nat (q * 16 + s div 4) in
           case b64Val d of
             None \<Rightarrow> (if d = 61 \<and> r = [] then Some [x, y] else None)
           | Some t \<Rightarrow> map_option (\<lambda>z. x # y # word_of_nat (s * 64 + t) # z) (b64Quanta r)))
   | _ \<Rightarrow> None)"
| "b64Quanta _ = None"

definition b64Decode :: "bytes \<Rightarrow> bytes option" where
  "b64Decode src = b64Quanta (filter (\<lambda>c. c \<noteq> 10 \<and> c \<noteq> 13) src)"

section \<open>The encoder\<close>

definition pemBegin :: bytes where "pemBegin = goString ''-----BEGIN ''"
definition pemEnd :: bytes where "pemEnd = goString ''-----END ''"
definition pemDashes :: bytes where "pemDashes = goString ''-----''"

definition pemLen :: "bytes \<Rightarrow> nat \<Rightarrow> nat" where
  "pemLen label n = (let enc = b64EncodedLen n; lines = (enc + 63) div 64
     in length pemBegin + length label + length pemDashes + 1 + enc + lines + length pemEnd + length label + length pemDashes + 1)"

text \<open>A write that must fit, as an index expression or \<^verbatim>\<open>Encode\<close> requires; the copies are
  those of the wire writer.\<close>

definition putAll :: "bytes \<Rightarrow> sshWriter \<Rightarrow> sshWriter option" where
  "putAll p w = (if length (wbuf w) < woff w + length p then None
     else Some (w\<lparr>wbuf := patch (woff w) p (wbuf w), woff := woff w + length p\<rparr>))"

function pemLines :: "bytes \<Rightarrow> sshWriter \<Rightarrow> sshWriter option" where
  "pemLines src w = (if src = [] then Some w
     else let k = min 48 (length src) in do {
       w1 \<leftarrow> putAll (b64Encode (take k src)) w;
       w2 \<leftarrow> putAll [10] w1;
       pemLines (drop k src) w2
     })"
  by pat_completeness auto
termination by (relation "measure (\<lambda>(src, w). length src)") auto

declare pemLines.simps [simp del]

definition pemWrite :: "bytes \<Rightarrow> bytes \<Rightarrow> sshWriter \<Rightarrow> sshWriter option" where
  "pemWrite label src w = do {
     w1 \<leftarrow> sshWriter_bytes pemBegin w;
     w2 \<leftarrow> sshWriter_bytes label w1;
     w3 \<leftarrow> sshWriter_bytes pemDashes w2;
     w4 \<leftarrow> putAll [10] w3;
     w5 \<leftarrow> pemLines src w4;
     w6 \<leftarrow> sshWriter_bytes pemEnd w5;
     w7 \<leftarrow> sshWriter_bytes label w6;
     w8 \<leftarrow> sshWriter_bytes pemDashes w7;
     putAll [10] w8
   }"

definition pemEncode :: "bytes \<Rightarrow> bytes \<Rightarrow> bytes \<Rightarrow> (nat \<times> bytes) option" where
  "pemEncode dst label src = map_option (\<lambda>w. (woff w, wbuf w)) (pemWrite label src \<lparr>wbuf = dst, woff = 0\<rparr>)"

section \<open>The locator\<close>

text \<open>\<^verbatim>\<open>bytes.Index\<close>, \<^verbatim>\<open>TrimSpace\<close> and \<^verbatim>\<open>EqualFold\<close>. The white
  space is Unicode's, in its encoding; of the letters in the two header names only \<^verbatim>\<open>k\<close> and
  \<^verbatim>\<open>s\<close> have a folding outside ASCII.\<close>

fun bytesIndex :: "bytes \<Rightarrow> bytes \<Rightarrow> nat option" where
  "bytesIndex b sep = (if prefix sep b then Some 0
     else case b of [] \<Rightarrow> None | x # r \<Rightarrow> map_option Suc (bytesIndex r sep))"

declare bytesIndex.simps [simp del]

definition utf8Spaces :: "bytes list" where
  "utf8Spaces = map (\<lambda>c. [c]) [9, 10, 11, 12, 13, 32] @ [[0xC2, 0x85], [0xC2, 0xA0], [0xE1, 0x9A, 0x80]] @
     map (\<lambda>c. [0xE2, 0x80, c]) [0x80, 0x81, 0x82, 0x83, 0x84, 0x85, 0x86, 0x87, 0x88, 0x89, 0x8A, 0xA8, 0xA9, 0xAF] @
     [[0xE2, 0x81, 0x9F], [0xE3, 0x80, 0x80]]"

function trimLeft :: "bytes list \<Rightarrow> bytes \<Rightarrow> bytes" where
  "trimLeft sp b = (case find (\<lambda>s. s \<noteq> [] \<and> prefix s b) sp of None \<Rightarrow> b | Some s \<Rightarrow> trimLeft sp (drop (length s) b))"
  by pat_completeness auto
termination
  by (relation "measure (\<lambda>(sp, b). length b)") (auto simp: find_Some_iff prefix_def)

declare trimLeft.simps [simp del]

definition trimSpace :: "bytes \<Rightarrow> bytes" where
  "trimSpace b = rev (trimLeft (map rev utf8Spaces) (rev (trimLeft utf8Spaces b)))"

function foldCase :: "bytes \<Rightarrow> bytes" where
  "foldCase b = (case b of [] \<Rightarrow> [] | c # r \<Rightarrow>
     if prefix [0xE2, 0x84, 0xAA] b then 107 # foldCase (drop 3 b)
     else if prefix [0xC5, 0xBF] b then 115 # foldCase (drop 2 b)
     else (if 65 \<le> c \<and> c \<le> 90 then c + 32 else c) # foldCase r)"
  by pat_completeness auto
termination by (relation "measure length") auto

declare foldCase.simps [simp del]

definition equalFold :: "bytes \<Rightarrow> bytes \<Rightarrow> bool" where
  "equalFold a b \<longleftrightarrow> foldCase a = foldCase b"

definition splitLine :: "bytes \<Rightarrow> (bytes \<times> bytes) option" where
  "splitLine b = (if 10 \<notin> set b then None
     else Some (rev (dropWhile (\<lambda>c. c = 13) (rev (takeWhile (\<lambda>c. c \<noteq> 10) b))), drop 1 (dropWhile (\<lambda>c. c \<noteq> 10) b)))"

definition nextLine :: "bytes \<Rightarrow> bytes option" where
  "nextLine b = map_option snd (splitLine b)"

lemma splitLine_shorter: "splitLine b = Some (line, after) \<Longrightarrow> length after < length b"
  using length_dropWhile_le [of "\<lambda>c. c \<noteq> 10" b] by (cases b) (auto simp: splitLine_def split: if_splits)

text \<open>The header lines; the result is what is left, whether one of them means encryption, and
  their number.\<close>

function pemHeaders :: "bytes \<Rightarrow> bool \<Rightarrow> nat \<Rightarrow> (bytes \<times> bool \<times> nat) option" where
  "pemHeaders rest encrypted headers = (case splitLine rest of None \<Rightarrow> None
   | Some (line, after) \<Rightarrow>
       (if 58 \<in> set line then
          let name = trimSpace (takeWhile (\<lambda>c. c \<noteq> 58) line)
          in pemHeaders after (encrypted \<or> equalFold name (goString ''Proc-Type'') \<or> equalFold name (goString ''DEK-Info''))
               (headers + 1)
        else if 0 < headers \<and> trimSpace line = [] then Some (after, encrypted, headers)
        else Some (rest, encrypted, headers)))"
  by pat_completeness auto
termination by (relation "measure (\<lambda>(rest, e, h). length rest)") (auto simp: splitLine_shorter)

declare pemHeaders.simps [simp del]

definition errLegacyPEM :: kerr where "errLegacyPEM = ErrRetiredAlgorithm"

definition pemBlock :: "bytes \<Rightarrow> kerr + bytes \<times> bytes" where
  "pemBlock d = (case bytesIndex d pemBegin of None \<Rightarrow> Inl errMalformed
   | Some i \<Rightarrow> (let rest = drop (i + length pemBegin) d in
     case bytesIndex rest pemDashes of None \<Rightarrow> Inl errMalformed
     | Some j \<Rightarrow> (let label = take j rest in
       case nextLine (drop (j + length pemDashes) rest) of None \<Rightarrow> Inl errMalformed
       | Some rest1 \<Rightarrow> (case pemHeaders rest1 False 0 of None \<Rightarrow> Inl errMalformed
         | Some (rest2, encrypted, headers) \<Rightarrow>
             (if encrypted then Inl (errBoth ErrEncryptedKey errLegacyPEM)
              else if 0 < headers then Inl ErrUnsupportedKey
              else case bytesIndex rest2 pemEnd of None \<Rightarrow> Inl errMalformed
              | Some e \<Rightarrow> (let footer = drop (e + length pemEnd) rest2 in
                  if \<not> prefix label footer \<or> \<not> prefix pemDashes (drop (length label) footer) then Inl errMalformed
                  else Inr (label, take e rest2)))))))"

section \<open>Base64 round trip\<close>

lemma unat_byte_less: "unat (b :: byte) < 256"
  using unsigned_less [of b, where 'a = nat] by simp

lemma unat_byte_nat: "n < 256 \<Longrightarrow> unat (word_of_nat n :: byte) = n"
  by (simp add: unat_of_nat)

lemma unat_b64Char: "n < 64 \<Longrightarrow> unat (b64Char n) = (if n < 26 then 65 + n else if n < 52 then 71 + n
     else if n < 62 then n - 4 else if n = 62 then 43 else 47)"
  by (simp add: b64Char_def unat_byte_nat del: of_nat_add of_nat_diff of_nat_numeral)

lemma b64Val_b64Char [simp]: "n < 64 \<Longrightarrow> b64Val (b64Char n) = Some n"
  by (simp add: b64Val_def unat_b64Char Let_def) arith

lemma b64Val_pad [simp]: "b64Val 61 = None"
  by (simp add: b64Val_def)

lemma byte_unat: "word_of_nat (unat (a :: byte)) = a"
  by simp

lemma b64Quanta_b64Encode: "b64Quanta (b64Encode b) = Some b"
proof (induction b rule: b64Encode.induct)
  case (2 a)
  have "unat a < 256" by (rule unat_byte_less)
  then have "unat a div 4 < 64" "unat a mod 4 * 16 < 64" "unat a div 4 * 4 + unat a mod 4 * 16 div 16 = unat a" by auto
  then show ?case by (simp add: byte_unat del: of_nat_add of_nat_mult)
next
  case (3 a b)
  have l: "unat a < 256" "unat b < 256" by (rule unat_byte_less)+
  then have "unat a div 4 < 64" "unat a mod 4 * 16 + unat b div 16 < 64" "unat b mod 16 * 4 < 64" by auto
  moreover have "unat a div 4 * 4 + (unat a mod 4 * 16 + unat b div 16) div 16 = unat a" using l by auto
  moreover have "(word_of_nat ((unat a mod 4 * 16 + unat b div 16) * 16 + unat b mod 16 * 4 div 4) :: byte) = b"
  proof -
    have "(unat a mod 4 * 16 + unat b div 16) * 16 + unat b mod 16 * 4 div 4 = 256 * (unat a mod 4) + unat b" by simp
    then show ?thesis by (simp only: byte_digit byte_unat)
  qed
  ultimately show ?case by (simp add: byte_unat del: of_nat_add of_nat_mult)
next
  case (4 a b c r)
  have l: "unat a < 256" "unat b < 256" "unat c < 256" by (rule unat_byte_less)+
  then have "unat a div 4 < 64" "unat a mod 4 * 16 + unat b div 16 < 64" "unat b mod 16 * 4 + unat c div 64 < 64" "unat c mod 64 < 64" by auto
  moreover have "unat a div 4 * 4 + (unat a mod 4 * 16 + unat b div 16) div 16 = unat a" using l by auto
  moreover have "(word_of_nat ((unat a mod 4 * 16 + unat b div 16) * 16 + (unat b mod 16 * 4 + unat c div 64) div 4) :: byte) = b"
  proof -
    have "(unat a mod 4 * 16 + unat b div 16) * 16 + (unat b mod 16 * 4 + unat c div 64) div 4 = 256 * (unat a mod 4) + unat b"
      using l by auto
    then show ?thesis by (simp only: byte_digit byte_unat)
  qed
  moreover have "(word_of_nat ((unat b mod 16 * 4 + unat c div 64) * 64 + unat c mod 64) :: byte) = c"
  proof -
    have "(unat b mod 16 * 4 + unat c div 64) * 64 + unat c mod 64 = 256 * (unat b mod 16) + unat c" by simp
    then show ?thesis by (simp only: byte_digit byte_unat)
  qed
  ultimately show ?case using 4 by (simp add: byte_unat del: of_nat_add of_nat_mult)
qed simp

lemma length_b64Encode: "length (b64Encode b) = b64EncodedLen (length b)"
proof (induction b rule: b64Encode.induct)
  case (4 a b c r)
  then show ?case using div_add_self2 [of 3 "length r + 2"] by (simp add: b64EncodedLen_def add.commute)
qed (auto simp: b64EncodedLen_def)

lemma b64Encode_append: "length a mod 3 = 0 \<Longrightarrow> b64Encode (a @ b) = b64Encode a @ b64Encode b"
  by (induction a rule: b64Encode.induct) (auto simp: mod_Suc split: if_splits)

text \<open>The alphabet has no line break, no colon, no dash and no space.\<close>

definition b64Text :: "byte set" where
  "b64Text = {c. b64Val c \<noteq> None} \<union> {61}"

lemma b64Char_text: "n < 64 \<Longrightarrow> b64Char n \<in> b64Text"
  by (simp add: b64Text_def)

lemma b64Encode_text: "set (b64Encode b) \<subseteq> b64Text"
proof (induction b rule: b64Encode.induct)
  case (2 a)
  have "unat a < 256" by (rule unat_byte_less)
  then have "unat a div 4 < 64" "unat a mod 4 * 16 < 64" by auto
  then show ?case by (simp add: b64Char_text) (simp add: b64Text_def)
next
  case (3 a b)
  have "unat a < 256" "unat b < 256" by (rule unat_byte_less)+
  then have "unat a div 4 < 64" "unat a mod 4 * 16 + unat b div 16 < 64" "unat b mod 16 * 4 < 64" by auto
  then show ?case by (simp add: b64Char_text) (simp add: b64Text_def)
next
  case (4 a b c r)
  have "unat a < 256" "unat b < 256" "unat c < 256" by (rule unat_byte_less)+
  then have "unat a div 4 < 64" "unat a mod 4 * 16 + unat b div 16 < 64" "unat b mod 16 * 4 + unat c div 64 < 64" "unat c mod 64 < 64" by auto
  with 4 show ?case by (simp add: b64Char_text)
qed simp

lemma b64Text_not: "c \<in> b64Text \<Longrightarrow> c \<notin> {10, 13, 45, 58, 32, 9, 11, 12} \<and> c < 128"
  by (auto simp: b64Text_def b64Val_def Let_def word_less_nat_alt split: if_splits)

section \<open>What the encoder writes\<close>

definition pemBody :: "bytes \<Rightarrow> bytes" where
  "pemBody src = concat (map (\<lambda>l. b64Encode l @ [10]) (blocks 48 src))"

definition pemText :: "bytes \<Rightarrow> bytes \<Rightarrow> bytes" where
  "pemText label src = pemBegin @ label @ pemDashes @ [10] @ pemBody src @ pemEnd @ label @ pemDashes @ [10]"

lemma blocks_step: "0 < n \<Longrightarrow> b \<noteq> [] \<Longrightarrow> blocks n b = take n b # blocks n (drop n b)"
  by (subst blocks.simps) simp

lemma blocks_Nil [simp]: "blocks n [] = []"
  by (subst blocks.simps) simp

lemma pemBody_step: "src \<noteq> [] \<Longrightarrow> pemBody src = b64Encode (take 48 src) @ [10] @ pemBody (drop 48 src)"
  by (simp add: pemBody_def blocks_step)

lemma pemBody_Nil [simp]: "pemBody [] = []"
  by (simp add: pemBody_def)

lemma emits_putAll [emits_intros]: "emits (putAll p) p"
  by (rule emitsI) (simp add: putAll_def patch_def)

lemma emits_pemLines [emits_intros]: "emits (pemLines src) (pemBody src)"
proof (induction "length src" arbitrary: src rule: less_induct)
  case less
  show ?case
  proof (cases "src = []")
    case True then show ?thesis using emits_end by (simp add: pemLines.simps [abs_def])
  next
    case False
    let ?k = "min 48 (length src)"
    have k: "take ?k src = take 48 src" "drop ?k src = drop 48 src" by (auto simp: min_def)
    have "emits (pemLines (drop 48 src)) (pemBody (drop 48 src))" using less False by simp
    then have "emits (\<lambda>w. putAll (b64Encode (take 48 src)) w \<bind> (\<lambda>w1. putAll [10] w1 \<bind> pemLines (drop 48 src)))
        (b64Encode (take 48 src) @ [10] @ pemBody (drop 48 src))"
      by (intro emits_bind emits_putAll)
    moreover have "pemLines src = (\<lambda>w. putAll (b64Encode (take 48 src)) w \<bind> (\<lambda>w1. putAll [10] w1 \<bind> pemLines (drop 48 src)))"
      using False by (intro ext, subst pemLines.simps) (simp add: k Let_def)
    ultimately show ?thesis using False by (simp add: pemBody_step)
  qed
qed

lemma length_pemBody: "length (pemBody src) = b64EncodedLen (length src) + (b64EncodedLen (length src) + 63) div 64"
proof (induction "length src" arbitrary: src rule: less_induct)
  case less
  show ?case
  proof (cases "length src \<le> 48")
    case True
    show ?thesis
    proof (cases "src = []")
      case ne: False
      define q where "q = (length src + 2) div 3"
      have "3 \<le> length src + 2" using ne by (cases src) auto
      then have "1 \<le> q" "q \<le> 16" using True by (auto simp: q_def Suc_le_eq div_greater_zero_iff)
      then have "(q * 4 + 63) div 64 = 1" by (intro div_nat_eqI) auto
      then show ?thesis using True ne by (simp add: pemBody_step length_b64Encode b64EncodedLen_def q_def)
    qed (simp add: b64EncodedLen_def)
  next
    case False
    then have ne: "src \<noteq> []" by auto
    have IH: "length (pemBody (drop 48 src)) = b64EncodedLen (length src - 48) + (b64EncodedLen (length src - 48) + 63) div 64"
      using less [of "drop 48 src"] False by simp
    have e: "b64EncodedLen (length src) = 64 + b64EncodedLen (length src - 48)"
    proof -
      have "length src + 2 = (length src - 48 + 2) + 16 * 3" using False by simp
      then show ?thesis unfolding b64EncodedLen_def by (simp only: div_mult_self1) simp
    qed
    have "length (b64Encode (take 48 src)) = 64" using False by (simp add: length_b64Encode b64EncodedLen_def)
    moreover have "(64 + E + 63) div 64 = Suc ((E + 63) div 64)" for E :: nat
      using div_add_self1 [of 64 "E + 63"] by (simp add: algebra_simps)
    ultimately show ?thesis using IH by (subst pemBody_step [OF ne]) (simp add: e)
  qed
qed

lemma length_pemText: "length (pemText label src) = pemLen label (length src)"
  by (simp add: pemText_def pemLen_def length_pemBody Let_def)

lemma pemEncode_text:
  assumes "length dst = pemLen label (length src)"
  shows "pemEncode dst label src = Some (length dst, pemText label src)"
proof -
  have "emits (pemWrite label src) (pemText label src)"
    unfolding pemWrite_def pemText_def by (intro emits_intros)
  then show ?thesis
    by (rule emits_exact [where b = dst]) (auto simp: assms length_pemText pemEncode_def)
qed

section \<open>What the locator finds\<close>

lemma bytesIndex_here: "prefix sep b \<Longrightarrow> bytesIndex b sep = Some 0"
  by (subst bytesIndex.simps) simp

lemma bytesIndex_skip:
  assumes "x \<notin> set a" "sep = x # s"
  shows "bytesIndex (a @ b) sep = map_option ((+) (length a)) (bytesIndex b sep)"
  using assms(1)
proof (induction a)
  case (Cons y a)
  have "\<not> prefix sep ((y # a) @ b)" using Cons.prems assms(2) by auto
  then show ?case using Cons by (subst bytesIndex.simps) (cases "bytesIndex b sep"; simp)
qed (cases "bytesIndex b sep"; simp)

lemma splitLine_first: "10 \<notin> set l \<Longrightarrow> 13 \<notin> set l \<Longrightarrow> splitLine (l @ 10 # r) = Some (l, r)"
proof -
  assume l: "10 \<notin> set l" "13 \<notin> set l"
  have "takeWhile (\<lambda>c. c \<noteq> 10) (l @ 10 # r) = l" "dropWhile (\<lambda>c. c \<noteq> 10) (l @ 10 # r) = 10 # r"
    using l(1) by (induction l) auto
  moreover have "dropWhile (\<lambda>c. c = 13) (rev l) = rev l" using l(2) by (cases l rule: rev_cases) auto
  ultimately show ?thesis by (simp add: splitLine_def)
qed

lemma trimLeft_stop: "list_all (\<lambda>s. s = [] \<or> \<not> prefix s b) sp \<Longrightarrow> trimLeft sp b = b"
proof -
  assume "list_all (\<lambda>s. s = [] \<or> \<not> prefix s b) sp"
  then have "find (\<lambda>s. s \<noteq> [] \<and> prefix s b) sp = None" by (auto simp: find_None_iff list_all_iff)
  then show ?thesis by (subst trimLeft.simps) simp
qed

lemma find_None_list_all: "find P xs = None \<longleftrightarrow> list_all (\<lambda>x. \<not> P x) xs"
  by (induction xs) auto

lemma trimSpace_stop:
  assumes "c \<in> b64Text" "d \<in> b64Text"
  shows "trimSpace (c # b @ [d, 10]) = c # b @ [d]"
proof -
  have c: "trimLeft utf8Spaces (c # x) = c # x" if "c \<in> b64Text" for c x
    using b64Text_not [OF that] by (intro trimLeft_stop) (auto simp: utf8Spaces_def list_all_iff)
  have d: "trimLeft (map rev utf8Spaces) (d # x) = d # x" for x
    using b64Text_not [OF assms(2)] by (intro trimLeft_stop) (auto simp: utf8Spaces_def list_all_iff)
  have "trimLeft (map rev utf8Spaces) (10 # x) = trimLeft (map rev utf8Spaces) x" for x
    by (subst trimLeft.simps) (simp add: utf8Spaces_def)
  then show ?thesis using c [OF assms(1)] d by (simp add: trimSpace_def)
qed

lemma pemBody_text: "set (pemBody src) \<subseteq> b64Text \<union> {10}"
proof -
  have "set (b64Encode l @ [10]) \<subseteq> b64Text \<union> {10}" for l using b64Encode_text [of l] by auto
  then show ?thesis by (auto simp: pemBody_def simp del: set_append)
qed

lemma b64Encode_Nil [simp]: "b64Encode b = [] \<longleftrightarrow> b = []"
  by (cases b rule: b64Encode.cases) auto

lemma pemBody_breaks: "filter (\<lambda>c. c \<noteq> 10 \<and> c \<noteq> 13) (pemBody src) = b64Encode src"
proof (induction "length src" arbitrary: src rule: less_induct)
  case less
  have keep: "filter (\<lambda>c. c \<noteq> 10 \<and> c \<noteq> 13) (b64Encode l) = b64Encode l" for l
    using b64Encode_text [of l] b64Text_not by (auto simp: filter_id_conv)
  show ?case
  proof (cases "48 < length src")
    case True
    then have ne: "src \<noteq> []" by auto
    have "filter (\<lambda>c. c \<noteq> 10 \<and> c \<noteq> 13) (pemBody (drop 48 src)) = b64Encode (drop 48 src)" using less True ne by simp
    moreover have "b64Encode src = b64Encode (take 48 src) @ b64Encode (drop 48 src)"
      using b64Encode_append [of "take 48 src" "drop 48 src"] True by simp
    ultimately show ?thesis using keep by (subst pemBody_step [OF ne]) simp
  next
    case False
    then show ?thesis using keep by (cases "src = []") (simp_all add: pemBody_step)
  qed
qed

lemma pemBody_ends:
  assumes "src \<noteq> []"
  obtains c b d where "pemBody src = c # b @ [d, 10]" "c \<in> b64Text" "d \<in> b64Text"
proof -
  have last: "\<exists>x d. pemBody src = x @ [d, 10] \<and> d \<in> b64Text" if "src \<noteq> []" for src
    using that
  proof (induction "length src" arbitrary: src rule: less_induct)
    case less
    have ne: "b64Encode (take 48 src) \<noteq> []" using less.prems by simp
    show ?case
    proof (cases "drop 48 src = []")
      case True
      obtain x d where "b64Encode (take 48 src) = x @ [d]" using ne by (cases "b64Encode (take 48 src)" rule: rev_cases) auto
      moreover have "d \<in> b64Text" using calculation b64Encode_text [of "take 48 src"] by auto
      ultimately show ?thesis using True less.prems by (auto simp: pemBody_step)
    next
      case False
      then obtain x d where "pemBody (drop 48 src) = x @ [d, 10]" "d \<in> b64Text"
        using less.hyps [of "drop 48 src"] less.prems False by auto
      then show ?thesis using less.prems by (intro exI [of _ "b64Encode (take 48 src) @ [10] @ x"]) (auto simp: pemBody_step)
    qed
  qed
  obtain x d where x: "pemBody src = x @ [d, 10]" "d \<in> b64Text" using last [OF assms] by blast
  have "4 \<le> length (b64Encode src)" using assms by (cases src rule: b64Encode.cases) auto
  then have "length (pemBody src) \<noteq> 2" by (simp add: length_pemBody length_b64Encode)
  then obtain c b where cb: "x = c # b" using x(1) by (cases x) auto
  have "c \<noteq> 10"
  proof -
    obtain e l where "b64Encode (take 48 src) = e # l" using assms
      by (cases "b64Encode (take 48 src)") auto
    moreover have "e \<in> b64Text" using calculation b64Encode_text [of "take 48 src"] by auto
    ultimately show ?thesis using x(1) cb assms b64Text_not by (auto simp: pemBody_step)
  qed
  then have "c \<in> b64Text" using pemBody_text [of src] x cb by auto
  with x cb that show thesis by auto
qed

text \<open>The armour of a block is found again, whatever its label: the locator returns the label and
  a body that decodes to the contents.\<close>

lemma pemBlock_pemText:
  assumes "45 \<notin> set label" "src \<noteq> []"
  shows "pemBlock (pemText label src) = Inr (label, pemBody src)"
proof -
  let ?foot = "pemEnd @ label @ pemDashes @ [10]"
  have d: "pemDashes = 45 # goString ''----''" "pemEnd = 45 # goString ''----END ''" by (simp_all add: pemDashes_def pemEnd_def goString_def)
  have "bytesIndex (label @ pemDashes @ [10] @ pemBody src @ ?foot) pemDashes = Some (length label)"
    using bytesIndex_skip [OF assms(1) d(1), of "pemDashes @ [10] @ pemBody src @ ?foot"] bytesIndex_here [of pemDashes] by simp
  moreover have "nextLine ([10] @ pemBody src @ ?foot) = Some (pemBody src @ ?foot)"
    using splitLine_first [of "[]" "pemBody src @ ?foot"] by (simp add: nextLine_def)
  moreover have "pemHeaders (pemBody src @ ?foot) False 0 = Some (pemBody src @ ?foot, False, 0)"
  proof -
    let ?l = "b64Encode (take 48 src)"
    have "10 \<notin> set ?l" "13 \<notin> set ?l" "58 \<notin> set ?l" using b64Encode_text [of "take 48 src"] b64Text_not by blast+
    then have "splitLine (pemBody src @ ?foot) = Some (?l, pemBody (drop 48 src) @ ?foot)" "58 \<notin> set ?l"
      using splitLine_first [of ?l "pemBody (drop 48 src) @ ?foot"] assms(2) by (simp_all add: pemBody_step)
    then show ?thesis by (subst pemHeaders.simps) simp
  qed
  moreover have "bytesIndex (pemBody src @ ?foot) pemEnd = Some (length (pemBody src))"
  proof -
    have "45 \<notin> set (pemBody src)" using pemBody_text [of src] b64Text_not by force
    then show ?thesis using bytesIndex_skip [OF _ d(2), of "pemBody src" ?foot] bytesIndex_here [of pemEnd] by simp
  qed
  ultimately show ?thesis
    using bytesIndex_here [of pemBegin "pemText label src"] by (simp add: pemBlock_def pemText_def Let_def)
qed

lemma b64Decode_pemBody:
  assumes "src \<noteq> []"
  shows "b64Decode (trimSpace (pemBody src)) = Some src"
proof -
  obtain c b d where b: "pemBody src = c # b @ [d, 10]" "c \<in> b64Text" "d \<in> b64Text" by (rule pemBody_ends [OF assms])
  then have "pemBody src = trimSpace (pemBody src) @ [10]" using trimSpace_stop by simp
  then have "filter (\<lambda>c. c \<noteq> 10 \<and> c \<noteq> 13) (trimSpace (pemBody src)) = b64Encode src"
    using pemBody_breaks [of src] filter_append [of "\<lambda>c. c \<noteq> 10 \<and> c \<noteq> 13" "trimSpace (pemBody src)" "[10]"] by simp
  then show ?thesis by (simp add: b64Decode_def b64Quanta_b64Encode)
qed

text \<open>
  C26. The PEM armour round trip: in a destination of the announced size the encoder fills exactly
  that size, the locator finds the same label in what it wrote, and the base64 decoder returns the
  source from the body it delimits, line breaks included.
\<close>

theorem pem_round_trip:
  assumes "length dst = pemLen label (length src)" "45 \<notin> set label" "src \<noteq> []"
  shows "\<exists>text body. pemEncode dst label src = Some (length dst, text) \<and> pemBlock text = Inr (label, body) \<and>
    b64Decode (trimSpace body) = Some src"
  using pemEncode_text [OF assms(1)] pemBlock_pemText [OF assms(2,3)] b64Decode_pemBody [OF assms(3)] by blast

theorem pem_round_trip_witness:
  "\<exists>text body. pemEncode (replicate (pemLen [65] 2) 0) [65] [1, 2] = Some (pemLen [65] 2, text) \<and>
     pemBlock text = Inr ([65], body) \<and> b64Decode (trimSpace body) = Some [1, 2]"
proof -
  have l: "length [1, 2 :: byte] = 2" by simp
  show ?thesis using pem_round_trip [of "replicate (pemLen [65] 2) 0" "[65]" "[1, 2]", unfolded l] by simp
qed

end
