(* ===== verification/Key_Vault.thy ===== *)
theory Key_Vault
  imports Pem_Armour Buffer_Correct
begin

text \<open>
  The locked memory as package \<^verbatim>\<open>secmem-crypto\<close> sees it. The package reaches a
  \<^verbatim>\<open>SecureBuffer\<close> only through its methods, and what those guarantee is the abstract buffer
  \<open>abuf\<close> of the core development; here a vault holds one abstract buffer for every
  allocation, in the order of allocation. The environment decides what the package cannot: whether
  the system grants a buffer, whether an emergency wipe reaches a buffer first, whether a region
  opens and closes. On top stand the helpers all parsers share.
\<close>

section \<open>Vaults\<close>

datatype fate = Fine | WipedFirst | OpenFails | CloseFails

record vault =
  vbufs :: "nat \<Rightarrow> abuf option"
  vlen :: "nat \<Rightarrow> nat"
  vnext :: nat
  vtick :: nat

text \<open>The environment: the allocator's answers, whether the options make the buffers closed at rest,
  the fate of each access, random bytes, and whether this build erases heap copies
  (\<^verbatim>\<open>heapTransientsAllowed\<close>).\<close>

record keyEnv =
  allocAnswer :: "nat \<Rightarrow> err option"
  closedRegions :: bool
  accessFate :: "nat \<Rightarrow> fate"
  randomBytes :: "nat \<Rightarrow> nat \<Rightarrow> bytes option"
  heapErased :: bool

text \<open>Only a region that is closed at rest has to be opened and closed for an access.\<close>

definition fateOf :: "'e keyEnv_scheme \<Rightarrow> vault \<Rightarrow> fate" where
  "fateOf E v = (case accessFate E (vtick v) of
     OpenFails \<Rightarrow> if closedRegions E then OpenFails else Fine
   | CloseFails \<Rightarrow> if closedRegions E then CloseFails else Fine
   | f \<Rightarrow> f)"

definition vstep :: "vault \<Rightarrow> vault" where
  "vstep v = v\<lparr>vtick := Suc (vtick v)\<rparr>"

definition setBuf :: "nat \<Rightarrow> abuf \<Rightarrow> vault \<Rightarrow> vault" where
  "setBuf i a v = v\<lparr>vbufs := (vbufs v)(i \<mapsto> a)\<rparr>"

definition newEmptyBuffer :: "'e keyEnv_scheme \<Rightarrow> nat \<Rightarrow> vault \<Rightarrow> (kerr + nat) \<times> vault" where
  "newEmptyBuffer E n v =
     (if n = 0 then (Inl (errCore (ErrMsg ''invalid size'')), v)
      else case allocAnswer E (vtick v) of
        Some e \<Rightarrow> (Inl (errCore e), vstep v)
      | None \<Rightarrow> (Inr (vnext v), setBuf (vnext v) (ALive (zeros n) False False)
          ((vstep v)\<lparr>vlen := (vlen v)(vnext v := n), vnext := Suc (vnext v)\<rparr>)))"

definition destroyBuf :: "nat \<Rightarrow> vault \<Rightarrow> vault" where
  "destroyBuf i v = setBuf i ADestroyed v"

definition bufDestroyed :: "nat \<Rightarrow> vault \<Rightarrow> bool" where
  "bufDestroyed i v \<longleftrightarrow> (case vbufs v i of Some (ALive _ _ _) \<Rightarrow> False | Some AWiped \<Rightarrow> False | _ \<Rightarrow> True)"

text \<open>A wiped buffer keeps its length.\<close>

definition bufLen :: "nat \<Rightarrow> vault \<Rightarrow> nat" where
  "bufLen i v = (if bufDestroyed i v then 0 else vlen v i)"

text \<open>The state in which an access finds a buffer: an emergency wipe may have reached it first.\<close>

definition arrives :: "'e keyEnv_scheme \<Rightarrow> vault \<Rightarrow> abuf \<Rightarrow> abuf" where
  "arrives E v a = (case a of ALive c s ro \<Rightarrow> if fateOf E v = WipedFirst then AWiped else a | _ \<Rightarrow> a)"

definition reach :: "'e keyEnv_scheme \<Rightarrow> nat \<Rightarrow> vault \<Rightarrow> vault" where
  "reach E i v = (case vbufs v i of None \<Rightarrow> vstep v | Some a \<Rightarrow> setBuf i (arrives E v a) (vstep v))"

text \<open>
  \<open>withBuf\<close> is \<^verbatim>\<open>WithBytesErr\<close>: the callback gets the contents and the vault, and returns
  its error, a result and the contents it leaves. \<open>d\<close> is the value the result variable of the
  caller has before. A failure to close the region is reported only when the callback had no error.
  A callback that panics is the value \<open>None\<close>.
\<close>

definition withBuf ::
    "'e keyEnv_scheme \<Rightarrow> 'a \<Rightarrow> (bytes \<Rightarrow> vault \<Rightarrow> ((kerr option \<times> 'a \<times> bytes) \<times> vault) option) \<Rightarrow>
     nat \<Rightarrow> vault \<Rightarrow> ((kerr option \<times> 'a) \<times> vault) option" where
  "withBuf E d f i v = (let v1 = reach E i v; ft = fateOf E v in
     case vbufs v1 i of
       Some (ALive c s ro) \<Rightarrow>
         (if s then Some ((Some (errCore ErrSealed), d), v1)
          else if ft = OpenFails then Some ((Some (errCore ErrOS), d), v1)
          else do {
            ((e, x, c'), v2) \<leftarrow> f c v1;
            Some ((if e = None \<and> ft = CloseFails then Some (errCore ErrOS) else e, x), setBuf i (ALive c' s ro) v2)
          })
     | Some AWiped \<Rightarrow> Some ((Some (errCore ErrWiped), d), v1)
     | _ \<Rightarrow> Some ((Some (errCore ErrDestroyed), d), v1))"

text \<open>A callback that only reads.\<close>

definition reading :: "(bytes \<Rightarrow> vault \<Rightarrow> ((kerr option \<times> 'a) \<times> vault) option) \<Rightarrow>
    bytes \<Rightarrow> vault \<Rightarrow> ((kerr option \<times> 'a \<times> bytes) \<times> vault) option" where
  "reading f c v = do { ((e, x), v1) \<leftarrow> f c v; Some ((e, x, c), v1) }"

definition copyInBuf :: "'e keyEnv_scheme \<Rightarrow> bytes \<Rightarrow> int \<Rightarrow> nat \<Rightarrow> vault \<Rightarrow> kerr option \<times> vault" where
  "copyInBuf E src off i v = (let v1 = reach E i v; ft = fateOf E v in
     case vbufs v1 i of
       Some (ALive c s ro) \<Rightarrow>
         (if s then (Some (errCore ErrSealed), v1)
          else if ro then (Some (errCore ErrReadOnly), v1)
          else case aCopyIn src off c of
            Inl e \<Rightarrow> (Some (errCore e), v1)
          | Inr (_, _, c') \<Rightarrow>
              (if ft = OpenFails then (Some (errCore ErrOS), v1)
               else (if ft = CloseFails then Some (errCore ErrOS) else None, setBuf i (ALive c' s ro) v1)))
     | Some AWiped \<Rightarrow> (Some (errCore ErrWiped), v1)
     | _ \<Rightarrow> (Some (errCore ErrDestroyed), v1))"

definition truncateBuf :: "'e keyEnv_scheme \<Rightarrow> int \<Rightarrow> nat \<Rightarrow> vault \<Rightarrow> kerr option \<times> vault" where
  "truncateBuf E n i v = (let v1 = reach E i v; ft = fateOf E v in
     case vbufs v1 i of
       Some (ALive c s ro) \<Rightarrow>
         (if s then (Some (errCore ErrSealed), v1)
          else if ro then (Some (errCore ErrReadOnly), v1)
          else if n < 0 \<or> int (length c) < n then (Some (errCore (ErrMsg ''out of range'')), v1)
          else if nat n < length c \<and> ft = OpenFails then (Some (errCore ErrOS), v1)
          else if nat n < length c \<and> ft = CloseFails
            then (Some (errCore ErrOS), setBuf i (ALive (take (nat n) c @ zeros (length c - nat n)) s ro) v1)
          else (None, setBuf i (ALive (take (nat n) c) s ro) (v1\<lparr>vlen := (vlen v1)(i := nat n)\<rparr>)))
     | Some AWiped \<Rightarrow> (Some (errCore ErrWiped), v1)
     | _ \<Rightarrow> (Some (errCore ErrDestroyed), v1))"

section \<open>The shared helpers\<close>

definition copyToBuffer :: "'e keyEnv_scheme \<Rightarrow> bytes \<Rightarrow> vault \<Rightarrow> (kerr + nat) \<times> vault" where
  "copyToBuffer E d v = (case newEmptyBuffer E (length d) v of
     (Inl e, v1) \<Rightarrow> (Inl e, v1)
   | (Inr i, v1) \<Rightarrow> (case copyInBuf E d 0 i v1 of
       (Some e, v2) \<Rightarrow> (Inl e, destroyBuf i v2)
     | (None, v2) \<Rightarrow> (Inr i, v2)))"

text \<open>The decoder writes into the buffer; what a failed decode leaves there is not observed,
  because the buffer is destroyed.\<close>

definition decodeInto :: "bytes \<Rightarrow> bytes \<Rightarrow> vault \<Rightarrow> ((kerr option \<times> nat \<times> bytes) \<times> vault) option" where
  "decodeInto body c v = (case b64Decode body of
     None \<Rightarrow> Some ((Some (errText ''illegal base64 data''), 0, c), v)
   | Some d \<Rightarrow> if length c < length d then None else Some ((None, length d, goCopy 0 d c), v))"

definition decodePEMBody :: "'e keyEnv_scheme \<Rightarrow> bytes \<Rightarrow> vault \<Rightarrow> ((kerr + nat) \<times> vault) option" where
  "decodePEMBody E body0 v = (let body = trimSpace body0; n = b64DecodedLen (length body) in
     if n = 0 then Some (Inl errMalformed, v)
     else case newEmptyBuffer E n v of
       (Inl e, v1) \<Rightarrow> Some (Inl e, v1)
     | (Inr i, v1) \<Rightarrow> do {
         ((e1, m), v2) \<leftarrow> withBuf E 0 (decodeInto body) i v1;
         (let e2 = (if e1 = None \<and> m = 0 then Some errMalformed else e1);
              (e3, v3) = (if e2 = None then truncateBuf E (int m) i v2 else (e2, v2))
          in case e3 of
            None \<Rightarrow> Some (Inr i, v3)
          | Some e \<Rightarrow> Some (Inl (if kerrIs e errMalformed then e else errBoth errMalformed e), destroyBuf i v3))
       })"

section \<open>The vault keeps the contract of the buffers\<close>

text \<open>An error of the core module as an error of this package.\<close>

abbreviation coreErr :: "error \<Rightarrow> kerr option" where
  "coreErr e \<equiv> map_option errCore e"

lemma coreErr_Some [simp]: "Some (errCore x) = coreErr e \<longleftrightarrow> e = Some x"
  by (cases e) auto


definition ex_env :: keyEnv where
  "ex_env = \<lparr>allocAnswer = (\<lambda>_. None), closedRegions = False, accessFate = (\<lambda>_. Fine),
     randomBytes = (\<lambda>_ n. Some (zeros n)), heapErased = True\<rparr>"

definition ex_vault :: vault where
  "ex_vault = \<lparr>vbufs = (\<lambda>_. None), vlen = (\<lambda>_. 0), vnext = 0, vtick = 0\<rparr>"


section \<open>Which buffers are held\<close>

text \<open>A buffer is held from its allocation until it is destroyed; an emergency wipe empties it but
  does not release it.\<close>

definition vheld :: "vault \<Rightarrow> nat set" where
  "vheld v = {i. \<not> bufDestroyed i v}"

definition vwf :: "vault \<Rightarrow> bool" where
  "vwf v \<longleftrightarrow> (\<forall>i. vnext v \<le> i \<longrightarrow> vbufs v i = None)"

text \<open>From \<open>v\<close> to \<open>v'\<close> the buffers \<open>D\<close> are released and \<open>S\<close> are acquired.\<close>

definition moves :: "vault \<Rightarrow> nat set \<Rightarrow> nat set \<Rightarrow> vault \<Rightarrow> bool" where
  "moves v D S v' \<longleftrightarrow> vwf v' \<and> vnext v \<le> vnext v' \<and> vheld v' = (vheld v - D) \<union> S \<and> S \<inter> (vheld v - D) = {}"

lemma held_setBuf: "vheld (setBuf i a v) = (if a = ADestroyed then vheld v - {i} else insert i (vheld v))"
  by (auto simp: vheld_def bufDestroyed_def setBuf_def split: abuf.splits)

lemma held_less: "vwf v \<Longrightarrow> i \<in> vheld v \<Longrightarrow> i < vnext v"
  by (auto simp: vheld_def bufDestroyed_def vwf_def not_le [symmetric])

lemma held_update [simp]: "vheld (v\<lparr>vlen := f\<rparr>) = vheld v" "vheld (v\<lparr>vnext := n\<rparr>) = vheld v" "vheld (v\<lparr>vtick := t\<rparr>) = vheld v" "vheld (vstep v) = vheld v"
  by (simp_all add: vheld_def bufDestroyed_def vstep_def)

lemma vault_simps [simp]: "vbufs (vstep v) = vbufs v" "vnext (vstep v) = vnext v" "vlen (vstep v) = vlen v"
  "vbufs (setBuf i a v) = (vbufs v)(i \<mapsto> a)" "vnext (setBuf i a v) = vnext v" "vlen (setBuf i a v) = vlen v"
  by (simp_all add: vstep_def setBuf_def)

lemma arrives_live: "arrives E v a = ADestroyed \<longleftrightarrow> a = ADestroyed"
  by (simp add: arrives_def split: abuf.split)

lemma held_reach [simp]: "vheld (reach E i v) = vheld v"
proof (cases "vbufs v i")
  case (Some a)
  then have "i \<in> vheld v \<longleftrightarrow> a \<noteq> ADestroyed" by (simp add: vheld_def bufDestroyed_def split: abuf.split)
  then show ?thesis using Some by (auto simp: reach_def held_setBuf arrives_live)
qed (simp add: reach_def)

lemma vnext_reach [simp]: "vnext (reach E i v) = vnext v"
  by (simp add: reach_def split: option.split)

lemma vwf_setBuf: "vwf v \<Longrightarrow> i < vnext v \<Longrightarrow> vwf (setBuf i a v)"
  by (auto simp: vwf_def)

lemma vwf_reach [simp]: "vwf v \<Longrightarrow> vwf (reach E i v)"
proof (cases "vbufs v i")
  case None
  assume "vwf v" then show ?thesis using None by (simp add: reach_def vwf_def)
next
  case (Some a)
  assume "vwf v"
  then have "i < vnext v" using Some by (auto simp: vwf_def not_le [symmetric])
  then show ?thesis using Some \<open>vwf v\<close> by (auto simp: reach_def vwf_def)
qed

lemma live_held: "vbufs v i = Some (ALive c s ro) \<Longrightarrow> i \<in> vheld v"
  by (simp add: vheld_def bufDestroyed_def)

lemma moves_refl [simp]: "moves v {} {} v \<longleftrightarrow> vwf v"
  by (simp add: moves_def)

lemma moves_trans: "moves v D S v1 \<Longrightarrow> moves v1 D' S' v2 \<Longrightarrow> moves v (D \<union> D') ((S - D') \<union> S') v2"
  unfolding moves_def by (intro conjI; (elim conjE)?) (auto dest: order_trans)

lemma moves_cong: "moves v D S v' \<Longrightarrow> vheld v - D = vheld v - D' \<Longrightarrow> S = S' \<Longrightarrow> moves v D' S' v'"
  by (simp add: moves_def)

lemma newEmptyBuffer_moves:
  assumes "newEmptyBuffer E n v = (r, v1)" "vwf v"
  shows "moves v {} (case r of Inl _ \<Rightarrow> {} | Inr i \<Rightarrow> {i}) v1" "r = Inr i \<Longrightarrow> i = vnext v \<and> i \<notin> vheld v \<and> i < vnext v1"
proof -
  have i: "vnext v \<notin> vheld v" using held_less [OF assms(2), of "vnext v"] by blast
  show "moves v {} (case r of Inl _ \<Rightarrow> {} | Inr i \<Rightarrow> {i}) v1"
    using assms i by (auto simp: newEmptyBuffer_def moves_def held_setBuf vwf_def split: if_splits option.splits)
  show "r = Inr i \<Longrightarrow> i = vnext v \<and> i \<notin> vheld v \<and> i < vnext v1"
    using assms i by (auto simp: newEmptyBuffer_def split: if_splits option.splits)
qed

lemma destroyBuf_moves: "vwf v \<Longrightarrow> i < vnext v \<Longrightarrow> moves v {i} {} (destroyBuf i v)"
  by (auto simp: moves_def destroyBuf_def held_setBuf vwf_setBuf)

lemma copyInBuf_moves: "vwf v \<Longrightarrow> moves v {} {} (snd (copyInBuf E src off i v))"
proof -
  assume v: "vwf v"
  let ?v = "reach E i v"
  have "moves v {} {} (setBuf i (ALive c s ro) ?v)" if "vbufs ?v i = Some (ALive c' s' ro')" for c s ro c' s' ro'
  proof -
    have "i \<in> vheld v" using live_held [OF that] by simp
    then show ?thesis using v held_less [OF v] by (auto simp: moves_def held_setBuf vwf_setBuf)
  qed
  moreover have "moves v {} {} ?v" using v by (simp add: moves_def)
  ultimately show ?thesis by (auto simp: copyInBuf_def Let_def split: option.splits abuf.splits sum.splits)
qed

lemma truncateBuf_moves: "vwf v \<Longrightarrow> moves v {} {} (snd (truncateBuf E n i v))"
proof -
  assume v: "vwf v"
  let ?v = "reach E i v"
  have "moves v {} {} (setBuf i (ALive c s ro) ?v)" "moves v {} {} (setBuf i (ALive c s ro) (?v\<lparr>vlen := f\<rparr>))"
    if "vbufs ?v i = Some (ALive c' s' ro')" for c s ro c' s' ro' f
  proof -
    have "i \<in> vheld v" using live_held [OF that] by simp
    then show "moves v {} {} (setBuf i (ALive c s ro) ?v)" "moves v {} {} (setBuf i (ALive c s ro) (?v\<lparr>vlen := f\<rparr>))"
      using v held_less [OF v \<open>i \<in> vheld v\<close>] vwf_reach [OF v, of E i] by (auto simp: moves_def held_setBuf vwf_def)
  qed
  moreover have "moves v {} {} ?v" using v by (simp add: moves_def)
  ultimately show ?thesis by (auto simp: truncateBuf_def Let_def split: option.splits abuf.splits)
qed

text \<open>A borrow: what its callback acquires is what the borrow acquires, unless the region cannot be
  closed again, which only a region closed at rest can suffer.\<close>

lemma withBuf_moves:
  assumes "vwf v" "\<not> closedRegions E" "\<And>e. S (Some e) d = {}" "\<And>e. Q (Some e) d"
    and f: "\<And>c v1. vwf v1 \<Longrightarrow> vheld v1 = vheld v \<Longrightarrow> vnext v1 = vnext v \<Longrightarrow> i \<in> vheld v \<Longrightarrow>
      \<exists>e x c' v2. f c v1 = Some ((e, x, c'), v2) \<and> moves v1 {} (S e x) v2 \<and> Q e x"
  obtains e x v' where "withBuf E d f i v = Some ((e, x), v')" "moves v {} (S e x) v'" "Q e x"
proof -
  let ?v = "reach E i v"
  have ft: "fateOf E v \<noteq> OpenFails" "fateOf E v \<noteq> CloseFails" using assms(2) by (auto simp: fateOf_def split: fate.splits)
  have refused: "moves v {} (S (Some e) d) ?v" for e using assms(1,3) by (simp add: moves_def)
  show thesis
  proof (cases "\<exists>c ro. vbufs ?v i = Some (ALive c False ro)")
    case True
    then obtain c ro where c: "vbufs ?v i = Some (ALive c False ro)" by blast
    then have i: "i \<in> vheld v" using live_held [OF c] by simp
    obtain e x c' v2 where x: "f c ?v = Some ((e, x, c'), v2)" "moves ?v {} (S e x) v2" "Q e x"
      using f [of ?v c] assms(1) i by auto
    then have "moves v {} (S e x) (setBuf i (ALive c' False ro) v2)"
      using i held_less [OF assms(1) i] by (auto simp: moves_def held_setBuf vwf_setBuf)
    moreover have "withBuf E d f i v = Some ((e, x), setBuf i (ALive c' False ro) v2)"
      using c x(1) ft by (simp add: withBuf_def Let_def)
    ultimately show thesis using that x(3) by blast
  next
    case False
    then obtain e where "withBuf E d f i v = Some ((Some e, d), ?v)"
      by (cases "vbufs ?v i"; cases "the (vbufs ?v i)") (auto simp: withBuf_def Let_def)
    then show thesis using that refused assms(4) by blast
  qed
qed

end
