(* ===== verification/Mod_Reduce.thy ===== *)
theory Mod_Reduce
  imports Sha2
begin

text \<open>
  The modular reduction of \<^verbatim>\<open>secmem-crypto/modreduce.go\<close>, which computes the exponents
  of an RSA key on arrays of 64-bit limbs, and the decrement of a big-endian number. Magnitudes
  are byte strings; the limb arrays are little-endian. The wiped working arrays are locals and
  appear as values only.
\<close>

unbundle bit_operations_syntax

section \<open>The program\<close>

definition rsaMaxModulusBits :: nat where "rsaMaxModulusBits = 16384"
definition rsaMaxPrimeBits :: nat where "rsaMaxPrimeBits = 8192"

definition modReduceLimbs :: nat where
  "modReduceLimbs = rsaMaxPrimeBits div 64 + 1"

lemmas rsa_caps = rsaMaxModulusBits_def rsaMaxPrimeBits_def modReduceLimbs_def

definition setLimbsBE :: "bytes \<Rightarrow> 64 word list option" where
  "setLimbsBE b = (if modReduceLimbs < (length b + 7) div 8 then None
     else Some (foldl (\<lambda>w i. w[i div 8 := w ! (i div 8) OR push_bit (8 * (i mod 8)) (ucast (b ! (length b - 1 - i)))])
       (replicate modReduceLimbs 0) [0..<length b]))"

definition limbsToBE :: "bytes \<Rightarrow> 64 word list \<Rightarrow> bytes" where
  "limbsToBE dst w = foldl (\<lambda>d i. d[length d - 1 - i := ucast (drop_bit (8 * (i mod 8)) (w ! (i div 8)))])
     dst [0..<length dst]"

text \<open>The three inner loops of a step: \<open>r = 2r + bit\<close>, \<open>t = r - m\<close> with the borrow of
  \<^verbatim>\<open>bits.Sub64\<close>, and the masked choice between the two.\<close>

fun shiftIn :: "64 word \<Rightarrow> 64 word list \<Rightarrow> 64 word list" where
  "shiftIn carry [] = []"
| "shiftIn carry (r # rs) = (push_bit 1 r OR carry) # shiftIn (drop_bit 63 r) rs"

definition sub64 :: "64 word \<Rightarrow> 64 word \<Rightarrow> 64 word \<Rightarrow> 64 word \<times> 64 word" where
  "sub64 x y borrow = (x - y - borrow, if unat x < unat y + unat borrow then 1 else 0)"

fun subLimbs :: "64 word \<Rightarrow> 64 word list \<Rightarrow> 64 word list \<Rightarrow> 64 word list \<times> 64 word" where
  "subLimbs borrow (r # rs) (m # ms) =
     (let (t, b1) = sub64 r m borrow; (ts, b2) = subLimbs b1 rs ms in (t # ts, b2))"
| "subLimbs borrow _ _ = ([], borrow)"

definition selectLimbs :: "64 word \<Rightarrow> 64 word list \<Rightarrow> 64 word list \<Rightarrow> 64 word list" where
  "selectLimbs msk ts rs = map2 (\<lambda>t r. (t AND msk) OR (r AND NOT msk)) ts rs"

definition reduceStep :: "64 word list \<Rightarrow> byte \<Rightarrow> 64 word list \<Rightarrow> nat \<Rightarrow> 64 word list" where
  "reduceStep mws b rs i =
     (let rs1 = shiftIn (ucast (drop_bit i b) AND 1) rs;
          (ts, borrow) = subLimbs 0 rs1 mws
      in selectLimbs (borrow - 1) ts rs1)"

definition reduceByte :: "64 word list \<Rightarrow> 64 word list \<Rightarrow> byte \<Rightarrow> 64 word list" where
  "reduceByte mws rs b = foldl (reduceStep mws b) rs [7, 6, 5, 4, 3, 2, 1, 0]"

text \<open>\<open>reduceMod\<close> returns its verdict and the destination.\<close>

definition reduceMod :: "bytes \<Rightarrow> bytes \<Rightarrow> bytes \<Rightarrow> bool \<times> bytes" where
  "reduceMod dst x m =
     (if length m = 0 \<or> rsaMaxPrimeBits < length m * 8 \<or> rsaMaxModulusBits < length x * 8 \<or> length dst \<noteq> length m
      then (False, dst)
      else case setLimbsBE m of None \<Rightarrow> (False, dst)
      | Some mw \<Rightarrow>
          (let nl = (length m + 7) div 8 + 1; mws = take nl mw
           in if foldl (OR) 0 mws = 0 then (False, dst)
              else let rs = foldl (reduceByte mws) (replicate nl 0) x
                   in (True, limbsToBE dst (rs @ replicate (modReduceLimbs - nl) 0))))"

fun decrementLoop :: "nat \<Rightarrow> bytes \<Rightarrow> bytes \<Rightarrow> 16 word \<Rightarrow> bytes \<times> 16 word" where
  "decrementLoop 0 p dst borrow = (dst, borrow)"
| "decrementLoop (Suc i) p dst borrow =
     (let v = ucast (p ! i) - borrow in decrementLoop i p (dst[i := ucast v]) (drop_bit 15 v))"

definition decrementBE :: "bytes \<Rightarrow> bytes \<Rightarrow> bool \<times> bytes" where
  "decrementBE dst p = (if length dst \<noteq> length p then (False, dst)
     else let (d, borrow) = decrementLoop (length p) p dst 1 in (borrow = 0, d))"

section \<open>Limbs as numbers\<close>

primrec limbNat :: "64 word list \<Rightarrow> nat" where
  "limbNat [] = 0"
| "limbNat (w # ws) = unat w + 2 ^ 64 * limbNat ws"

lemma limbNat_or: "limbNat (w # ws) = unat w OR push_bit 64 (limbNat ws)"
proof -
  have "unat w OR push_bit 64 (limbNat ws) = unat w + push_bit 64 (limbNat ws)"
    by (rule disjunctive_add_eq_or [symmetric], rule bit_eqI) (auto simp: bit_simps dest: bit_imp_le_length)
  then show ?thesis by (simp add: push_bit_eq_mult)
qed

lemma bit_limbNat: "bit (limbNat w) m \<longleftrightarrow> m div 64 < length w \<and> bit (w ! (m div 64)) (m mod 64)"
proof (induction w arbitrary: m)
  case (Cons x w)
  show ?case
  proof (cases "m < 64")
    case True then show ?thesis by (simp add: limbNat_or bit_simps del: limbNat.simps)
  next
    case False
    then have "m div 64 = Suc ((m - 64) div 64)" "m mod 64 = (m - 64) mod 64"
      by (simp_all add: le_div_geq le_mod_geq)
    moreover have "\<not> bit x m" using False bit_imp_le_length [of x m] by auto
    ultimately show ?thesis using False Cons.IH [of "m - 64"]
      by (simp add: limbNat_or bit_simps del: limbNat.simps)
  qed
qed simp

lemma bit_beNat: "bit (beNat b) m \<longleftrightarrow> m div 8 < length b \<and> bit (b ! (length b - 1 - m div 8)) (m mod 8)"
proof (induction b arbitrary: m rule: rev_induct)
  case (snoc x b)
  have or: "beNat (b @ [x]) = unat x OR push_bit 8 (beNat b)"
  proof -
    have "unat x OR push_bit 8 (beNat b) = unat x + push_bit 8 (beNat b)"
      by (rule disjunctive_add_eq_or [symmetric], rule bit_eqI) (auto simp: bit_simps dest: bit_imp_le_length)
    then show ?thesis by (simp add: push_bit_eq_mult beNat_snoc)
  qed
  show ?case
  proof (cases "m < 8")
    case True then show ?thesis by (simp add: or bit_simps)
  next
    case False
    then have d: "m div 8 = Suc ((m - 8) div 8)" "m mod 8 = (m - 8) mod 8"
      by (simp_all add: le_div_geq le_mod_geq)
    moreover have "\<not> bit x m" using False bit_imp_le_length [of x m] by auto
    ultimately show ?thesis using False snoc.IH [of "m - 8"]
      by (auto simp: or bit_simps nth_append)
  qed
qed (simp add: beNat_def)

lemma limbNat_less: "limbNat w < 2 ^ (64 * length w)"
proof (induction w)
  case (Cons x w)
  have "unat x < 2 ^ 64" using unsigned_less [of x] by simp
  moreover have "Suc (limbNat w) * 2 ^ 64 \<le> 2 ^ (64 * length w) * 2 ^ 64"
    using Cons by (intro mult_le_mono1) simp
  ultimately show ?case by (simp add: power_add algebra_simps)
qed simp

lemma setLimbs_loop:
  fixes b :: bytes
  assumes "i \<le> length b" "length b \<le> 8 * n"
  defines "step \<equiv> \<lambda>(w :: 64 word list) i. w[i div 8 := w ! (i div 8) OR push_bit (8 * (i mod 8)) (ucast (b ! (length b - 1 - i)))]"
  shows "length (foldl step (replicate n 0) [0..<i]) = n \<and>
    (\<forall>k < n. \<forall>j < 64. bit (foldl step (replicate n 0) [0..<i] ! k) j \<longleftrightarrow>
      8 * k + j div 8 < i \<and> bit (b ! (length b - 1 - (8 * k + j div 8))) (j mod 8))"
  using assms(1)
proof (induction i)
  case (Suc i)
  define w where "w = foldl step (replicate n 0) [0..<i]"
  have IH: "length w = n" "\<And>k j. k < n \<Longrightarrow> j < 64 \<Longrightarrow> bit (w ! k) j \<longleftrightarrow>
      8 * k + j div 8 < i \<and> bit (b ! (length b - 1 - (8 * k + j div 8))) (j mod 8)"
    using Suc by (auto simp: w_def)
  have i: "i div 8 < n" using Suc.prems assms(2) by linarith
  have "bit (step w i ! k) j \<longleftrightarrow>
      8 * k + j div 8 < Suc i \<and> bit (b ! (length b - 1 - (8 * k + j div 8))) (j mod 8)" if "k < n" "j < 64" for k j
  proof (cases "k = i div 8")
    case False
    then have "8 * k + j div 8 \<noteq> i" using that by auto
    with False that show ?thesis by (auto simp: step_def IH less_Suc_eq)
  next
    case True
    let ?x = "b ! (length b - Suc i)"
    have pb: "bit (push_bit (8 * (i mod 8)) (ucast ?x :: 64 word)) j \<longleftrightarrow> 8 * (i mod 8) \<le> j \<and> bit ?x (j - 8 * (i mod 8))"
      using that by (auto simp: bit_simps dest: bit_imp_le_length)
    show ?thesis
    proof (cases "j div 8 = i mod 8")
      case eq: True
      have "8 * k + j div 8 = i" using True eq by simp
      moreover have "j - 8 * (i mod 8) = j mod 8" "8 * (i mod 8) \<le> j"
        using eq by (metis minus_mult_div_eq_mod) (use eq in auto)
      ultimately show ?thesis using that True i IH(1) IH(2) [of k j] by (simp add: step_def bit_or_iff pb)
    next
      case ne: False
      have "\<not> bit (push_bit (8 * (i mod 8)) (ucast ?x :: 64 word)) j"
      proof
        assume "bit (push_bit (8 * (i mod 8)) (ucast ?x :: 64 word)) j"
        then have a: "8 * (i mod 8) \<le> j" "bit ?x (j - 8 * (i mod 8))" using pb by auto
        from a(2) have "j - 8 * (i mod 8) < 8" by (auto dest: bit_imp_le_length)
        with a(1) ne show False by auto
      qed
      moreover have "8 * k + j div 8 \<noteq> i" using True ne by (metis add_left_imp_eq mult_div_mod_eq)
      ultimately show ?thesis using that True i IH(1) IH(2) [of k j] by (auto simp: step_def bit_or_iff less_Suc_eq)
    qed
  qed
  moreover have "length (step w i) = n" using IH(1) by (simp add: step_def)
  ultimately show ?case by (simp add: w_def)
qed (simp add: step_def)

lemma byte_of_limb: "(m :: nat) div 8 = 8 * (m div 64) + m mod 64 div 8" "m mod 8 = m mod 64 mod 8"
  using mod_mult2_eq [of m 8 8] div_mult2_eq [of m 8 8] by simp_all

lemma limb_of_byte: "n < 8 \<Longrightarrow> (8 * i + n) div 64 = i div 8" "n < 8 \<Longrightarrow> (8 * i + n) mod 64 = 8 * (i mod 8) + (n :: nat)"
  using mod_mult2_eq [of "8 * i + n" 8 8] div_mult2_eq [of "8 * i + n" 8 8] by simp_all

lemma setLimbsBE_limbs:
  assumes "length b \<le> 8 * modReduceLimbs"
  obtains w where "setLimbsBE b = Some w" "length w = modReduceLimbs"
    "\<And>k. length b \<le> 8 * k \<Longrightarrow> limbNat (take k w) = beNat b"
proof -
  define w where "w = foldl (\<lambda>w i. w[i div 8 := w ! (i div 8) OR push_bit (8 * (i mod 8)) (ucast (b ! (length b - 1 - i)))])
       (replicate modReduceLimbs (0 :: 64 word)) [0..<length b]"
  have w: "length w = modReduceLimbs" "\<And>k j. k < modReduceLimbs \<Longrightarrow> j < 64 \<Longrightarrow>
      bit (w ! k) j \<longleftrightarrow> 8 * k + j div 8 < length b \<and> bit (b ! (length b - 1 - (8 * k + j div 8))) (j mod 8)"
    using setLimbs_loop [of "length b" b modReduceLimbs] assms by (auto simp: w_def)
  have "limbNat (take k w) = beNat b" if k: "length b \<le> 8 * k" for k
  proof (rule bit_eqI)
    fix m :: nat
    show "bit (limbNat (take k w)) m \<longleftrightarrow> bit (beNat b) m"
      using k assms w(1) w(2) [of "m div 64" "m mod 64"]
      by (auto simp: bit_limbNat bit_beNat byte_of_limb [of m])
  qed
  moreover have "setLimbsBE b = Some w" using assms by (simp add: setLimbsBE_def w_def)
  ultimately show thesis using that w(1) by blast
qed

lemma limbsToBE_beBytes:
  assumes "length dst \<le> 8 * length w"
  shows "limbsToBE dst w = beBytes (length dst) (limbNat w)"
proof -
  let ?f = "\<lambda>i. ucast (drop_bit (8 * (i mod 8)) (w ! (i div 8))) :: byte"
  have loop: "foldl (\<lambda>d i. d[length d - 1 - i := ?f i]) dst [0..<k] =
      take (length dst - k) dst @ map (\<lambda>j. ?f (length dst - 1 - j)) [length dst - k..<length dst]" if "k \<le> length dst" for k
    using that
  proof (induction k)
    case (Suc k)
    let ?n = "length dst - Suc k"
    have "take (length dst - k) dst = take ?n dst @ [dst ! ?n]"
      using Suc.prems take_Suc_conv_app_nth [of ?n dst] by (simp add: Suc_diff_Suc)
    moreover have "[?n..<length dst] = ?n # [length dst - k..<length dst]"
      using Suc.prems upt_conv_Cons [of ?n "length dst"] by (simp add: Suc_diff_Suc)
    ultimately show ?case using Suc by (simp add: list_update_append)
  qed simp
  have f: "?f i = word_of_nat (limbNat w div 256 ^ i)" if "i < length dst" for i
  proof (rule bit_word_eqI)
    fix n assume "n < LENGTH(8)"
    then have n: "n < 8" by simp
    have "limbNat w div 256 ^ i = drop_bit (8 * i) (limbNat w)" by (simp add: drop_bit_eq_div power_mult)
    then show "bit (?f i) n \<longleftrightarrow> bit (word_of_nat (limbNat w div 256 ^ i) :: byte) n"
      using n that assms by (auto simp: bit_simps bit_limbNat limb_of_byte)
  qed
  have "limbsToBE dst w = map (\<lambda>j. ?f (length dst - 1 - j)) [0..<length dst]"
    unfolding limbsToBE_def using loop [of "length dst"] by simp
  also have "\<dots> = beBytes (length dst) (limbNat w)"
    unfolding beBytes_def by (rule map_cong [OF refl], rule f) auto
  finally show ?thesis .
qed

section \<open>One step\<close>

lemma mod_mult_digit: "u < B \<Longrightarrow> (B * v + u) mod (B * C) = B * (v mod C) + (u :: nat)"
  by (cases "B = 0") (simp_all add: mod_mult2_eq)

lemma shiftIn_nat:
  assumes "c = 0 \<or> c = 1"
  shows "length (shiftIn c rs) = length rs \<and> limbNat (shiftIn c rs) = (2 * limbNat rs + unat c) mod 2 ^ (64 * length rs)"
  using assms
proof (induction c rs rule: shiftIn.induct)
  case (2 c r rs)
  define B where "B = (2 :: nat) ^ 63"
  define q where "q = unat r mod B"
  define h where "h = unat r div B"
  have B: "(2 :: nat) ^ 64 = 2 * B" by (simp add: B_def)
  have r: "unat r = B * h + q" by (simp add: q_def h_def)
  have q: "q < B" by (simp add: q_def B_def)
  have c: "unat c \<le> 1" using 2(2) by auto
  have h: "h \<le> 1"
  proof -
    have "unat r < B * 2" using unsigned_less [of r] by (simp add: B_def)
    then show ?thesis unfolding h_def by (metis less_mult_imp_div_less less_2_cases_iff One_nat_def le0 le_refl mult.commute)
  qed
  have disj: "push_bit 1 r AND c = 0"
    by (rule bit_word_eqI) (use 2(2) in \<open>auto simp: bit_simps simp del: push_bit_Suc push_bit_numeral\<close>)
  have "unat (push_bit 1 r) = 2 * q"
    by (simp add: unat_word_ariths q_def B_def mult.commute mult_mod_right)
  moreover have "unat (push_bit 1 r + c) = (unat (push_bit 1 r) + unat c) mod 2 ^ 64"
    by (simp add: unat_word_ariths)
  ultimately have u: "unat (push_bit 1 r OR c) = 2 * q + unat c"
    using q c disjunctive_add_eq_or [OF disj] B by simp
  have d: "unat (drop_bit 63 r) = h" by (simp add: drop_bit_eq_div h_def B_def unat_div_distrib)
  have "drop_bit 63 r = 0 \<or> drop_bit 63 r = 1"
    using d h word_unat_eq_iff [of "drop_bit 63 r" 0] word_unat_eq_iff [of "drop_bit 63 r" 1] by auto
  then have IH: "length (shiftIn (drop_bit 63 r) rs) = length rs"
    "limbNat (shiftIn (drop_bit 63 r) rs) = (2 * limbNat rs + h) mod 2 ^ (64 * length rs)"
    using 2(1) d by auto
  have "2 * limbNat (r # rs) + unat c = 2 ^ 64 * (2 * limbNat rs + h) + (2 * q + unat c)"
    by (simp add: r B_def algebra_simps)
  moreover have "2 * q + unat c < 2 ^ 64" using q c B by linarith
  ultimately have "(2 * limbNat (r # rs) + unat c) mod (2 ^ 64 * 2 ^ (64 * length rs)) =
      2 ^ 64 * ((2 * limbNat rs + h) mod 2 ^ (64 * length rs)) + (2 * q + unat c)"
    by (simp only: mod_mult_digit)
  then show ?case using IH u by (simp add: power_add)
qed simp

lemma subLimbs_nat:
  assumes "length rs = length ms" "b = 0 \<or> b = 1"
  shows "case subLimbs b rs ms of (ts, b') \<Rightarrow> length ts = length rs \<and> (b' = 0 \<or> b' = 1) \<and>
    limbNat ts + limbNat ms + unat b = limbNat rs + unat b' * 2 ^ (64 * length rs)"
  using assms
proof (induction b rs ms rule: subLimbs.induct)
  case (1 b r rs m ms)
  define t where "t = r - m - b"
  define b1 where "b1 = (if unat r < unat m + unat b then 1 else 0 :: 64 word)"
  obtain ts b' where s: "subLimbs b1 rs ms = (ts, b')" by fastforce
  have b1: "b1 = 0 \<or> b1 = 1" by (simp add: b1_def)
  have IH: "length ts = length rs" "b' = 0 \<or> b' = 1"
    "limbNat ts + limbNat ms + unat b1 = limbNat rs + unat b' * 2 ^ (64 * length rs)"
    using 1(1) [OF _ refl, of t b1] 1(2) b1 by (auto simp: sub64_def t_def b1_def [symmetric] s)
  have lt: "unat r < 2 ^ 64" "unat m < 2 ^ 64" "unat t < 2 ^ 64"
    using unsigned_less [of r] unsigned_less [of m] unsigned_less [of t] by simp_all
  have t: "unat t + unat m + unat b = unat r + unat b1 * 2 ^ 64"
  proof -
    define T where "T = unat t + unat m + unat b"
    have "r = t + m + b" by (simp add: t_def)
    then have "unat r = T mod 2 ^ 64" by (simp add: T_def unat_word_ariths mod_add_left_eq)
    then have T: "T = 2 ^ 64 * (T div 2 ^ 64) + unat r" by simp
    have "unat b \<le> 1" using 1(3) by auto
    with lt have "T < 2 ^ 64 * 2" by (simp add: T_def)
    then have "T div 2 ^ 64 < 2" by (simp add: less_mult_imp_div_less)
    then have "T div 2 ^ 64 = 0 \<or> T div 2 ^ 64 = 1" by auto
    then have "T = unat r + unat b1 * 2 ^ 64" using T lt(3) by (auto simp: b1_def T_def)
    then show ?thesis by (simp add: T_def)
  qed
  have "limbNat (t # ts) + limbNat (m # ms) + unat b =
      (unat t + unat m + unat b) + 2 ^ 64 * (limbNat ts + limbNat ms)" by (simp add: algebra_simps)
  also have "\<dots> = unat r + 2 ^ 64 * (limbNat ts + limbNat ms + unat b1)" using t by (simp add: algebra_simps)
  also have "\<dots> = limbNat (r # rs) + unat b' * 2 ^ (64 * length (r # rs))"
    unfolding IH(3) by (simp add: power_add algebra_simps)
  finally show ?case using IH s by (simp add: sub64_def t_def [symmetric] b1_def [symmetric])
qed auto

lemma selectLimbs_choose:
  assumes "length ts = length rs" "b = 0 \<or> b = 1"
  shows "selectLimbs (b - 1) ts rs = (if b = 0 then ts else rs)"
proof -
  have "map2 (\<lambda>t r. t) ts rs = ts" "map2 (\<lambda>t r. r) ts rs = rs"
    using assms(1) by (induction ts rs rule: list_induct2) auto
  then show ?thesis using assms(2) by (auto simp: selectLimbs_def)
qed

lemma reduceStep_nat:
  assumes "length rs = length mws" "limbNat rs < limbNat mws" "2 * limbNat mws \<le> 2 ^ (64 * length mws)"
  shows "length (reduceStep mws b rs i) = length mws \<and>
    limbNat (reduceStep mws b rs i) = (2 * limbNat rs + of_bool (bit b i)) mod limbNat mws"
proof -
  define c where "c = (ucast (drop_bit i b) AND 1 :: 64 word)"
  have c: "c = of_bool (bit b i)"
    by (rule bit_word_eqI) (auto simp: c_def bit_simps)
  define rs1 where "rs1 = shiftIn c rs"
  let ?v = "2 * limbNat rs + of_bool (bit b i)"
  have small: "?v < 2 ^ (64 * length rs)" "?v < 2 * limbNat mws" using assms by auto
  have rs1: "length rs1 = length mws" "limbNat rs1 = ?v"
    using shiftIn_nat [of c rs] c small assms(1) by (auto simp: rs1_def)
  obtain ts b' where s: "subLimbs 0 rs1 mws = (ts, b')" by fastforce
  have st: "length ts = length rs1" "b' = 0 \<or> b' = 1" "limbNat ts + limbNat mws = ?v + unat b' * 2 ^ (64 * length rs1)"
    using subLimbs_nat [of rs1 mws 0] rs1 s by auto
  have res: "reduceStep mws b rs i = (if b' = 0 then ts else rs1)"
    using s st(1,2) selectLimbs_choose [of ts rs1 b'] by (simp add: reduceStep_def rs1_def [symmetric] c_def [symmetric])
  show ?thesis
  proof (cases "b' = 0")
    case True
    then have "limbNat ts = ?v - limbNat mws" "limbNat mws \<le> ?v" using st(3) by auto
    moreover have "?v mod limbNat mws = ?v - limbNat mws"
      using calculation small(2) by (simp add: le_mod_geq)
    ultimately show ?thesis using True res st(1) rs1 by simp
  next
    case False
    then have "limbNat ts + limbNat mws = ?v + 2 ^ (64 * length ts)" using st by auto
    with limbNat_less [of ts] have "?v < limbNat mws" by linarith
    then show ?thesis using False res rs1 by simp
  qed
qed

section \<open>The reduction\<close>

lemma reduceSteps_nat:
  assumes "length rs = length mws" "limbNat rs < limbNat mws" "2 * limbNat mws \<le> 2 ^ (64 * length mws)"
  shows "length (foldl (reduceStep mws b) rs bs) = length mws \<and>
    limbNat (foldl (reduceStep mws b) rs bs) = foldl (\<lambda>v i. 2 * v + of_bool (bit b i)) (limbNat rs) bs mod limbNat mws"
  using assms
proof (induction bs arbitrary: rs)
  case (Cons i bs)
  let ?M = "limbNat mws"
  have hom: "foldl (\<lambda>v i. 2 * v + of_bool (bit b i)) (v mod ?M) bs mod ?M =
      foldl (\<lambda>v i. 2 * v + of_bool (bit b i)) v bs mod ?M" for v
  proof (induction bs arbitrary: v)
    case (Cons j bs)
    have "(2 * (v mod ?M) + of_bool (bit b j)) mod ?M = (2 * v + of_bool (bit b j)) mod ?M"
      by (metis mod_add_left_eq mod_mult_right_eq)
    then show ?case using Cons [of "2 * (v mod ?M) + of_bool (bit b j)"] Cons [of "2 * v + of_bool (bit b j)"] by simp
  qed simp
  have st: "length (reduceStep mws b rs i) = length mws"
    "limbNat (reduceStep mws b rs i) = (2 * limbNat rs + of_bool (bit b i)) mod ?M"
    using reduceStep_nat [OF Cons.prems] by auto
  moreover have "limbNat (reduceStep mws b rs i) < ?M" using st(2) Cons.prems(2) by simp
  ultimately show ?case using Cons.IH [of "reduceStep mws b rs i"] Cons.prems hom by simp
qed simp

lemma byte_bits: "foldl (\<lambda>v i. 2 * v + of_bool (bit (b :: byte) i)) v [7, 6, 5, 4, 3, 2, 1, 0] = 256 * v + unat b"
proof -
  have "unat b = horner_sum of_bool 2 (map (bit (unat b)) [0..<8])"
    using unsigned_less [of b, where 'a = nat] by (simp only: horner_sum_bit_eq_take_bit) (simp add: take_bit_nat_eq_self)
  then have "unat b = of_bool (bit b 0) + 2 * (of_bool (bit b 1) + 2 * (of_bool (bit b 2) + 2 * (of_bool (bit b 3) +
     2 * (of_bool (bit b 4) + 2 * (of_bool (bit b 5) + 2 * (of_bool (bit b 6) + 2 * of_bool (bit b 7)))))))"
    by (simp add: eval_nat_numeral upt_rec bit_simps)
  then show ?thesis by simp
qed

lemma reduceBytes_nat:
  assumes "length rs = length mws" "limbNat rs < limbNat mws" "2 * limbNat mws \<le> 2 ^ (64 * length mws)"
  shows "length (foldl (reduceByte mws) rs x) = length mws \<and>
    limbNat (foldl (reduceByte mws) rs x) = (limbNat rs * 256 ^ length x + beNat x) mod limbNat mws"
  using assms
proof (induction x rule: rev_induct)
  case (snoc b x)
  let ?r = "foldl (reduceByte mws) rs x"
  have IH: "length ?r = length mws" "limbNat ?r = (limbNat rs * 256 ^ length x + beNat x) mod limbNat mws"
    using snoc by auto
  moreover have "limbNat ?r < limbNat mws" using IH(2) snoc.prems(2) by simp
  ultimately have "length (reduceByte mws ?r b) = length mws \<and>
      limbNat (reduceByte mws ?r b) = (256 * limbNat ?r + unat b) mod limbNat mws"
    using reduceSteps_nat [of ?r mws b] snoc.prems(3) unfolding reduceByte_def byte_bits [symmetric] by blast
  moreover have "(256 * limbNat ?r + unat b) mod limbNat mws =
      (256 * (limbNat rs * 256 ^ length x + beNat x) + unat b) mod limbNat mws"
    unfolding IH(2) by (metis mod_add_left_eq mod_mult_right_eq)
  ultimately show ?case by (simp add: beNat_snoc algebra_simps)
qed (simp add: beNat_def)

lemma or_limbs: "foldl (OR) a w = 0 \<longleftrightarrow> a = 0 \<and> limbNat w = 0"
  by (induction w arbitrary: a) (auto simp: or_eq_0_iff unat_eq_zero)

lemma limbNat_append_zeros: "limbNat (w @ replicate n 0) = limbNat w"
  by (induction w) (induction n, auto)

lemma reduceMod_eq:
  "reduceMod dst x m =
     (if m = [] \<or> 1024 < length m \<or> 2048 < length x \<or> beNat m = 0 then (False, dst)
      else if length dst = length m then (True, beBytes (length m) (beNat x mod beNat m)) else (False, dst))"
proof (cases "m = [] \<or> 1024 < length m \<or> 2048 < length x \<or> length dst \<noteq> length m")
  case True
  then show ?thesis by (auto simp: reduceMod_def rsa_caps)
next
  case False
  then have m: "m \<noteq> []" "length m \<le> 1024" "length x \<le> 2048" "length dst = length m" by auto
  define nl where "nl = (length m + 7) div 8 + 1"
  have nl: "nl \<le> modReduceLimbs" "length m \<le> 8 * (nl - 1)" "length m \<le> 8 * nl" "0 < nl"
    using m by (auto simp: nl_def rsa_caps)
  from m have "length m \<le> 8 * modReduceLimbs" by (simp add: rsa_caps)
  then obtain mw where mw: "setLimbsBE m = Some mw" "length mw = modReduceLimbs"
    "\<And>k. length m \<le> 8 * k \<Longrightarrow> limbNat (take k mw) = beNat m"
    by (rule setLimbsBE_limbs) blast
  let ?mws = "take nl mw"
  have mws: "limbNat ?mws = beNat m" "length ?mws = nl" using mw nl by auto
  have "beNat m < 2 ^ (64 * (nl - 1))"
    using limbNat_less [of "take (nl - 1) mw"] mw(3) [OF nl(2)] nl(1) mw(2) by simp
  moreover have "2 * (2 :: nat) ^ (64 * (nl - 1)) \<le> 2 ^ (64 * nl)"
    using nl(4) power_increasing [of "Suc (64 * (nl - 1))" "64 * nl" "2 :: nat"] by simp
  ultimately have fits: "2 * limbNat ?mws \<le> 2 ^ (64 * length ?mws)" using mws by simp
  have red: "reduceMod dst x m = (if beNat m = 0 then (False, dst)
      else (True, limbsToBE dst (foldl (reduceByte ?mws) (replicate nl 0) x @ replicate (modReduceLimbs - nl) 0)))"
    using False mw(1) or_limbs [of 0 ?mws] mws(1) by (auto simp: reduceMod_def rsa_caps nl_def Let_def)
  show ?thesis
  proof (cases "beNat m = 0")
    case False
    let ?r = "foldl (reduceByte ?mws) (replicate nl 0) x"
    have z: "limbNat (replicate nl 0) = 0" by (induction nl) auto
    have r: "length ?r = nl" "limbNat ?r = beNat x mod beNat m"
      using reduceBytes_nat [of "replicate nl 0" ?mws x] fits mws z False by auto
    have "limbsToBE dst (?r @ replicate (modReduceLimbs - nl) 0) = beBytes (length dst) (limbNat ?r)"
      using limbsToBE_beBytes [of dst "?r @ replicate (modReduceLimbs - nl) 0"] r nl m(4)
      by (simp add: limbNat_append_zeros)
    then show ?thesis using red False m r(2) by simp
  qed (use red m in auto)
qed

text \<open>
  C27. \<open>reduceMod\<close> on every input: it refuses an empty or too wide modulus, a too wide
  argument, a destination of another length and a zero modulus and leaves the destination as it
  was; otherwise the destination holds the argument modulo the modulus, big-endian, in the width of
  the modulus. No step of the limb arithmetic overflows.
\<close>

theorem reduceMod_correct:
  "reduceMod dst x m =
     (if m = [] \<or> 1024 < length m \<or> 2048 < length x \<or> beNat m = 0 then (False, dst)
      else if length dst = length m then (True, beBytes (length m) (beNat x mod beNat m)) else (False, dst))"
  by (rule reduceMod_eq)

section \<open>The decrement\<close>

lemma decrementLoop_nat:
  assumes "n \<le> length p" "length dst = length p" "c = 0 \<or> c = 1"
  shows "decrementLoop n p dst c =
    (beBytes n (beNat (take n p) + 256 ^ n - unat c) @ drop n dst, of_bool (beNat (take n p) < unat c))"
  using assms
proof (induction n arbitrary: dst c)
  case (Suc n)
  let ?N = "beNat (take n p)" and ?x = "unat (p ! n)"
  define v where "v = (ucast (p ! n) - c :: 16 word)"
  have x: "?x < 256" using unsigned_less [of "p ! n", where 'a = nat] by simp
  have uc: "unat (ucast (p ! n) :: 16 word) = ?x"
    using x by (simp add: unsigned_ucast_eq take_bit_nat_eq_self_iff)
  have v: "unat v = (if ?x < unat c then 65535 else ?x - unat c)"
  proof (cases "c = 1 \<and> p ! n \<noteq> 0")
    case True
    then have "1 \<le> (ucast (p ! n) :: 16 word)" by (simp add: word_le_nat_alt uc Suc_le_eq unat_gt_0)
    then have "unat v = ?x - 1" using True by (simp add: v_def unat_sub uc)
    then show ?thesis using True by (simp add: unat_gt_0 [symmetric])
  qed (use Suc.prems(3) in \<open>auto simp: v_def uc unsigned_minus_1_eq_mask mask_eq_exp_minus_1\<close>)
  have b: "drop_bit 15 v = of_bool (?x < unat c)"
    using x Suc.prems(3) by (intro word_unat_eq_iff [THEN iffD2]) (auto simp: drop_bit_eq_div unat_div_distrib v)
  have N: "beNat (take (Suc n) p) = 256 * ?N + ?x"
    using Suc.prems(1) by (simp add: take_Suc_conv_app_nth beNat_snoc)
  have "decrementLoop (Suc n) p dst c = decrementLoop n p (dst[n := ucast v]) (of_bool (?x < unat c))"
    by (simp add: v_def [symmetric] b Let_def)
  also have "\<dots> = (beBytes n (?N + 256 ^ n - of_bool (?x < unat c)) @ drop n (dst[n := ucast v]), of_bool (?N < of_bool (?x < unat c)))"
    using Suc.IH [of "dst[n := ucast v]" "of_bool (?x < unat c)"] Suc.prems by auto
  also have "\<dots> = (beBytes (Suc n) (256 * ?N + ?x + 256 ^ Suc n - unat c) @ drop (Suc n) dst, of_bool (256 * ?N + ?x < unat c))"
  proof (cases "?x < unat c")
    case True
    then have c: "c = 1" "?x = 0" using Suc.prems(3) by auto
    have Y: "256 * ?N + ?x + 256 ^ Suc n - unat c = 256 * (?N + 256 ^ n - 1) + 255"
    proof -
      obtain k where k: "?N + 256 ^ n = Suc k" by (cases "?N + 256 ^ n") auto
      have "256 * ?N + ?x + 256 ^ Suc n = 256 * (?N + 256 ^ n)" using c by simp
      then show ?thesis unfolding k using c by simp
    qed
    have "(ucast v :: byte) = word_of_nat 255"
      using v c by (intro word_unat_eq_iff [THEN iffD2]) (simp add: unsigned_ucast_eq take_bit_eq_mod)
    moreover have "(256 * (?N + 256 ^ n - 1) + 255) div 256 = ?N + 256 ^ n - 1"
      "(word_of_nat (256 * (?N + 256 ^ n - 1) + 255) :: byte) = word_of_nat 255"
      by (simp_all add: byte_digit del: of_nat_add of_nat_mult)
    ultimately show ?thesis unfolding Y beBytes_snoc using c Suc.prems by (auto simp: Cons_nth_drop_Suc [symmetric])
  next
    case False
    have Y: "256 * ?N + ?x + 256 ^ Suc n - unat c = 256 * (?N + 256 ^ n) + (?x - unat c)"
      using False by (simp add: algebra_simps)
    have "(ucast v :: byte) = word_of_nat (?x - unat c)"
    proof -
      have "(ucast v :: byte) = word_of_nat (unat v)" by simp
      then show ?thesis by (simp only: v False if_False)
    qed
    moreover have "(256 * (?N + 256 ^ n) + (?x - unat c)) div 256 = ?N + 256 ^ n"
      "(word_of_nat (256 * (?N + 256 ^ n) + (?x - unat c)) :: byte) = word_of_nat (?x - unat c)" using x by (simp_all only: byte_digit) simp
    ultimately show ?thesis unfolding Y beBytes_snoc using False Suc.prems by (auto simp: Cons_nth_drop_Suc [symmetric])
  qed
  finally show ?case by (simp only: N)
qed (auto simp: beNat_def beBytes_def)

text \<open>
  \<open>decrementBE\<close> on every input: a destination of another length is refused and left; otherwise
  the destination holds the number less one, and the verdict is false exactly for zero, where it
  wraps to all ones.
\<close>

theorem decrementBE_correct:
  "decrementBE dst p =
     (if length dst \<noteq> length p then (False, dst)
      else if beNat p = 0 then (False, replicate (length p) 255)
      else (True, beBytes (length p) (beNat p - 1)))"
proof (cases "length dst = length p")
  case True
  let ?n = "length p" and ?N = "beNat p"
  have loop: "decrementLoop ?n p dst 1 = (beBytes ?n (?N + 256 ^ ?n - 1), of_bool (?N = 0))"
    using decrementLoop_nat [of ?n p dst 1] True by simp
  show ?thesis
  proof (cases "?N = 0")
    case z: True
    have "beBytes n (256 ^ n - 1) = replicate n 255" for n
    proof (induction n)
      case (Suc n)
      obtain k where k: "(256 :: nat) ^ n = Suc k" by (cases "(256 :: nat) ^ n") auto
      have e: "256 ^ Suc n - 1 = 256 * k + (255 :: nat)" "256 ^ n - 1 = k" using k by simp_all
      have "(256 * k + 255) div 256 = k" "(word_of_nat (256 * k + 255) :: byte) = 255"
        by (simp_all add: byte_digit del: of_nat_add of_nat_mult)
      then show ?case using Suc unfolding e beBytes_snoc by (simp add: replicate_append_same)
    qed (simp add: beBytes_def)
    then show ?thesis using True z loop by (simp add: decrementBE_def)
  next
    case False
    have "beBytes ?n (?N + 256 ^ ?n - 1) = beBytes ?n (?N - 1)"
      using beBytes_mod [of ?n "?N + 256 ^ ?n - 1"] beBytes_mod [of ?n "?N - 1"] False
      by (metis Nat.add_diff_assoc2 One_nat_def Suc_leI gr0I mod_add_self2)
    then show ?thesis using True False loop by (simp add: decrementBE_def)
  qed
qed (simp add: decrementBE_def)

end
