(* ===== verification/Der_Writer.thy ===== *)
theory Der_Writer
  imports Key_Vault Mod_Reduce
begin

text \<open>
  The DER that \<^verbatim>\<open>pkcs1DER\<close> of \<^verbatim>\<open>secmem-crypto/parse_openssh.go\<close> assembles
  for an RSA key, and the size rule of \<^verbatim>\<open>rsabounds.go\<close>. The reader of package
  \<^verbatim>\<open>cryptobyte\<close> is a parameter.
\<close>

unbundle bit_operations_syntax

section \<open>Magnitudes\<close>

definition stripZeros :: "bytes \<Rightarrow> bytes" where
  "stripZeros b = dropWhile (\<lambda>x. x = 0) b"

text \<open>\<^verbatim>\<open>bits.Len8\<close>.\<close>

definition len8 :: "byte \<Rightarrow> nat" where
  "len8 b = length (takeWhile (\<lambda>i. 2 ^ i \<le> unat b) [0..<8])"

definition bitLen :: "bytes \<Rightarrow> nat" where
  "bitLen b = (if b = [] then 0 else (length b - 1) * 8 + len8 (b ! 0))"

definition rsaMaxExponentBits :: nat where "rsaMaxExponentBits = 24"
definition rsaMaxOtherPrimes :: nat where "rsaMaxOtherPrimes = 3"

definition checkRSAIntegers :: "bytes \<Rightarrow> bytes \<Rightarrow> bytes \<Rightarrow> bytes \<Rightarrow> bytes \<Rightarrow> bytes list \<Rightarrow> kerr option" where
  "checkRSAIntegers n e d p q crt =
     (if rsaMaxModulusBits < bitLen n then Some errMalformed
      else if rsaMaxModulusBits < bitLen d then Some errMalformed
      else if rsaMaxPrimeBits < bitLen p \<or> rsaMaxPrimeBits < bitLen q then Some errMalformed
      else if rsaMaxExponentBits < bitLen e \<or> bitLen e < 2 \<or> last e AND 1 = 0 then Some errMalformed
      else if \<exists>v \<in> set crt. rsaMaxPrimeBits < bitLen v then Some errMalformed
      else None)"

section \<open>The writer\<close>

text \<open>\<open>derInt\<close> is a stripped magnitude; the empty one encodes zero.\<close>

type_synonym derInt = bytes

definition derIntHigh :: "derInt \<Rightarrow> bool" where
  "derIntHigh x \<longleftrightarrow> 0 < length x \<and> x ! 0 AND 0x80 \<noteq> 0"

definition contentLen :: "derInt \<Rightarrow> nat" where
  "contentLen x = (if length x = 0 then 1 else if derIntHigh x then length x + 1 else length x)"

text \<open>The loop that counts the octets of a length shifts a 64-bit word until it is zero.\<close>

partial_function (option) derLengthLoop :: "64 word \<Rightarrow> nat \<Rightarrow> nat option" where
  "derLengthLoop v k = (if v = 0 then Some k else derLengthLoop (drop_bit 8 v) (k + 1))"

definition derLengthOctets :: "nat \<Rightarrow> nat option" where
  "derLengthOctets n = derLengthLoop (word_of_nat n) 0"

definition derLengthLen :: "nat \<Rightarrow> nat option" where
  "derLengthLen n = (if n < 0x80 then Some 1 else map_option Suc (derLengthOctets n))"

definition encodedLen :: "derInt \<Rightarrow> nat option" where
  "encodedLen x = (let c = contentLen x in map_option (\<lambda>l. 1 + l + c) (derLengthLen c))"

definition derPutByte :: "byte \<Rightarrow> sshWriter \<Rightarrow> sshWriter option" where
  "derPutByte v w = (if woff w < length (wbuf w)
     then Some (w\<lparr>wbuf := (wbuf w)[woff w := v], woff := woff w + 1\<rparr>) else None)"

fun derPutOctets :: "nat \<Rightarrow> nat \<Rightarrow> sshWriter \<Rightarrow> sshWriter option" where
  "derPutOctets n 0 w = Some w"
| "derPutOctets n (Suc i) w = do { w1 \<leftarrow> derPutByte (word_of_nat (drop_bit (8 * i) n)) w; derPutOctets n i w1 }"

definition derPutLength :: "nat \<Rightarrow> sshWriter \<Rightarrow> sshWriter option" where
  "derPutLength n w = (if n < 0x80 then derPutByte (word_of_nat n) w
     else do {
       k \<leftarrow> derLengthOctets n;
       w1 \<leftarrow> derPutByte (0x80 OR word_of_nat k) w;
       derPutOctets n k w1
     })"

definition derPutInteger :: "derInt \<Rightarrow> sshWriter \<Rightarrow> sshWriter option" where
  "derPutInteger x w = do {
     w1 \<leftarrow> derPutByte 0x02 w;
     w2 \<leftarrow> derPutLength (contentLen x) w1;
     (if length x = 0 then derPutByte 0 w2
      else do {
        w3 \<leftarrow> (if derIntHigh x then derPutByte 0 w2 else Some w2);
        sshWriter_bytes x w3
      })
   }"

fun derPutIntegers :: "derInt list \<Rightarrow> sshWriter \<Rightarrow> sshWriter option" where
  "derPutIntegers [] w = Some w"
| "derPutIntegers (x # xs) w = do { w1 \<leftarrow> derPutInteger x w; derPutIntegers xs w1 }"

fun derContentLen :: "derInt list \<Rightarrow> nat option" where
  "derContentLen [] = Some 0"
| "derContentLen (x # xs) = do { a \<leftarrow> encodedLen x; b \<leftarrow> derContentLen xs; Some (a + b) }"

section \<open>Assembling the key\<close>

text \<open>The exponents \<open>dp\<close> and \<open>dq\<close>, or nothing.\<close>

definition crtExponent :: "bytes \<Rightarrow> bytes \<Rightarrow> bytes option" where
  "crtExponent d p = (case decrementBE (zeros (length p)) p of
     (False, _) \<Rightarrow> None
   | (True, pm1) \<Rightarrow> if length (stripZeros pm1) = 0 then None
       else (case reduceMod (zeros (length p)) d pm1 of (False, _) \<Rightarrow> None | (True, r) \<Rightarrow> Some (stripZeros r)))"

definition writeKey :: "nat \<Rightarrow> derInt list \<Rightarrow> bytes \<Rightarrow> vault \<Rightarrow> ((kerr option \<times> unit \<times> bytes) \<times> vault) option" where
  "writeKey content ints dst v = do {
     w1 \<leftarrow> derPutByte 0x30 \<lparr>wbuf = dst, woff = 0\<rparr>;
     w2 \<leftarrow> derPutLength content w1;
     w3 \<leftarrow> derPutIntegers ints w2;
     Some ((if woff w3 \<noteq> length dst then Some errMalformed else None, (), wbuf w3), v)
   }"

definition pkcs1DER ::
    "'e keyEnv_scheme \<Rightarrow> bytes \<Rightarrow> bytes \<Rightarrow> bytes \<Rightarrow> bytes \<Rightarrow> bytes \<Rightarrow> bytes \<Rightarrow> vault \<Rightarrow> ((kerr + nat) \<times> vault) option" where
  "pkcs1DER E n0 e0 d0 p0 q0 iqmp0 v =
     (let n = stripZeros n0; e = stripZeros e0; d = stripZeros d0; p = stripZeros p0; q = stripZeros q0; iqmp = stripZeros iqmp0 in
      if n = [] \<or> e = [] \<or> d = [] \<or> p = [] \<or> q = [] \<or> iqmp = [] then Some (Inl errMalformed, v)
      else case checkRSAIntegers n e d p q [iqmp] of Some er \<Rightarrow> Some (Inl er, v)
      | None \<Rightarrow> (case (crtExponent d p, crtExponent d q) of
          (Some dp, Some dq) \<Rightarrow> do {
            (let ints = [[], n, e, d, p, q, dp, dq, iqmp] in do {
              content \<leftarrow> derContentLen ints;
              l \<leftarrow> derLengthLen content;
              (case newEmptyBuffer E (1 + l + content) v of
                (Inl er, v1) \<Rightarrow> Some (Inl er, v1)
              | (Inr i, v1) \<Rightarrow> do {
                  ((er, _), v2) \<leftarrow> withBuf E () (writeKey content ints) i v1;
                  (case er of None \<Rightarrow> Some (Inr i, v2) | Some x \<Rightarrow> Some (Inl x, destroyBuf i v2))
                })
            })
          }
        | _ \<Rightarrow> Some (Inl errMalformed, v)))"

section \<open>The size rule on DER\<close>

text \<open>
  The operations of \<^verbatim>\<open>cryptobyte.String\<close> that the package calls. A reader returns what it
  read and the string after it, or nothing when it fails; an optional element may be absent.
\<close>

record asn1Lib =
  peekASN1Tag :: "byte \<Rightarrow> bytes \<Rightarrow> bool"
  readASN1 :: "byte \<Rightarrow> bytes \<Rightarrow> (bytes \<times> bytes) option"
  readASN1Element :: "byte \<Rightarrow> bytes \<Rightarrow> (bytes \<times> bytes) option"
  readAnyASN1Element :: "bytes \<Rightarrow> (bytes \<times> byte \<times> bytes) option"
  readASN1Integer :: "bytes \<Rightarrow> (int \<times> bytes) option"
  readASN1ObjectIdentifier :: "bytes \<Rightarrow> (nat list \<times> bytes) option"
  readASN1BitStringAsBytes :: "bytes \<Rightarrow> (bytes \<times> bytes) option"
  readOptionalASN1 :: "byte \<Rightarrow> bytes \<Rightarrow> (bytes option \<times> bytes) option"
  skipOptionalASN1 :: "byte \<Rightarrow> bytes \<Rightarrow> bytes option"
  readUint8 :: "bytes \<Rightarrow> (byte \<times> bytes) option"

definition tagSEQUENCE :: byte where "tagSEQUENCE = 0x30"
definition tagINTEGER :: byte where "tagINTEGER = 0x02"
definition tagOCTET_STRING :: byte where "tagOCTET_STRING = 0x04"
definition tagOID :: byte where "tagOID = 0x06"

lemmas asn1_tags = tagSEQUENCE_def tagINTEGER_def tagOCTET_STRING_def tagOID_def

definition errNotRSADER :: kerr where "errNotRSADER = errText ''DER is neither PKCS#1 nor PKCS#8''"

definition oidRSADER :: bytes where "oidRSADER = [0x2a, 0x86, 0x48, 0x86, 0xf7, 0x0d, 0x01, 0x01, 0x01]"

text \<open>
  A slice of the buffer is the offset at which it starts and its bytes. What a read leaves is a
  suffix of what it was given, and the content it returns ends where that suffix begins.
\<close>

type_synonym slice = "nat \<times> bytes"

definition contentAt :: "bytes \<Rightarrow> bytes \<Rightarrow> bytes \<Rightarrow> nat" where
  "contentAt s c rest = length s - length rest - length c"

text \<open>\<open>locatePKCS1\<close>: nothing for a wrapper of another algorithm.\<close>

definition locatePKCS1 :: "asn1Lib \<Rightarrow> bytes \<Rightarrow> kerr + slice option" where
  "locatePKCS1 A der = (case readASN1 A tagSEQUENCE der of None \<Rightarrow> Inl errNotRSADER
   | Some (seq, rest) \<Rightarrow> (case readASN1 A tagINTEGER seq of None \<Rightarrow> Inl errNotRSADER
     | Some (_, seq1) \<Rightarrow>
         (if peekASN1Tag A tagINTEGER seq1 then Inr (Some (0, der))
          else if peekASN1Tag A tagSEQUENCE seq1 then
            (case readASN1 A tagSEQUENCE seq1 of None \<Rightarrow> Inl errNotRSADER
             | Some (alg, seq2) \<Rightarrow> (case readASN1 A tagOID alg of None \<Rightarrow> Inl errNotRSADER
               | Some (oid, _) \<Rightarrow> (case readASN1 A tagOCTET_STRING seq2 of None \<Rightarrow> Inl errNotRSADER
                 | Some (priv, seq3) \<Rightarrow> if oid \<noteq> oidRSADER then Inr None
                     else Inr (Some (contentAt der seq rest + contentAt seq priv seq3, priv)))))
          else Inl errNotRSADER)))"

fun readInts :: "asn1Lib \<Rightarrow> nat \<Rightarrow> bytes \<Rightarrow> (bytes list \<times> bytes) option" where
  "readInts A 0 s = Some ([], s)"
| "readInts A (Suc n) s = (if \<not> peekASN1Tag A tagINTEGER s then Some ([], s)
     else case readASN1 A tagINTEGER s of None \<Rightarrow> None
     | Some (v, s1) \<Rightarrow> map_option (\<lambda>(vs, r). (stripZeros v # vs, r)) (readInts A n s1))"

fun otherPrime :: "asn1Lib \<Rightarrow> nat \<Rightarrow> bytes \<Rightarrow> kerr option" where
  "otherPrime A 0 info = (if info \<noteq> [] then Some errMalformed else None)"
| "otherPrime A (Suc n) info = (case readASN1 A tagINTEGER info of None \<Rightarrow> Some errMalformed
     | Some (v, info1) \<Rightarrow> if rsaMaxPrimeBits < bitLen (stripZeros v) then Some errMalformed else otherPrime A n info1)"

fun otherPrimes :: "asn1Lib \<Rightarrow> nat \<Rightarrow> bytes \<Rightarrow> kerr option" where
  "otherPrimes A left others = (if others = [] then None
     else (case left of 0 \<Rightarrow> Some errMalformed
     | Suc n \<Rightarrow> (case readASN1 A tagSEQUENCE others of None \<Rightarrow> Some errMalformed
       | Some (info, others1) \<Rightarrow> (case otherPrime A 3 info of Some e \<Rightarrow> Some e | None \<Rightarrow> otherPrimes A n others1))))"

definition checkPKCS1Size :: "asn1Lib \<Rightarrow> bytes \<Rightarrow> kerr option" where
  "checkPKCS1Size A pkcs1 = (case readASN1 A tagSEQUENCE pkcs1 of None \<Rightarrow> Some errNotRSADER
   | Some (seq, _) \<Rightarrow> (case readASN1 A tagINTEGER seq of None \<Rightarrow> Some errNotRSADER
     | Some (_, seq1) \<Rightarrow> (case readInts A 8 seq1 of None \<Rightarrow> Some errMalformed
       | Some (ints, seq2) \<Rightarrow>
           (if length ints < 5 then Some errMalformed
            else case checkRSAIntegers (ints ! 0) (ints ! 1) (ints ! 2) (ints ! 3) (ints ! 4) (drop 5 ints) of Some e \<Rightarrow> Some e
            | None \<Rightarrow> (if seq2 = [] then None
                else (case readASN1 A tagSEQUENCE seq2 of None \<Rightarrow> Some errMalformed
                  | Some (others, seq3) \<Rightarrow> if seq3 \<noteq> [] then Some errMalformed else otherPrimes A rsaMaxOtherPrimes others))))))"

definition checkRSAKeySize :: "asn1Lib \<Rightarrow> bytes \<Rightarrow> kerr option" where
  "checkRSAKeySize A der = (case locatePKCS1 A der of Inl e \<Rightarrow> Some e | Inr None \<Rightarrow> None | Inr (Some (_, p)) \<Rightarrow> checkPKCS1Size A p)"

section \<open>The length field\<close>

text \<open>The number of octets of a number, counted by division.\<close>

fun octetsOf :: "nat \<Rightarrow> nat" where
  "octetsOf n = (if n = 0 then 0 else Suc (octetsOf (n div 256)))"

declare octetsOf.simps [simp del]

lemma octetsOf_0 [simp]: "octetsOf 0 = 0"
  by (subst octetsOf.simps) simp

lemma octetsOf_less: "n < 256 ^ k \<Longrightarrow> octetsOf n \<le> k"
proof (induction k arbitrary: n)
  case (Suc k)
  have "n div 256 < 256 ^ k" using Suc.prems by (simp add: less_mult_imp_div_less mult.commute)
  with Suc.IH show ?case by (subst octetsOf.simps) auto
qed simp

lemma less_octetsOf: "n < 256 ^ octetsOf n"
proof (induction n rule: octetsOf.induct)
  case (1 n)
  show ?case
  proof (cases "n = 0")
    case False
    then have "n div 256 < 256 ^ octetsOf (n div 256)" using 1 by simp
    then have "n < 256 ^ octetsOf (n div 256) * 256" by (simp add: div_less_iff_less_mult)
    then show ?thesis using False by (subst octetsOf.simps) (simp add: mult.commute)
  qed simp
qed

lemma derLengthLoop_octets: "derLengthLoop v k = Some (k + octetsOf (unat v))"
proof (induction "unat v" arbitrary: v k rule: less_induct)
  case less
  show ?case
  proof (cases "v = 0")
    case True then show ?thesis by (subst derLengthLoop.simps) simp
  next
    case False
    have d: "unat (drop_bit 8 v) = unat v div 256" by (simp add: drop_bit_eq_div unat_div_distrib)
    moreover have "0 < unat v" using False by (simp add: unat_gt_0)
    ultimately have "derLengthLoop (drop_bit 8 v) (k + 1) = Some (k + 1 + octetsOf (unat v div 256))"
      using less [of "drop_bit 8 v"] by simp
    then show ?thesis using False \<open>0 < unat v\<close> by (subst derLengthLoop.simps, subst octetsOf.simps) simp
  qed
qed

lemma derLengthOctets_eq: "n < 2 ^ 64 \<Longrightarrow> derLengthOctets n = Some (octetsOf n)"
  by (simp add: derLengthOctets_def derLengthLoop_octets unat_of_nat)

text \<open>The reference encoding: definite lengths in the fewest octets, and an integer as the bytes of
  its magnitude with a zero in front of a high bit.\<close>

definition derLen :: "nat \<Rightarrow> bytes" where
  "derLen n = (if n < 0x80 then [word_of_nat n] else (0x80 OR word_of_nat (octetsOf n)) # beBytes (octetsOf n) n)"

definition derTLV :: "byte \<Rightarrow> bytes \<Rightarrow> bytes" where
  "derTLV t c = t # derLen (length c) @ c"

definition derContent :: "derInt \<Rightarrow> bytes" where
  "derContent x = (if x = [] then [0] else if derIntHigh x then 0 # x else x)"

definition derINTEGER :: "derInt \<Rightarrow> bytes" where
  "derINTEGER x = derTLV tagINTEGER (derContent x)"

lemma length_derContent [simp]: "length (derContent x) = contentLen x"
  by (simp add: derContent_def contentLen_def)

lemma derLengthLen_eq: "n < 2 ^ 64 \<Longrightarrow> derLengthLen n = Some (length (derLen n))"
  by (simp add: derLengthLen_def derLen_def derLengthOctets_eq)

lemma encodedLen_eq: "length x < 2 ^ 63 \<Longrightarrow> encodedLen x = Some (length (derINTEGER x))"
  using derLengthLen_eq [of "contentLen x"] by (auto simp: encodedLen_def derINTEGER_def derTLV_def contentLen_def Let_def split: if_splits)

lemma derContentLen_eq: "\<forall>x \<in> set xs. length x < 2 ^ 63 \<Longrightarrow> derContentLen xs = Some (length (concat (map derINTEGER xs)))"
  by (induction xs) (auto simp: encodedLen_eq)

lemma emits_derPutByte [emits_intros]: "emits (derPutByte b) [b]"
proof (rule emitsI)
  fix out r :: bytes and w :: sshWriter
  assume a: "wbuf w = out @ r" "woff w = length out" "length [b] \<le> length r"
  then obtain c r' where "r = c # r'" by (cases r) auto
  with a show "derPutByte b w = Some (w\<lparr>wbuf := out @ [b] @ drop (length [b]) r, woff := length out + length [b]\<rparr>)"
    by (simp add: derPutByte_def list_update_append)
qed

lemma emits_derPutOctets [emits_intros]: "emits (derPutOctets n k) (beBytes k n)"
proof (induction k)
  case 0 then show ?case using emits_end by (simp add: beBytes_def)
next
  case (Suc k)
  have "emits (\<lambda>w. derPutByte (word_of_nat (drop_bit (8 * k) n)) w \<bind> derPutOctets n k) ([word_of_nat (drop_bit (8 * k) n)] @ beBytes k n)"
    by (intro emits_bind emits_derPutByte Suc)
  then show ?case by (simp add: beBytes_Suc drop_bit_eq_div power_mult)
qed

lemma emits_derPutLength [emits_intros]:
  assumes "n < 2 ^ 64"
  shows "emits (derPutLength n) (derLen n)"
proof (cases "n < 0x80")
  case True then show ?thesis using emits_derPutByte by (simp add: derPutLength_def [abs_def] derLen_def)
next
  case False
  have "emits (\<lambda>w. derPutByte (0x80 OR word_of_nat (octetsOf n)) w \<bind> derPutOctets n (octetsOf n))
      ([0x80 OR word_of_nat (octetsOf n)] @ beBytes (octetsOf n) n)" by (intro emits_intros)
  then show ?thesis using False by (simp add: derPutLength_def [abs_def] derLen_def derLengthOctets_eq [OF assms])
qed

lemma emits_derPutInteger [emits_intros]:
  assumes "length x < 2 ^ 63"
  shows "emits (derPutInteger x) (derINTEGER x)"
proof -
  have l: "contentLen x < 2 ^ 64" using assms by (simp add: contentLen_def)
  let ?tail = "\<lambda>w. if length x = 0 then derPutByte 0 w else do { w1 \<leftarrow> (if derIntHigh x then derPutByte 0 w else Some w); sshWriter_bytes x w1 }"
  have "emits ?tail (derContent x)"
    using emits_derPutByte [of 0] emits_bytes [of x] emits_bind [OF emits_derPutByte [of 0] emits_bytes [of x]]
    by (cases "x = []"; cases "derIntHigh x") (simp_all add: derContent_def)
  then have "emits (\<lambda>w. derPutByte 0x02 w \<bind> (\<lambda>w1. derPutLength (contentLen x) w1 \<bind> ?tail)) ([0x02] @ derLen (contentLen x) @ derContent x)"
    by (intro emits_bind emits_derPutByte emits_derPutLength l)
  then show ?thesis by (simp add: derPutInteger_def [abs_def] derINTEGER_def derTLV_def tagINTEGER_def)
qed

lemma emits_derPutIntegers [emits_intros]:
  assumes "\<forall>x \<in> set xs. length x < 2 ^ 63"
  shows "emits (derPutIntegers xs) (concat (map derINTEGER xs))"
  using assms
proof (induction xs)
  case Nil then show ?case using emits_end by simp
next
  case (Cons x xs)
  then have "emits (\<lambda>w. derPutInteger x w \<bind> derPutIntegers xs) (derINTEGER x @ concat (map derINTEGER xs))"
    by (intro emits_bind emits_derPutInteger) auto
  then show ?case by simp
qed

lemma writeKey_eq:
  assumes "\<forall>x \<in> set xs. length x < 2 ^ 63" "content = length (concat (map derINTEGER xs))" "content < 2 ^ 64"
    "length dst = 1 + length (derLen content) + content"
  shows "writeKey content xs dst v = Some ((None, (), derTLV tagSEQUENCE (concat (map derINTEGER xs))), v)"
proof -
  have "emits (\<lambda>w. derPutByte 0x30 w \<bind> (\<lambda>w1. derPutLength content w1 \<bind> derPutIntegers xs)) ([0x30] @ derLen content @ concat (map derINTEGER xs))"
    by (intro emits_intros assms)
  moreover have "length dst = length ([0x30] @ derLen content @ concat (map derINTEGER xs))" using assms by simp
  ultimately obtain w where w: "derPutByte 0x30 \<lparr>wbuf = dst, woff = 0\<rparr> \<bind> (\<lambda>w1. derPutLength content w1 \<bind> derPutIntegers xs) = Some w"
    "wbuf w = [0x30] @ derLen content @ concat (map derINTEGER xs)" "woff w = length dst" by (metis (no_types, lifting) emits_exact)
  from w(1) obtain w1 w2 where "derPutByte 0x30 \<lparr>wbuf = dst, woff = 0\<rparr> = Some w1" "derPutLength content w1 = Some w2" "derPutIntegers xs w2 = Some w"
    by (auto simp: bind_eq_Some_conv)
  then show ?thesis using w assms(2) by (simp add: writeKey_def derTLV_def tagSEQUENCE_def)
qed

section \<open>The key as a whole\<close>

text \<open>The fewest bytes of a number; \<open>stripZeros\<close> finds them.\<close>

definition minBE :: "nat \<Rightarrow> bytes" where
  "minBE n = beBytes (octetsOf n) n"

lemma minBE_0 [simp]: "minBE 0 = []"
  by (simp add: minBE_def beBytes_def)

lemma octetsOf_eq: "256 ^ k \<le> n \<Longrightarrow> n < 256 ^ Suc k \<Longrightarrow> octetsOf n = Suc k"
  using octetsOf_less [of n "Suc k"] less_octetsOf [of n] power_increasing_iff [of "256 :: nat" "octetsOf n" k]
  by (metis le_SucE le_less_trans linorder_not_less one_less_numeral_iff order_le_less_trans semiring_norm(76))

lemma stripZeros_minBE: "stripZeros b = minBE (beNat b)"
proof (induction b)
  case (Cons x b)
  show ?case
  proof (cases "x = 0")
    case False
    then have "256 ^ length b * 1 \<le> beNat (x # b)" unfolding beNat_Cons
      by (metis One_nat_def Suc_leI mult.commute mult_le_mono1 trans_le_add1 unat_gt_0)
    then have "octetsOf (beNat (x # b)) = length (x # b)"
      using octetsOf_eq [of "length b" "beNat (x # b)"] beNat_less [of "x # b"] by simp
    then show ?thesis using False beBytes_beNat [of "x # b"] by (simp add: stripZeros_def minBE_def)
  qed (use Cons in \<open>simp add: stripZeros_def beNat_Cons\<close>)
qed (simp add: stripZeros_def beNat_def)

lemma beNat_minBE [simp]: "beNat (minBE n) = n"
  using less_octetsOf [of n] by (simp add: minBE_def beNat_beBytes)

lemma minBE_Nil [simp]: "minBE n = [] \<longleftrightarrow> n = 0"
  by (metis beNat_minBE minBE_0)

lemma stripZeros_beBytes: "n < 256 ^ k \<Longrightarrow> stripZeros (beBytes k n) = minBE n"
  by (simp add: stripZeros_minBE beNat_beBytes)

lemma length_minBE: "n < 256 ^ k \<Longrightarrow> length (minBE n) \<le> k"
  by (simp add: minBE_def octetsOf_less)

lemma crtExponent_eq:
  assumes "length p \<le> 1024" "length d \<le> 2048"
  shows "crtExponent d p = (if beNat p \<le> 1 then None else Some (minBE (beNat d mod (beNat p - 1))))"
proof (cases "beNat p \<le> 1")
  case True
  then show ?thesis by (auto simp: crtExponent_def decrementBE_correct stripZeros_minBE beNat_beBytes)
next
  case False
  have p: "beNat p < 256 ^ length p" by (rule beNat_less)
  have m: "p \<noteq> []" using False by (auto simp: beNat_def)
  then have "beNat (beBytes (length p) (beNat p - 1)) = beNat p - 1" "beBytes (length p) (beNat p - 1) \<noteq> []"
    using p by (simp_all add: beNat_beBytes) (simp add: beBytes_def)
  moreover have "beNat d mod (beNat p - 1) < beNat p - 1" using False by simp
  then have "beNat d mod (beNat p - 1) < 256 ^ length p" using p by simp
  ultimately show ?thesis using False m assms
    by (simp add: crtExponent_def decrementBE_correct reduceMod_eq stripZeros_minBE beNat_beBytes)
qed

text \<open>The DER of a key, from its numbers.\<close>

definition rsaInts :: "nat \<Rightarrow> nat \<Rightarrow> nat \<Rightarrow> nat \<Rightarrow> nat \<Rightarrow> nat \<Rightarrow> nat list" where
  "rsaInts n e d p q i = [0, n, e, d, p, q, d mod (p - 1), d mod (q - 1), i]"

definition rsaKeyDER :: "nat \<Rightarrow> nat \<Rightarrow> nat \<Rightarrow> nat \<Rightarrow> nat \<Rightarrow> nat \<Rightarrow> bytes" where
  "rsaKeyDER n e d p q i = derTLV tagSEQUENCE (concat (map (\<lambda>x. derINTEGER (minBE x)) (rsaInts n e d p q i)))"

text \<open>A new buffer that holds given bytes.\<close>

definition storeNew :: "'e keyEnv_scheme \<Rightarrow> bytes \<Rightarrow> vault \<Rightarrow> ((kerr + nat) \<times> vault) option" where
  "storeNew E c v = (case newEmptyBuffer E (length c) v of
     (Inl er, v1) \<Rightarrow> Some (Inl er, v1)
   | (Inr i, v1) \<Rightarrow> do {
       ((er, _), v2) \<leftarrow> withBuf E () (\<lambda>_ w. Some ((None, (), c), w)) i v1;
       (case er of None \<Rightarrow> Some (Inr i, v2) | Some x \<Rightarrow> Some (Inl x, destroyBuf i v2))
     })"

lemma bitLen_length: "bitLen b \<le> 8 * k \<Longrightarrow> b = minBE n \<Longrightarrow> length b \<le> k"
proof (cases b)
  case (Cons x c)
  assume b: "bitLen b \<le> 8 * k" "b = minBE n"
  have "stripZeros b = b" using b(2) by (simp add: stripZeros_minBE)
  then have "x \<noteq> 0" using Cons length_dropWhile_le [of "\<lambda>x. x = 0" c] by (auto simp: stripZeros_def)
  then have "1 \<le> unat x" by (simp add: Suc_leI unat_gt_0)
  then have "1 \<le> len8 x" by (simp add: len8_def upt_rec)
  then show ?thesis using b(1) Cons by (simp add: bitLen_def)
qed simp

lemma checkRSAIntegers_lengths:
  assumes "checkRSAIntegers (minBE n) (minBE e) (minBE d) (minBE p) (minBE q) crt = None"
  shows "length (minBE n) \<le> 2048" "length (minBE e) \<le> 3" "length (minBE d) \<le> 2048" "length (minBE p) \<le> 1024"
    "length (minBE q) \<le> 1024" "minBE x \<in> set crt \<Longrightarrow> length (minBE x) \<le> 1024"
  using assms by (auto intro!: bitLen_length [OF _ refl] simp: checkRSAIntegers_def rsa_caps rsaMaxExponentBits_def split: if_splits)

lemma length_minBE_mod: "length (minBE (d mod (p - 1))) \<le> max (length (minBE d)) (length (minBE p))"
proof -
  have "d mod (p - 1) < 256 ^ length (minBE d) \<or> d mod (p - 1) < 256 ^ length (minBE p)"
    using beNat_less [of "minBE d"] beNat_less [of "minBE p"] by (cases "1 < p") (auto simp: less_imp_le intro: le_less_trans [OF mod_less_eq_dividend])
  then show ?thesis using length_minBE by (metis max.coboundedI1 max.coboundedI2)
qed

lemma rsaInts_short:
  assumes "checkRSAIntegers (minBE n) (minBE e) (minBE d) (minBE p) (minBE q) [minBE i] = None" "x \<in> set (rsaInts n e d p q i)"
  shows "length (minBE x) \<le> 2048"
  using assms(2) checkRSAIntegers_lengths(1-5) [OF assms(1)] checkRSAIntegers_lengths(6) [OF assms(1), of i] length_minBE_mod [of d p] length_minBE_mod [of d q]
  by (auto simp: rsaInts_def)

lemma length_derINTEGER: "length x \<le> 2048 \<Longrightarrow> length (derINTEGER x) \<le> 2056"
proof -
  assume x: "length x \<le> 2048"
  then have "octetsOf (contentLen x) \<le> 2" by (intro octetsOf_less) (simp add: contentLen_def)
  moreover have "contentLen x \<le> 2049" using x by (simp add: contentLen_def)
  ultimately show ?thesis by (simp add: derINTEGER_def derTLV_def derLen_def)
qed

lemma sum_list_length_le: "\<forall>x \<in> set xs. length (f x) \<le> k \<Longrightarrow> length (concat (map f xs)) \<le> k * length xs"
  by (induction xs) auto

lemma rsaInts_bytes:
  "[[], minBE n, minBE e, minBE d, minBE p, minBE q, minBE (d mod (p - 1)), minBE (d mod (q - 1)), minBE i] =
     map minBE (rsaInts n e d p q i)"
  by (simp add: rsaInts_def)

lemma rsaKeyDER_storeNew:
  assumes "checkRSAIntegers (minBE n) (minBE e) (minBE d) (minBE p) (minBE q) [minBE i] = None"
    "xs = map minBE (rsaInts n e d p q i)"
  shows "do { content \<leftarrow> derContentLen xs; l \<leftarrow> derLengthLen content;
      (case newEmptyBuffer E (1 + l + content) v of
        (Inl er, v1) \<Rightarrow> Some (Inl er, v1)
      | (Inr j, v1) \<Rightarrow> do {
          ((er, _), v2) \<leftarrow> withBuf E () (writeKey content xs) j v1;
          (case er of None \<Rightarrow> Some (Inr j, v2) | Some x \<Rightarrow> Some (Inl x, destroyBuf j v2))
        }) } = storeNew E (rsaKeyDER n e d p q i) v"
proof -
  let ?c = "length (concat (map derINTEGER xs))"
  have x: "\<forall>x \<in> set xs. length x \<le> 2048" using rsaInts_short [OF assms(1)] assms(2) by auto
  then have c: "?c \<le> 2056 * 9" using sum_list_length_le [of xs derINTEGER 2056] length_derINTEGER assms(2) by (simp add: rsaInts_def)
  have b: "\<forall>x \<in> set xs. length x < 2 ^ 63" using x by fastforce
  have l: "derContentLen xs = Some ?c" "derLengthLen ?c = Some (length (derLen ?c))"
    using c derContentLen_eq [OF b] derLengthLen_eq [of ?c] by simp_all
  have k: "rsaKeyDER n e d p q i = derTLV tagSEQUENCE (concat (map derINTEGER xs))"
    by (simp add: rsaKeyDER_def assms(2) comp_def)
  then have L: "length (rsaKeyDER n e d p q i) = 1 + length (derLen ?c) + ?c" by (simp add: derTLV_def)
  have W: "withBuf E () (writeKey ?c xs) j v1 = withBuf E () (\<lambda>_ w. Some ((None, (), rsaKeyDER n e d p q i), w)) j v1"
    if "newEmptyBuffer E (1 + length (derLen ?c) + ?c) v = (Inr j, v1)" for j v1
  proof -
    have "vbufs v1 j = Some (ALive (zeros (1 + length (derLen ?c) + ?c)) False False)"
      using that by (auto simp: newEmptyBuffer_def setBuf_def split: if_splits option.splits)
    then show ?thesis using writeKey_eq [OF b refl] c k by (simp add: withBuf_def reach_def arrives_def setBuf_def Let_def)
  qed
  show ?thesis unfolding storeNew_def L
    by (simp add: l W split: prod.split sum.split)
qed

lemma pkcs1DER_eq:
  "pkcs1DER E n e d p q i v =
     (if beNat n = 0 \<or> beNat e = 0 \<or> beNat d = 0 \<or> beNat p = 0 \<or> beNat q = 0 \<or> beNat i = 0 then Some (Inl errMalformed, v)
      else case checkRSAIntegers (minBE (beNat n)) (minBE (beNat e)) (minBE (beNat d)) (minBE (beNat p)) (minBE (beNat q))
          [minBE (beNat i)] of
        Some er \<Rightarrow> Some (Inl er, v)
      | None \<Rightarrow> if beNat p = 1 \<or> beNat q = 1 then Some (Inl errMalformed, v)
          else storeNew E (rsaKeyDER (beNat n) (beNat e) (beNat d) (beNat p) (beNat q) (beNat i)) v)"
proof (cases "(beNat n = 0 \<or> beNat e = 0 \<or> beNat d = 0 \<or> beNat p = 0 \<or> beNat q = 0 \<or> beNat i = 0) \<or>
    checkRSAIntegers (minBE (beNat n)) (minBE (beNat e)) (minBE (beNat d)) (minBE (beNat p)) (minBE (beNat q)) [minBE (beNat i)] \<noteq> None")
  case True
  then show ?thesis by (auto simp: pkcs1DER_def stripZeros_minBE)
next
  case False
  then have C: "checkRSAIntegers (minBE (beNat n)) (minBE (beNat e)) (minBE (beNat d)) (minBE (beNat p)) (minBE (beNat q)) [minBE (beNat i)] = None"
    by blast
  note l = checkRSAIntegers_lengths [OF C]
  have "(if beNat p = 1 \<or> beNat q = 1 then None else
      Some (minBE (beNat d mod (beNat p - 1)), minBE (beNat d mod (beNat q - 1)))) =
    (case (crtExponent (minBE (beNat d)) (minBE (beNat p)), crtExponent (minBE (beNat d)) (minBE (beNat q))) of
      (Some a, Some b) \<Rightarrow> Some (a, b) | _ \<Rightarrow> None)"
    using l False by (auto simp: crtExponent_eq)
  then show ?thesis
    using False C rsaKeyDER_storeNew [OF C rsaInts_bytes, of E v] l
    by (cases "beNat p = 1 \<or> beNat q = 1")
      (auto simp: pkcs1DER_def stripZeros_minBE crtExponent_eq Let_def simp del: derContentLen.simps One_nat_def)
qed

text \<open>
  C24. \<open>pkcs1DER\<close> on every input: a zero integer, an integer over the size rule and a prime
  without a predecessor to reduce by are refused before anything is allocated; otherwise the result
  is a new buffer that holds exactly the DER encoding of the nine numbers of the key, with
  \<open>dp = d mod (p - 1)\<close> and \<open>dq = d mod (q - 1)\<close>, or the error of the buffer.
  No write leaves the buffer and no size disagrees.
\<close>

theorem pkcs1DER_correct:
  "pkcs1DER E n e d p q i v =
     (if beNat n = 0 \<or> beNat e = 0 \<or> beNat d = 0 \<or> beNat p = 0 \<or> beNat q = 0 \<or> beNat i = 0 then Some (Inl errMalformed, v)
      else case checkRSAIntegers (minBE (beNat n)) (minBE (beNat e)) (minBE (beNat d)) (minBE (beNat p)) (minBE (beNat q))
          [minBE (beNat i)] of
        Some er \<Rightarrow> Some (Inl er, v)
      | None \<Rightarrow> if beNat p = 1 \<or> beNat q = 1 then Some (Inl errMalformed, v)
          else storeNew E (rsaKeyDER (beNat n) (beNat e) (beNat d) (beNat p) (beNat q) (beNat i)) v)"
  by (rule pkcs1DER_eq)

lemma octetsOf_least: "n \<noteq> 0 \<Longrightarrow> 256 ^ (octetsOf n - 1) \<le> n"
  using octetsOf_less [of n "octetsOf n - 1"] octetsOf.simps [of n] by (cases "octetsOf n") (auto simp: not_less [symmetric])

text \<open>
  C32. The loop that counts the octets of a length ends on every 64-bit word, after at most eight
  turns, and the count is the least number of octets that hold the length.
\<close>

theorem derLengthLoop_terminates:
  "\<exists>r. r \<le> 8 \<and> derLengthLoop v k = Some (k + r) \<and> unat v < 256 ^ r \<and> (r = 0 \<or> 256 ^ (r - 1) \<le> unat v)"
proof (intro exI conjI)
  show "derLengthLoop v k = Some (k + octetsOf (unat v))" by (rule derLengthLoop_octets)
  show "octetsOf (unat v) \<le> 8" using unsigned_less [of v, where 'a = nat] by (intro octetsOf_less) simp
  show "unat v < 256 ^ octetsOf (unat v)" by (rule less_octetsOf)
  show "octetsOf (unat v) = 0 \<or> 256 ^ (octetsOf (unat v) - 1) \<le> unat v"
    using octetsOf_least [of "unat v"] by (cases "unat v = 0") auto
qed

section \<open>The size rule accepts what is assembled\<close>

text \<open>What the package relies on of \<^verbatim>\<open>cryptobyte\<close>: an element in DER is read as its content,
  whatever follows, and a peek looks at the first byte.\<close>

definition reads_der :: "asn1Lib \<Rightarrow> bool" where
  "reads_der A \<longleftrightarrow>
     (\<forall>t c r. t AND 0x1f \<noteq> 0x1f \<and> length c < 2 ^ 31 \<longrightarrow> readASN1 A t (derTLV t c @ r) = Some (c, r)) \<and>
     (\<forall>t s. peekASN1Tag A t s \<longleftrightarrow> s \<noteq> [] \<and> hd s = t)"

lemma reads_derD:
  assumes "reads_der A"
  shows "length c < 2 ^ 31 \<Longrightarrow> readASN1 A tagSEQUENCE (derTLV tagSEQUENCE c @ r) = Some (c, r)"
    "length c < 2 ^ 31 \<Longrightarrow> readASN1 A tagSEQUENCE (derTLV tagSEQUENCE c) = Some (c, [])"
    "length x \<le> 2048 \<Longrightarrow> readASN1 A tagINTEGER (derINTEGER x @ r) = Some (derContent x, r)"
    "peekASN1Tag A tagINTEGER (derINTEGER x @ r)" "\<not> peekASN1Tag A t []"
proof -
  have S: "tagSEQUENCE AND 0x1f \<noteq> 0x1f" and I: "tagINTEGER AND 0x1f \<noteq> 0x1f" by (simp_all add: asn1_tags)
  show "readASN1 A tagSEQUENCE (derTLV tagSEQUENCE c @ r) = Some (c, r)" if "length c < 2 ^ 31" for c r
    using assms S that unfolding reads_der_def by blast
  from this [of c "[]"] show "length c < 2 ^ 31 \<Longrightarrow> readASN1 A tagSEQUENCE (derTLV tagSEQUENCE c) = Some (c, [])" by simp
  show "readASN1 A tagINTEGER (derINTEGER x @ r) = Some (derContent x, r)" if "length x \<le> 2048"
  proof -
    have "length (derContent x) < 2 ^ 31" using that by (simp add: contentLen_def)
    then show ?thesis using assms I unfolding reads_der_def derINTEGER_def by blast
  qed
  show "peekASN1Tag A tagINTEGER (derINTEGER x @ r)" "\<not> peekASN1Tag A t []"
    using assms by (auto simp: reads_der_def derINTEGER_def derTLV_def)
qed

lemma stripZeros_derContent [simp]: "stripZeros (derContent (minBE n)) = minBE n"
  by (simp add: stripZeros_minBE derContent_def beNat_Cons) (simp add: beNat_def)

lemma readInts_derINTEGER:
  assumes "reads_der A" "\<forall>x \<in> set xs. length (minBE x) \<le> 2048"
  shows "readInts A (length xs) (concat (map (\<lambda>x. derINTEGER (minBE x)) xs)) = Some (map minBE xs, [])"
  using assms(2) by (induction xs) (auto simp: reads_derD [OF assms(1)])

lemma bitLen_minBE_le: "m \<le> 256 ^ k - 1 \<Longrightarrow> bitLen (minBE m) \<le> 8 * k"
proof -
  assume "m \<le> 256 ^ k - 1"
  then have "length (minBE m) \<le> k" by (intro length_minBE) (simp add: Suc_le_lessD le_diff_conv2)
  moreover have "len8 x \<le> 8" for x using length_takeWhile_le [of "\<lambda>i. 2 ^ i \<le> unat x" "[0..<8]"] by (simp add: len8_def)
  then have "bitLen (minBE m) \<le> 8 * length (minBE m)"
    by (cases "minBE m") (auto simp: bitLen_def mult.commute add_left_mono)
  ultimately show ?thesis by linarith
qed

lemma crt_bitLen: "length (minBE p) \<le> 1024 \<Longrightarrow> 1 < p \<Longrightarrow> bitLen (minBE (d mod (p - 1))) \<le> 8192"
proof -
  assume p: "length (minBE p) \<le> 1024" "1 < p"
  have "p < 256 ^ length (minBE p)" using beNat_less [of "minBE p"] by simp
  also have "\<dots> \<le> 256 ^ 1024" using p(1) by (intro power_increasing) auto
  finally have "p < 256 ^ 1024" .
  moreover have "d mod (p - 1) < p - 1" using p(2) by simp
  ultimately have "d mod (p - 1) \<le> 256 ^ 1024 - 1" by linarith
  from bitLen_minBE_le [OF this] show ?thesis by simp
qed

lemma rsaKeyDER_accepted:
  assumes A: "reads_der A" and p: "1 < p" "1 < q"
    and C: "checkRSAIntegers (minBE n) (minBE e) (minBE d) (minBE p) (minBE q) [minBE i] = None"
  shows "locatePKCS1 A (rsaKeyDER n e d p q i) = Inr (Some (0, rsaKeyDER n e d p q i))"
    "checkPKCS1Size A (rsaKeyDER n e d p q i) = None"
proof -
  let ?xs = "[n, e, d, p, q, d mod (p - 1), d mod (q - 1), i]"
  let ?I = "\<lambda>xs. concat (map (\<lambda>x. derINTEGER (minBE x)) xs)"
  have x: "\<forall>x \<in> set (rsaInts n e d p q i). length (minBE x) \<le> 2048" using rsaInts_short [OF C] by blast
  have "length (?I (rsaInts n e d p q i)) \<le> 2056 * 9"
    using sum_list_length_le [of "rsaInts n e d p q i" "\<lambda>x. derINTEGER (minBE x)" 2056] length_derINTEGER x
    by (simp add: rsaInts_def)
  then have seq: "readASN1 A tagSEQUENCE (rsaKeyDER n e d p q i) = Some (?I (rsaInts n e d p q i), [])"
    unfolding rsaKeyDER_def by (intro reads_derD(2) [OF A]) simp
  have ver: "readASN1 A tagINTEGER (?I (rsaInts n e d p q i)) = Some (derContent [], ?I ?xs)"
    using reads_derD(3) [OF A, of "[]" "?I ?xs"] by (simp add: rsaInts_def)
  have "peekASN1Tag A tagINTEGER (?I ?xs)" using reads_derD(4) [OF A] by simp
  then show "locatePKCS1 A (rsaKeyDER n e d p q i) = Inr (Some (0, rsaKeyDER n e d p q i))"
    by (simp add: locatePKCS1_def seq ver)
  have l: "8 = length ?xs" by simp
  have "readInts A 8 (?I ?xs) = Some (map minBE ?xs, [])"
    by (subst l, rule readInts_derINTEGER [OF A]) (use x in \<open>simp add: rsaInts_def\<close>)
  moreover have "checkRSAIntegers (minBE n) (minBE e) (minBE d) (minBE p) (minBE q)
      [minBE (d mod (p - 1)), minBE (d mod (q - 1)), minBE i] = None"
    using C crt_bitLen [OF checkRSAIntegers_lengths(4) [OF C] p(1), of d] crt_bitLen [OF checkRSAIntegers_lengths(5) [OF C] p(2), of d]
    by (auto simp: checkRSAIntegers_def rsa_caps split: if_splits)
  ultimately show "checkPKCS1Size A (rsaKeyDER n e d p q i) = None"
    by (simp add: checkPKCS1Size_def seq ver nth_Cons_numeral)
qed

lemma storeNew_holds:
  assumes "storeNew E c v = Some (Inr j, v')"
  shows "j = vnext v \<and> vbufs v' j = Some (ALive c False False)"
  using assms by (auto simp: storeNew_def newEmptyBuffer_def withBuf_def reach_def arrives_def setBuf_def vstep_def Let_def
      split: if_splits option.splits)

text \<open>A reader of DER, to show that one exists.\<close>

definition derReadLen :: "bytes \<Rightarrow> (nat \<times> bytes) option" where
  "derReadLen s = (case s of [] \<Rightarrow> None
   | b # r \<Rightarrow> if unat b < 128 then Some (unat b, r)
       else if length r < unat b - 128 then None else Some (beNat (take (unat b - 128) r), drop (unat b - 128) r))"

definition derRead :: "byte \<Rightarrow> bytes \<Rightarrow> (bytes \<times> bytes) option" where
  "derRead t s = (case s of [] \<Rightarrow> None
   | x # r \<Rightarrow> if x \<noteq> t then None else (case derReadLen r of None \<Rightarrow> None
       | Some (n, r1) \<Rightarrow> if length r1 < n then None else Some (take n r1, drop n r1)))"

lemma derReadLen_derLen: "n < 2 ^ 64 \<Longrightarrow> derReadLen (derLen n @ r) = Some (n, r)"
proof (cases "n < 128")
  case False
  assume "n < 2 ^ 64"
  then have "octetsOf n \<le> 8" by (intro octetsOf_less) simp
  then have "octetsOf n \<in> {0, 1, 2, 3, 4, 5, 6, 7, 8}" by auto
  then have "unat (0x80 OR word_of_nat (octetsOf n) :: byte) = 128 + octetsOf n" by auto
  then show ?thesis using False less_octetsOf [of n] by (simp add: derReadLen_def derLen_def beNat_beBytes)
qed (simp add: derReadLen_def derLen_def unat_of_nat)

definition ex_asn1 :: asn1Lib where
  "ex_asn1 = \<lparr>peekASN1Tag = (\<lambda>t s. s \<noteq> [] \<and> hd s = t), readASN1 = derRead, readASN1Element = (\<lambda>_ _. None),
     readAnyASN1Element = (\<lambda>_. None), readASN1Integer = (\<lambda>_. None), readASN1ObjectIdentifier = (\<lambda>_. None),
     readASN1BitStringAsBytes = (\<lambda>_. None), readOptionalASN1 = (\<lambda>_ _. None), skipOptionalASN1 = (\<lambda>_ _. None), readUint8 = (\<lambda>_. None)\<rparr>"

lemma ex_asn1_reads: "reads_der ex_asn1"
  by (simp add: reads_der_def ex_asn1_def derRead_def derTLV_def derReadLen_derLen)

text \<open>
  C25. With a reader that reads DER, the buffer that \<open>pkcs1DER\<close> returns holds a PKCS#1 structure at
  offset zero that the size rule of the constructor accepts, so the assembled key is never refused
  by the rule that was applied to its parts.
\<close>

theorem pkcs1DER_accepted:
  assumes "reads_der A" "pkcs1DER E n e d p q i v = Some (Inr j, v')"
  shows "\<exists>c. vbufs v' j = Some (ALive c False False) \<and> locatePKCS1 A c = Inr (Some (0, c)) \<and> checkRSAKeySize A c = None"
proof -
  let ?k = "rsaKeyDER (beNat n) (beNat e) (beNat d) (beNat p) (beNat q) (beNat i)"
  have "checkRSAIntegers (minBE (beNat n)) (minBE (beNat e)) (minBE (beNat d)) (minBE (beNat p)) (minBE (beNat q))
      [minBE (beNat i)] = None" "1 < beNat p" "1 < beNat q" "storeNew E ?k v = Some (Inr j, v')"
    using assms(2) unfolding pkcs1DER_eq by (auto split: if_splits option.splits)
  then show ?thesis
    using rsaKeyDER_accepted [OF assms(1), of "beNat p" "beNat q"] storeNew_holds [of E ?k v j v'] by (auto simp: checkRSAKeySize_def)
qed

lemma ex_storeNew: "c \<noteq> [] \<Longrightarrow> \<exists>v'. storeNew ex_env c ex_vault = Some (Inr 0, v')"
  by (simp add: storeNew_def newEmptyBuffer_def withBuf_def reach_def arrives_def fateOf_def setBuf_def vstep_def ex_env_def ex_vault_def Let_def)

theorem pkcs1DER_accepted_witness:
  "\<exists>v' c. pkcs1DER ex_env [15] [3] [3] [3] [5] [0, 2] ex_vault = Some (Inr 0, v') \<and>
     vbufs v' 0 = Some (ALive c False False) \<and> checkRSAKeySize ex_asn1 c = None"
proof -
  have "beNat [15] = 15" "beNat [3] = 3" "beNat [5] = 5" "beNat [0, 2] = 2" by (simp_all add: beNat_def)
  moreover have "minBE 15 = [15]" "minBE 3 = [3]" "minBE 5 = [5]" "minBE 2 = [2]" by (simp_all add: minBE_def octetsOf.simps beBytes_def)
  moreover have "checkRSAIntegers [15] [3] [3] [3] [5] [[2]] = None"
    by (simp add: checkRSAIntegers_def bitLen_def len8_def rsa_caps rsaMaxExponentBits_def upt_rec)
  ultimately have "pkcs1DER ex_env [15] [3] [3] [3] [5] [0, 2] ex_vault = storeNew ex_env (rsaKeyDER 15 3 3 3 5 2) ex_vault"
    by (simp add: pkcs1DER_eq)
  then obtain v' where v: "pkcs1DER ex_env [15] [3] [3] [3] [5] [0, 2] ex_vault = Some (Inr 0, v')"
    using ex_storeNew [of "rsaKeyDER 15 3 3 3 5 2"] by (auto simp: rsaKeyDER_def derTLV_def)
  then show ?thesis using pkcs1DER_accepted [OF ex_asn1_reads v] by blast
qed

end
