(* ===== verification/Key_Signers.thy ===== *)
theory Key_Signers
  imports Der_Writer
begin

text \<open>
  The signers of package \<^verbatim>\<open>secmem-crypto\<close> and their constructors (\<^verbatim>\<open>ed25519.go\<close>,
  \<^verbatim>\<open>ecdsa.go\<close>, \<^verbatim>\<open>rsa.go\<close>), the extraction of a seed or scalar into a buffer of
  its own, the names that errors may repeat, and the tests on bare DER (\<^verbatim>\<open>parse.go\<close>,
  \<^verbatim>\<open>pbes2.go\<close>). The curve arithmetic, the RSA parser of \<^verbatim>\<open>crypto/x509\<close> and package
  \<^verbatim>\<open>cryptobyte\<close> are parameters. Every buffer is one of the vault; a panic is the value
  \<open>None\<close>.
\<close>

section \<open>Options and libraries\<close>

datatype curve = P224 | P256 | P384 | P521

record keyLib = keyEnv +
  asn1 :: asn1Lib
  edPoint :: "bytes \<Rightarrow> bytes"
  ecPublic :: "curve \<Rightarrow> bytes \<Rightarrow> bytes option"
  rsaPublic :: "bytes \<Rightarrow> bytes option"
  rsaWiped :: bool

record options =
  allowHeapTransients :: bool

definition checkHeapTransients :: "'e keyEnv_scheme \<Rightarrow> options \<Rightarrow> kerr option" where
  "checkHeapTransients E opts = (if allowHeapTransients opts \<or> heapErased E then None else Some ErrHeapTransients)"

section \<open>Signers\<close>

datatype Signer = Ed25519Signer (seedBuf: nat) (pubKey: bytes)
  | ECDSASigner (ecCurve: curve) (scalarBuf: nat) (pubBytes: bytes)
  | RSASigner (derBuf: nat) (keyOff: nat) (rsaKeyLen: nat) (rsaPub: bytes)

fun signerBuf :: "Signer \<Rightarrow> nat" where
  "signerBuf (Ed25519Signer i _) = i"
| "signerBuf (ECDSASigner _ i _) = i"
| "signerBuf (RSASigner i _ _ _) = i"

definition destroySigner :: "Signer \<Rightarrow> vault \<Rightarrow> vault" where
  "destroySigner s v = destroyBuf (signerBuf s) v"

definition deriveEd25519PublicKey :: "'e keyLib_scheme \<Rightarrow> bytes \<Rightarrow> kerr + bytes" where
  "deriveEd25519PublicKey L seed = (if length seed \<noteq> 32 then Inl ErrBadSeedLength
     else Inr (goCopy 0 (edPoint L (take 32 (sum512 seed))) (zeros 32)))"

definition newEd25519Signer :: "'e keyLib_scheme \<Rightarrow> nat \<Rightarrow> vault \<Rightarrow> ((kerr + Signer) \<times> vault) option" where
  "newEd25519Signer L i v =
     (if bufDestroyed i v then Some (Inl (errCore ErrDestroyed), v)
      else if bufLen i v \<noteq> 32 then Some (Inl ErrBadSeedLength, v)
      else do {
        ((e, pub), v1) \<leftarrow> withBuf L [] (reading (\<lambda>seed v1. Some (case deriveEd25519PublicKey L seed of
          Inl x \<Rightarrow> (Some x, []) | Inr p \<Rightarrow> (None, p), v1))) i v;
        (case e of Some x \<Rightarrow> Some (Inl x, v1) | None \<Rightarrow> Some (Inr (Ed25519Signer i pub), v1))
      })"

definition scalarSize :: "curve \<Rightarrow> nat" where
  "scalarSize c = (case c of P224 \<Rightarrow> 28 | P256 \<Rightarrow> 32 | P384 \<Rightarrow> 48 | P521 \<Rightarrow> 66)"

definition newECDSASigner :: "'e keyLib_scheme \<Rightarrow> options \<Rightarrow> curve \<Rightarrow> nat \<Rightarrow> vault \<Rightarrow> ((kerr + Signer) \<times> vault) option" where
  "newECDSASigner L opts c i v = (case checkHeapTransients L opts of Some x \<Rightarrow> Some (Inl x, v)
   | None \<Rightarrow>
      (if bufDestroyed i v then Some (Inl (errCore ErrDestroyed), v)
       else if bufLen i v \<noteq> scalarSize c then Some (Inl ErrBadScalarLength, v)
       else do {
         ((e, pub), v1) \<leftarrow> withBuf L [] (reading (\<lambda>d v1. Some (case ecPublic L c d of
           None \<Rightarrow> (Some (errText ''invalid private key''), []) | Some p \<Rightarrow> (None, p), v1))) i v;
         (case e of Some x \<Rightarrow> Some (Inl x, v1) | None \<Rightarrow> Some (Inr (ECDSASigner c i pub), v1))
       }))"

definition subsliceOffset :: "bytes \<Rightarrow> slice \<Rightarrow> nat option" where
  "subsliceOffset whole sub = (case sub of (off, p) \<Rightarrow>
     if length p = 0 \<or> length whole < off + length p then None else Some off)"

definition rejectNonRSAPKCS8 :: "asn1Lib \<Rightarrow> bytes \<Rightarrow> kerr" where
  "rejectNonRSAPKCS8 A der = (case do {
       (seq, _) \<leftarrow> readASN1 A tagSEQUENCE der;
       (_, seq1) \<leftarrow> readASN1 A tagINTEGER seq;
       (alg, _) \<leftarrow> readASN1 A tagSEQUENCE seq1;
       (oid, _) \<leftarrow> readASN1 A tagOID alg;
       Some oid } of
     None \<Rightarrow> errNotRSADER
   | Some oid \<Rightarrow>
       errText (if oid = [0x2a, 0x86, 0x48, 0xce, 0x3d, 0x02, 0x01] then ''PKCS#8 DER holds an ECDSA key, not RSA''
         else if oid = [0x2b, 0x65, 0x70] then ''PKCS#8 DER holds an Ed25519 key, not RSA''
         else if oid = [0x2b, 0x65, 0x6e] \<or> oid = [0x2b, 0x65, 0x6f] then ''PKCS#8 DER holds an ECDH (X25519/X448) key, not RSA''
         else ''PKCS#8 DER holds a key of another algorithm, not RSA''))"

text \<open>The key the standard library parses is wiped before the callback returns; if that fails the
  constructor fails.\<close>

definition readRSAKey :: "'e keyLib_scheme \<Rightarrow> bytes \<Rightarrow> kerr option \<times> (nat \<times> nat \<times> bytes)" where
  "readRSAKey L der = (case locatePKCS1 (asn1 L) der of
     Inl e \<Rightarrow> (Some e, (0, 0, []))
   | Inr None \<Rightarrow> (Some (rejectNonRSAPKCS8 (asn1 L) der), (0, 0, []))
   | Inr (Some (at, pkcs1)) \<Rightarrow> (case checkPKCS1Size (asn1 L) pkcs1 of
       Some e \<Rightarrow> (Some e, (0, 0, []))
     | None \<Rightarrow> (case rsaPublic L pkcs1 of
         None \<Rightarrow> (Some (errText ''parse PKCS#1''), (0, 0, []))
       | Some pub \<Rightarrow> (case subsliceOffset der (at, pkcs1) of
           None \<Rightarrow> (Some (errText ''RSA key not located inside its buffer''), (0, 0, []))
         | Some off \<Rightarrow> (if rsaWiped L then None else Some (errText ''wipe RSA key''), (off, length pkcs1, pub))))))"

definition newRSASigner :: "'e keyLib_scheme \<Rightarrow> options \<Rightarrow> nat \<Rightarrow> vault \<Rightarrow> ((kerr + Signer) \<times> vault) option" where
  "newRSASigner L opts i v = (case checkHeapTransients L opts of Some x \<Rightarrow> Some (Inl x, v)
   | None \<Rightarrow>
      (if bufDestroyed i v then Some (Inl (errCore ErrDestroyed), v)
       else do {
         ((e, (off, n, pub)), v1) \<leftarrow> withBuf L (0, 0, []) (reading (\<lambda>der v1. Some (readRSAKey L der, v1))) i v;
         (case e of Some x \<Rightarrow> Some (Inl x, v1) | None \<Rightarrow> Some (Inr (RSASigner i off n pub), v1))
       }))"

definition rsaFromDER :: "'e keyLib_scheme \<Rightarrow> options \<Rightarrow> nat \<Rightarrow> vault \<Rightarrow> ((kerr + Signer) \<times> vault) option" where
  "rsaFromDER L opts i v = do {
     (r, v1) \<leftarrow> newRSASigner L opts i v;
     (case r of Inl e \<Rightarrow> Some (Inl e, destroyBuf i v1) | Inr s \<Rightarrow> Some (Inr s, v1))
   }"

section \<open>From seed and scalar\<close>

text \<open>A public key that the file carries is an option: nil is no key.\<close>

definition ecdsaPubMatches :: "Signer \<Rightarrow> bytes \<Rightarrow> bool" where
  "ecdsaPubMatches s pub = (let derived = pubBytes s in
     if length pub = 0 then False
     else if pub ! 0 = 4 then pub = derived
     else if pub ! 0 = 2 \<or> pub ! 0 = 3 then
       (let size = scalarSize (ecCurve s) in
        if length pub \<noteq> 1 + size \<or> length derived \<noteq> 1 + 2 * size then False
        else drop 1 pub = subslice 1 (1 + size) derived \<and> pub ! 0 - 2 = and (last derived) 1)
     else False)"

definition ecdsaFromScalar ::
    "'e keyLib_scheme \<Rightarrow> options \<Rightarrow> bytes \<Rightarrow> curve \<Rightarrow> bytes option \<Rightarrow> vault \<Rightarrow> ((kerr + Signer) \<times> vault) option" where
  "ecdsaFromScalar L opts d0 c pub v = (let d = stripZeros d0; size = scalarSize c in
     if length d = 0 \<or> size < length d then Some (Inl errMalformed, v)
     else case newEmptyBuffer L size v of
       (Inl e, v1) \<Rightarrow> Some (Inl e, v1)
     | (Inr i, v1) \<Rightarrow> (case copyInBuf L d (int size - int (length d)) i v1 of
         (Some e, v2) \<Rightarrow> Some (Inl e, destroyBuf i v2)
       | (None, v2) \<Rightarrow> do {
           (r, v3) \<leftarrow> newECDSASigner L opts c i v2;
           (case r of
             Inl e \<Rightarrow> Some (Inl e, destroyBuf i v3)
           | Inr s \<Rightarrow> (case pub of
               Some p \<Rightarrow> if \<not> ecdsaPubMatches s p then Some (Inl errMalformed, destroySigner s v3) else Some (Inr s, v3)
             | None \<Rightarrow> Some (Inr s, v3)))
         }))"

definition ed25519FromSeed ::
    "'e keyLib_scheme \<Rightarrow> bytes \<Rightarrow> bytes option \<Rightarrow> vault \<Rightarrow> ((kerr + Signer) \<times> vault) option" where
  "ed25519FromSeed L seed pub v =
     (if length seed \<noteq> 32 then Some (Inl ErrBadSeedLength, v)
      else case newEmptyBuffer L (length seed) v of
        (Inl e, v1) \<Rightarrow> Some (Inl e, v1)
      | (Inr i, v1) \<Rightarrow> (case copyInBuf L seed 0 i v1 of
          (Some e, v2) \<Rightarrow> Some (Inl e, destroyBuf i v2)
        | (None, v2) \<Rightarrow> do {
            (r, v3) \<leftarrow> newEd25519Signer L i v2;
            (case r of
              Inl e \<Rightarrow> Some (Inl e, destroyBuf i v3)
            | Inr s \<Rightarrow> (case pub of
                Some p \<Rightarrow> if p \<noteq> pubKey s then Some (Inl errMalformed, destroySigner s v3) else Some (Inr s, v3)
              | None \<Rightarrow> Some (Inr s, v3)))
          }))"

definition curveFromOID :: "nat list \<Rightarrow> curve option" where
  "curveFromOID oid =
     (if oid = [1, 2, 840, 10045, 3, 1, 7] then Some P256
      else if oid = [1, 3, 132, 0, 34] then Some P384
      else if oid = [1, 3, 132, 0, 35] then Some P521
      else if oid = [1, 3, 132, 0, 33] then Some P224
      else None)"

section \<open>Names in errors\<close>

text \<open>\<open>showNat\<close> is \<^verbatim>\<open>%d\<close>, and \<open>quote\<close> is \<^verbatim>\<open>strconv.Quote\<close> on
  printable ASCII.\<close>

fun showNat :: "nat \<Rightarrow> string" where
  "showNat n = (if n < 10 then [char_of (48 + n)] else showNat (n div 10) @ [char_of (48 + n mod 10)])"

declare showNat.simps [simp del]

definition asciiText :: "bytes \<Rightarrow> string" where
  "asciiText b = map (\<lambda>x. char_of (unat x)) b"

definition quote :: "string \<Rightarrow> string" where
  "quote s = CHR 0x22 # concat (map (\<lambda>c. if c = CHR 0x22 \<or> c = CHR 0x5C then [CHR 0x5C, c] else [c]) s) @ [CHR 0x22]"

definition maxQuotedLabel :: nat where "maxQuotedLabel = 32"
definition maxOIDArcs :: nat where "maxOIDArcs = 16"
definition maxOIDText :: nat where "maxOIDText = 64"

lemmas error_bounds = maxQuotedLabel_def maxOIDArcs_def maxOIDText_def

definition labelForError :: "bytes \<Rightarrow> string" where
  "labelForError label =
     (if list_ex (\<lambda>b. b < 0x20 \<or> 0x7e < b) label then ''<'' @ showNat (length label) @ ''-byte non-printable label>''
      else if length label \<le> maxQuotedLabel then quote (asciiText label)
      else quote (asciiText (take maxQuotedLabel label)) @ ''... ('' @ showNat (length label) @ '' bytes)'')"

definition oidString :: "nat list \<Rightarrow> string" where
  "oidString oid = (case oid of [] \<Rightarrow> [] | a # r \<Rightarrow> showNat a @ concat (map (\<lambda>x. CHR ''.'' # showNat x) r))"

definition oidForError :: "nat list \<Rightarrow> string" where
  "oidForError oid = (if length oid \<le> maxOIDArcs \<and> length (oidString oid) \<le> maxOIDText then oidString oid
     else ''<object identifier of '' @ showNat (length oid) @ '' arcs>'')"

section \<open>DER containers\<close>

definition need :: "bool \<Rightarrow> unit option" where
  "need b = (if b then Some () else None)"

definition tagNULL :: byte where "tagNULL = 0x05"
definition tagContext0 :: byte where "tagContext0 = 0xa0"
definition tagContext1 :: byte where "tagContext1 = 0xa1"
definition tagContext1Primitive :: byte where "tagContext1Primitive = 0x81"

definition isEncryptedPrivateKeyInfo :: "asn1Lib \<Rightarrow> bytes \<Rightarrow> bool" where
  "isEncryptedPrivateKeyInfo A der \<longleftrightarrow> do {
     (seq, _) \<leftarrow> readASN1 A tagSEQUENCE der;
     (alg, seq1) \<leftarrow> readASN1 A tagSEQUENCE seq;
     (_, _) \<leftarrow> readASN1 A tagOID alg;
     (_, seq2) \<leftarrow> readASN1 A tagOCTET_STRING seq1;
     need (seq2 = []) } = Some ()"

definition looksLikeDER :: "asn1Lib \<Rightarrow> bytes \<Rightarrow> bool" where
  "looksLikeDER A d \<longleftrightarrow> (if length d < 2 \<or> d ! 0 \<noteq> 0x30 then False
     else case readASN1Element A tagSEQUENCE d of None \<Rightarrow> False | Some (_, rest) \<Rightarrow> rest = [])"

definition oidPBES1Arc :: "nat list" where "oidPBES1Arc = [1, 2, 840, 113549, 1, 5]"
definition oidPKCS12PBEArc :: "nat list" where "oidPKCS12PBEArc = [1, 2, 840, 113549, 1, 12, 1]"

definition oidIsRetiredPBE :: "nat list \<Rightarrow> bool" where
  "oidIsRetiredPBE oid =
     (if length oid = length oidPBES1Arc + 1 \<and> take (length oidPBES1Arc) oid = oidPBES1Arc
      then oid ! length oidPBES1Arc \<in> set [1, 3, 4, 6, 10, 11]
      else if length oid = length oidPKCS12PBEArc + 1 \<and> take (length oidPKCS12PBEArc) oid = oidPKCS12PBEArc
      then 1 \<le> oid ! length oidPKCS12PBEArc \<and> oid ! length oidPKCS12PBEArc \<le> 6
      else False)"

definition oidPBES2 :: "nat list" where "oidPBES2 = [1, 2, 840, 113549, 1, 5, 13]"
definition retiredCiphers :: "nat list list" where
  "retiredCiphers = [[1, 2, 840, 113549, 3, 7], [1, 2, 840, 113549, 3, 2], [1, 3, 14, 3, 2, 7]]"

definition errRetiredPBE :: kerr where "errRetiredPBE = ErrRetiredAlgorithm"
definition errRetiredPBES2Cipher :: kerr where "errRetiredPBES2Cipher = ErrRetiredAlgorithm"

definition encryptedPKCS8Error :: "asn1Lib \<Rightarrow> bytes \<Rightarrow> kerr" where
  "encryptedPKCS8Error A der = (case do {
       (seq, _) \<leftarrow> readASN1 A tagSEQUENCE der;
       (alg, _) \<leftarrow> readASN1 A tagSEQUENCE seq;
       readASN1ObjectIdentifier A alg } of
     None \<Rightarrow> ErrEncryptedKey
   | Some (oid, alg1) \<Rightarrow>
       (if oidIsRetiredPBE oid then errBoth ErrEncryptedKey errRetiredPBE
        else if oid \<noteq> oidPBES2 then ErrEncryptedKey
        else (case do {
            (params, _) \<leftarrow> readASN1 A tagSEQUENCE alg1;
            (kdf, params1) \<leftarrow> readASN1 A tagSEQUENCE params;
            (scheme, _) \<leftarrow> readASN1 A tagSEQUENCE params1;
            readASN1ObjectIdentifier A scheme } of
          None \<Rightarrow> ErrEncryptedKey
        | Some (oid2, _) \<Rightarrow>
            (if oid2 \<in> set retiredCiphers then errBoth ErrEncryptedKey errRetiredPBES2Cipher else ErrEncryptedKey))))"

end
