(* ===== verification/Key_Parse.thy ===== *)
theory Key_Parse
  imports Key_Signers
begin

text \<open>
  The parser of unencrypted private-key files: \<^verbatim>\<open>ParsePrivateKey\<close> of
  \<^verbatim>\<open>secmem-crypto/parse.go\<close> with its DER containers, and the OpenSSH container of
  \<^verbatim>\<open>parse_openssh.go\<close>. A function that would return a nil signer without an error is the
  value \<open>None\<close> there, like a panic.
\<close>

unbundle bit_operations_syntax

section \<open>EC keys in SEC 1 form\<close>

definition ecdsaFromSEC1 ::
    "'e keyLib_scheme \<Rightarrow> options \<Rightarrow> bytes \<Rightarrow> curve option \<Rightarrow> bytes option \<Rightarrow> vault \<Rightarrow> ((kerr + Signer) \<times> vault) option" where
  "ecdsaFromSEC1 L opts der c outerPub v = (let A = asn1 L in
     case do {
       (seq, rest) \<leftarrow> readASN1 A tagSEQUENCE der;
       _ \<leftarrow> need (rest = []);
       (version, seq1) \<leftarrow> readASN1Integer A seq;
       _ \<leftarrow> need (version = 1);
       (d, seq2) \<leftarrow> readASN1 A tagOCTET_STRING seq1;
       (params, seq3) \<leftarrow> readOptionalASN1 A tagContext0 seq2;
       Some (d, params, seq3) } of
       None \<Rightarrow> Some (Inl errMalformed, v)
     | Some (d, params, seq3) \<Rightarrow>
        (case (case params of None \<Rightarrow> Inr c
            | Some p \<Rightarrow> (case readASN1ObjectIdentifier A p of
                None \<Rightarrow> Inl ErrUnsupportedKey
              | Some (oid, _) \<Rightarrow> (case curveFromOID oid of
                  None \<Rightarrow> Inl (errBoth ErrUnsupportedKey (errText (oidForError oid)))
                | Some named \<Rightarrow> if c \<noteq> None \<and> c \<noteq> Some named then Inl errMalformed else Inr (Some named)))) of
           Inl e \<Rightarrow> Some (Inl e, v)
         | Inr None \<Rightarrow> Some (Inl ErrUnsupportedKey, v)
         | Inr (Some cu) \<Rightarrow>
            (case do {
                (pubWrap, seq4) \<leftarrow> readOptionalASN1 A tagContext1 seq3;
                innerPub \<leftarrow> (case pubWrap of None \<Rightarrow> Some None
                  | Some w \<Rightarrow> map_option (\<lambda>(b, _). Some b) (readASN1BitStringAsBytes A w));
                _ \<leftarrow> need (seq4 = []);
                Some innerPub } of
              None \<Rightarrow> Some (Inl errMalformed, v)
            | Some innerPub \<Rightarrow> do {
                (r, v1) \<leftarrow> ecdsaFromScalar L opts d cu innerPub v;
                (case r of
                  Inl e \<Rightarrow> Some (Inl e, v1)
                | Inr s \<Rightarrow> (case outerPub of
                    Some p \<Rightarrow> if \<not> ecdsaPubMatches s p then Some (Inl errMalformed, destroySigner s v1) else Some (Inr s, v1)
                  | None \<Rightarrow> Some (Inr s, v1)))
              })))"

text \<open>A signer that a callback hands to the enclosing function through a variable.\<close>

definition toVar :: "((kerr + 'a) \<times> vault) option \<Rightarrow> ((kerr option \<times> 'a option) \<times> vault) option" where
  "toVar x = map_option (\<lambda>(r, v). (case r of Inl e \<Rightarrow> (Some e, None) | Inr s \<Rightarrow> (None, Some s), v)) x"

definition parseSEC1 :: "'e keyLib_scheme \<Rightarrow> options \<Rightarrow> nat \<Rightarrow> vault \<Rightarrow> ((kerr + Signer) \<times> vault) option" where
  "parseSEC1 L opts blob v = do {
     ((e, s), v1) \<leftarrow> withBuf L None (reading (\<lambda>der w. toVar (ecdsaFromSEC1 L opts der None None w))) blob v;
     (let v2 = destroyBuf blob v1 in
      case e of Some x \<Rightarrow> Some (Inl x, v2) | None \<Rightarrow> (case s of None \<Rightarrow> None | Some sg \<Rightarrow> Some (Inr sg, v2)))
   }"

section \<open>PKCS#8\<close>

definition oidRSA :: "nat list" where "oidRSA = [1, 2, 840, 113549, 1, 1, 1]"
definition oidECPublicKey :: "nat list" where "oidECPublicKey = [1, 2, 840, 10045, 2, 1]"
definition oidEd25519 :: "nat list" where "oidEd25519 = [1, 3, 101, 112]"
definition oidX25519 :: "nat list" where "oidX25519 = [1, 3, 101, 110]"

text \<open>The fields of a \<^verbatim>\<open>PrivateKeyInfo\<close>: the algorithm and what follows it, the key, and
  the public key of version 2. Every failure here is a malformed file.\<close>

definition readPKCS8 :: "asn1Lib \<Rightarrow> bytes \<Rightarrow> (nat list \<times> bytes \<times> bytes \<times> bytes option) option" where
  "readPKCS8 A der = do {
     (seq, rest) \<leftarrow> readASN1 A tagSEQUENCE der;
     _ \<leftarrow> need (rest = []);
     (version, seq1) \<leftarrow> readASN1Integer A seq;
     _ \<leftarrow> need (0 \<le> version \<and> version \<le> 1);
     (alg, seq2) \<leftarrow> readASN1 A tagSEQUENCE seq1;
     (oid, alg1) \<leftarrow> readASN1ObjectIdentifier A alg;
     (priv, seq3) \<leftarrow> readASN1 A tagOCTET_STRING seq2;
     seq4 \<leftarrow> skipOptionalASN1 A tagContext0 seq3;
     (pubBits, seq5) \<leftarrow> readOptionalASN1 A tagContext1Primitive seq4;
     pub \<leftarrow> (case pubBits of None \<Rightarrow> Some None
       | Some b \<Rightarrow> do {
           _ \<leftarrow> need (version = 1);
           (padBits, b1) \<leftarrow> readUint8 A b;
           _ \<leftarrow> need (padBits = 0);
           Some (Some b1)
         });
     _ \<leftarrow> need (seq5 = []);
     Some (oid, alg1, priv, pub)
   }"

text \<open>The callback of \<open>parsePKCS8\<close>: an RSA key is only recognised, the others become signers.\<close>

datatype pkcs8Key = isRSA | keySigner Signer

definition openPKCS8 ::
    "'e keyLib_scheme \<Rightarrow> options \<Rightarrow> bytes \<Rightarrow> vault \<Rightarrow> ((kerr option \<times> pkcs8Key option) \<times> vault) option" where
  "openPKCS8 L opts der v = (let A = asn1 L; fail = \<lambda>e. Some ((Some e, None), v);
      signer = \<lambda>x. map_option (\<lambda>((e, s), w). ((e, map_option keySigner s), w)) (toVar x) in
     case readPKCS8 A der of
       None \<Rightarrow> fail errMalformed
     | Some (oid, alg, priv, pub) \<Rightarrow>
        (if oid = oidRSA then Some ((None, Some isRSA), v)
         else if oid = oidECPublicKey then
           (case readASN1ObjectIdentifier A alg of
             None \<Rightarrow> fail ErrUnsupportedKey
           | Some (curveOID, _) \<Rightarrow> (case curveFromOID curveOID of
               None \<Rightarrow> fail (errBoth ErrUnsupportedKey (errText (oidForError curveOID)))
             | Some c \<Rightarrow> signer (ecdsaFromSEC1 L opts priv (Some c) pub v)))
         else if oid = oidEd25519 then
           (case readASN1 A tagOCTET_STRING priv of
             None \<Rightarrow> fail errMalformed
           | Some (seed, rest) \<Rightarrow> if rest \<noteq> [] then fail errMalformed else signer (ed25519FromSeed L seed pub v))
         else if oid = oidX25519 then fail ErrUnsupportedKey
         else fail (errBoth ErrUnsupportedKey (errText (oidForError oid)))))"

definition parsePKCS8 :: "'e keyLib_scheme \<Rightarrow> options \<Rightarrow> nat \<Rightarrow> vault \<Rightarrow> ((kerr + Signer) \<times> vault) option" where
  "parsePKCS8 L opts blob v = do {
     ((e, s), v1) \<leftarrow> withBuf L None (reading (openPKCS8 L opts)) blob v;
     (case e of
       Some x \<Rightarrow> Some (Inl x, destroyBuf blob v1)
     | None \<Rightarrow> (case s of
         None \<Rightarrow> None
       | Some isRSA \<Rightarrow> rsaFromDER L opts blob v1
       | Some (keySigner sg) \<Rightarrow> Some (Inr sg, destroyBuf blob v1)))
   }"

section \<open>Bare DER\<close>

text \<open>The tag of the element after the version tells the three structures apart.\<close>

definition derNext :: "asn1Lib \<Rightarrow> bytes \<Rightarrow> kerr option \<times> byte" where
  "derNext A der = (case readASN1 A tagSEQUENCE der of
     None \<Rightarrow> (Some errMalformed, 0)
   | Some (seq, _) \<Rightarrow>
      (if peekASN1Tag A tagSEQUENCE seq then
         (if \<not> isEncryptedPrivateKeyInfo A der then (Some ErrUnsupportedKey, 0) else (Some (encryptedPKCS8Error A der), 0))
       else case readASN1Integer A seq of
         None \<Rightarrow> (Some errMalformed, 0)
       | Some (_, seq1) \<Rightarrow> (case readAnyASN1Element A seq1 of
           None \<Rightarrow> (Some errMalformed, 0)
         | Some (_, next, _) \<Rightarrow> (None, next))))"

definition parseDER :: "'e keyLib_scheme \<Rightarrow> options \<Rightarrow> nat \<Rightarrow> vault \<Rightarrow> ((kerr + Signer) \<times> vault) option" where
  "parseDER L opts blob v = do {
     ((e, next), v1) \<leftarrow> withBuf L 0 (reading (\<lambda>der w. Some (derNext (asn1 L) der, w))) blob v;
     (case e of
       Some x \<Rightarrow> Some (Inl x, destroyBuf blob v1)
     | None \<Rightarrow>
        (if next = tagSEQUENCE then parsePKCS8 L opts blob v1
         else if next = tagOCTET_STRING then parseSEC1 L opts blob v1
         else if next = tagINTEGER then rsaFromDER L opts blob v1
         else Some (Inl errMalformed, destroyBuf blob v1)))
   }"

section \<open>The OpenSSH container\<close>

definition opensshMagic :: bytes where "opensshMagic = goString ''openssh-key-v1'' @ [0]"

record opensshHeader =
  hcipher :: bytes
  hkdf :: bytes
  hkdfOpts :: bytes
  hnumKeys :: "32 word"
  hpubBlob :: bytes
  hprivBlock :: bytes
  hrest :: bytes

text \<open>Several strings in a row; the source looks at the verdicts of all of them together.\<close>

fun readStrs :: "nat \<Rightarrow> bytes \<Rightarrow> (bytes list \<times> bytes) option" where
  "readStrs 0 b = Some ([], b)"
| "readStrs (Suc n) b = (case sshReader_str b of (p, ok, b1) \<Rightarrow>
     if \<not> ok then None else map_option (\<lambda>(ps, r). (p # ps, r)) (readStrs n b1))"

definition readOpenSSHHeader :: "bytes \<Rightarrow> kerr + opensshHeader" where
  "readOpenSSHHeader b =
     (if \<not> prefix opensshMagic b then Inl errMalformed
      else case do {
         (p, b1) \<leftarrow> readStrs 3 (drop (length opensshMagic) b);
         (n, ok, b2) \<leftarrow> Some (sshReader_uint32 b1);
         _ \<leftarrow> need ok;
         (q, b3) \<leftarrow> readStrs 2 b2;
         Some \<lparr>hcipher = p ! 0, hkdf = p ! 1, hkdfOpts = p ! 2, hnumKeys = n, hpubBlob = q ! 0, hprivBlock = q ! 1, hrest = b3\<rparr> } of
        None \<Rightarrow> Inl errMalformed
      | Some h \<Rightarrow>
         (let cipherNone = (hcipher h = goString ''none''); kdfNone = (hkdf h = goString ''none'') in
          if cipherNone \<noteq> kdfNone then Inl errMalformed
          else if kdfNone \<and> length (hkdfOpts h) \<noteq> 0 then Inl errMalformed
          else Inr h))"

definition checkOpenSSHPadding :: "bytes \<Rightarrow> nat \<Rightarrow> bool" where
  "checkOpenSSHPadding pad blockSize \<longleftrightarrow> length pad < blockSize \<and> list_all (\<lambda>i. unat (pad ! i) = i + 1) [0..<length pad]"

definition errCheckMismatch :: kerr where "errCheckMismatch = errMalformed"

text \<open>What a private block holds: a signer, or for RSA the buffer of the assembled DER.\<close>

datatype blockKey = blockSigner Signer | blockDER nat

definition ed25519Block ::
    "'e keyLib_scheme \<Rightarrow> bytes \<Rightarrow> bytes \<Rightarrow> nat \<Rightarrow> vault \<Rightarrow> ((kerr + blockKey) \<times> vault) option" where
  "ed25519Block L p pub blockSize v = (case readStrs 3 p of
     None \<Rightarrow> Some (Inl errMalformed, v)
   | Some (f, rest) \<Rightarrow> (let pk = f ! 0; sk = f ! 1 in
      if length pk \<noteq> 32 \<or> length sk \<noteq> 64 then Some (Inl errMalformed, v)
      else if \<not> checkOpenSSHPadding rest blockSize then Some (Inl errMalformed, v)
      else case sshReader_str pub of (pk2, ok, _) \<Rightarrow>
        (if \<not> ok \<or> pk2 \<noteq> pk \<or> drop 32 sk \<noteq> pk then Some (Inl errMalformed, v)
         else map_option (\<lambda>(r, w). (map_sum id blockSigner r, w)) (ed25519FromSeed L (take 32 sk) (Some pk) v))))"

definition curveByName :: "bytes \<Rightarrow> curve option" where
  "curveByName name = (if name = goString ''nistp256'' then Some P256
     else if name = goString ''nistp384'' then Some P384
     else if name = goString ''nistp521'' then Some P521 else None)"

definition ecdsaBlock ::
    "'e keyLib_scheme \<Rightarrow> options \<Rightarrow> bytes \<Rightarrow> bytes \<Rightarrow> bytes \<Rightarrow> nat \<Rightarrow> vault \<Rightarrow> ((kerr + blockKey) \<times> vault) option" where
  "ecdsaBlock L opts keyType p pub blockSize v = (case readStrs 4 p of
     None \<Rightarrow> Some (Inl errMalformed, v)
   | Some (f, rest) \<Rightarrow> (let curveName = f ! 0; q = f ! 1; d = f ! 2 in
      if \<not> checkOpenSSHPadding rest blockSize then Some (Inl errMalformed, v)
      else if curveName \<noteq> drop (length (goString ''ecdsa-sha2-'')) keyType then Some (Inl errMalformed, v)
      else case curveByName curveName of
        None \<Rightarrow> Some (Inl (errBoth ErrUnsupportedKey (errText (labelForError curveName))), v)
      | Some c \<Rightarrow> (case readStrs 2 pub of
          None \<Rightarrow> Some (Inl errMalformed, v)
        | Some (g, _) \<Rightarrow>
            (if g ! 0 \<noteq> curveName \<or> g ! 1 \<noteq> q then Some (Inl errMalformed, v)
             else map_option (\<lambda>(r, w). (map_sum id blockSigner r, w)) (ecdsaFromScalar L opts d c (Some q) v)))))"

definition rsaBlock ::
    "'e keyLib_scheme \<Rightarrow> bytes \<Rightarrow> bytes \<Rightarrow> nat \<Rightarrow> vault \<Rightarrow> ((kerr + blockKey) \<times> vault) option" where
  "rsaBlock L p pub blockSize v = (case readStrs 7 p of
     None \<Rightarrow> Some (Inl errMalformed, v)
   | Some (f, rest) \<Rightarrow>
      (if \<not> checkOpenSSHPadding rest blockSize then Some (Inl errMalformed, v)
       else case readStrs 2 pub of
         None \<Rightarrow> Some (Inl errMalformed, v)
       | Some (g, _) \<Rightarrow>
           (if stripZeros (g ! 0) \<noteq> stripZeros (f ! 1) \<or> stripZeros (g ! 1) \<noteq> stripZeros (f ! 0) then Some (Inl errMalformed, v)
            else map_option (\<lambda>(r, w). (map_sum id blockDER r, w)) (pkcs1DER L (f ! 0) (f ! 1) (f ! 2) (f ! 4) (f ! 5) (f ! 3) v))))"

definition parseOpenSSHPrivateBlock ::
    "'e keyLib_scheme \<Rightarrow> options \<Rightarrow> bytes \<Rightarrow> bytes \<Rightarrow> nat \<Rightarrow> vault \<Rightarrow> ((kerr + blockKey) \<times> vault) option" where
  "parseOpenSSHPrivateBlock L opts privBlock pubBlob blockSize v =
     (case sshReader_uint32 privBlock of (check1, ok1, p1) \<Rightarrow> case sshReader_uint32 p1 of (check2, ok2, p2) \<Rightarrow>
       if \<not> ok1 \<or> \<not> ok2 then Some (Inl errMalformed, v)
       else if check1 \<noteq> check2 then Some (Inl errCheckMismatch, v)
       else case sshReader_str p2 of (keyType, ok3, p3) \<Rightarrow>
         if \<not> ok3 then Some (Inl errMalformed, v)
         else case sshReader_str pubBlob of (pubType, ok, pub) \<Rightarrow>
           if \<not> ok \<or> pubType \<noteq> keyType then Some (Inl errMalformed, v)
           else if keyType = goString ''ssh-ed25519'' then ed25519Block L p3 pub blockSize v
           else if keyType = goString ''ecdsa-sha2-nistp256'' \<or> keyType = goString ''ecdsa-sha2-nistp384''
             \<or> keyType = goString ''ecdsa-sha2-nistp521'' then ecdsaBlock L opts keyType p3 pub blockSize v
           else if keyType = goString ''ssh-rsa'' then rsaBlock L p3 pub blockSize v
           else Some (Inl (errBoth ErrUnsupportedKey (errText (labelForError keyType))), v))"

definition openOpenSSH ::
    "'e keyLib_scheme \<Rightarrow> options \<Rightarrow> bytes \<Rightarrow> vault \<Rightarrow> ((kerr + blockKey) \<times> vault) option" where
  "openOpenSSH L opts b v = (case readOpenSSHHeader b of
     Inl e \<Rightarrow> Some (Inl e, v)
   | Inr h \<Rightarrow>
      (if hcipher h \<noteq> goString ''none'' then Some (Inl ErrEncryptedKey, v)
       else if length (hrest h) \<noteq> 0 then Some (Inl errMalformed, v)
       else if hnumKeys h \<noteq> 1 then Some (Inl ErrUnsupportedKey, v)
       else if length (hprivBlock h) = 0 \<or> length (hprivBlock h) mod opensshNoneBlock \<noteq> 0 then Some (Inl errMalformed, v)
       else parseOpenSSHPrivateBlock L opts (hprivBlock h) (hpubBlob h) opensshNoneBlock v))"

definition parseOpenSSH :: "'e keyLib_scheme \<Rightarrow> options \<Rightarrow> nat \<Rightarrow> vault \<Rightarrow> ((kerr + Signer) \<times> vault) option" where
  "parseOpenSSH L opts blob v = do {
     ((e, s), v1) \<leftarrow> withBuf L None (reading (\<lambda>b w. toVar (openOpenSSH L opts b w))) blob v;
     (let v2 = destroyBuf blob v1 in
      case e of
        Some x \<Rightarrow> Some (Inl x, v2)
      | None \<Rightarrow> (case s of
          None \<Rightarrow> None
        | Some (blockDER der) \<Rightarrow> rsaFromDER L opts der v2
        | Some (blockSigner sg) \<Rightarrow> Some (Inr sg, v2)))
   }"

section \<open>The entry point\<close>

definition containsBegin :: "bytes \<Rightarrow> bool" where
  "containsBegin d \<longleftrightarrow> bytesIndex d pemBegin \<noteq> None"

definition parsePEM :: "'e keyLib_scheme \<Rightarrow> options \<Rightarrow> bytes \<Rightarrow> vault \<Rightarrow> ((kerr + Signer) \<times> vault) option" where
  "parsePEM L opts d v = (case pemBlock d of
     Inl e \<Rightarrow> Some (Inl e, v)
   | Inr (label, body) \<Rightarrow> do {
       (r, v1) \<leftarrow> decodePEMBody L body v;
       (case r of
         Inl e \<Rightarrow> Some (Inl e, v1)
       | Inr blob \<Rightarrow>
          (if label = goString ''OPENSSH PRIVATE KEY'' then parseOpenSSH L opts blob v1
           else if label = goString ''PRIVATE KEY'' then parsePKCS8 L opts blob v1
           else if label = goString ''EC PRIVATE KEY'' then parseSEC1 L opts blob v1
           else if label = goString ''RSA PRIVATE KEY'' then rsaFromDER L opts blob v1
           else if label = goString ''ENCRYPTED PRIVATE KEY'' then do {
             ((e, _), v2) \<leftarrow> withBuf L () (reading (\<lambda>der w. Some ((Some (encryptedPKCS8Error (asn1 L) der), ()), w))) blob v1;
             (case e of None \<Rightarrow> None | Some x \<Rightarrow> Some (Inl x, destroyBuf blob v2))
           }
           else Some (Inl (errBoth ErrUnsupportedKey (errText (labelForError label))), destroyBuf blob v1)))
     })"

definition parsePrivateKey :: "'e keyLib_scheme \<Rightarrow> options \<Rightarrow> bytes \<Rightarrow> vault \<Rightarrow> ((kerr + Signer) \<times> vault) option" where
  "parsePrivateKey L opts d v =
     (if prefix opensshMagic d then
        (case copyToBuffer L d v of (Inl e, v1) \<Rightarrow> Some (Inl e, v1) | (Inr blob, v1) \<Rightarrow> parseOpenSSH L opts blob v1)
      else if looksLikeDER (asn1 L) d then
        (case copyToBuffer L d v of (Inl e, v1) \<Rightarrow> Some (Inl e, v1) | (Inr blob, v1) \<Rightarrow> parseDER L opts blob v1)
      else if containsBegin d then parsePEM L opts d v
      else Some (Inl errMalformed, v))"

definition ParsePrivateKey :: "'e keyLib_scheme \<Rightarrow> options \<Rightarrow> bytes \<Rightarrow> vault \<Rightarrow> ((kerr + Signer) \<times> vault) option" where
  "ParsePrivateKey L opts d v =
     (if length d = 0 then Some (Inl (errText ''empty input''), v) else parsePrivateKey L opts d v)"

end
