(* ===== verification/Parse_Correct.thy ===== *)
theory Parse_Correct
  imports Key_Parse
begin

text \<open>
  What the parsers of unencrypted key files do with the buffers they allocate: on every input and in
  every environment they return, and after an error no buffer of theirs is held, after a success
  exactly the buffer of the signer. The exception is a region closed at rest that cannot be closed
  again after the callback built the signer.
\<close>

section \<open>Ownership\<close>

definition answers :: "('a \<Rightarrow> nat set) \<Rightarrow> nat set \<Rightarrow> vault \<Rightarrow> ((kerr + 'a) \<times> vault) option \<Rightarrow> bool" where
  "answers own D v x \<longleftrightarrow> (\<exists>r v'. x = Some (r, v') \<and> moves v D (case r of Inl _ \<Rightarrow> {} | Inr s \<Rightarrow> own s) v')"

abbreviation ownsSigner :: "Signer \<Rightarrow> nat set" where
  "ownsSigner s \<equiv> {signerBuf s}"

lemma answersE:
  assumes "answers own D v x"
  obtains (err) e v' where "x = Some (Inl e, v')" "moves v D {} v'"
  | (ok) s v' where "x = Some (Inr s, v')" "moves v D (own s) v'"
proof -
  obtain r v' where "x = Some (r, v')" "moves v D (case r of Inl _ \<Rightarrow> {} | Inr s \<Rightarrow> own s) v'" using assms unfolding answers_def by blast
  then show thesis using that by (cases r) auto
qed

lemma answersI: "moves v D {} v' \<Longrightarrow> answers own D v (Some (Inl e, v'))" "moves v D (own s) v' \<Longrightarrow> answers own D v (Some (Inr s, v'))"
  by (auto simp: answers_def)

lemma answers_simps [simp]:
  "answers own D v (Some (Inl e, v')) \<longleftrightarrow> moves v D {} v'" "answers own D v (Some (Inr s, v')) \<longleftrightarrow> moves v D (own s) v'"
  by (simp_all add: answers_def)

lemma movesD: "moves v D S v' \<Longrightarrow> vwf v' \<and> vnext v \<le> vnext v' \<and> vheld v' = (vheld v - D) \<union> S \<and> S \<inter> (vheld v - D) = {}"
  by (simp add: moves_def)

text \<open>What stands before a step that answers keeps the buffers, or acquires one that the step
  releases.\<close>

lemma answers_after:
  assumes "moves v {} S v1" "answers own S v1 x" "S \<inter> vheld v = {}"
  shows "answers own {} v x"
  using assms(2)
proof (cases rule: answersE)
  case (err e v')
  have "moves v {} {} v'" using assms(1,3) err(2) by (auto simp: moves_def)
  then show ?thesis using err(1) by (auto intro: answersI)
next
  case (ok s v')
  have "moves v {} (own s) v'" using assms(1,3) ok(2) by (auto simp: moves_def)
  then show ?thesis using ok(1) by (auto intro: answersI)
qed

lemma moves_destroy: "moves v {} S v1 \<Longrightarrow> i \<in> vheld v1 \<Longrightarrow> moves v {i} (S - {i}) (destroyBuf i v1)"
  by (auto simp: moves_def destroyBuf_def held_setBuf vwf_setBuf held_less)

lemma moves_fresh: "moves v D S v1 \<Longrightarrow> i \<notin> vheld v \<Longrightarrow> moves v (D - {i}) S v1"
  by (auto simp: moves_def)

lemma moves_handover:
  assumes "moves v D {j} w" "moves w {j} S v'" "j \<notin> vheld v"
  shows "moves v D S v'"
proof -
  have "vheld w - {j} = vheld v - D" using assms(1,3) by (auto simp: moves_def)
  then show ?thesis using assms(1,2) by (simp add: moves_def)
qed

section \<open>Borrows\<close>

definition varOf :: "('a \<Rightarrow> nat set) \<Rightarrow> kerr option \<Rightarrow> 'a option \<Rightarrow> nat set" where
  "varOf own e x = (case e of Some _ \<Rightarrow> {} | None \<Rightarrow> (case x of None \<Rightarrow> {} | Some s \<Rightarrow> own s))"

lemma withBuf_answers:
  assumes "vwf v" "\<not> closedRegions E"
    and g: "\<And>c v1. vwf v1 \<Longrightarrow> vheld v1 = vheld v \<Longrightarrow> i \<in> vheld v \<Longrightarrow> answers own {} v1 (g c v1)"
  obtains (err) e x v' where "withBuf E None (reading (\<lambda>c w. toVar (g c w))) i v = Some ((Some e, x), v')" "moves v {} {} v'"
  | (ok) s v' where "withBuf E None (reading (\<lambda>c w. toVar (g c w))) i v = Some ((None, Some s), v')" "moves v {} (own s) v'"
proof -
  have "\<exists>e x c' v2. reading (\<lambda>c w. toVar (g c w)) c v1 = Some ((e, x, c'), v2) \<and> moves v1 {} (varOf own e x) v2 \<and> (e = None \<longrightarrow> x \<noteq> None)"
    if "vwf v1" "vheld v1 = vheld v" "i \<in> vheld v" for c v1
    using g [OF that, of c] by (cases rule: answersE) (auto simp: reading_def toVar_def varOf_def)
  note cb = this
  show thesis
  proof (rule withBuf_moves [where S = "varOf own" and d = None and Q = "\<lambda>e x. e = None \<longrightarrow> x \<noteq> None"
        and f = "reading (\<lambda>c w. toVar (g c w))" and i = i, OF assms(1,2)])
    fix e x v'
    assume "withBuf E None (reading (\<lambda>c w. toVar (g c w))) i v = Some ((e, x), v')" "moves v {} (varOf own e x) v'" "e = None \<longrightarrow> x \<noteq> None"
    then show thesis using that by (cases e; cases x) (auto simp: varOf_def)
  qed (use cb in \<open>simp_all add: varOf_def\<close>)
qed

lemma withBuf_reads:
  assumes "vwf v" "\<not> closedRegions E"
  obtains e x v' where "withBuf E d (reading (\<lambda>c w. Some (f c, w))) i v = Some ((e, x), v')" "moves v {} {} v'"
proof -
  show thesis
  proof (rule withBuf_moves [where S = "\<lambda>_ _. {}" and d = d and Q = "\<lambda>_ _. True"
        and f = "reading (\<lambda>c w. Some (f c, w))" and i = i, OF assms])
    fix c v1 assume "vwf v1"
    then show "\<exists>e x c' v2. reading (\<lambda>c w. Some (f c, w)) c v1 = Some ((e, x, c'), v2) \<and> moves v1 {} {} v2 \<and> True"
      by (cases "f c") (simp add: reading_def)
  qed (use that in auto)
qed

section \<open>Filling a buffer\<close>

lemma answers_new:
  assumes "newEmptyBuffer E n v = (Inr i, v1)" "vwf v" "moves v1 {} {} v2"
  shows "answers own {} v (Some (Inl e, destroyBuf i v2))" "moves v {} {i} v2" "i \<in> vheld v2" "i \<notin> vheld v"
proof -
  have m: "moves v {} {i} v1" "i \<notin> vheld v" using newEmptyBuffer_moves [OF assms(1,2)] by auto
  then show i: "moves v {} {i} v2" "i \<in> vheld v2" "i \<notin> vheld v" using assms(3) by (auto simp: moves_def)
  have "moves v {i} ({i} - {i}) (destroyBuf i v2)" by (rule moves_destroy [OF i(1,2)])
  then have "moves v {} {} (destroyBuf i v2)" using moves_fresh [of v "{i}" "{}" "destroyBuf i v2" i] i(3) by simp
  then show "answers own {} v (Some (Inl e, destroyBuf i v2))" by (rule answersI)
qed

lemma answers_copyToBuffer: "vwf v \<Longrightarrow> answers (\<lambda>i. {i}) {} v (Some (copyToBuffer E d v))"
proof -
  assume v: "vwf v"
  obtain r v1 where n: "newEmptyBuffer E (length d) v = (r, v1)" by fastforce
  show ?thesis
  proof (cases r)
    case (Inl e)
    then show ?thesis using newEmptyBuffer_moves(1) [OF n v] n by (simp add: copyToBuffer_def answersI)
  next
    case (Inr i)
    obtain e v2 where c: "copyInBuf E d 0 i v1 = (e, v2)" by fastforce
    have "vwf v1" using newEmptyBuffer_moves(1) [OF n v] by (simp add: moves_def)
    then have m: "moves v1 {} {} v2" using copyInBuf_moves [of v1 E d 0 i] c by simp
    show ?thesis using answers_new [OF n [unfolded Inr] v m] n Inr c
      by (cases e) (simp_all add: copyToBuffer_def answersI)
  qed
qed

lemma b64Quanta_length: "b64Quanta b = Some d \<Longrightarrow> length d \<le> b64DecodedLen (length b)"
proof (induction "length b" arbitrary: b d rule: less_induct)
  case less
  have q: "b64DecodedLen (Suc (Suc (Suc (Suc n)))) = 3 + b64DecodedLen n" for n
    using div_add_self1 [of "4 :: nat" n] by (simp add: b64DecodedLen_def)
  show ?case
  proof (cases b rule: b64Quanta.cases)
    case (2 p s t u r)
    have "length z \<le> b64DecodedLen (length r)" if "b64Quanta r = Some z" for z using less.hyps [OF _ that] 2 by simp
    then show ?thesis using less.prems 2 by (auto simp: Let_def q split: option.splits if_splits)
  qed (use less.prems in auto)
qed

lemma b64Decode_length: "b64Decode b = Some d \<Longrightarrow> length d \<le> b64DecodedLen (length b)"
  using b64Quanta_length [of "filter (\<lambda>c. c \<noteq> 10 \<and> c \<noteq> 13) b" d] div_le_mono [OF length_filter_le [of "\<lambda>c. c \<noteq> 10 \<and> c \<noteq> 13" b], of 4]
  by (simp add: b64Decode_def b64DecodedLen_def)

lemma withBuf_fresh:
  assumes "newEmptyBuffer E n v = (Inr i, v1)"
  shows "withBuf E d f i v1 = (case fateOf E v1 of
      WipedFirst \<Rightarrow> Some ((Some (errCore ErrWiped), d), setBuf i AWiped (vstep v1))
    | OpenFails \<Rightarrow> Some ((Some (errCore ErrOS), d), vstep v1)
    | ft \<Rightarrow> do {
        ((e, x, c'), v2) \<leftarrow> f (zeros n) (vstep v1);
        Some ((if e = None \<and> ft = CloseFails then Some (errCore ErrOS) else e, x), setBuf i (ALive c' False False) v2)
      })"
proof -
  have "vbufs v1 i = Some (ALive (zeros n) False False)"
    using assms by (auto simp: newEmptyBuffer_def split: if_splits option.splits)
  moreover from this have "setBuf i (ALive (zeros n) False False) (vstep v1) = vstep v1"
    by (simp add: setBuf_def fun_upd_idem vstep_def)
  ultimately show ?thesis
    by (cases "fateOf E v1") (simp_all add: withBuf_def reach_def arrives_def Let_def)
qed

lemma answers_decodePEMBody:
  assumes v: "vwf v" and E: "\<not> closedRegions E"
  shows "answers (\<lambda>i. {i}) {} v (decodePEMBody E body v)"
proof (cases "b64DecodedLen (length (trimSpace body)) = 0")
  case True then show ?thesis using v by (simp add: decodePEMBody_def answersI)
next
  case False
  let ?n = "b64DecodedLen (length (trimSpace body))"
  obtain r v1 where n: "newEmptyBuffer E ?n v = (r, v1)" by fastforce
  show ?thesis
  proof (cases r)
    case (Inl e)
    then show ?thesis using newEmptyBuffer_moves(1) [OF n v] n False by (simp add: decodePEMBody_def answersI Let_def)
  next
    case (Inr i)
    have v1: "vwf v1" "i \<in> vheld v1" "i < vnext v1" using newEmptyBuffer_moves [OF n v] Inr by (auto simp: moves_def)
    obtain e m v2 where b: "withBuf E 0 (decodeInto (trimSpace body)) i v1 = Some ((e, m), v2)" "moves v1 {} {} v2"
      using b64Decode_length [of "trimSpace body"] v1
      by (cases "fateOf E v1"; cases "b64Decode (trimSpace body)")
        (fastforce simp: withBuf_fresh [OF n [unfolded Inr]] decodeInto_def moves_def held_setBuf vwf_def)+
    obtain e2 v3 where t: "truncateBuf E (int m) i v2 = (e2, v3)" by fastforce
    have "vwf v2" using b(2) by (simp add: moves_def)
    then have "moves v1 {} {} v3" using truncateBuf_moves [of v2 E "int m" i] t b(2) by (auto simp: moves_def)
    note m3 = answers_new [OF n [unfolded Inr] v this] and m2 = answers_new [OF n [unfolded Inr] v b(2)]
    show ?thesis using n Inr False b(1) t m2 m3
      by (cases "e = None \<and> m = 0"; cases e; cases e2) (auto simp: decodePEMBody_def Let_def intro: answersI)
  qed
qed

section \<open>Constructors\<close>

lemma answers_keep:
  assumes "moves v {} {} v'" "i \<in> vheld v" "\<And>s. r = Inr s \<Longrightarrow> signerBuf s = i"
  shows "answers ownsSigner {i} v (case r of Inl e \<Rightarrow> Some (Inl e, destroyBuf i v') | Inr s \<Rightarrow> Some (Inr s, v'))"
proof (cases r)
  case (Inl e)
  have "moves v {i} ({} - {i}) (destroyBuf i v')" using assms(1,2) by (intro moves_destroy) (auto simp: moves_def)
  then show ?thesis using Inl by (simp add: answersI)
next
  case (Inr s)
  have "moves v {i} {i} v'" using assms(1,2) by (auto simp: moves_def)
  then show ?thesis using Inr assms(3) [OF Inr] by (simp add: answersI)
qed

lemma constructor_keeps:
  assumes "vwf v" "\<not> closedRegions L"
  shows "\<exists>r v'. newEd25519Signer L i v = Some (r, v') \<and> moves v {} {} v' \<and> (\<forall>s. r = Inr s \<longrightarrow> signerBuf s = i)"
    "\<exists>r v'. newECDSASigner L opts c i v = Some (r, v') \<and> moves v {} {} v' \<and> (\<forall>s. r = Inr s \<longrightarrow> signerBuf s = i)"
    "\<exists>r v'. newRSASigner L opts i v = Some (r, v') \<and> moves v {} {} v' \<and> (\<forall>s. r = Inr s \<longrightarrow> signerBuf s = i)"
proof -
  show "\<exists>r v'. newEd25519Signer L i v = Some (r, v') \<and> moves v {} {} v' \<and> (\<forall>s. r = Inr s \<longrightarrow> signerBuf s = i)"
  proof -
    obtain e x v' where "withBuf L [] (reading (\<lambda>seed w. Some (case deriveEd25519PublicKey L seed of
        Inl x \<Rightarrow> (Some x, []) | Inr p \<Rightarrow> (None, p), w))) i v = Some ((e, x), v')" "moves v {} {} v'"
      by (rule withBuf_reads [OF assms])
    then show ?thesis using assms(1) by (cases e) (auto simp: newEd25519Signer_def)
  qed
  show "\<exists>r v'. newECDSASigner L opts c i v = Some (r, v') \<and> moves v {} {} v' \<and> (\<forall>s. r = Inr s \<longrightarrow> signerBuf s = i)"
  proof -
    obtain e x v' where "withBuf L [] (reading (\<lambda>d w. Some (case ecPublic L c d of
        None \<Rightarrow> (Some (errText ''invalid private key''), []) | Some p \<Rightarrow> (None, p), w))) i v = Some ((e, x), v')" "moves v {} {} v'"
      by (rule withBuf_reads [OF assms])
    then show ?thesis using assms(1) by (cases e) (auto simp: newECDSASigner_def split: option.split)
  qed
  show "\<exists>r v'. newRSASigner L opts i v = Some (r, v') \<and> moves v {} {} v' \<and> (\<forall>s. r = Inr s \<longrightarrow> signerBuf s = i)"
  proof -
    obtain e x v' where "withBuf L (0, 0, []) (reading (\<lambda>der w. Some (readRSAKey L der, w))) i v = Some ((e, x), v')" "moves v {} {} v'"
      by (rule withBuf_reads [OF assms])
    then show ?thesis using assms(1) by (cases e; cases x) (auto simp: newRSASigner_def split: option.split)
  qed
qed

lemma answers_rsaFromDER:
  assumes "vwf v" "\<not> closedRegions L" "i \<in> vheld v"
  shows "answers ownsSigner {i} v (rsaFromDER L opts i v)"
  using constructor_keeps(3) [OF assms(1,2), of opts i] answers_keep [OF _ assms(3)] by (force simp: rsaFromDER_def)

lemma answers_fill:
  assumes v: "vwf v" and n: "newEmptyBuffer L n v = (Inr i, v1)" and c: "copyInBuf L d off i v1 = (None, v2)"
    and s: "\<exists>r v3. x = Some (r, v3) \<and> moves v2 {} {} v3 \<and> (\<forall>s. r = Inr s \<longrightarrow> signerBuf s = i)"
  shows "answers ownsSigner {} v (do {
      (r, v3) \<leftarrow> x;
      (case r of Inl e \<Rightarrow> Some (Inl e, destroyBuf i v3)
      | Inr s \<Rightarrow> (case pub of
          Some p \<Rightarrow> if \<not> match s p then Some (Inl errMalformed, destroySigner s v3) else Some (Inr s, v3)
        | None \<Rightarrow> Some (Inr s, v3)))
    })"
proof -
  obtain r v3 where x: "x = Some (r, v3)" "moves v2 {} {} v3" "\<And>s. r = Inr s \<Longrightarrow> signerBuf s = i" using s by blast
  have "vwf v1" using newEmptyBuffer_moves(1) [OF n v] by (simp add: moves_def)
  then have "moves v1 {} {} v3" using copyInBuf_moves [of v1 L d off i] c x(2) by (auto simp: moves_def)
  note m = answers_new [OF n v this]
  show ?thesis using x m by (cases r; cases pub) (auto simp: destroySigner_def intro: answersI)
qed

lemma answers_newErr: "newEmptyBuffer L n v = (Inl e, v1) \<Longrightarrow> vwf v \<Longrightarrow> answers own {} v (Some (Inl e, v1))"
  using newEmptyBuffer_moves(1) [of L n v "Inl e" v1] by (simp add: answersI)

lemma answers_copyErr:
  assumes "newEmptyBuffer L n v = (Inr i, v1)" "vwf v" "copyInBuf L d off i v1 = (e, v2)"
  shows "answers own {} v (Some (Inl e', destroyBuf i v2))"
proof -
  have "vwf v1" using newEmptyBuffer_moves(1) [OF assms(1,2)] by (simp add: moves_def)
  then have "moves v1 {} {} v2" using copyInBuf_moves [of v1 L d off i] assms(3) by simp
  then show ?thesis by (rule answers_new(1) [OF assms(1,2)])
qed

lemma answers_refuse: "vwf v \<Longrightarrow> answers own {} v (Some (Inl e, v))"
  by (simp add: answersI)

lemma answers_ecdsaFromScalar:
  assumes v: "vwf v" and L: "\<not> closedRegions L"
  shows "answers ownsSigner {} v (ecdsaFromScalar L opts d c pub v)"
proof -
  have k: "vwf v2 \<Longrightarrow> \<exists>r v3. newECDSASigner L opts c i v2 = Some (r, v3) \<and> moves v2 {} {} v3 \<and> (\<forall>s. r = Inr s \<longrightarrow> signerBuf s = i)" for i v2
    using constructor_keeps(2) [OF _ L, of v2 opts c i] by simp
  obtain r v1 where n: "newEmptyBuffer L (scalarSize c) v = (r, v1)" by fastforce
  show ?thesis
  proof (cases r)
    case (Inl e)
    then show ?thesis using n v answers_newErr [of L _ v e v1] by (auto simp: ecdsaFromScalar_def Let_def intro: answers_refuse)
  next
    case (Inr i)
    let ?d = "stripZeros d" and ?o = "int (scalarSize c) - int (length (stripZeros d))"
    obtain e v2 where c: "copyInBuf L ?d ?o i v1 = (e, v2)" by fastforce
    have "vwf v1" using newEmptyBuffer_moves(1) [OF n v] by (simp add: moves_def)
    then have "vwf v2" using copyInBuf_moves [of v1 L ?d ?o i] c by (simp add: moves_def)
    show ?thesis
    proof (cases e)
      case None
      then show ?thesis using n Inr c v answers_fill [OF v n [unfolded Inr] c [unfolded None] k [OF \<open>vwf v2\<close>], where pub = pub and match = ecdsaPubMatches]
        by (auto simp: ecdsaFromScalar_def Let_def intro: answers_refuse)
    qed (use n Inr c v answers_copyErr [OF n [unfolded Inr] v c] in \<open>auto simp: ecdsaFromScalar_def Let_def intro: answers_refuse\<close>)
  qed
qed

lemma answers_ed25519FromSeed:
  assumes v: "vwf v" and L: "\<not> closedRegions L"
  shows "answers ownsSigner {} v (ed25519FromSeed L seed pub v)"
proof -
  have k: "vwf v2 \<Longrightarrow> \<exists>r v3. newEd25519Signer L i v2 = Some (r, v3) \<and> moves v2 {} {} v3 \<and> (\<forall>s. r = Inr s \<longrightarrow> signerBuf s = i)" for i v2
    using constructor_keeps(1) [OF _ L, of v2 i] by simp
  obtain r v1 where n: "newEmptyBuffer L (length seed) v = (r, v1)" by fastforce
  show ?thesis
  proof (cases r)
    case (Inl e)
    then show ?thesis using n v answers_newErr [of L _ v e v1] by (auto simp: ed25519FromSeed_def intro: answers_refuse)
  next
    case (Inr i)
    obtain e v2 where c: "copyInBuf L seed 0 i v1 = (e, v2)" by fastforce
    have "vwf v1" using newEmptyBuffer_moves(1) [OF n v] by (simp add: moves_def)
    then have "vwf v2" using copyInBuf_moves [of v1 L seed 0 i] c by (simp add: moves_def)
    show ?thesis
    proof (cases e)
      case None
      then show ?thesis using n Inr c v answers_fill [OF v n [unfolded Inr] c [unfolded None] k [OF \<open>vwf v2\<close>], where pub = pub and match = "\<lambda>s p. p = pubKey s"]
        by (auto simp: ed25519FromSeed_def intro: answers_refuse)
    qed (use n Inr c v answers_copyErr [OF n [unfolded Inr] v c] in \<open>auto simp: ed25519FromSeed_def intro: answers_refuse\<close>)
  qed
qed

section \<open>The parsers\<close>

lemma moves_drop: "moves v {} S v1 \<Longrightarrow> i \<in> vheld v \<Longrightarrow> moves v {i} S (destroyBuf i v1)"
  using moves_destroy [of v S v1 i] by (auto simp: moves_def)

lemma answers_ecdsaFromSEC1:
  assumes v: "vwf v" and L: "\<not> closedRegions L"
  shows "answers ownsSigner {} v (ecdsaFromSEC1 L opts der c outerPub v)"
proof -
  have *: "answers ownsSigner {} v (do {
      (r, v1) \<leftarrow> ecdsaFromScalar L opts d cu innerPub v;
      (case r of
        Inl e \<Rightarrow> Some (Inl e, v1)
      | Inr s \<Rightarrow> (case outerPub of
          Some p \<Rightarrow> if \<not> ecdsaPubMatches s p then Some (Inl errMalformed, destroySigner s v1) else Some (Inr s, v1)
        | None \<Rightarrow> Some (Inr s, v1)))
    })" for d cu innerPub
    using answers_ecdsaFromScalar [OF v L, of opts d cu innerPub]
  proof (cases rule: answersE)
    case (ok s v1)
    have "moves v {} {} (destroySigner s v1)"
      using ok(2) moves_destroy [OF ok(2), of "signerBuf s"] moves_fresh [of v "{signerBuf s}" "{}" "destroyBuf (signerBuf s) v1" "signerBuf s"]
      by (auto simp: destroySigner_def moves_def)
    then show ?thesis using ok by (cases outerPub) (auto intro: answersI)
  qed (auto intro: answersI)
  show ?thesis unfolding ecdsaFromSEC1_def Let_def
    using v by (auto intro!: * split: option.splits sum.splits)
qed

lemma answers_map:
  assumes "answers own {} v x" "\<And>s. own' (f s) = own s"
  shows "answers own' {} v (map_option (\<lambda>(r, w). (map_sum id f r, w)) x)"
  using assms(1) by (cases rule: answersE) (auto simp: assms(2) intro!: answersI)

lemma answers_borrow:
  assumes v: "vwf v" and L: "\<not> closedRegions L" and i: "i \<in> vheld v"
    and g: "\<And>c v1. vwf v1 \<Longrightarrow> vheld v1 = vheld v \<Longrightarrow> answers own {} v1 (g c v1)"
    and k: "\<And>s v1. moves v {} (own s) v1 \<Longrightarrow> answers own' {i} v (k s v1)"
    and e: "\<And>e v1. h e v1 = Some (Inl e, destroyBuf i v1)"
  shows "answers own' {i} v (do {
      ((e, s), v1) \<leftarrow> withBuf L None (reading (\<lambda>c w. toVar (g c w))) i v;
      (case e of Some x \<Rightarrow> h x v1 | None \<Rightarrow> (case s of None \<Rightarrow> None | Some sg \<Rightarrow> k sg v1)) })"
proof (cases rule: withBuf_answers [OF v L, of i own g])
  case 1 then show ?case using g by blast
next
  case (2 e x v')
  then show ?thesis using moves_drop [OF 2(2) i] assms(6) by (simp add: answersI)
next
  case (3 s v')
  then show ?thesis using k [OF 3(2)] by simp
qed

lemma answers_parseSEC1:
  assumes "vwf v" "\<not> closedRegions L" "i \<in> vheld v"
  shows "answers ownsSigner {i} v (parseSEC1 L opts i v)"
  using answers_borrow [OF assms, where own = ownsSigner and own' = ownsSigner and g = "\<lambda>der w. ecdsaFromSEC1 L opts der None None w"
      and k = "\<lambda>sg v1. Some (Inr sg, destroyBuf i v1)" and h = "\<lambda>x v1. Some (Inl x, destroyBuf i v1)"]
    answers_ecdsaFromSEC1 [OF _ assms(2)] moves_drop [OF _ assms(3)]
  by (simp add: parseSEC1_def Let_def answersI)

fun ownsPKCS8 :: "pkcs8Key \<Rightarrow> nat set" where
  "ownsPKCS8 isRSA = {}"
| "ownsPKCS8 (keySigner s) = {signerBuf s}"

fun ownsBlock :: "blockKey \<Rightarrow> nat set" where
  "ownsBlock (blockSigner s) = {signerBuf s}"
| "ownsBlock (blockDER i) = {i}"

lemma withBuf_openPKCS8:
  assumes "vwf v" "\<not> closedRegions L" "i \<in> vheld v"
  obtains (err) e x v' where "withBuf L None (reading (openPKCS8 L opts)) i v = Some ((Some e, x), v')" "moves v {} {} v'"
  | (ok) s v' where "withBuf L None (reading (openPKCS8 L opts)) i v = Some ((None, Some s), v')" "moves v {} (ownsPKCS8 s) v'"
proof -
  have signer: "\<exists>e x v2. map_option (\<lambda>((e, s), w). ((e, map_option keySigner s), w)) (toVar y) = Some ((e, x), v2) \<and>
      moves v1 {} (varOf ownsPKCS8 e x) v2 \<and> (e = None \<longrightarrow> x \<noteq> None)" if "answers ownsSigner {} v1 y" for y v1
    using that by (cases rule: answersE) (auto simp: toVar_def varOf_def)
  have cb: "\<exists>e x v2. openPKCS8 L opts c v1 = Some ((e, x), v2) \<and> moves v1 {} (varOf ownsPKCS8 e x) v2 \<and> (e = None \<longrightarrow> x \<noteq> None)"
    if "vwf v1" for c v1
    using that signer [OF answers_ecdsaFromSEC1 [OF that assms(2)]] signer [OF answers_ed25519FromSeed [OF that assms(2)]]
    by (simp add: openPKCS8_def Let_def varOf_def split: option.split)
  show thesis
  proof (rule withBuf_moves [where S = "varOf ownsPKCS8" and d = None and Q = "\<lambda>e x. e = None \<longrightarrow> x \<noteq> None"
        and f = "reading (openPKCS8 L opts)" and i = i, OF assms(1,2)])
    fix c v1 assume "vwf v1"
    then show "\<exists>e x c' v2. reading (openPKCS8 L opts) c v1 = Some ((e, x, c'), v2) \<and> moves v1 {} (varOf ownsPKCS8 e x) v2 \<and> (e = None \<longrightarrow> x \<noteq> None)"
      using cb [of v1 c] by (auto simp: reading_def)
  next
    fix e x v'
    assume "withBuf L None (reading (openPKCS8 L opts)) i v = Some ((e, x), v')" "moves v {} (varOf ownsPKCS8 e x) v'" "e = None \<longrightarrow> x \<noteq> None"
    then show thesis using that by (cases e; cases x) (auto simp: varOf_def)
  qed (simp_all add: varOf_def)
qed

lemma answers_then:
  assumes "moves v {} {} v1" "answers own D v1 x"
  shows "answers own D v x"
  using assms(2) by (cases rule: answersE) (use assms(1) in \<open>auto simp: moves_def intro!: answersI\<close>)

lemma answers_parsePKCS8:
  assumes "vwf v" "\<not> closedRegions L" "i \<in> vheld v"
  shows "answers ownsSigner {i} v (parsePKCS8 L opts i v)"
proof (cases rule: withBuf_openPKCS8 [OF assms, of opts])
  case (1 e x v')
  then show ?thesis using moves_drop [OF 1(2) assms(3)] by (simp add: parsePKCS8_def answersI)
next
  case (2 s v')
  show ?thesis
  proof (cases s)
    case isRSA
    then have m: "moves v {} {} v'" using 2(2) by simp
    then have "answers ownsSigner {i} v' (rsaFromDER L opts i v')" using assms by (intro answers_rsaFromDER) (auto simp: moves_def)
    then show ?thesis using 2(1) isRSA answers_then [OF m] by (simp add: parsePKCS8_def)
  next
    case (keySigner sg)
    then show ?thesis using 2 moves_drop [OF 2(2) assms(3)] by (simp add: parsePKCS8_def answersI)
  qed
qed

lemma answers_parseDER:
  assumes "vwf v" "\<not> closedRegions L" "i \<in> vheld v"
  shows "answers ownsSigner {i} v (parseDER L opts i v)"
proof -
  obtain e nx v1 where b: "withBuf L 0 (reading (\<lambda>der w. Some (derNext (asn1 L) der, w))) i v = Some ((e, nx), v1)" "moves v {} {} v1"
    by (rule withBuf_reads [OF assms(1,2)])
  have v1: "vwf v1" "i \<in> vheld v1" using b(2) assms(3) by (auto simp: moves_def)
  have "answers ownsSigner {i} v (Some (Inl x, destroyBuf i v1))" for x using moves_drop [OF b(2) assms(3)] by (rule answersI)
  then show ?thesis
    using b(1) answers_then [OF b(2) answers_parsePKCS8 [OF v1(1) assms(2) v1(2)]] answers_then [OF b(2) answers_parseSEC1 [OF v1(1) assms(2) v1(2)]]
      answers_then [OF b(2) answers_rsaFromDER [OF v1(1) assms(2) v1(2)]]
    by (cases e) (auto simp: parseDER_def)
qed

lemma answers_storeNew:
  assumes v: "vwf v" and E: "\<not> closedRegions E"
  shows "answers (\<lambda>i. {i}) {} v (storeNew E c v)"
proof -
  obtain r v1 where n: "newEmptyBuffer E (length c) v = (r, v1)" by fastforce
  show ?thesis
  proof (cases r)
    case (Inl e)
    then show ?thesis using n answers_newErr [of E "length c" v e v1] v by (simp add: storeNew_def)
  next
    case (Inr i)
    have v1: "vwf v1" "i \<in> vheld v1" "i < vnext v1" using newEmptyBuffer_moves [OF n v] Inr by (auto simp: moves_def)
    obtain e v2 where b: "withBuf E () (\<lambda>_ w. Some ((None, (), c), w)) i v1 = Some ((e, ()), v2)" "moves v1 {} {} v2"
      using v1 by (cases "fateOf E v1")
        (fastforce simp: withBuf_fresh [OF n [unfolded Inr]] moves_def held_setBuf vwf_def)+
    note m = answers_new [OF n [unfolded Inr] v b(2)]
    show ?thesis using n Inr b(1) m by (cases e) (auto simp: storeNew_def intro: answersI)
  qed
qed

lemma answers_pkcs1DER:
  assumes "vwf v" "\<not> closedRegions E"
  shows "answers (\<lambda>i. {i}) {} v (pkcs1DER E n e d p q iq v)"
  using answers_storeNew [OF assms] assms(1) by (simp add: pkcs1DER_eq split: option.split)

lemma answers_privateBlock:
  assumes v: "vwf v" and L: "\<not> closedRegions L"
  shows "answers ownsBlock {} v (parseOpenSSHPrivateBlock L opts privBlock pubBlob blockSize v)"
proof -
  have "answers ownsBlock {} v (ed25519Block L p pub blockSize v)" for p pub
    using v answers_map [OF answers_ed25519FromSeed [OF v L], of ownsBlock blockSigner]
    by (simp add: ed25519Block_def Let_def split: option.split prod.split)
  moreover have "answers ownsBlock {} v (ecdsaBlock L opts keyType p pub blockSize v)" for keyType p pub
    using v answers_map [OF answers_ecdsaFromScalar [OF v L], of ownsBlock blockSigner]
    by (simp add: ecdsaBlock_def Let_def split: option.split prod.split)
  moreover have "answers ownsBlock {} v (rsaBlock L p pub blockSize v)" for p pub
    using v answers_map [OF answers_pkcs1DER [OF v L], of ownsBlock blockDER]
    by (simp add: rsaBlock_def Let_def split: option.split prod.split)
  ultimately show ?thesis using v by (simp add: parseOpenSSHPrivateBlock_def split: prod.split)
qed

lemma answers_parseOpenSSH:
  assumes "vwf v" "\<not> closedRegions L" "i \<in> vheld v"
  shows "answers ownsSigner {i} v (parseOpenSSH L opts i v)"
proof -
  have open_ok: "answers ownsBlock {} v1 (openOpenSSH L opts b v1)" if "vwf v1" for b v1
    using answers_privateBlock [OF that assms(2)] that by (simp add: openOpenSSH_def split: sum.split)
  have der: "answers ownsSigner {i} v (rsaFromDER L opts j (destroyBuf i v1))" if m: "moves v {} {j} v1" for j v1
  proof -
    have d: "moves v {i} {j} (destroyBuf i v1)" by (rule moves_drop [OF m assms(3)])
    have j: "j \<notin> vheld v" using m by (simp add: moves_def)
    have "answers ownsSigner {j} (destroyBuf i v1) (rsaFromDER L opts j (destroyBuf i v1))"
      using assms(2) d by (intro answers_rsaFromDER) (auto simp: moves_def)
    then show ?thesis
    proof (cases rule: answersE)
      case (err e v')
      then show ?thesis using moves_handover [OF d err(2) j] by simp
    next
      case (ok s v')
      then show ?thesis using moves_handover [OF d ok(2) j] by simp
    qed
  qed
  have "answers ownsSigner {i} v (do {
      ((e, s), v1) \<leftarrow> withBuf L None (reading (\<lambda>c w. toVar (openOpenSSH L opts c w))) i v;
      (case e of Some x \<Rightarrow> Some (Inl x, destroyBuf i v1) | None \<Rightarrow> (case s of None \<Rightarrow> None | Some sg \<Rightarrow>
        (case sg of blockDER der \<Rightarrow> rsaFromDER L opts der (destroyBuf i v1) | blockSigner sg \<Rightarrow> Some (Inr sg, destroyBuf i v1)))) })"
    by (rule answers_borrow [OF assms open_ok]) (auto intro!: der answersI moves_drop [OF _ assms(3)] split: blockKey.split)
  moreover have "(case s of None \<Rightarrow> None | Some (blockDER der) \<Rightarrow> rsaFromDER L opts der w | Some (blockSigner sg) \<Rightarrow> Some (Inr sg, w)) =
    (case s of None \<Rightarrow> None | Some sg \<Rightarrow> (case sg of blockDER der \<Rightarrow> rsaFromDER L opts der w | blockSigner sg \<Rightarrow> Some (Inr sg, w)))" for s w
    by (simp split: option.split blockKey.split)
  ultimately show ?thesis by (simp add: parseOpenSSH_def Let_def)
qed

lemma answers_chain:
  assumes "answers (\<lambda>i. {i}) {} v x" "\<And>i v1. moves v {} {i} v1 \<Longrightarrow> vwf v1 \<Longrightarrow> i \<in> vheld v1 \<Longrightarrow> answers ownsSigner {i} v1 (k i v1)"
  shows "answers ownsSigner {} v (do { (r, v1) \<leftarrow> x; (case r of Inl e \<Rightarrow> Some (Inl e, v1) | Inr i \<Rightarrow> k i v1) })"
  using assms(1)
proof (cases rule: answersE)
  case (err e v')
  then show ?thesis by (simp add: answersI)
next
  case (ok i v')
  then have "answers ownsSigner {i} v' (k i v')" using assms(2) by (auto simp: moves_def)
  then have "answers ownsSigner {} v (k i v')" using answers_after [OF ok(2)] ok(2) by (simp add: moves_def)
  then show ?thesis using ok(1) by simp
qed

lemma answers_parsePEM:
  assumes v: "vwf v" and L: "\<not> closedRegions L"
  shows "answers ownsSigner {} v (parsePEM L opts d v)"
proof (cases "pemBlock d")
  case (Inl e)
  then show ?thesis using answers_refuse [OF v] by (simp add: parsePEM_def)
next
  case (Inr lb)
  obtain label body where lb: "lb = (label, body)" by fastforce
  have enc: "answers ownsSigner {i} v1 (do {
      ((e, _), v2) \<leftarrow> withBuf L () (reading (\<lambda>der w. Some ((Some (encryptedPKCS8Error (asn1 L) der), ()), w))) i v1;
      (case e of None \<Rightarrow> None | Some x \<Rightarrow> Some (Inl x, destroyBuf i v2)) })" if "vwf v1" "i \<in> vheld v1" for i v1
  proof (rule withBuf_moves [where S = "\<lambda>_ _. {}" and d = "()" and Q = "\<lambda>e _. e \<noteq> None" and i = i
        and f = "reading (\<lambda>der w. Some ((Some (encryptedPKCS8Error (asn1 L) der), ()), w))", OF that(1) L])
    fix e x v'
    assume "withBuf L () (reading (\<lambda>der w. Some ((Some (encryptedPKCS8Error (asn1 L) der), ()), w))) i v1 = Some ((e, x), v')"
      "moves v1 {} {} v'" "e \<noteq> None"
    then show ?thesis using moves_drop [of v1 "{}" v' i] that(2) by (auto intro: answersI)
  qed (auto simp: reading_def)
  have "moves v1 {i} {} (destroyBuf i v1)" if "vwf v1" "i \<in> vheld v1" for i v1
    using moves_drop [of v1 "{}" v1 i] that by simp
  note k = this enc answers_parseOpenSSH [OF _ L] answers_parsePKCS8 [OF _ L] answers_parseSEC1 [OF _ L] answers_rsaFromDER [OF _ L]
  show ?thesis unfolding parsePEM_def Inr lb
    by (simp, rule answers_chain [OF answers_decodePEMBody [OF v L]]) (auto intro: k)
qed

lemma answers_ParsePrivateKey:
  assumes v: "vwf v" and L: "\<not> closedRegions L"
  shows "answers ownsSigner {} v (ParsePrivateKey L opts d v)"
proof -
  have c: "answers ownsSigner {} v (case copyToBuffer L d v of (Inl e, v1) \<Rightarrow> Some (Inl e, v1) | (Inr blob, v1) \<Rightarrow> k blob v1)"
    if "\<And>i v1. vwf v1 \<Longrightarrow> i \<in> vheld v1 \<Longrightarrow> answers ownsSigner {i} v1 (k i v1)" for k
    using answers_chain [OF answers_copyToBuffer [OF v], of k L d] that by (auto split: prod.splits sum.splits)
  show ?thesis
    using c [of "parseOpenSSH L opts"] c [of "parseDER L opts"] answers_parseOpenSSH [OF _ L] answers_parseDER [OF _ L]
      answers_parsePEM [OF v L] answers_refuse [OF v]
    by (auto simp: ParsePrivateKey_def parsePrivateKey_def)
qed

section \<open>Properties\<close>


definition ex_lib :: "asn1Lib \<Rightarrow> bool \<Rightarrow> keyLib" where
  "ex_lib A closed = \<lparr>allocAnswer = (\<lambda>_. None), closedRegions = closed, accessFate = (\<lambda>t. if closed \<and> t = 2 then CloseFails else Fine),
     randomBytes = (\<lambda>_ n. Some (zeros n)), heapErased = True, asn1 = A, edPoint = (\<lambda>_. zeros 32), ecPublic = (\<lambda>_ d. Some d),
     rsaPublic = (\<lambda>_. None), rsaWiped = True\<rparr>"


text \<open>
  C23. The exception: when the container is closed at rest and its region cannot be closed after the
  callback built the signer, \<open>parseSEC1\<close> returns that error and no signer, and the buffer
  with the scalar stays held; nothing destroys it. The other containers do the same.
\<close>

theorem parseSEC1_close_failure:
  assumes "vbufs v i = Some (ALive der False ro)" "fateOf L v = CloseFails"
    "ecdsaFromSEC1 L opts der None None (vstep v) = Some (Inr s, v2)" "signerBuf s \<in> vheld v2" "signerBuf s \<noteq> i"
  shows "\<exists>v'. parseSEC1 L opts i v = Some (Inl (errCore ErrOS), v') \<and> signerBuf s \<in> vheld v' \<and> i \<notin> vheld v'"
proof -
  have "setBuf i (ALive der False ro) (vstep v) = vstep v" using assms(1) by (simp add: setBuf_def fun_upd_idem vstep_def)
  then have "withBuf L None (reading (\<lambda>c w. toVar (ecdsaFromSEC1 L opts c None None w))) i v =
      Some ((Some (errCore ErrOS), Some s), setBuf i (ALive der False ro) v2)"
    using assms(1-3) by (simp add: withBuf_def reach_def arrives_def reading_def toVar_def Let_def)
  then show ?thesis using assms(4,5) by (simp add: parseSEC1_def Let_def destroyBuf_def held_setBuf)
qed

definition ex_reader :: asn1Lib where
  "ex_reader = ex_asn1\<lparr>readASN1 := (\<lambda>_ s. Some (s, [])), readASN1Integer := (\<lambda>s. Some (1, s)),
     readASN1ObjectIdentifier := (\<lambda>_. Some ([1, 2, 840, 10045, 3, 1, 7], [])),
     readOptionalASN1 := (\<lambda>t _. if t = tagContext0 then Some (Some [], []) else Some (None, []))\<rparr>"

theorem parseSEC1_close_failure_witness:
  "\<exists>v'. parseSEC1 (ex_lib ex_reader True) \<lparr>allowHeapTransients = False\<rparr> 0
      (ex_vault\<lparr>vbufs := [0 \<mapsto> ALive [7] False False], vlen := (\<lambda>_. 1), vnext := 1, vtick := 2\<rparr>) = Some (Inl (errCore ErrOS), v') \<and> 1 \<in> vheld v'"
proof -
  let ?L = "ex_lib ex_reader True" and ?v = "ex_vault\<lparr>vbufs := [0 \<mapsto> ALive [7] False False], vlen := (\<lambda>_. 1), vnext := 1, vtick := 2\<rparr>"
  let ?o = "\<lparr>allowHeapTransients = False\<rparr>"
  have f: "fateOf ?L w = (if vtick w = 2 then CloseFails else Fine)" for w :: vault
    by (simp add: fateOf_def ex_lib_def)
  have "\<exists>s v2. ecdsaFromScalar ?L ?o [7] P256 None (vstep ?v) = Some (Inr s, v2) \<and> signerBuf s = 1 \<and> 1 \<in> vheld v2"
    by (simp add: ecdsaFromScalar_def stripZeros_def scalarSize_def newEmptyBuffer_def copyInBuf_def reach_def arrives_def aCopyIn_def
        inRange_def newECDSASigner_def checkHeapTransients_def bufDestroyed_def bufLen_def withBuf_def reading_def vstep_def setBuf_def
        fateOf_def ex_lib_def ex_vault_def vheld_def Let_def)
  moreover have "ecdsaFromSEC1 ?L ?o [7] None None w = ecdsaFromScalar ?L ?o [7] P256 None w" for w
    by (cases "ecdsaFromScalar ?L ?o [7] P256 None w")
      (auto simp: ecdsaFromSEC1_def ex_lib_def ex_reader_def need_def curveFromOID_def tagContext0_def tagContext1_def Let_def
        split: option.split sum.split)
  ultimately obtain s v2 where "ecdsaFromSEC1 ?L ?o [7] None None (vstep ?v) = Some (Inr s, v2)" "signerBuf s = 1" "1 \<in> vheld v2" by auto
  then show ?thesis using parseSEC1_close_failure [of ?v 0 "[7]" False ?L ?o s v2] f [of ?v] by auto
qed

section \<open>What an error repeats\<close>

definition printable :: "char \<Rightarrow> bool" where
  "printable c \<longleftrightarrow> 32 \<le> (of_char c :: nat) \<and> (of_char c :: nat) \<le> 126"

lemma printable_char_of [simp]: "32 \<le> n \<Longrightarrow> n \<le> 126 \<Longrightarrow> printable (char_of (n :: nat))"
  by (simp add: printable_def)

lemma printable_showNat [simp]: "list_all printable (showNat n)"
proof (induction n rule: showNat.induct)
  case (1 n)
  have "n mod 10 < 10" by simp
  then have "printable (char_of (48 + n mod 10))" by (intro printable_char_of) linarith+
  moreover have "n < 10 \<Longrightarrow> printable (char_of (48 + n))" by (intro printable_char_of) linarith+
  ultimately show ?case using 1 by (subst showNat.simps) auto
qed

lemma length_showNat: "n < 10 ^ Suc k \<Longrightarrow> length (showNat n) \<le> Suc k"
proof (induction k arbitrary: n)
  case 0
  then show ?case by (subst showNat.simps) simp
next
  case (Suc k)
  have "n div 10 < 10 ^ Suc k" using Suc.prems by (simp add: less_mult_imp_div_less mult.commute)
  then show ?case using Suc.IH [of "n div 10"] by (subst showNat.simps) simp
qed

lemma printable_quote: "list_all printable s \<Longrightarrow> list_all printable (quote s)"
  by (induction s) (auto simp: quote_def printable_def)

lemma length_quote: "length (quote s) \<le> 2 + 2 * length s"
  by (induction s) (auto simp: quote_def)

lemma printable_asciiText: "\<not> list_ex (\<lambda>b. b < 0x20 \<or> 0x7e < b) l \<Longrightarrow> list_all printable (asciiText l)"
  by (auto simp: asciiText_def list_ex_iff list_all_iff not_less word_le_nat_alt intro!: printable_char_of)

lemma printable_oidString: "list_all printable (oidString oid)"
proof -
  have dot: "printable CHR ''.''" by (simp add: printable_def)
  have "list_all printable (concat (map (\<lambda>x. CHR ''.'' # showNat x) r))" for r
    using dot by (induction r) auto
  then show ?thesis by (auto simp: oidString_def split: list.split)
qed

text \<open>
  C33. What an error repeats of a file is printable ASCII and bounded, for every label and every object
  identifier that a 64-bit machine can hold: a hostile file puts neither control characters nor more
  than 98 characters of a label, or 64 of an identifier, into a log line.
\<close>

theorem error_names_bounded:
  assumes "length label < 2 ^ 64" "length oid < 2 ^ 64"
  shows "list_all printable (labelForError label) \<and> length (labelForError label) \<le> 98 \<and>
    list_all printable (oidForError oid) \<and> length (oidForError oid) \<le> 64"
proof -
  have d: "n < 2 ^ 64 \<Longrightarrow> length (showNat n) \<le> 20" for n using length_showNat [of n 19] by simp
  note l = d [OF assms(1)] d [OF assms(2)]
  have t: "list_all printable (asciiText (take maxQuotedLabel label))" if "list_all printable (asciiText label)"
    using that by (auto simp: asciiText_def list_all_iff dest: in_set_takeD)
  have "list_all printable (labelForError label)"
    using printable_asciiText [of label] t printable_quote by (auto simp: labelForError_def) (simp_all add: printable_def)
  moreover have "length (labelForError label) \<le> 98"
    using l length_quote [of "asciiText label"] length_quote [of "asciiText (take maxQuotedLabel label)"]
    by (auto simp: labelForError_def error_bounds asciiText_def)
  moreover have "list_all printable (oidForError oid)" using printable_oidString by (auto simp: oidForError_def) (simp_all add: printable_def)
  moreover have "length (oidForError oid) \<le> 64" using l by (auto simp: oidForError_def error_bounds)
  ultimately show ?thesis by blast
qed

theorem error_names_bounded_witness:
  "list_all printable (labelForError (replicate 40 0x41)) \<and> length (labelForError (replicate 40 0x41)) \<le> 98 \<and>
   list_all printable (oidForError [1, 2, 840]) \<and> length (oidForError [1, 2, 840]) \<le> 64"
  using error_names_bounded [of "replicate 40 0x41" "[1, 2, 840]"] by simp

end
