(* ===== verification/Aes_Modes.thy ===== *)
theory Aes_Modes
  imports Ssh_Wire
begin

text \<open>
  The two modes of AES that \<^verbatim>\<open>secmem-crypto/openssh_cipher.go\<close> writes out over a
  \<^verbatim>\<open>cipher.Block\<close>: counter mode and the decryption of cipher block chaining. The block
  cipher of \<^verbatim>\<open>crypto/aes\<close> is defined from FIPS 197. A slice index out of range is the value
  \<open>None\<close>.
\<close>

unbundle bit_operations_syntax

section \<open>AES\<close>

definition xtime :: "byte \<Rightarrow> byte" where
  "xtime b = push_bit 1 b XOR (if bit b 7 then 0x1b else 0)"

definition gmul :: "byte \<Rightarrow> byte \<Rightarrow> byte" where
  "gmul a b = fst (foldl (\<lambda>(r, x) i. (if bit a i then r XOR x else r, xtime x)) (0, b) [0..<8])"

definition ginv :: "byte \<Rightarrow> byte" where
  "ginv b = foldl (\<lambda>r _. gmul r b) 1 [0..<254]"

definition sbox :: "byte \<Rightarrow> byte" where
  "sbox b = (let i = ginv b
     in i XOR word_rotl 1 i XOR word_rotl 2 i XOR word_rotl 3 i XOR word_rotl 4 i XOR 0x63)"

definition sboxTable :: bytes where
  "sboxTable = map (\<lambda>i. sbox (word_of_nat i)) [0..<256]"

definition subByte :: "byte \<Rightarrow> byte" where
  "subByte b = sboxTable ! unat b"

definition invSubByte :: "byte \<Rightarrow> byte" where
  "invSubByte b = word_of_nat (length (takeWhile (\<lambda>x. x \<noteq> b) sboxTable))"

text \<open>The state is sixteen bytes, column after column; a word is four bytes. A block is
  written into sixteen bytes of the destination.\<close>

definition shiftRows :: "bytes \<Rightarrow> bytes" where
  "shiftRows s = map (\<lambda>i. s ! ((5 * i) mod 16)) [0..<16]"

definition invShiftRows :: "bytes \<Rightarrow> bytes" where
  "invShiftRows s = map (\<lambda>i. s ! ((13 * i) mod 16)) [0..<16]"

definition mixWith :: "byte list \<Rightarrow> bytes \<Rightarrow> bytes" where
  "mixWith m s = map (\<lambda>i. let c = 4 * (i div 4); r = i mod 4
     in foldl (XOR) 0 (map (\<lambda>j. gmul (m ! ((j + 4 - r) mod 4)) (s ! (c + j))) [0..<4])) [0..<16]"

definition xorInto :: "bytes \<Rightarrow> bytes \<Rightarrow> bytes" where
  "xorInto a b = map2 (XOR) a b"

definition aesRounds :: "nat \<Rightarrow> nat" where
  "aesRounds n = n div 4 + 6"

fun expandFrom :: "nat \<Rightarrow> nat \<Rightarrow> byte \<Rightarrow> bytes list \<Rightarrow> bytes list" where
  "expandFrom nk 0 rc w = w"
| "expandFrom nk (Suc n) rc w = (let i = length w; t = w ! (i - 1);
     t1 = (if i mod nk = 0 then xorInto (map subByte (rotate1 t)) [rc, 0, 0, 0]
           else if 6 < nk \<and> i mod nk = 4 then map subByte t else t)
     in expandFrom nk n (if i mod nk = 0 then xtime rc else rc) (w @ [xorInto (w ! (i - nk)) t1]))"

definition roundKeys :: "bytes \<Rightarrow> bytes list" where
  "roundKeys key = (let nk = length key div 4; nr = aesRounds (length key);
     w = expandFrom nk (4 * (nr + 1) - nk) 1 (map (\<lambda>i. subslice (4 * i) (4 * i + 4) key) [0..<nk])
     in map (\<lambda>r. concat (take 4 (drop (4 * r) w))) [0..<nr + 1])"

definition aesEncrypt :: "bytes \<Rightarrow> bytes \<Rightarrow> bytes" where
  "aesEncrypt key b = (let rk = roundKeys key; nr = aesRounds (length key);
     s = foldl (\<lambda>s r. xorInto (mixWith [2, 3, 1, 1] (shiftRows (map subByte s))) (rk ! r)) (xorInto b (rk ! 0)) [1..<nr]
     in goCopy 0 (xorInto (shiftRows (map subByte s)) (rk ! nr)) (zeros 16))"

definition aesDecrypt :: "bytes \<Rightarrow> bytes \<Rightarrow> bytes" where
  "aesDecrypt key b = (let rk = roundKeys key; nr = aesRounds (length key);
     s = foldl (\<lambda>s r. mixWith [14, 11, 13, 9] (xorInto (map invSubByte (invShiftRows s)) (rk ! r))) (xorInto b (rk ! nr)) (rev [1..<nr])
     in goCopy 0 (xorInto (map invSubByte (invShiftRows s)) (rk ! 0)) (zeros 16))"

section \<open>The modes\<close>

definition cipherScratch :: nat where "cipherScratch = 2 * opensshAESBlock"

text \<open>The counter, last byte first.\<close>

fun incRev :: "bytes \<Rightarrow> bytes" where
  "incRev [] = []"
| "incRev (b # bs) = (if b + 1 \<noteq> 0 then (b + 1) # bs else 0 # incRev bs)"

definition incCounter :: "bytes \<Rightarrow> bytes" where
  "incCounter c = rev (incRev (rev c))"

text \<open>The loop works at offset \<open>off\<close> of both slices; \<open>src\<close> is what is left to read, so that the
  two may be one slice.\<close>

function ctrLoop :: "(bytes \<Rightarrow> bytes) \<Rightarrow> bytes \<Rightarrow> nat \<Rightarrow> bytes \<Rightarrow> bytes \<Rightarrow> (bytes \<times> bytes) option" where
  "ctrLoop enc ctr off dst src =
     (if src = [] then Some (dst, ctr)
      else (let ks = goCopy 0 (enc ctr) (zeros opensshAESBlock); n = min (length src) (length ks) in
        if length dst < off + n then None
        else ctrLoop enc (incCounter ctr) (off + n) (patch off (map2 (XOR) (take n src) (take n ks)) dst) (drop n src)))"
  by pat_completeness auto
termination
  by (relation "measure (\<lambda>(_, _, _, _, src). length src)") (auto simp: Let_def opensshAESBlock_def)

declare ctrLoop.simps [simp del]

definition ctrXOR :: "(bytes \<Rightarrow> bytes) \<Rightarrow> bytes \<Rightarrow> bytes \<Rightarrow> bytes \<Rightarrow> bytes \<Rightarrow> (bytes \<times> bytes) option" where
  "ctrXOR enc iv dst src scratch =
     (if length scratch < cipherScratch then None
      else do {
        (d, _) \<leftarrow> ctrLoop enc (goCopy 0 iv (take opensshAESBlock scratch)) 0 dst src;
        Some (d, patch 0 (zeros cipherScratch) scratch)
      })"

text \<open>In chaining mode the slices are distinct.\<close>

function cbcLoop :: "(bytes \<Rightarrow> bytes) \<Rightarrow> bytes \<Rightarrow> nat \<Rightarrow> bytes \<Rightarrow> bytes \<Rightarrow> bytes option" where
  "cbcLoop decr prev off dst src =
     (if src = [] then Some dst
      else if length src < opensshAESBlock \<or> length dst < off + opensshAESBlock then None
      else (let c = take opensshAESBlock src; p = goCopy 0 (decr c) (subslice off (off + opensshAESBlock) dst)
        in cbcLoop decr (goCopy 0 c prev) (off + opensshAESBlock) (patch off (map2 (XOR) p prev) dst) (drop opensshAESBlock src)))"
  by pat_completeness auto
termination
  by (relation "measure (\<lambda>(_, _, _, _, src). length src)") (auto simp: Let_def opensshAESBlock_def)

declare cbcLoop.simps [simp del]

definition cbcDecrypt :: "(bytes \<Rightarrow> bytes) \<Rightarrow> bytes \<Rightarrow> bytes \<Rightarrow> bytes \<Rightarrow> bytes \<Rightarrow> (bytes \<times> bytes) option" where
  "cbcDecrypt decr iv dst src scratch =
     (if length src mod opensshAESBlock \<noteq> 0 \<or> length dst < length src then None
      else if length scratch < cipherScratch then None
      else do {
        d \<leftarrow> cbcLoop decr (goCopy 0 iv (take opensshAESBlock scratch)) 0 dst src;
        Some (d, patch 0 (zeros cipherScratch) scratch)
      })"

section \<open>The modes of SP 800-38A\<close>

text \<open>A message under a key stream of blocks of \<open>B\<close> bytes: byte \<open>j\<close> meets byte
  \<open>j mod B\<close> of block \<open>j div B\<close>. In counter mode the blocks are the encryptions of the
  counter plus the number of the block, modulo \<open>2 ^ 128\<close>.\<close>

definition underStream :: "(nat \<Rightarrow> bytes) \<Rightarrow> nat \<Rightarrow> bytes \<Rightarrow> bytes" where
  "underStream f B m = map (\<lambda>j. m ! j XOR f (j div B) ! (j mod B)) [0..<length m]"

definition CTR :: "(bytes \<Rightarrow> bytes) \<Rightarrow> bytes \<Rightarrow> bytes \<Rightarrow> bytes" where
  "CTR enc iv = underStream (\<lambda>i. enc (beBytes 16 (beNat iv + i))) 16"

fun CBCdecrypt :: "(bytes \<Rightarrow> bytes) \<Rightarrow> bytes \<Rightarrow> bytes list \<Rightarrow> bytes" where
  "CBCdecrypt decr iv [] = []"
| "CBCdecrypt decr iv (c # cs) = map2 (XOR) (decr c) iv @ CBCdecrypt decr c cs"

lemma length_underStream [simp]: "length (underStream f B m) = length m"
  by (simp add: underStream_def)

lemma underStream_twice: "underStream f B (underStream f B m) = m"
  by (rule nth_equalityI) (simp_all add: underStream_def xor.assoc)

lemma underStream_split:
  assumes "length (f 0) = B" "0 < B"
  shows "underStream f B m = map2 (XOR) (take (min (length m) B) m) (take (min (length m) B) (f 0)) @
    underStream (\<lambda>i. f (Suc i)) B (drop (min (length m) B) m)"
proof (rule nth_equalityI)
  fix j assume j: "j < length (underStream f B m)"
  show "underStream f B m ! j = (map2 (XOR) (take (min (length m) B) m) (take (min (length m) B) (f 0)) @
      underStream (\<lambda>i. f (Suc i)) B (drop (min (length m) B) m)) ! j"
  proof (cases "j < B")
    case True
    then show ?thesis using j assms by (simp add: underStream_def nth_append)
  next
    case False
    then obtain i where i: "j = B + i" using le_Suc_ex [of B j] by auto
    then have "[0..<length m - B] ! i = i" "(B + i) div B = Suc (i div B)" "min (length m) B = B"
      using j assms by (auto simp: less_diff_conv div_add_self1)
    then show ?thesis using j i assms by (simp add: underStream_def nth_append)
  qed
qed (use assms in simp)

lemma incCounter_eq: "incCounter c = beBytes (length c) (beNat c + 1)"
proof (induction c rule: rev_induct)
  case Nil
  then show ?case by (simp add: incCounter_def beBytes_def)
next
  case (snoc b c)
  let ?x = "256 * beNat c + unat b + 1"
  have "unat (b + 1) = (unat b + 1) mod 256" by (simp add: unat_word_ariths)
  moreover have "unat b < 256" using unsigned_less [of b, where 'a = nat] by simp
  ultimately have b: "b + 1 = 0 \<longleftrightarrow> unat b = 255"
    by (auto simp: unat_eq_0 [symmetric] mod_less split: if_splits) presburger
  have w: "(word_of_nat ?x :: byte) = b + 1" by (simp add: word_unat_eq_iff unat_word_ariths unat_of_nat mod_simps) 
  have e: "beBytes (length (c @ [b])) (beNat (c @ [b]) + 1) = beBytes (length c) (?x div 256) @ [b + 1]"
    using w by (simp add: beNat_snoc beBytes_snoc)
  show ?case
  proof (cases "b + 1 = 0")
    case True
    then have "?x div 256 = beNat c + 1" using b by simp
    then show ?thesis using e True snoc by (simp add: incCounter_def)
  next
    case False
    then have "?x div 256 = beNat c" using b \<open>unat b < 256\<close> by simp
    then show ?thesis using e False by (simp add: incCounter_def beBytes_beNat)
  qed
qed

lemma length_CTR [simp]: "length (CTR enc iv m) = length m"
  by (simp add: CTR_def)

lemma patch_join: "off + length (a @ b) \<le> length d \<Longrightarrow> patch (off + length a) b (patch off a d) = patch off (a @ b) d"
  by (simp add: patch_def ac_simps)

lemma CTR_split:
  assumes "length iv = 16" "length (enc iv) = 16"
  shows "CTR enc iv m = map2 (XOR) (take (min (length m) 16) m) (take (min (length m) 16) (enc iv)) @
    CTR enc (beBytes 16 (beNat iv + 1)) (drop (min (length m) 16) m)"
proof -
  have iv: "beBytes 16 (beNat iv) = iv" using beBytes_beNat [of iv] assms(1) by simp
  have "beBytes 16 (beNat (beBytes 16 (beNat iv + 1)) + i) = beBytes 16 (beNat iv + Suc i)" for i
    using beBytes_mod [of 16 "(beNat iv + 1) mod 256 ^ 16 + i"] beBytes_mod [of 16 "beNat iv + 1 + i"]
    by (simp add: beNat_beBytes mod_simps)
  then show ?thesis using underStream_split [of "\<lambda>i. enc (beBytes 16 (beNat iv + i))" 16 m] assms(2) iv by (simp add: CTR_def)
qed

locale block_cipher =
  fixes enc decr :: "bytes \<Rightarrow> bytes"
  assumes length_enc: "length b = 16 \<Longrightarrow> length (enc b) = 16"
    and length_decr: "length b = 16 \<Longrightarrow> length (decr b) = 16"
begin

lemma ctrLoop_CTR:
  assumes "length ctr = 16" "off + length src \<le> length dst"
  shows "\<exists>c. ctrLoop enc ctr off dst src = Some (patch off (CTR enc ctr src) dst, c)"
  using assms
proof (induction "length src" arbitrary: src ctr off dst rule: less_induct)
  case less
  show ?case
  proof (cases "src = []")
    case True
    then show ?thesis by (subst ctrLoop.simps) (simp add: CTR_def underStream_def patch_def)
  next
    case False
    let ?n = "min (length src) 16" and ?c = "beBytes 16 (beNat ctr + 1)"
    let ?a = "map2 (XOR) (take ?n src) (take ?n (enc ctr))"
    have e: "length (enc ctr) = 16" using length_enc [OF less.prems(1)] .
    have a: "length ?a = ?n" using e by simp
    obtain c where "ctrLoop enc ?c (off + ?n) (patch off ?a dst) (drop ?n src) =
        Some (patch (off + ?n) (CTR enc ?c (drop ?n src)) (patch off ?a dst), c)"
      using less.hyps [of "drop ?n src" ?c "off + ?n" "patch off ?a dst"] False less.prems(2) a by auto
    moreover have "ctrLoop enc ctr off dst src = ctrLoop enc ?c (off + ?n) (patch off ?a dst) (drop ?n src)"
    proof -
      have "\<not> length dst < off + ?n" using less.prems(2) by simp
      then show ?thesis using False less.prems(1) e incCounter_eq [of ctr]
        by (subst ctrLoop.simps) (simp add: opensshAESBlock_def Let_def goCopy_whole)
    qed
    moreover have "CTR enc ctr src = ?a @ CTR enc ?c (drop ?n src)"
      using CTR_split [of ctr enc src, OF less.prems(1) e] .
    ultimately show ?thesis using patch_join [of off ?a "CTR enc ?c (drop ?n src)" dst] a less.prems(2) by (auto simp: CTR_def)
  qed
qed

lemma ctrXOR_CTR:
  assumes "length iv = 16" "length src \<le> length dst" "cipherScratch \<le> length scratch"
  shows "ctrXOR enc iv dst src scratch = Some (CTR enc iv src @ drop (length src) dst, zeros cipherScratch @ drop cipherScratch scratch)"
proof -
  have "goCopy 0 iv (take opensshAESBlock scratch) = iv"
    using assms by (simp add: goCopy_whole opensshAESBlock_def cipherScratch_def)
  then show ?thesis using ctrLoop_CTR [of iv 0 src dst] assms by (auto simp: ctrXOR_def patch_def CTR_def)
qed

lemma length_CBCdecrypt:
  "list_all (\<lambda>c. length c = 16) cs \<Longrightarrow> length prev = 16 \<Longrightarrow> length (CBCdecrypt decr prev cs) = 16 * length cs"
  by (induction cs arbitrary: prev) (auto simp: length_decr)

lemma cbcLoop_CBC:
  assumes "length prev = 16" "length src = 16 * length cs" "src = concat cs" "list_all (\<lambda>c. length c = 16) cs" "off + length src \<le> length dst"
  shows "cbcLoop decr prev off dst src = Some (patch off (CBCdecrypt decr prev cs) dst)"
  using assms
proof (induction cs arbitrary: prev src off dst)
  case Nil
  then show ?case by (subst cbcLoop.simps) (simp add: patch_def)
next
  case (Cons c cs)
  let ?p = "map2 (XOR) (decr c) prev"
  have c: "length c = 16" "length (decr c) = 16" "length ?p = 16" using Cons.prems length_decr by auto
  have "cbcLoop decr prev off dst src = cbcLoop decr c (off + 16) (patch off ?p dst) (concat cs)"
    using Cons.prems c by (subst cbcLoop.simps) (auto simp: opensshAESBlock_def Let_def goCopy_whole)
  also have "\<dots> = Some (patch (off + 16) (CBCdecrypt decr c cs) (patch off ?p dst))"
    using Cons.prems c by (intro Cons.IH) auto
  also have "\<dots> = Some (patch off (CBCdecrypt decr prev (c # cs)) dst)"
  proof -
    have "length (CBCdecrypt decr c cs) = 16 * length cs" using length_CBCdecrypt [of cs c] c Cons.prems by simp
    then show ?thesis using patch_join [of off ?p "CBCdecrypt decr c cs" dst] c Cons.prems by simp
  qed
  finally show ?case .
qed

lemma cbcDecrypt_CBC:
  assumes "length iv = 16" "list_all (\<lambda>c. length c = 16) cs" "16 * length cs \<le> length dst" "cipherScratch \<le> length scratch"
  shows "cbcDecrypt decr iv dst (concat cs) scratch =
    Some (CBCdecrypt decr iv cs @ drop (16 * length cs) dst, zeros cipherScratch @ drop cipherScratch scratch)"
proof -
  have l: "length (concat cs) = 16 * length cs" using assms(2) by (induction cs) auto
  have "goCopy 0 iv (take opensshAESBlock scratch) = iv"
    using assms by (simp add: goCopy_whole opensshAESBlock_def cipherScratch_def)
  then show ?thesis
    using cbcLoop_CBC [of iv "concat cs" cs 0 dst] assms l length_CBCdecrypt [OF assms(2,1)]
    by (simp add: cbcDecrypt_def patch_def opensshAESBlock_def)
qed

end

interpretation aes: block_cipher "aesEncrypt key" "aesDecrypt key"
  by unfold_locales (simp_all add: aesEncrypt_def aesDecrypt_def Let_def)

text \<open>
  C0. \<open>ctrXOR\<close> is the counter mode of SP 800-38A, for every key, every initial counter, the one
  that wraps included, and every length; it leaves its scratch zero, and applying it twice gives the
  plaintext back.
\<close>

theorem ctrXOR_correct:
  assumes "length iv = 16" "length src \<le> length dst" "cipherScratch \<le> length scratch"
  shows "ctrXOR (aesEncrypt key) iv dst src scratch =
      Some (CTR (aesEncrypt key) iv src @ drop (length src) dst, zeros cipherScratch @ drop cipherScratch scratch) \<and>
    CTR (aesEncrypt key) iv (CTR (aesEncrypt key) iv src) = src"
  using aes.ctrXOR_CTR [OF assms] underStream_twice by (simp add: CTR_def)

theorem ctrXOR_correct_witness:
  "ctrXOR (aesEncrypt (zeros 32)) (replicate 16 0xff) (zeros 40) (zeros 40) (zeros 32) =
     Some (CTR (aesEncrypt (zeros 32)) (replicate 16 0xff) (zeros 40), zeros 32)"
  using ctrXOR_correct [of "replicate 16 0xff" "zeros 40" "zeros 40" "zeros 32" "zeros 32"]
  by (simp add: cipherScratch_def opensshAESBlock_def)

end
