(* ===== verification/Hash_Family.thy ===== *)
theory Hash_Family
  imports Sha2
begin

text \<open>
  The hashes that \<^verbatim>\<open>secmem-crypto/hmac_inplace.go\<close> can compute with one call of the Go
  standard library: SHA-1, the SHA-2 family and the SHA-3 family as executable functions on byte
  strings, and the table \<^verbatim>\<open>inPlaceHash\<close> that selects one of them.
\<close>

unbundle bit_operations_syntax

section \<open>The SHA-2 variants\<close>

definition sha512From :: "64 word list \<Rightarrow> bytes \<Rightarrow> bytes" where
  "sha512From iv b = concat (map (\<lambda>x. beBytes 8 (unat x)) (foldl sha512_block iv (blocks 128 (sha_pad 128 16 b))))"

definition sha256From :: "32 word list \<Rightarrow> bytes \<Rightarrow> bytes" where
  "sha256From iv b = concat (map (\<lambda>x. beBytes 4 (unat x)) (foldl sha256_block iv (blocks 64 (sha_pad 64 8 b))))"

text \<open>The initial values of SHA-384 and SHA-224 come from the roots of the ninth to sixteenth
  primes; those of SHA-512/t from hashing the name with a masked initial value.\<close>

definition sha384_H :: "64 word list" where
  "sha384_H = map (\<lambda>p. word_of_nat (iroot 2 68 (p * 2 ^ 128))) [23, 29, 31, 37, 41, 43, 47, 53]"

definition sha224_H :: "32 word list" where
  "sha224_H = map (\<lambda>x. ucast x) sha384_H"

definition sha512t_H :: "string \<Rightarrow> 64 word list" where
  "sha512t_H name = map (\<lambda>x. word_of_nat (beNat x))
     (blocks 8 (sha512From (map (\<lambda>h. h XOR 0xa5a5a5a5a5a5a5a5) sha512_H) (map of_char name)))"

definition sum384 :: "bytes \<Rightarrow> bytes" where
  "sum384 b = take 48 (sha512From sha384_H b)"

definition sum224 :: "bytes \<Rightarrow> bytes" where
  "sum224 b = take 28 (sha256From sha224_H b)"

definition sum512_224 :: "bytes \<Rightarrow> bytes" where
  "sum512_224 b = take 28 (sha512From (sha512t_H ''SHA-512/224'') b)"

definition sum512_256 :: "bytes \<Rightarrow> bytes" where
  "sum512_256 b = take 32 (sha512From (sha512t_H ''SHA-512/256'') b)"

section \<open>SHA-1\<close>

definition sha1_H :: "32 word list" where
  "sha1_H = [0x67452301, 0xefcdab89, 0x98badcfe, 0x10325476, 0xc3d2e1f0]"

fun sha1_extend :: "nat \<Rightarrow> 32 word list \<Rightarrow> 32 word list" where
  "sha1_extend 0 w = w"
| "sha1_extend (Suc n) w = sha1_extend n (w @
     [let t = length w in word_rotl 1 (w ! (t - 3) XOR w ! (t - 8) XOR w ! (t - 14) XOR w ! (t - 16))])"

definition sha1_f :: "nat \<Rightarrow> 32 word \<Rightarrow> 32 word \<Rightarrow> 32 word \<Rightarrow> 32 word" where
  "sha1_f t b c d = (if t < 20 then (b AND c) OR (NOT b AND d) else if t < 40 then b XOR c XOR d
     else if t < 60 then (b AND c) OR (b AND d) OR (c AND d) else b XOR c XOR d)"

definition sha1_K :: "nat \<Rightarrow> 32 word" where
  "sha1_K t = (if t < 20 then 0x5a827999 else if t < 40 then 0x6ed9eba1 else if t < 60 then 0x8f1bbcdc else 0xca62c1d6)"

fun sha1_round :: "32 word list \<Rightarrow> nat \<times> 32 word \<Rightarrow> 32 word list" where
  "sha1_round [a, b, c, d, e] (t, wt) = [word_rotl 5 a + sha1_f t b c d + e + sha1_K t + wt, a, word_rotl 30 b, c, d]"
| "sha1_round st _ = st"

definition sha1_block :: "32 word list \<Rightarrow> bytes \<Rightarrow> 32 word list" where
  "sha1_block st b = map2 (+) st (foldl sha1_round st
     (zip [0..<80] (sha1_extend 64 (map (\<lambda>x. word_of_nat (beNat x)) (blocks 4 b)))))"

definition sum1 :: "bytes \<Rightarrow> bytes" where
  "sum1 b = concat (map (\<lambda>x. beBytes 4 (unat x)) (foldl sha1_block sha1_H (blocks 64 (sha_pad 64 8 b))))"

section \<open>SHA-3\<close>

text \<open>The state is 25 lanes, lane \<open>(x, y)\<close> at \<open>x + 5 * y\<close>; the round constants and the rotations
  are generated as the standard defines them.\<close>

fun keccakLFSR :: "nat \<Rightarrow> nat \<Rightarrow> bool list" where
  "keccakLFSR 0 r = []"
| "keccakLFSR (Suc n) r = odd r # keccakLFSR n (let r2 = 2 * r in if r2 < 256 then r2 else (r2 - 256) XOR 0x71)"

definition keccakRC :: "nat \<Rightarrow> 64 word" where
  "keccakRC i = foldl (\<lambda>rc j. if keccakLFSR 168 1 ! (j + 7 * i) then set_bit (2 ^ j - 1) rc else rc) 0 [0..<7]"

fun keccakRot :: "nat \<Rightarrow> nat \<Rightarrow> nat \<Rightarrow> nat \<Rightarrow> (nat \<times> nat) list" where
  "keccakRot 0 t x y = []"
| "keccakRot (Suc n) t x y = (x + 5 * y, (t + 1) * (t + 2) div 2) # keccakRot n (t + 1) y ((2 * x + 3 * y) mod 5)"

definition keccakOffsets :: "nat list" where
  "keccakOffsets = foldl (\<lambda>l (i, r). l[i := r mod 64]) (replicate 25 0) (keccakRot 24 0 1 0)"

definition keccakRound :: "64 word list \<Rightarrow> nat \<Rightarrow> 64 word list" where
  "keccakRound a i =
     (let c = map (\<lambda>x. a ! x XOR a ! (x + 5) XOR a ! (x + 10) XOR a ! (x + 15) XOR a ! (x + 20)) [0..<5];
          d = map (\<lambda>x. c ! ((x + 4) mod 5) XOR word_rotl 1 (c ! ((x + 1) mod 5))) [0..<5];
          t = map (\<lambda>k. a ! k XOR d ! (k mod 5)) [0..<25];
          b = foldl (\<lambda>b k. let x = k mod 5; y = k div 5
                in b[y + 5 * ((2 * x + 3 * y) mod 5) := word_rotl (keccakOffsets ! k) (t ! k)]) (replicate 25 0) [0..<25];
          s = map (\<lambda>k. let x = k mod 5; y = 5 * (k div 5)
                in b ! k XOR (NOT (b ! ((x + 1) mod 5 + y)) AND b ! ((x + 2) mod 5 + y))) [0..<25]
      in s[0 := s ! 0 XOR keccakRC i])"

definition keccakF :: "64 word list \<Rightarrow> 64 word list" where
  "keccakF a = foldl keccakRound a [0..<24]"

definition sha3_pad :: "nat \<Rightarrow> bytes \<Rightarrow> bytes" where
  "sha3_pad rate b = (let n = rate - length b mod rate
     in b @ (if n = 1 then [0x86] else [0x06] @ zeros (n - 2) @ [0x80]))"

definition sha3_absorb :: "64 word list \<Rightarrow> bytes \<Rightarrow> 64 word list" where
  "sha3_absorb a b = (let l = map (\<lambda>x. word_of_nat (beNat (rev x))) (blocks 8 b)
     in keccakF (map2 (XOR) a (l @ replicate (25 - length l) 0)))"

definition sha3 :: "nat \<Rightarrow> bytes \<Rightarrow> bytes" where
  "sha3 n b = (let rate = 200 - 2 * n
     in take n (concat (map (\<lambda>x. rev (beBytes 8 (unat x))) (foldl sha3_absorb (replicate 25 0) (blocks rate (sha3_pad rate b))))))"

section \<open>The table\<close>

datatype inPlaceHash = hashNone | hashSHA224 | hashSHA256 | hashSHA384 | hashSHA512 | hashSHA512_224 | hashSHA512_256
  | hashSHA3_224 | hashSHA3_256 | hashSHA3_384 | hashSHA3_512 | hashSHA1

definition maxHashSize :: nat where "maxHashSize = 64"
definition hmacStackRegion :: nat where "hmacStackRegion = 1536"

definition hashSize :: "inPlaceHash \<Rightarrow> nat" where
  "hashSize h = (case h of hashSHA1 \<Rightarrow> 20 | hashSHA224 \<Rightarrow> 28 | hashSHA512_224 \<Rightarrow> 28 | hashSHA3_224 \<Rightarrow> 28
     | hashSHA256 \<Rightarrow> 32 | hashSHA512_256 \<Rightarrow> 32 | hashSHA3_256 \<Rightarrow> 32 | hashSHA384 \<Rightarrow> 48 | hashSHA3_384 \<Rightarrow> 48
     | hashSHA512 \<Rightarrow> 64 | hashSHA3_512 \<Rightarrow> 64 | hashNone \<Rightarrow> 0)"

definition hashBlock :: "inPlaceHash \<Rightarrow> nat" where
  "hashBlock h = (case h of hashSHA1 \<Rightarrow> 64 | hashSHA224 \<Rightarrow> 64 | hashSHA256 \<Rightarrow> 64
     | hashSHA384 \<Rightarrow> 128 | hashSHA512 \<Rightarrow> 128 | hashSHA512_224 \<Rightarrow> 128 | hashSHA512_256 \<Rightarrow> 128
     | hashSHA3_224 \<Rightarrow> 144 | hashSHA3_256 \<Rightarrow> 136 | hashSHA3_384 \<Rightarrow> 104 | hashSHA3_512 \<Rightarrow> 72 | hashNone \<Rightarrow> 0)"

text \<open>The hash a one-shot computes; \<open>hashSum\<close> is \<^verbatim>\<open>sum\<close>, which panics on no hash.\<close>

definition oneShot :: "inPlaceHash \<Rightarrow> bytes \<Rightarrow> bytes" where
  "oneShot h = (case h of hashSHA1 \<Rightarrow> sum1 | hashSHA224 \<Rightarrow> sum224 | hashSHA256 \<Rightarrow> sum256 | hashSHA384 \<Rightarrow> sum384
     | hashSHA512 \<Rightarrow> sum512 | hashSHA512_224 \<Rightarrow> sum512_224 | hashSHA512_256 \<Rightarrow> sum512_256
     | hashSHA3_224 \<Rightarrow> sha3 28 | hashSHA3_256 \<Rightarrow> sha3 32 | hashSHA3_384 \<Rightarrow> sha3 48 | hashSHA3_512 \<Rightarrow> sha3 64
     | hashNone \<Rightarrow> \<lambda>_. [])"

definition hashSum :: "inPlaceHash \<Rightarrow> bytes \<Rightarrow> bytes option" where
  "hashSum h d = (if h = hashNone then None else Some (oneShot h d))"

section \<open>Lengths\<close>

lemma length_blocks: "0 < n \<Longrightarrow> length b = n * k \<Longrightarrow> length (blocks n b) = k"
proof (induction k arbitrary: b)
  case 0 then show ?case by (subst blocks.simps) simp
next
  case (Suc k)
  then have "b \<noteq> []" "length (drop n b) = n * k" by auto
  then show ?case using Suc.IH [of "drop n b"] Suc.prems(1) by (subst blocks.simps) simp
qed

lemma length_sha512From: "length (sha512From iv b) = 8 * length iv"
  by (simp add: sha512From_def length_concat_beBytes length_blocks512)

lemma length_sha256From: "length (sha256From iv b) = 4 * length iv"
  by (simp add: sha256From_def length_concat_beBytes length_blocks256)

lemma length_initial: "length sha384_H = 8" "length sha224_H = 8" "length (sha512t_H name) = 8"
  by (simp_all add: sha224_H_def sha384_H_def sha512t_H_def length_blocks [of 8 _ 8] length_sha512From sha512_H_def)

lemma length_sha1_round: "length (sha1_round st p) = length st"
  by (cases "(st, p)" rule: sha1_round.cases) auto

lemma length_sha1_rounds: "length (foldl sha1_round st ps) = length st"
  by (induction ps arbitrary: st) (simp_all add: length_sha1_round)

lemma length_sha1_blocks: "length (foldl sha1_block st bs) = length st"
  by (induction bs arbitrary: st) (simp_all add: sha1_block_def length_sha1_rounds)

lemma length_keccakRound: "length (keccakRound a i) = 25"
  by (simp add: keccakRound_def Let_def)

lemma length_keccakF: "length (keccakF a) = 25"
proof -
  have "length (foldl keccakRound a ks) = 25" if "ks \<noteq> []" for ks
    using that by (cases ks rule: rev_cases) (simp_all add: length_keccakRound)
  from this [of "[0..<24]"] show ?thesis by (simp add: keccakF_def)
qed

lemma length_sha3: "n \<le> 64 \<Longrightarrow> length (sha3 n b) = n"
proof -
  assume "n \<le> 64"
  have "length (foldl sha3_absorb a bs) = 25" if "length a = 25" for a bs
    using that by (induction bs arbitrary: a) (simp_all add: sha3_absorb_def length_keccakF Let_def)
  moreover have "length (concat (map (\<lambda>x. rev (beBytes 8 (unat x))) xs)) = 8 * length xs" for xs :: "64 word list" by (induction xs) auto
  ultimately show ?thesis using \<open>n \<le> 64\<close> by (simp add: sha3_def Let_def)
qed

lemma length_oneShot: "h \<noteq> hashNone \<Longrightarrow> length (oneShot h d) = hashSize h"
  by (cases h) (simp_all add: oneShot_def hashSize_def sum1_def sum224_def sum384_def sum512_224_def sum512_256_def
      length_concat_beBytes length_sha1_blocks sha1_H_def length_sha512From length_sha256From length_initial length_sha3)

lemma hash_bounds: "h \<noteq> hashNone \<Longrightarrow> 0 < hashSize h \<and> hashSize h \<le> maxHashSize \<and> hashSize h \<le> hashBlock h"
  by (cases h) (simp_all add: hashSize_def hashBlock_def maxHashSize_def)

end
