(* ===== verification/Hmac_InPlace.thy ===== *)
theory Hmac_InPlace
  imports Hash_Family Key_Vault
begin

text \<open>
  HMAC, HKDF and PBKDF2 in place, from \<^verbatim>\<open>secmem-crypto/hmac_inplace.go\<close> and
  \<^verbatim>\<open>pbkdf2_inplace.go\<close>. The working region is a list of bytes and each routine returns it as
  it leaves it; slices of one region that the code keeps apart are separate lists. A panic is the
  value \<open>None\<close>.
\<close>

unbundle bit_operations_syntax

section \<open>HMAC\<close>

definition hmacScratchSize :: "inPlaceHash \<Rightarrow> nat \<Rightarrow> nat" where
  "hmacScratchSize h msgLen = hashBlock h + max msgLen (hashSize h)"

fun copyParts :: "nat \<Rightarrow> bytes list \<Rightarrow> bytes \<Rightarrow> nat \<times> bytes" where
  "copyParts n [] scratch = (n, scratch)"
| "copyParts n (p # ps) scratch = copyParts (n + goCopyLen n p scratch) ps (goCopy n p scratch)"

text \<open>\<open>keyPad\<close> clears the pad, copies the key and adds the constant.\<close>

definition keyPad :: "byte \<Rightarrow> nat \<Rightarrow> bytes \<Rightarrow> bytes \<Rightarrow> bytes" where
  "keyPad x block key scratch = patch 0 (xorBytes x (goCopy 0 key (zeros block))) scratch"

definition hmacInPlace :: "inPlaceHash \<Rightarrow> bytes \<Rightarrow> bytes \<Rightarrow> bytes \<Rightarrow> bytes list \<Rightarrow> (bytes \<times> bytes) option" where
  "hmacInPlace h dst scratch key parts = (let size = hashSize h; block = hashBlock h; total = sum_list (map length parts) in
     if length scratch < hmacScratchSize h total then None
     else do {
       key1 \<leftarrow> (if block < length key then do { s \<leftarrow> hashSum h key; Some (take size (goCopy 0 s (zeros maxHashSize))) } else Some key);
       (let (n, s1) = copyParts block parts scratch; s2 = keyPad 0x36 block key1 s1 in do {
         i \<leftarrow> hashSum h (take n s2);
         (let innerSum = goCopy 0 i (zeros maxHashSize);
              s3 = keyPad 0x5c block key1 s2;
              s4 = goCopy block (take size innerSum) s3
          in if length dst < size then None
             else do {
               out \<leftarrow> hashSum h (take (block + size) s4);
               Some (goCopy 0 out dst, patch 0 (zeros (max n (block + size))) s4)
             })
       })
     })"

section \<open>HKDF\<close>

text \<open>The loop over the output blocks. \<open>prev\<close> is the previous block, which is empty before the
  first; the counter is a byte.\<close>

function hkdfLoop :: "inPlaceHash \<Rightarrow> bytes \<Rightarrow> nat \<Rightarrow> byte \<Rightarrow> bytes \<Rightarrow> bytes \<Rightarrow> bytes \<Rightarrow> bytes \<Rightarrow> bytes \<Rightarrow> (bytes \<times> bytes \<times> bytes) option" where
  "hkdfLoop h dst off ctr prk t prev scratch info =
     (if off < length dst then do {
        (t1, s1) \<leftarrow> hmacInPlace h t scratch prk [prev, info, [ctr + 1]];
        hkdfLoop h (goCopy off t1 dst) (off + hashSize h) (ctr + 1) prk t1 t1 s1 info
      } else Some (dst, t, scratch))"
  by pat_completeness auto
termination
proof (relation "measure (\<lambda>(h, dst, off, _). length dst - off)")
  fix h off and ctr :: byte and dst prk t prev scratch info :: bytes and x t1 s1
  assume "off < length dst" and h: "hmacInPlace h t scratch prk [prev, info, [ctr + 1]] = Some x" "(t1, s1) = x"
  then have "h \<noteq> hashNone" by (auto simp: hmacInPlace_def hashSum_def Let_def bind_eq_Some_conv split: if_splits prod.splits)
  then show "((h, goCopy off t1 dst, off + hashSize h, ctr + 1, prk, t1, t1, s1, info), h, dst, off, ctr, prk, t, prev, scratch, info)
    \<in> measure (\<lambda>(h, dst, off, _). length dst - off)"
    using hash_bounds [of h] \<open>off < length dst\<close> by simp linarith
qed simp

declare hkdfLoop.simps [simp del]

definition hkdfCompute :: "inPlaceHash \<Rightarrow> bytes \<Rightarrow> bytes \<Rightarrow> bytes \<Rightarrow> bytes \<Rightarrow> bytes \<Rightarrow> (bytes \<times> bytes) option" where
  "hkdfCompute h dst region secret salt info = (let size = hashSize h in
     if length region < 2 * maxHashSize then None
     else do {
       (prk, s1) \<leftarrow> hmacInPlace h (take size region) (drop (2 * maxHashSize) region) salt [secret];
       (dst1, _, _) \<leftarrow> hkdfLoop h dst 0 0 prk (subslice maxHashSize (maxHashSize + size) region) [] s1 info;
       Some (dst1, zeros (length region))
     })"

text \<open>The region that \<open>hkdfInPlace\<close> allocates.\<close>

definition hkdfRegionSize :: "inPlaceHash \<Rightarrow> nat \<Rightarrow> nat \<Rightarrow> nat" where
  "hkdfRegionSize h secretLen infoLen = 2 * maxHashSize + hashBlock h + max secretLen (hashSize h + infoLen + 1)"

section \<open>PBKDF2\<close>

definition pbkdf2RegionSize :: "inPlaceHash \<Rightarrow> nat \<Rightarrow> nat" where
  "pbkdf2RegionSize h saltLen = (let block = hashBlock h
     in 3 * maxHashSize + 2 * (block + maxHashSize) + block + max (saltLen + 4) (hashSize h))"

text \<open>The inner loop: \<open>inMsg\<close> and \<open>outMsg\<close> carry the padded keys in front.\<close>

fun pbkdf2Inner :: "inPlaceHash \<Rightarrow> nat \<Rightarrow> bytes \<Rightarrow> bytes \<Rightarrow> bytes \<Rightarrow> bytes \<Rightarrow> (bytes \<times> bytes \<times> bytes \<times> bytes) option" where
  "pbkdf2Inner h 0 inMsg outMsg t u = Some (inMsg, outMsg, t, u)"
| "pbkdf2Inner h (Suc n) inMsg outMsg t u = (let i1 = goCopy (hashBlock h) u inMsg in do {
     a \<leftarrow> hashSum h i1;
     (let o1 = goCopy (hashBlock h) a outMsg in do {
       b \<leftarrow> hashSum h o1;
       (let u1 = goCopy 0 b u in pbkdf2Inner h n i1 o1 (map2 (XOR) t u1) u1)
     })
   })"

partial_function (option) pbkdf2Loop :: "inPlaceHash \<Rightarrow> bytes \<Rightarrow> nat \<Rightarrow> 32 word \<Rightarrow> bytes \<Rightarrow> bytes \<Rightarrow> nat \<Rightarrow> bytes \<Rightarrow> bytes \<Rightarrow> bytes \<Rightarrow> bytes \<Rightarrow> bytes \<Rightarrow> bytes option" where
  "pbkdf2Loop h dst off i password salt iter t u inMsg outMsg scratch =
     (if off < length dst then do {
        (u1, s1) \<leftarrow> hmacInPlace h u scratch password [salt, beBytes 4 (unat i)];
        (i2, o2, t2, u2) \<leftarrow> pbkdf2Inner h (iter - 1) inMsg outMsg (goCopy 0 u1 t) u1;
        pbkdf2Loop h (goCopy off t2 dst) (off + goCopyLen off t2 dst) (i + 1) password salt iter t2 u2 i2 o2 s1
      } else Some dst)"

declare pbkdf2Loop.simps [code]

text \<open>The pads are laid over what the region holds there; \<open>pbkdf2Compute\<close> wipes the region.\<close>

definition layPad :: "byte \<Rightarrow> nat \<Rightarrow> bytes \<Rightarrow> bytes \<Rightarrow> bytes" where
  "layPad x block password msg = (let pad = goCopy 0 password (take block msg) in patch 0 (xorBytes x pad) msg)"

definition pbkdf2Run :: "inPlaceHash \<Rightarrow> bytes \<Rightarrow> bytes \<Rightarrow> bytes \<Rightarrow> bytes \<Rightarrow> nat \<Rightarrow> bytes option" where
  "pbkdf2Run h dst region password salt iter = (let size = hashSize h; block = hashBlock h;
       inStart = 3 * maxHashSize; outStart = inStart + block + maxHashSize;
       t = take size region; u = subslice maxHashSize (maxHashSize + size) region;
       inMsg = subslice inStart (inStart + block + size) region;
       outMsg = subslice outStart (outStart + block + size) region;
       scratch = drop (outStart + block + maxHashSize) region in
     if length region < outStart + block + maxHashSize then None
     else do {
       password1 \<leftarrow> (if block < length password
         then do { s \<leftarrow> hashSum h password; Some (goCopy 0 s (subslice (2 * maxHashSize) (2 * maxHashSize + size) region)) }
         else Some password);
       pbkdf2Loop h dst 0 1 password1 salt iter t u (layPad 0x36 block password1 inMsg) (layPad 0x5c block password1 outMsg) scratch
     })"

definition pbkdf2Compute :: "inPlaceHash \<Rightarrow> bytes \<Rightarrow> bytes \<Rightarrow> bytes \<Rightarrow> bytes \<Rightarrow> nat \<Rightarrow> (bytes \<times> bytes) option" where
  "pbkdf2Compute h dst region password salt iter =
     map_option (\<lambda>d. (d, zeros (length region))) (pbkdf2Run h dst region password salt iter)"

section \<open>HMAC in place is HMAC\<close>

lemma sum_list_length: "sum_list (map length ps) = length (concat ps)"
  by (simp add: length_concat)

lemma copyParts_eq:
  "n + length (concat ps) \<le> length s \<Longrightarrow>
   copyParts n ps s = (n + length (concat ps), take n s @ concat ps @ drop (n + length (concat ps)) s)"
proof (induction ps arbitrary: n s)
  case (Cons p ps)
  then have p: "goCopy n p s = take n s @ p @ drop (n + length p) s" "goCopyLen n p s = length p"
    by (auto simp: goCopy_def goCopyLen_def)
  have "n + length p + length (concat ps) \<le> length (goCopy n p s)" using Cons.prems by simp
  from Cons.IH [OF this] show ?case using Cons.prems by (simp add: p ac_simps)
qed simp

lemma hmacKey_goCopy: "length K \<le> B \<Longrightarrow> goCopy 0 K (zeros B) = hmacKey H B K"
  by (simp add: goCopy_def hmacKey_def)

lemma hashedKey:
  assumes "h \<noteq> hashNone"
  shows "take (hashSize h) (goCopy 0 (oneShot h m) (zeros maxHashSize)) = oneShot h m"
  using length_oneShot [OF assms, of m] hash_bounds [OF assms] by (simp add: goCopy_def)

lemma length_hmacKey: "h \<noteq> hashNone \<Longrightarrow> length (hmacKey (oneShot h) (hashBlock h) K) = hashBlock h"
  using length_oneShot [of h K] hash_bounds [of h] by (auto simp: hmacKey_def Let_def)

lemma hmacKey_hashed:
  assumes "h \<noteq> hashNone" "hashBlock h < length K"
  shows "hmacKey (oneShot h) (hashBlock h) (oneShot h K) = hmacKey (oneShot h) (hashBlock h) K"
  using assms length_oneShot [of h K] hash_bounds [of h] by (simp add: hmacKey_def Let_def)

lemma hmacInPlace_eq:
  "hmacInPlace h dst scratch key parts =
     (if h = hashNone \<or> length scratch < hmacScratchSize h (length (concat parts)) \<or> length dst < hashSize h then None
      else Some (HMAC (oneShot h) (hashBlock h) key (concat parts) @ drop (hashSize h) dst,
        zeros (hmacScratchSize h (length (concat parts))) @ drop (hmacScratchSize h (length (concat parts))) scratch))"
proof (cases "h = hashNone \<or> length scratch < hmacScratchSize h (length (concat parts)) \<or> length dst < hashSize h")
  case True
  then show ?thesis by (auto simp: hmacInPlace_def hashSum_def sum_list_length Let_def bind_eq_None_conv split: prod.split)
next
  case False
  let ?B = "hashBlock h" and ?m = "concat parts" and ?K = "hmacKey (oneShot h) (hashBlock h) key" and ?S = "hashSize h"
  let ?r = "drop (?B + length ?m) scratch"
  have h: "h \<noteq> hashNone" and s: "?B + length ?m \<le> length scratch" "?B + ?S \<le> length scratch" "?S \<le> length dst"
    using False by (auto simp: hmacScratchSize_def)
  define key1 where "key1 = (if ?B < length key then oneShot h key else key)"
  have k: "goCopy 0 key1 (zeros ?B) = ?K"
    using hash_bounds [OF h] length_oneShot [OF h, of key] hmacKey_hashed [OF h, of key] hmacKey_goCopy [of key1 ?B "oneShot h"]
    by (auto simp: key1_def)
  have pad: "keyPad x ?B key1 (p @ q) = xorBytes x ?K @ q" if "length p = ?B" for x p q
    using that length_hmacKey [OF h, of key] by (simp add: keyPad_def k patch_def)
  have c: "copyParts ?B parts scratch = (?B + length ?m, take ?B scratch @ ?m @ ?r)" using copyParts_eq [OF s(1)] .
  have s2: "keyPad 0x36 ?B key1 (take ?B scratch @ ?m @ ?r) = xorBytes 0x36 ?K @ ?m @ ?r" using pad s by simp
  have s3: "keyPad 0x5c ?B key1 (xorBytes 0x36 ?K @ ?m @ ?r) = xorBytes 0x5c ?K @ ?m @ ?r" using pad length_hmacKey [OF h, of key] by simp
  define i where "i = oneShot h (xorBytes 0x36 ?K @ ?m)"
  have i: "length i = ?S" using length_oneShot [OF h] by (simp add: i_def)
  define z where "z = xorBytes 0x5c ?K @ i @ drop ?S (?m @ ?r)"
  have s4: "goCopy ?B i (xorBytes 0x5c ?K @ ?m @ ?r) = z"
    using i s length_hmacKey [OF h, of key] by (simp add: goCopy_def z_def)
  have t4: "take (?B + ?S) z = xorBytes 0x5c ?K @ i"
    using i length_hmacKey [OF h, of key] by (simp add: z_def)
  have o: "length (oneShot h x) = ?S" for x using length_oneShot [OF h] .
  let ?n = "max (?B + length ?m) (?B + ?S)"
  have p: "patch 0 (zeros ?n) z = zeros ?n @ drop ?n scratch"
    using i s length_hmacKey [OF h, of key] by (auto simp: z_def patch_def max_def add.commute)
  have n: "?n = hmacScratchSize h (length ?m)" by (simp add: hmacScratchSize_def)
  have k1: "(if ?B < length key then do { s \<leftarrow> hashSum h key; Some (take ?S (goCopy 0 s (zeros maxHashSize))) } else Some key) = Some key1"
    using hashedKey [OF h] h by (simp add: key1_def hashSum_def)
  have t2: "take (?B + length ?m) (xorBytes 0x36 ?K @ ?m @ ?r) = xorBytes 0x36 ?K @ ?m"
    using length_hmacKey [OF h, of key] by simp
  have i2: "take ?S (goCopy 0 i (zeros maxHashSize)) = i" using hashedKey [OF h] by (simp add: i_def)
  have d: "goCopy 0 (oneShot h x) dst = oneShot h x @ drop ?S dst" for x using o [of x] s(3) by (simp add: goCopy_def)
  have H: "HMAC (oneShot h) ?B key ?m = oneShot h (xorBytes 0x5c ?K @ i)" by (simp add: HMAC_def i_def)
  show ?thesis unfolding hmacInPlace_def Let_def sum_list_length k1
    using False h s(3) by (simp only: c s2 t2 hashSum_def i_def [symmetric] i2 s3 s4 t4 d H prod.case bind.bind_lunit if_False) (simp add: p [unfolded n] n)
qed

lemma hmacInPlace_fits:
  assumes "h \<noteq> hashNone" "hmacScratchSize h (length (concat parts)) \<le> length scratch" "length dst = hashSize h"
  obtains s1 where "hmacInPlace h dst scratch key parts = Some (HMAC (oneShot h) (hashBlock h) key (concat parts), s1)" "length s1 = length scratch"
  using assms by (simp add: hmacInPlace_eq)

lemma length_HMAC: "h \<noteq> hashNone \<Longrightarrow> length (HMAC (oneShot h) B K m) = hashSize h"
  by (simp add: HMAC_def length_oneShot)

text \<open>
  C0. \<open>hmacInPlace\<close> is HMAC of RFC 2104 over the concatenated parts, for each of the eleven
  hashes and every key length. It panics exactly on no hash, on a destination too short for the
  digest and on a scratch region smaller than \<open>hmacScratchSize\<close>, and what it used of the
  scratch is zero when it returns.
\<close>

theorem hmacInPlace_HMAC:
  "hmacInPlace h dst scratch key parts =
     (if h = hashNone \<or> length scratch < hmacScratchSize h (length (concat parts)) \<or> length dst < hashSize h then None
      else Some (HMAC (oneShot h) (hashBlock h) key (concat parts) @ drop (hashSize h) dst,
        zeros (hmacScratchSize h (length (concat parts))) @ drop (hmacScratchSize h (length (concat parts))) scratch))"
  by (rule hmacInPlace_eq)

section \<open>HKDF in place is HKDF\<close>

text \<open>RFC 5869: extract, then the blocks \<open>T(1), T(2), \<dots>\<close>, the counter a byte.\<close>

fun hkdfT :: "inPlaceHash \<Rightarrow> bytes \<Rightarrow> bytes \<Rightarrow> bytes \<Rightarrow> byte \<Rightarrow> nat \<Rightarrow> bytes" where
  "hkdfT h prk info prev c 0 = []"
| "hkdfT h prk info prev c (Suc n) = (let t = HMAC (oneShot h) (hashBlock h) prk (prev @ info @ [c]) in t @ hkdfT h prk info t (c + 1) n)"

definition HKDF :: "inPlaceHash \<Rightarrow> bytes \<Rightarrow> bytes \<Rightarrow> bytes \<Rightarrow> nat \<Rightarrow> bytes" where
  "HKDF h secret salt info n =
     take n (hkdfT h (HMAC (oneShot h) (hashBlock h) salt secret) info [] 1 n)"

lemma length_hkdfT: "h \<noteq> hashNone \<Longrightarrow> length (hkdfT h prk info prev c n) = hashSize h * n"
  by (induction n arbitrary: prev c) (simp_all add: length_HMAC Let_def)

lemma hkdfT_prefix: "h \<noteq> hashNone \<Longrightarrow> k \<le> hashSize h * n \<Longrightarrow> n \<le> m \<Longrightarrow> take k (hkdfT h prk info prev c m) = take k (hkdfT h prk info prev c n)"
proof (induction n arbitrary: prev c k m)
  case (Suc n)
  then obtain m' where m: "m = Suc m'" "n \<le> m'" by (cases m) auto
  have "k - hashSize h \<le> hashSize h * n" using Suc.prems(2) by simp
  then show ?case using Suc.IH [OF Suc.prems(1) _ m(2)] m(1) Suc.prems(1) by (simp add: Let_def length_HMAC)
qed simp

lemma hkdfLoop_eq:
  assumes h: "h \<noteq> hashNone" and s: "hmacScratchSize h (hashSize h + length info + 1) \<le> length scratch"
    and "length t = hashSize h" "length prev \<le> hashSize h" "off \<le> length dst" "n = length dst - off"
  shows "\<exists>t' s'. hkdfLoop h dst off c prk t prev scratch info =
    Some (take off dst @ take n (hkdfT h prk info prev (c + 1) n), t', s')"
  using assms(2-)
proof (induction n arbitrary: dst off c t prev scratch rule: less_induct)
  case (less n)
  show ?case
  proof (cases "n = 0")
    case True
    then show ?thesis using less.prems by (subst hkdfLoop.simps) simp
  next
    case False
    let ?S = "hashSize h" and ?m = "prev @ info @ [c + 1]"
    let ?t = "HMAC (oneShot h) (hashBlock h) prk ?m"
    have S: "0 < ?S" using hash_bounds [OF h] by simp
    have "hmacScratchSize h (length (concat [prev, info, [c + 1]])) \<le> length scratch"
      using less.prems(1,3) by (auto simp: hmacScratchSize_def)
    from hmacInPlace_fits [OF h this less.prems(2), of prk]
    obtain s1 where s1: "hmacInPlace h t scratch prk [prev, info, [c + 1]] = Some (?t, s1)" "length s1 = length scratch" by auto
    let ?d = "goCopy off ?t dst"
    have t: "length ?t = ?S" using length_HMAC [OF h] .
    have d: "length ?d = length dst" "take off ?d = take off dst" using less.prems(4) by (auto simp: take_goCopy)
    show ?thesis
    proof (cases "?S \<le> n")
      case True
      obtain t' s' where IH: "hkdfLoop h ?d (off + ?S) (c + 1) prk ?t ?t s1 info =
          Some (take (off + ?S) ?d @ take (n - ?S) (hkdfT h prk info ?t (c + 1 + 1) (n - ?S)), t', s')"
        using less.IH [of "n - ?S" s1 ?t ?t "off + ?S" ?d "c + 1"] S False True less.prems d s1(2) t by fastforce
      have "take (off + ?S) ?d = take off dst @ ?t" using less.prems(4,5) True t by (simp add: goCopy_def)
      moreover obtain n' where n': "n = Suc n'" using False by (cases n) auto
      have "take (n - ?S) (hkdfT h prk info ?t (c + 1 + 1) n') = take (n - ?S) (hkdfT h prk info ?t (c + 1 + 1) (n - ?S))"
        using hkdfT_prefix [OF h, of "n - ?S" "n - ?S" n'] S n' by simp
      ultimately have "take off dst @ take n (hkdfT h prk info prev (c + 1) n) =
          take (off + ?S) ?d @ take (n - ?S) (hkdfT h prk info ?t (c + 1 + 1) (n - ?S))"
        using True n' t by (simp add: Let_def)
      with IH show ?thesis using s1(1) False less.prems(5) by (subst hkdfLoop.simps) simp
    next
      case F: False
      have "hkdfLoop h ?d (off + ?S) (c + 1) prk ?t ?t s1 info = Some (?d, ?t, s1)" using d F less.prems(5) by (subst hkdfLoop.simps) auto
      moreover have "?d = take off dst @ take n ?t" using F less.prems t by (simp add: goCopy_def)
      moreover have "take n (hkdfT h prk info prev (c + 1) n) = take n ?t" using F False t by (cases n) (simp_all add: Let_def)
      ultimately show ?thesis using s1(1) False less.prems(5) by (subst hkdfLoop.simps) simp
    qed
  qed
qed

text \<open>\<open>hkdfCompute\<close> is HKDF, and leaves its region zero.\<close>

lemma hkdfCompute_eq:
  assumes "h \<noteq> hashNone" "hkdfRegionSize h (length secret) (length info) \<le> length region"
  shows "hkdfCompute h dst region secret salt info = Some (HKDF h secret salt info (length dst), zeros (length region))"
proof -
  let ?S = "hashSize h" and ?prk = "HMAC (oneShot h) (hashBlock h) salt secret" and ?s = "drop (2 * maxHashSize) region"
  have S: "?S \<le> maxHashSize" using hash_bounds [OF assms(1)] by simp
  have r: "2 * maxHashSize + hmacScratchSize h (length secret) \<le> length region"
     "2 * maxHashSize + hmacScratchSize h (?S + length info + 1) \<le> length region"
    using assms(2) by (auto simp: hkdfRegionSize_def hmacScratchSize_def max_def split: if_splits)
  have "hmacScratchSize h (length (concat [secret])) \<le> length ?s" "length (take ?S region) = ?S" using r(1) S by auto
  then obtain s1 where s1: "hmacInPlace h (take ?S region) ?s salt [secret] = Some (?prk, s1)" "length s1 = length ?s"
    using hmacInPlace_fits [OF assms(1)] by (metis concat.simps append_Nil2)
  have l: "hmacScratchSize h (?S + length info + 1) \<le> length s1" using r(2) s1(2) by simp
  obtain t' s' where "hkdfLoop h dst 0 0 ?prk (subslice maxHashSize (maxHashSize + ?S) region) [] s1 info =
      Some (take (length dst) (hkdfT h ?prk info [] 1 (length dst)), t', s')"
    using hkdfLoop_eq [OF assms(1) l, of "subslice maxHashSize (maxHashSize + ?S) region" "[]" 0 dst "length dst" 0 ?prk] r(2) S
    by auto
  then show ?thesis using s1 r(1) by (simp add: hkdfCompute_def HKDF_def Let_def)
qed


section \<open>PBKDF2 in place is PBKDF2\<close>

text \<open>RFC 8018: block \<open>i\<close> is the exclusive or of \<open>c\<close> iterates of HMAC; the derived key is a prefix
  of the blocks.\<close>

definition pbkdf2U :: "inPlaceHash \<Rightarrow> bytes \<Rightarrow> bytes \<Rightarrow> nat \<Rightarrow> nat \<Rightarrow> bytes" where
  "pbkdf2U h P S i j = (HMAC (oneShot h) (hashBlock h) P ^^ j) (HMAC (oneShot h) (hashBlock h) P (S @ beBytes 4 i))"

definition pbkdf2T :: "inPlaceHash \<Rightarrow> bytes \<Rightarrow> bytes \<Rightarrow> nat \<Rightarrow> nat \<Rightarrow> bytes" where
  "pbkdf2T h P S c i = foldl (map2 (XOR)) (pbkdf2U h P S i 0) (map (pbkdf2U h P S i) [1..<c])"

definition PBKDF2 :: "inPlaceHash \<Rightarrow> bytes \<Rightarrow> bytes \<Rightarrow> nat \<Rightarrow> nat \<Rightarrow> bytes" where
  "PBKDF2 h P S c n = take n (concat (map (\<lambda>k. pbkdf2T h P S c (unat (word_of_nat (Suc k) :: 32 word))) [0..<n]))"

lemma length_foldl_xor: "length t = n \<Longrightarrow> list_all (\<lambda>x. length x = n) xs \<Longrightarrow> length (foldl (map2 (XOR)) t xs) = (n :: nat)"
  for t :: bytes by (induction xs arbitrary: t) auto

lemma length_iterate_HMAC: "h \<noteq> hashNone \<Longrightarrow> length u = hashSize h \<Longrightarrow> length ((HMAC (oneShot h) B P ^^ j) u) = hashSize h"
  by (cases j) (simp_all add: length_HMAC)

lemma length_pbkdf2T: "h \<noteq> hashNone \<Longrightarrow> length (pbkdf2T h P S c i) = hashSize h"
  unfolding pbkdf2T_def
  by (rule length_foldl_xor) (simp_all add: pbkdf2U_def length_HMAC length_iterate_HMAC list_all_iff)

lemma upt_Suc_shift: "[1..<Suc (Suc n)] = 1 # map Suc [1..<Suc n]"
  by (simp add: map_Suc_upt upt_conv_Cons del: upt_Suc)

lemma pbkdf2Inner_eq:
  assumes h: "h \<noteq> hashNone" and "length x = hashSize h" "length y = hashSize h" "length u = hashSize h"
  shows "\<exists>x' y'. length x' = hashSize h \<and> length y' = hashSize h \<and>
    pbkdf2Inner h n (xorBytes 0x36 (hmacKey (oneShot h) (hashBlock h) P) @ x) (xorBytes 0x5c (hmacKey (oneShot h) (hashBlock h) P) @ y) t u =
      Some (xorBytes 0x36 (hmacKey (oneShot h) (hashBlock h) P) @ x', xorBytes 0x5c (hmacKey (oneShot h) (hashBlock h) P) @ y',
        foldl (map2 (XOR)) t (map (\<lambda>j. (HMAC (oneShot h) (hashBlock h) P ^^ j) u) [1..<Suc n]), (HMAC (oneShot h) (hashBlock h) P ^^ n) u)"
  using assms(2-)
proof (induction n arbitrary: x y t u)
  case (Suc n)
  let ?K = "hmacKey (oneShot h) (hashBlock h) P" and ?F = "HMAC (oneShot h) (hashBlock h) P"
  have K: "length ?K = hashBlock h" using length_hmacKey [OF h] .
  let ?a = "oneShot h (xorBytes 0x36 ?K @ u)"
  have i1: "goCopy (hashBlock h) u (xorBytes 0x36 ?K @ x) = xorBytes 0x36 ?K @ u"
    using K Suc.prems by (simp add: goCopy_def)
  have o1: "goCopy (hashBlock h) ?a (xorBytes 0x5c ?K @ y) = xorBytes 0x5c ?K @ ?a"
    using K Suc.prems length_oneShot [OF h] by (simp add: goCopy_def)
  have b: "oneShot h (xorBytes 0x5c ?K @ ?a) = ?F u" by (simp add: HMAC_def)
  have u1: "goCopy 0 (?F u) u = ?F u" using Suc.prems(3) length_HMAC [OF h] by (simp add: goCopy_whole)
  obtain x' y' where IH: "length x' = hashSize h" "length y' = hashSize h"
     "pbkdf2Inner h n (xorBytes 0x36 ?K @ u) (xorBytes 0x5c ?K @ ?a) (map2 (XOR) t (?F u)) (?F u) =
      Some (xorBytes 0x36 ?K @ x', xorBytes 0x5c ?K @ y',
        foldl (map2 (XOR)) (map2 (XOR) t (?F u)) (map (\<lambda>j. (?F ^^ j) (?F u)) [1..<Suc n]), (?F ^^ n) (?F u))"
    using Suc.IH [of u ?a "?F u" "map2 (XOR) t (?F u)", OF Suc.prems(3) length_oneShot [OF h] length_HMAC [OF h]] by blast
  have "pbkdf2Inner h (Suc n) (xorBytes 0x36 ?K @ x) (xorBytes 0x5c ?K @ y) t u =
      Some (xorBytes 0x36 ?K @ x', xorBytes 0x5c ?K @ y',
        foldl (map2 (XOR)) t (map (\<lambda>j. (?F ^^ j) u) [1..<Suc (Suc n)]), (?F ^^ Suc n) u)"
    using IH(3) h unfolding upt_Suc_shift by (simp add: i1 o1 b u1 hashSum_def Let_def funpow_swap1 comp_def del: upt_Suc)
  with IH(1,2) show ?case by blast
qed simp

lemma pbkdf2Block:
  assumes h: "h \<noteq> hashNone" and "length x = hashSize h" "length y = hashSize h" "length u = hashSize h" "length t = hashSize h"
    "hmacScratchSize h (length S + 4) \<le> length scratch"
  shows "\<exists>x' y' u' s'. length x' = hashSize h \<and> length y' = hashSize h \<and> length u' = hashSize h \<and> length s' = length scratch \<and>
    do { (u1, s1) \<leftarrow> hmacInPlace h u scratch P [S, beBytes 4 i];
         (i2, o2, t2, u2) \<leftarrow> pbkdf2Inner h (c - 1) (xorBytes 0x36 (hmacKey (oneShot h) (hashBlock h) P) @ x)
           (xorBytes 0x5c (hmacKey (oneShot h) (hashBlock h) P) @ y) (goCopy 0 u1 t) u1;
         k s1 i2 o2 t2 u2 } =
    k s' (xorBytes 0x36 (hmacKey (oneShot h) (hashBlock h) P) @ x') (xorBytes 0x5c (hmacKey (oneShot h) (hashBlock h) P) @ y') (pbkdf2T h P S c i) u'"
proof -
  let ?u = "pbkdf2U h P S i 0"
  have u: "length ?u = hashSize h" using length_HMAC [OF h] by (simp add: pbkdf2U_def)
  have "hmacScratchSize h (length (concat [S, beBytes 4 i])) \<le> length scratch" using assms(6) by simp
  from hmacInPlace_fits [OF h this assms(4), of P]
  obtain s' where s': "hmacInPlace h u scratch P [S, beBytes 4 i] = Some (?u, s')" "length s' = length scratch"
    by (auto simp: pbkdf2U_def)
  have t: "goCopy 0 ?u t = ?u" using u assms(5) by (simp add: goCopy_whole)
  have U: "(\<lambda>j. (HMAC (oneShot h) (hashBlock h) P ^^ j) ?u) = pbkdf2U h P S i" by (simp add: pbkdf2U_def fun_eq_iff)
  have upt: "[1..<Suc (c - 1)] = [1..<c]" by (cases c) simp_all
  obtain x' y' where n: "length x' = hashSize h" "length y' = hashSize h"
    "pbkdf2Inner h (c - 1) (xorBytes 0x36 (hmacKey (oneShot h) (hashBlock h) P) @ x) (xorBytes 0x5c (hmacKey (oneShot h) (hashBlock h) P) @ y) ?u ?u =
      Some (xorBytes 0x36 (hmacKey (oneShot h) (hashBlock h) P) @ x', xorBytes 0x5c (hmacKey (oneShot h) (hashBlock h) P) @ y',
        pbkdf2T h P S c i, (HMAC (oneShot h) (hashBlock h) P ^^ (c - 1)) ?u)"
    using pbkdf2Inner_eq [OF h assms(2,3) u, of "c - 1" P ?u] unfolding upt U pbkdf2T_def by blast
  show ?thesis
    by (rule exI [of _ x'], rule exI [of _ y'], rule exI [of _ "(HMAC (oneShot h) (hashBlock h) P ^^ (c - 1)) ?u"], rule exI [of _ s'])
      (simp only: n s' t length_iterate_HMAC [OF h u] bind.bind_lunit prod.case simp_thms)
qed

lemma take_concat_blocks:
  assumes "0 < S" "\<And>k. length (f k) = S" "n \<le> m"
  shows "take n (concat (map f [0..<m])) = take n (concat (map f [0..<n]))"
proof -
  have l: "length (concat (map f [0..<k])) = S * k" for k using assms(2) by (induction k) simp_all
  have "[0..<m] = [0..<n] @ [n..<m]" using assms(3) by (metis le0 upt_add_eq_append le_add_diff_inverse)
  moreover have "n \<le> S * n" using assms(1) by simp
  ultimately show ?thesis using l [of n] by simp
qed

lemma pbkdf2Loop_eq:
  assumes h: "h \<noteq> hashNone" and "length x = hashSize h" "length y = hashSize h" "length u = hashSize h" "length t = hashSize h"
    "hmacScratchSize h (length S + 4) \<le> length scratch" "off \<le> length dst" "n = length dst - off"
  shows "pbkdf2Loop h dst off i P S c t u (xorBytes 0x36 (hmacKey (oneShot h) (hashBlock h) P) @ x)
      (xorBytes 0x5c (hmacKey (oneShot h) (hashBlock h) P) @ y) scratch =
    Some (take off dst @ take n (concat (map (\<lambda>k. pbkdf2T h P S c (unat (i + word_of_nat k))) [0..<n])))"
  using assms(2-)
proof (induction n arbitrary: dst off i t u x y scratch rule: less_induct)
  case (less n)
  show ?case
  proof (cases "n = 0")
    case True
    then show ?thesis using less.prems by (subst pbkdf2Loop.simps) simp
  next
    case False
    let ?S = "hashSize h" and ?T = "\<lambda>i. pbkdf2T h P S c (unat i)" and ?K = "hmacKey (oneShot h) (hashBlock h) P"
    have S: "0 < ?S" using hash_bounds [OF h] by simp
    have T: "length (pbkdf2T h P S c k) = ?S" for k using length_pbkdf2T [OF h] .
    let ?d = "goCopy off (?T i) dst" and ?l = "goCopyLen off (?T i) dst"
    have unf: "pbkdf2Loop h dst off i P S c t u (xorBytes 0x36 ?K @ x) (xorBytes 0x5c ?K @ y) scratch =
        do { (u1, s1) \<leftarrow> hmacInPlace h u scratch P [S, beBytes 4 (unat i)];
          (i2, o2, t2, u2) \<leftarrow> pbkdf2Inner h (c - 1) (xorBytes 0x36 ?K @ x) (xorBytes 0x5c ?K @ y) (goCopy 0 u1 t) u1;
          pbkdf2Loop h (goCopy off t2 dst) (off + goCopyLen off t2 dst) (i + 1) P S c t2 u2 i2 o2 s1 }"
      using False less.prems(7) by (subst pbkdf2Loop.simps) simp
    obtain x' y' u' s' where l: "length x' = ?S" "length y' = ?S" "length u' = ?S" "length s' = length scratch"
      and step: "pbkdf2Loop h dst off i P S c t u (xorBytes 0x36 ?K @ x) (xorBytes 0x5c ?K @ y) scratch =
        pbkdf2Loop h ?d (off + ?l) (i + 1) P S c (?T i) u' (xorBytes 0x36 ?K @ x') (xorBytes 0x5c ?K @ y') s'"
      using pbkdf2Block [OF h less.prems(1-5), of P "unat i" c "\<lambda>s1 i2 o2 t2 u2. pbkdf2Loop h (goCopy off t2 dst) (off + goCopyLen off t2 dst)
          (i + 1) P S c t2 u2 i2 o2 s1"] unfolding unf by blast
    have ln: "?l = min ?S n" "length ?d = length dst" using less.prems(6,7) T by (simp_all add: goCopyLen_def)
    have "pbkdf2Loop h ?d (off + ?l) (i + 1) P S c (?T i) u' (xorBytes 0x36 ?K @ x') (xorBytes 0x5c ?K @ y') s' =
        Some (take (off + ?l) ?d @ take (n - ?l) (concat (map (\<lambda>k. ?T (i + 1 + word_of_nat k)) [0..<n - ?l])))"
      using less.IH [of "n - ?l" x' y' u' "?T i" s' "off + ?l" ?d "i + 1"] l T S False ln less.prems(5-7) by simp
    moreover have "take (off + ?l) ?d = take off dst @ take n (?T i)" using less.prems(6,7) ln T S by (auto simp: goCopy_def min_def)
    moreover have "take n (concat (map (\<lambda>k. ?T (i + word_of_nat k)) [0..<n])) =
        take n (?T i) @ take (n - ?l) (concat (map (\<lambda>k. ?T (i + 1 + word_of_nat k)) [0..<n - ?l]))"
    proof -
      obtain n' where n': "n = Suc n'" using False by (cases n) auto
      have "map (\<lambda>k. ?T (i + word_of_nat k)) [0..<n] = ?T i # map (\<lambda>k. ?T (i + 1 + word_of_nat k)) [0..<n']"
        by (simp add: n' map_upt_Suc ac_simps del: upt_Suc)
      moreover have "n - ?S = n - ?l" using ln by simp
      moreover have "take (n - ?l) (concat (map (\<lambda>k. ?T (i + 1 + word_of_nat k)) [0..<n'])) =
          take (n - ?l) (concat (map (\<lambda>k. ?T (i + 1 + word_of_nat k)) [0..<n - ?l]))"
        by (rule take_concat_blocks [of ?S]) (use S T ln n' in auto)
      ultimately show ?thesis using T by simp
    qed
    ultimately show ?thesis using step by simp
  qed
qed

lemma HMAC_hashed:
  assumes "h \<noteq> hashNone" "hashBlock h < length P"
  shows "HMAC (oneShot h) (hashBlock h) (oneShot h P) = HMAC (oneShot h) (hashBlock h) P"
  using hmacKey_hashed [OF assms] by (simp add: HMAC_def fun_eq_iff)

lemma layPad_zeros:
  assumes "h \<noteq> hashNone" "length P \<le> hashBlock h"
  shows "layPad x (hashBlock h) P (zeros (hashBlock h + hashSize h)) = xorBytes x (hmacKey (oneShot h) (hashBlock h) P) @ zeros (hashSize h)"
  using assms hmacKey_goCopy [OF assms(2), of "oneShot h"] length_hmacKey [OF assms(1), of P]
  by (simp add: layPad_def patch_def Let_def)

lemma pbkdf2Compute_eq:
  assumes "h \<noteq> hashNone" "pbkdf2RegionSize h (length salt) \<le> n"
  shows "pbkdf2Compute h dst (zeros n) password salt iter = Some (PBKDF2 h password salt iter (length dst), zeros n)"
proof -
  let ?S = "hashSize h" and ?B = "hashBlock h" and ?M = maxHashSize
  have b: "?S \<le> ?M" "?S \<le> ?B" using hash_bounds [OF assms(1)] by auto
  have n: "3 * ?M + 2 * (?B + ?M) + hmacScratchSize h (length salt + 4) \<le> n"
    using assms(2) by (simp add: pbkdf2RegionSize_def hmacScratchSize_def Let_def)
  define P where "P = (if ?B < length password then oneShot h password else password)"
  have P: "length P \<le> ?B" "HMAC (oneShot h) ?B P = HMAC (oneShot h) ?B password"
    using b length_oneShot [OF assms(1)] HMAC_hashed [OF assms(1), of password] by (auto simp: P_def)
  have dk: "PBKDF2 h P salt iter m = PBKDF2 h password salt iter m" for m
    using P(2) by (simp add: PBKDF2_def pbkdf2T_def pbkdf2U_def [abs_def])
  have sub: "subslice lo (lo + k) (zeros n) = zeros k" if "lo + k \<le> n" for lo k using that by (simp add: subslice_def )
  have "pbkdf2Loop h dst 0 1 P salt iter (zeros ?S) (zeros ?S) (layPad 0x36 ?B P (zeros (?B + ?S))) (layPad 0x5c ?B P (zeros (?B + ?S)))
      (zeros (n - (3 * ?M + ?B + ?M + ?B + ?M))) = Some (PBKDF2 h P salt iter (length dst))"
    unfolding layPad_zeros [OF assms(1) P(1)]
    using pbkdf2Loop_eq [OF assms(1), of "zeros ?S" "zeros ?S" "zeros ?S" "zeros ?S" salt _ 0 dst "length dst" 1 P iter] n
    by (simp add: PBKDF2_def)
  moreover have "?B < length password \<Longrightarrow> goCopy 0 (oneShot h password) (zeros ?S) = P" "\<not> ?B < length password \<Longrightarrow> password = P"
    using length_oneShot [OF assms(1)] by (simp_all add: P_def goCopy_whole)
  ultimately show ?thesis
    using assms(1) n b sub [of ?M ?S] sub [of "2 * ?M" ?S] sub [of "3 * ?M" "?B + ?S"] sub [of "3 * ?M + ?B + ?M" "?B + ?S"] dk
    by (cases "?B < length password") (simp_all add: pbkdf2Compute_def pbkdf2Run_def hashSum_def Let_def ac_simps)
qed

text \<open>
  C0. On a zero region of the size that \<open>pbkdf2RegionSize\<close> gives, \<open>pbkdf2Compute\<close> is PBKDF2
  of RFC 8018: for each of the hashes, every password and salt, every output length and iteration
  count. Laying the padded keys down once, each in front of its message, computes the same iterates.
\<close>

theorem pbkdf2Compute_PBKDF2:
  assumes "h \<noteq> hashNone" "pbkdf2RegionSize h (length salt) \<le> n"
  shows "pbkdf2Compute h dst (zeros n) password salt iter = Some (PBKDF2 h password salt iter (length dst), zeros n)"
  using assms by (rule pbkdf2Compute_eq)

theorem pbkdf2Compute_PBKDF2_witness:
  "pbkdf2Compute hashSHA1 (zeros 40) (zeros 700) [1] [2, 3] 4096 = Some (PBKDF2 hashSHA1 [1] [2, 3] 4096 40, zeros 700)"
  using pbkdf2Compute_PBKDF2 [of hashSHA1 "[2, 3]" 700 "zeros 40" "[1]" 4096]
  by (simp add: pbkdf2RegionSize_def hashBlock_def hashSize_def maxHashSize_def)

end
