(* ===== verification/Scrypt_Mix.thy ===== *)
theory Scrypt_Mix
  imports Hmac_InPlace
begin

text \<open>
  Scrypt in place: the mixing step of \<^verbatim>\<open>secmem-crypto/internal/scrypt/scrypt.go\<close> over its
  working memory of 32-bit words, and the derivation of \<^verbatim>\<open>scrypt_inplace.go\<close> around it. Two
  slices of the working memory that the code keeps apart are separate lists. The guards of \<open>Mix\<close>
  put every index of the steps below it in range.
\<close>

unbundle bit_operations_syntax

type_synonym words32 = "32 word list"

section \<open>The mixing step\<close>

definition salsaStep :: "words32 \<Rightarrow> nat \<times> nat \<times> nat \<times> nat \<Rightarrow> words32" where
  "salsaStep x q = (case q of (a, b, c, k) \<Rightarrow> x[a := x ! a XOR word_rotl k (x ! b + x ! c)])"

definition salsaSteps :: "(nat \<times> nat \<times> nat \<times> nat) list" where
  "salsaSteps =
     [(4, 0, 12, 7), (8, 4, 0, 9), (12, 8, 4, 13), (0, 12, 8, 18),
      (9, 5, 1, 7), (13, 9, 5, 9), (1, 13, 9, 13), (5, 1, 13, 18),
      (14, 10, 6, 7), (2, 14, 10, 9), (6, 2, 14, 13), (10, 6, 2, 18),
      (3, 15, 11, 7), (7, 3, 15, 9), (11, 7, 3, 13), (15, 11, 7, 18),
      (1, 0, 3, 7), (2, 1, 0, 9), (3, 2, 1, 13), (0, 3, 2, 18),
      (6, 5, 4, 7), (7, 6, 5, 9), (4, 7, 6, 13), (5, 4, 7, 18),
      (11, 10, 9, 7), (8, 11, 10, 9), (9, 8, 11, 13), (10, 9, 8, 18),
      (12, 15, 14, 7), (13, 12, 15, 9), (14, 13, 12, 13), (15, 14, 13, 18)]"

text \<open>Both the output block and the chaining block become the result.\<close>

definition salsaXOR :: "words32 \<Rightarrow> words32 \<Rightarrow> words32" where
  "salsaXOR tmp inp = (let w = map2 (XOR) (take 16 tmp) (take 16 inp)
     in map2 (+) (((\<lambda>x. foldl salsaStep x salsaSteps) ^^ 4) w) w)"

definition blockMixStep :: "nat \<Rightarrow> words32 \<Rightarrow> words32 \<times> words32 \<Rightarrow> nat \<Rightarrow> words32 \<times> words32" where
  "blockMixStep r inp st k = (case st of (tmp, out) \<Rightarrow>
     let i = 2 * k;
         t1 = salsaXOR tmp (drop (i * 16) inp); o1 = patch (i * 8) t1 out;
         t2 = salsaXOR t1 (drop (i * 16 + 16) inp); o2 = patch (i * 8 + r * 16) t2 o1
     in (t2, o2))"

definition blockMix :: "words32 \<Rightarrow> words32 \<Rightarrow> words32 \<Rightarrow> nat \<Rightarrow> words32 \<times> words32" where
  "blockMix tmp inp out r = foldl (blockMixStep r inp) (patch 0 (take 16 (drop ((2 * r - 1) * 16) inp)) tmp, out) [0..<r]"

definition integer :: "words32 \<Rightarrow> nat \<Rightarrow> 64 word" where
  "integer b r = (let j = (2 * r - 1) * 16 in ucast (b ! j) OR push_bit 32 (ucast (b ! (j + 1))))"

definition blockXOR :: "words32 \<Rightarrow> words32 \<Rightarrow> nat \<Rightarrow> words32" where
  "blockXOR dst src n = patch 0 (map2 (XOR) (take n dst) (take n src)) dst"

text \<open>The working memory: the array \<open>v\<close>, the blocks \<open>x\<close> and \<open>y\<close>, and the chaining block.\<close>

type_synonym mixMem = "words32 \<times> words32 \<times> words32 \<times> words32"

definition fillStep :: "nat \<Rightarrow> mixMem \<Rightarrow> nat \<Rightarrow> mixMem" where
  "fillStep r m k = (case m of (v, x, y, tmp) \<Rightarrow> let rr = 32 * r; i = 2 * k;
     v1 = patch (i * rr) (take rr x) v; (tmp1, y1) = blockMix tmp x y r;
     v2 = patch ((i + 1) * rr) (take rr y1) v1; (tmp2, x1) = blockMix tmp1 y1 x r
     in (v2, x1, y1, tmp2))"

definition mixStep :: "nat \<Rightarrow> nat \<Rightarrow> mixMem \<Rightarrow> nat \<Rightarrow> mixMem" where
  "mixStep r n m k = (case m of (v, x, y, tmp) \<Rightarrow> let rr = 32 * r;
     j = unat (integer x r AND word_of_nat (n - 1));
     x1 = blockXOR x (drop (j * rr) v) rr; (tmp1, y1) = blockMix tmp x1 y r;
     j1 = unat (integer y1 r AND word_of_nat (n - 1));
     y2 = blockXOR y1 (drop (j1 * rr) v) rr; (tmp2, x2) = blockMix tmp1 y2 x1 r
     in (v, x2, y2, tmp2))"

definition leWord :: "bytes \<Rightarrow> 32 word" where
  "leWord b = word_of_nat (beNat (rev b))"

definition leBytes :: "32 word \<Rightarrow> bytes" where
  "leBytes w = rev (beBytes 4 (unat w))"

definition smix :: "bytes \<Rightarrow> nat \<Rightarrow> nat \<Rightarrow> mixMem \<Rightarrow> bytes \<times> mixMem" where
  "smix b r n m = (case m of (v, x, y, tmp) \<Rightarrow>
     let x0 = patch 0 (map (\<lambda>i. leWord (subslice (4 * i) (4 * i + 4) b)) [0..<32 * r]) x;
         m1 = foldl (fillStep r) (v, x0, y, tmp) [0..<n div 2];
         m2 = foldl (mixStep r n) m1 [0..<n div 2]
     in (patch 0 (concat (map leBytes (take (32 * r) (fst (snd m2))))) b, m2))"

definition BlockSize :: "nat \<Rightarrow> nat" where "BlockSize r = 128 * r"
definition WorkSize :: "nat \<Rightarrow> nat \<Rightarrow> nat" where "WorkSize n r = 128 * r * n + 256 * r + 64"

definition isPow2 :: "nat \<Rightarrow> bool" where
  "isPow2 n \<longleftrightarrow> n AND (n - 1) = 0"

definition mixBlock :: "nat \<Rightarrow> nat \<Rightarrow> bytes \<times> mixMem \<Rightarrow> nat \<Rightarrow> bytes \<times> mixMem" where
  "mixBlock n r st k = (case st of (b, m) \<Rightarrow> case smix (drop (k * BlockSize r) b) r n m of (c, m1) \<Rightarrow> (patch (k * BlockSize r) c b, m1))"

text \<open>The words of the working region, by the layout of \<open>Mix\<close>.\<close>

definition mixMemory :: "nat \<Rightarrow> nat \<Rightarrow> bytes \<Rightarrow> mixMem" where
  "mixMemory n r work = (let w = map (\<lambda>i. leWord (subslice (4 * i) (4 * i + 4) work)) [0..<WorkSize n r div 4]; v = 32 * n * r
     in (take v w, take (32 * r) (drop v w), take (32 * r) (drop (v + 32 * r) w), take 16 (drop (v + 64 * r) w)))"

definition Mix :: "bytes \<Rightarrow> nat \<Rightarrow> nat \<Rightarrow> bytes \<Rightarrow> bytes option" where
  "Mix b n r work =
     (if n \<le> 1 \<or> \<not> isPow2 n then None
      else if r = 0 then None
      else if length b = 0 \<or> length b mod BlockSize r \<noteq> 0 then None
      else if length work < WorkSize n r then None
      else Some (fst (foldl (mixBlock n r) (b, mixMemory n r work) [0..<length b div BlockSize r])))"

section \<open>The derivation\<close>

definition scryptRegionSize :: "nat \<Rightarrow> nat \<Rightarrow> nat \<Rightarrow> nat \<Rightarrow> nat" where
  "scryptRegionSize saltLen n r p = (let b = p * BlockSize r in WorkSize n r + b + pbkdf2RegionSize hashSHA256 (max saltLen b))"

definition scryptCompute :: "bytes \<Rightarrow> bytes \<Rightarrow> bytes \<Rightarrow> bytes \<Rightarrow> nat \<Rightarrow> nat \<Rightarrow> nat \<Rightarrow> (bytes \<times> bytes) option" where
  "scryptCompute dst region password salt n r p =
     (let workLen = WorkSize n r; bLen = p * BlockSize r; kdf = drop (workLen + bLen) region;
          s1 = pbkdf2RegionSize hashSHA256 (length salt); s2 = pbkdf2RegionSize hashSHA256 bLen in
      if length region < workLen + bLen + max s1 s2 then None
      else do {
        (b, k1) \<leftarrow> pbkdf2Compute hashSHA256 (subslice workLen (workLen + bLen) region) (take s1 kdf) password salt 1;
        b1 \<leftarrow> Mix b n r (take workLen region);
        (let kdf1 = patch 0 k1 kdf in do {
          (d, k2) \<leftarrow> pbkdf2Compute hashSHA256 dst (take s2 kdf1) password b1 1;
          Some (d, zeros (workLen + bLen) @ patch 0 k2 kdf1)
        })
      })"

section \<open>The functions of RFC 7914\<close>

text \<open>\<open>X\<close> after \<open>k\<close> steps of scryptBlockMix; the output takes the steps with an even number first.\<close>

primrec mixChain :: "nat \<Rightarrow> words32 \<Rightarrow> nat \<Rightarrow> words32" where
  "mixChain r b 0 = take 16 (drop ((2 * r - 1) * 16) b)"
| "mixChain r b (Suc k) = salsaXOR (mixChain r b k) (drop (16 * k) b)"

definition scryptBlockMix :: "nat \<Rightarrow> words32 \<Rightarrow> words32" where
  "scryptBlockMix r b = concat (map (\<lambda>i. mixChain r b (2 * i + 1)) [0..<r]) @ concat (map (\<lambda>i. mixChain r b (2 * i + 2)) [0..<r])"

definition integerify :: "nat \<Rightarrow> words32 \<Rightarrow> nat" where
  "integerify r b = unat (integer b r)"

definition scryptROMix :: "nat \<Rightarrow> nat \<Rightarrow> words32 \<Rightarrow> words32" where
  "scryptROMix r n b =
     ((\<lambda>x. scryptBlockMix r (map2 (XOR) x ((scryptBlockMix r ^^ (integerify r x mod n)) b))) ^^ n) ((scryptBlockMix r ^^ n) b)"

definition blockWords :: "nat \<Rightarrow> bytes \<Rightarrow> words32" where
  "blockWords r b = map (\<lambda>i. leWord (subslice (4 * i) (4 * i + 4) b)) [0..<32 * r]"

definition romixBytes :: "nat \<Rightarrow> nat \<Rightarrow> bytes \<Rightarrow> bytes" where
  "romixBytes r n b = concat (map leBytes (scryptROMix r n (blockWords r b)))"

definition SCRYPT :: "bytes \<Rightarrow> bytes \<Rightarrow> nat \<Rightarrow> nat \<Rightarrow> nat \<Rightarrow> nat \<Rightarrow> bytes" where
  "SCRYPT P S n r p dkLen = (let b = PBKDF2 hashSHA256 P S 1 (p * (128 * r))
     in PBKDF2 hashSHA256 P (concat (map (\<lambda>i. romixBytes r n (take (128 * r) (drop (128 * r * i) b))) [0..<p])) 1 dkLen)"

section \<open>The mixing step is scryptROMix\<close>

lemma length_salsaXOR: "16 \<le> length tmp \<Longrightarrow> 16 \<le> length inp \<Longrightarrow> length (salsaXOR tmp inp) = 16"
proof -
  have f: "length (foldl salsaStep x qs) = length x" for x qs
    by (induction qs arbitrary: x) (auto simp: salsaStep_def split: prod.splits)
  have "length (((\<lambda>x. foldl salsaStep x salsaSteps) ^^ n) x) = length x" for n x by (induction n) (simp_all add: f)
  then show "16 \<le> length tmp \<Longrightarrow> 16 \<le> length inp \<Longrightarrow> length (salsaXOR tmp inp) = 16" by (simp add: salsaXOR_def Let_def)
qed

lemma length_mixChain: "length b = 32 * r \<Longrightarrow> 0 < r \<Longrightarrow> k \<le> 2 * r \<Longrightarrow> length (mixChain r b k) = 16"
  by (induction k) (auto simp: length_salsaXOR)

lemma length_concat_const: "(\<And>x. x \<in> set xs \<Longrightarrow> length (f x) = n) \<Longrightarrow> length (concat (map f xs)) = n * length xs"
  by (induction xs) auto

lemma length_scryptBlockMix: "length b = 32 * r \<Longrightarrow> 0 < r \<Longrightarrow> length (scryptBlockMix r b) = 32 * r"
proof -
  assume b: "length b = 32 * r" "0 < r"
  have "length (concat (map (\<lambda>i. mixChain r b (2 * i + 1)) [0..<r])) = 16 * r" "length (concat (map (\<lambda>i. mixChain r b (2 * i + 2)) [0..<r])) = 16 * r"
    using length_concat_const [of "[0..<r]" "\<lambda>i. mixChain r b (2 * i + 1)" 16] length_concat_const [of "[0..<r]" "\<lambda>i. mixChain r b (2 * i + 2)" 16]
      length_mixChain [OF b] by (simp_all del: mixChain.simps)
  then show ?thesis by (simp add: scryptBlockMix_def)
qed

lemma patch_between:
  "n \<le> lo \<Longrightarrow> lo + length p \<le> length d \<Longrightarrow> drop n (patch lo p d) = patch (lo - n) p (drop n d)"
  "lo + length p \<le> n \<Longrightarrow> lo + length p \<le> length d \<Longrightarrow> drop n (patch lo p d) = drop n d"
  "n \<le> lo \<Longrightarrow> lo \<le> length d \<Longrightarrow> take n (patch lo p d) = take n d"
  "lo + length p \<le> length d \<Longrightarrow> take (lo + length p) (patch lo p d) = take lo d @ p"
  by (auto simp: patch_def drop_take)

lemma blockMix_loop:
  assumes "length inp = 32 * r" "length out = 32 * r" "k \<le> r" "0 < r"
  shows "\<exists>o1. foldl (blockMixStep r inp) (mixChain r inp 0, out) [0..<k] = (mixChain r inp (2 * k), o1) \<and> length o1 = 32 * r \<and>
    take (16 * k) o1 = concat (map (\<lambda>i. mixChain r inp (2 * i + 1)) [0..<k]) \<and>
    take (16 * k) (drop (16 * r) o1) = concat (map (\<lambda>i. mixChain r inp (2 * i + 2)) [0..<k])"
  using assms(3)
proof (induction k)
  case 0
  then show ?case using assms(2) by simp
next
  case (Suc k)
  let ?c = "mixChain r inp"
  obtain o1 where o1: "foldl (blockMixStep r inp) (?c 0, out) [0..<k] = (?c (2 * k), o1)" "length o1 = 32 * r"
    "take (16 * k) o1 = concat (map (\<lambda>i. ?c (2 * i + 1)) [0..<k])"
    "take (16 * k) (drop (16 * r) o1) = concat (map (\<lambda>i. ?c (2 * i + 2)) [0..<k])"
    using Suc by auto
  let ?a = "?c (2 * k + 1)" and ?b = "?c (2 * k + 2)"
  have l: "length ?a = 16" "length ?b = 16" using assms Suc.prems by (simp_all add: length_mixChain del: mixChain.simps)
  define o2 where "o2 = patch (16 * r + 16 * k) ?b (patch (16 * k) ?a o1)"
  have "blockMixStep r inp (?c (2 * k), o1) k = (?b, o2)"
    by (simp add: blockMixStep_def o2_def Let_def ac_simps)
  moreover have "length o2 = 32 * r" using l o1(2) Suc.prems by (simp add: o2_def)
  moreover have "take (16 * Suc k) o2 = take (16 * k) o1 @ ?a"
    using l o1(2) Suc.prems patch_between(4) [of "16 * k" ?a o1] by (simp add: o2_def patch_between(3) add.commute del: mixChain.simps)
  moreover have "take (16 * Suc k) (drop (16 * r) o2) = take (16 * k) (drop (16 * r) o1) @ ?b"
    using l o1(2) Suc.prems patch_between(4) [of "16 * k" ?b "drop (16 * r) o1"]
    by (simp add: o2_def patch_between(1,2) add.commute del: mixChain.simps)
  ultimately show ?case using o1 by simp
qed

lemma blockMix_eq:
  assumes "length inp = 32 * r" "length out = 32 * r" "length tmp = 16" "0 < r"
  shows "blockMix tmp inp out r = (mixChain r inp (2 * r), scryptBlockMix r inp)"
proof -
  have "patch 0 (take 16 (drop ((2 * r - 1) * 16) inp)) tmp = mixChain r inp 0"
    using assms by (simp add: patch_def)
  moreover obtain o1 where o1: "foldl (blockMixStep r inp) (mixChain r inp 0, out) [0..<r] = (mixChain r inp (2 * r), o1)" "length o1 = 32 * r"
    "take (16 * r) o1 = concat (map (\<lambda>i. mixChain r inp (2 * i + 1)) [0..<r])"
    "take (16 * r) (drop (16 * r) o1) = concat (map (\<lambda>i. mixChain r inp (2 * i + 2)) [0..<r])"
    using blockMix_loop [OF assms(1,2) order_refl assms(4)] by auto
  moreover have "o1 = take (16 * r) o1 @ take (16 * r) (drop (16 * r) o1)" using o1(2) by simp
  ultimately show ?thesis by (simp add: blockMix_def scryptBlockMix_def)
qed

lemma isPow2_exp: "isPow2 n \<Longrightarrow> 0 < n \<Longrightarrow> \<exists>k. n = 2 ^ k"
proof (induction n rule: less_induct)
  case (less n)
  show ?case
  proof (cases "even n")
    case True
    then obtain m where m: "n = 2 * m" by blast
    then have "(n - 1) div 2 = m - 1" "n div 2 = m" using less.prems(2) by auto
    then have "n AND (n - 1) = 2 * (m AND (m - 1))" using m by (subst and_rec) simp
    then have "isPow2 m" "0 < m" "m < n" using less.prems m by (auto simp: isPow2_def)
    then obtain k where "m = 2 ^ k" using less.IH by blast
    then show ?thesis using m by (auto intro: exI [of _ "Suc k"])
  next
    case False
    then obtain m where m: "n = 2 * m + 1" by (elim oddE)
    have "n AND (n - 1) = 2 * m" using m by (subst and_rec) simp
    then have "m = 0" using less.prems(1) by (simp add: isPow2_def)
    then show ?thesis using m by (auto intro: exI [of _ 0])
  qed
qed

lemma and_pow2:
  assumes "isPow2 n" "0 < n" "n < 2 ^ 64"
  shows "unat ((w :: 64 word) AND word_of_nat (n - 1)) = unat w mod n"
proof -
  obtain k where k: "n = 2 ^ k" using isPow2_exp [OF assms(1,2)] by blast
  have "unat (word_of_nat (n - 1) :: 64 word) = n - 1" using assms(3) by (simp add: unat_of_nat)
  moreover have "unat w AND (n - 1) = unat w mod n" using k by (metis mask_eq_exp_minus_1 take_bit_eq_mask take_bit_eq_mod)
  ultimately show ?thesis by (simp add: unsigned_and_eq)
qed

lemma length_iterate: "(\<And>x. length x = n \<Longrightarrow> length (f x) = n) \<Longrightarrow> length x = n \<Longrightarrow> length ((f ^^ k) x) = n"
  for f :: "'a list \<Rightarrow> 'a list"
  by (induction k) simp_all

lemma take_block_patch:
  assumes "length p = R" "R * (i + 1) \<le> length v"
  shows "take R (drop (R * j) (patch (R * i) p v)) = (if j = i then p else take R (drop (R * j) v))"
proof -
  consider "j < i" | "j = i" | "i < j" by linarith
  then show ?thesis
  proof cases
    case 1
    then obtain d where d: "i = j + 1 + d" using less_iff_Suc_add by auto
    then have "drop (R * j) (patch (R * i) p v) = patch (R * (1 + d)) p (drop (R * j) v)" using assms by (simp add: patch_between(1) algebra_simps)
    then show ?thesis using d assms by (simp add: patch_between(3) algebra_simps)
  next
    case 2
    then show ?thesis using assms by (simp add: patch_def)
  next
    case 3
    then obtain d where d: "j = i + 1 + d" using less_iff_Suc_add by auto
    then have "R * i + length p \<le> R * j" using assms(1) by (simp add: algebra_simps)
    then show ?thesis using 3 assms by (simp add: patch_between(2) algebra_simps)
  qed
qed

text \<open>The array after the first loop, and a block of it.\<close>

lemma fill_loop:
  assumes "0 < r" "length v = 32 * r * n" "length x = 32 * r" "length y = 32 * r" "length tmp = 16" "2 * k \<le> n"
  shows "\<exists>v1 y1 t1. foldl (fillStep r) (v, x, y, tmp) [0..<k] = (v1, (scryptBlockMix r ^^ (2 * k)) x, y1, t1) \<and>
    length v1 = 32 * r * n \<and> length y1 = 32 * r \<and> length t1 = 16 \<and>
    (\<forall>j < 2 * k. take (32 * r) (drop (32 * r * j) v1) = (scryptBlockMix r ^^ j) x)"
  using assms(6)
proof (induction k)
  case 0
  then show ?case using assms by simp
next
  case (Suc k)
  let ?f = "scryptBlockMix r" and ?R = "32 * r"
  let ?x = "(?f ^^ (2 * k)) x"
  obtain v1 y1 t1 where IH: "foldl (fillStep r) (v, x, y, tmp) [0..<k] = (v1, ?x, y1, t1)" "length v1 = ?R * n" "length y1 = ?R" "length t1 = 16"
     "\<forall>j < 2 * k. take ?R (drop (?R * j) v1) = (?f ^^ j) x"
    using Suc by auto
  have x: "length ?x = ?R" "length (?f ?x) = ?R" "length (?f (?f ?x)) = ?R"
    using length_iterate [of ?R ?f x] length_scryptBlockMix [OF _ assms(1)] assms(3) by auto
  have t: "length (mixChain r b (2 * r)) = 16" if "length b = ?R" for b using length_mixChain [OF that assms(1)] by simp
  define v2 where "v2 = patch (?R * (2 * k + 1)) (?f ?x) (patch (?R * (2 * k)) ?x v1)"
  have "fillStep r (v1, ?x, y1, t1) k = (v2, ?f (?f ?x), ?f ?x, mixChain r (?f ?x) (2 * r))"
    using blockMix_eq [OF x(1) IH(3,4) assms(1)] blockMix_eq [OF x(2,1) t [OF x(1)] assms(1)] x
    by (simp add: fillStep_def v2_def Let_def algebra_simps)
  moreover have R: "?R * (2 * k + 2) \<le> length v1" using IH(2) Suc.prems by (simp only: IH(2)) (intro mult_le_mono2, simp)
  moreover have "length v2 = ?R * n" using x R IH(2) by (simp add: v2_def algebra_simps)
  moreover have "take ?R (drop (?R * j) v2) = (?f ^^ j) x" if "j < 2 * Suc k" for j
  proof -
    have "take ?R (drop (?R * j) v2) = (if j = 2 * k + 1 then ?f ?x else if j = 2 * k then ?x else take ?R (drop (?R * j) v1))"
      unfolding v2_def using x R take_block_patch [OF x(1), of "2 * k" v1 j]
        take_block_patch [OF x(2), of "2 * k + 1" "patch (?R * (2 * k)) ?x v1" j] by (simp add: algebra_simps)
    then show ?thesis using IH(5) that by (auto simp: less_Suc_eq)
  qed
  ultimately show ?case using IH(1) t [OF x(2)] x by auto
qed

lemma mix_loop:
  assumes "0 < r" "isPow2 n" "0 < n" "n < 2 ^ 64" "length x = 32 * r" "length y = 32 * r" "length tmp = 16" "length b = 32 * r"
    and v: "\<forall>j < n. take (32 * r) (drop (32 * r * j) v) = (scryptBlockMix r ^^ j) b"
  shows "\<exists>y1 t1. foldl (mixStep r n) (v, x, y, tmp) [0..<k] =
      (v, ((\<lambda>x. scryptBlockMix r (map2 (XOR) x ((scryptBlockMix r ^^ (integerify r x mod n)) b))) ^^ (2 * k)) x, y1, t1) \<and>
    length y1 = 32 * r \<and> length t1 = 16"
proof (induction k)
  case 0
  then show ?case using assms by simp
next
  case (Suc k)
  let ?f = "scryptBlockMix r" and ?R = "32 * r"
  let ?g = "\<lambda>x. ?f (map2 (XOR) x ((?f ^^ (integerify r x mod n)) b))"
  let ?x = "(?g ^^ (2 * k)) x"
  obtain y1 t1 where IH: "foldl (mixStep r n) (v, x, y, tmp) [0..<k] = (v, ?x, y1, t1)" "length y1 = ?R" "length t1 = 16"
    using Suc by auto
  have V: "take ?R (drop (unat (integer z r AND word_of_nat (n - 1)) * ?R) v) = (?f ^^ (integerify r z mod n)) b" for z
    using v and_pow2 [OF assms(2-4), of "integer z r"] assms(3) by (simp add: integerify_def mult.commute)
  have F: "length ((?f ^^ i) b) = ?R" for i using length_iterate [of ?R ?f b] length_scryptBlockMix [OF _ assms(1)] assms(8) by simp
  have X: "blockXOR z (drop (unat (integer z r AND word_of_nat (n - 1)) * ?R) v) ?R = map2 (XOR) z ((?f ^^ (integerify r z mod n)) b)"
    if "length z = ?R" for z
    using that F by (simp add: blockXOR_def V patch_whole del: One_nat_def)
  have G: "length (map2 (XOR) z ((?f ^^ i) b)) = ?R" if "length z = ?R" for z i using that F by simp
  have g: "length (?g z) = ?R" if "length z = ?R" for z using length_scryptBlockMix [OF G [OF that] assms(1)] .
  have x: "length ?x = ?R" using length_iterate [of ?R ?g x] g assms(5) by simp
  have t: "length (mixChain r z (2 * r)) = 16" if "length z = ?R" for z using length_mixChain [OF that assms(1)] by simp
  let ?x1 = "map2 (XOR) ?x ((?f ^^ (integerify r ?x mod n)) b)"
  let ?y2 = "map2 (XOR) (?g ?x) ((?f ^^ (integerify r (?g ?x) mod n)) b)"
  have b1: "blockMix t1 ?x1 y1 r = (mixChain r ?x1 (2 * r), ?g ?x)"
    by (rule blockMix_eq [OF G [OF x] IH(2,3) assms(1)])
  have b2: "blockMix (mixChain r ?x1 (2 * r)) ?y2 ?x1 r = (mixChain r ?y2 (2 * r), ?g (?g ?x))"
    by (rule blockMix_eq [OF G [OF g [OF x]] G [OF x] t [OF G [OF x]] assms(1)])
  have "mixStep r n (v, ?x, y1, t1) k = (v, ?g (?g ?x), ?y2, mixChain r ?y2 (2 * r))"
    unfolding mixStep_def Let_def prod.case X [OF x] b1 X [OF g [OF x]] b2 ..
  then show ?case using IH(1) t [OF G [OF g [OF x]]] G [OF g [OF x]] by simp
qed

definition memOK :: "nat \<Rightarrow> nat \<Rightarrow> mixMem \<Rightarrow> bool" where
  "memOK r n m \<longleftrightarrow> (case m of (v, x, y, tmp) \<Rightarrow> length v = 32 * r * n \<and> length x = 32 * r \<and> length y = 32 * r \<and> length tmp = 16)"

lemma even_pow2: "isPow2 n \<Longrightarrow> 1 < n \<Longrightarrow> 2 * (n div 2) = n"
proof -
  assume n: "isPow2 n" "1 < n"
  obtain k where k: "n = 2 ^ k" using isPow2_exp [OF n(1)] n(2) by auto
  then show ?thesis using n(2) by (cases k) simp_all
qed

lemma smix_eq:
  assumes "0 < r" "isPow2 n" "1 < n" "n < 2 ^ 64" "memOK r n m"
  shows "\<exists>m1. smix b r n m = (patch 0 (romixBytes r n b) b, m1) \<and> memOK r n m1 \<and> length (romixBytes r n b) = 128 * r"
proof -
  obtain v x y tmp where m: "m = (v, x, y, tmp)" by (cases m)
  let ?f = "scryptBlockMix r" and ?R = "32 * r"
  let ?b = "blockWords r b"
  have l: "length v = ?R * n" "length x = ?R" "length y = ?R" "length tmp = 16" "length ?b = ?R"
    using assms(5) by (simp_all add: m memOK_def blockWords_def)
  have n: "2 * (n div 2) = n" "0 < n" using even_pow2 [OF assms(2,3)] assms(3) by auto
  obtain v1 y1 t1 where f: "foldl (fillStep r) (v, ?b, y, tmp) [0..<n div 2] = (v1, (?f ^^ n) ?b, y1, t1)" "length v1 = ?R * n" "length y1 = ?R"
    "length t1 = 16" "\<forall>j < n. take ?R (drop (?R * j) v1) = (?f ^^ j) ?b"
    using fill_loop [OF assms(1) l(1,5,3,4), of "n div 2"] n by auto
  have X: "length ((?f ^^ n) ?b) = ?R" using length_iterate [of ?R ?f ?b] length_scryptBlockMix [OF _ assms(1)] l(5) by simp
  obtain y2 t2 where g: "foldl (mixStep r n) (v1, (?f ^^ n) ?b, y1, t1) [0..<n div 2] = (v1, scryptROMix r n ?b, y2, t2)"
     "length y2 = ?R" "length t2 = 16"
    using mix_loop [OF assms(1,2) n(2) assms(4) X f(3,4) l(5) f(5), of "n div 2"] n by (auto simp: scryptROMix_def)
  have "length (scryptROMix r n ?b) = ?R"
    unfolding scryptROMix_def using X length_iterate [of ?R ?f ?b] length_scryptBlockMix [OF _ assms(1)] l(5) by (intro length_iterate) auto
  moreover have "patch 0 ?b x = ?b" using l by (simp add: patch_whole)
  moreover have "length (concat (map leBytes w)) = 4 * length w" for w by (induction w) (simp_all add: leBytes_def)
  ultimately show ?thesis using f g by (auto simp: smix_def m memOK_def blockWords_def [symmetric] romixBytes_def Let_def)
qed

lemma blockWords_take: "blockWords r (take (128 * r) b) = blockWords r b"
  by (auto simp: blockWords_def subslice_def min_def drop_take intro!: arg_cong [of _ _ leWord])

lemma mix_blocks:
  assumes "0 < r" "isPow2 n" "1 < n" "n < 2 ^ 64" "memOK r n m" "128 * r * k \<le> length b"
  shows "\<exists>m1. foldl (mixBlock n r) (b, m) [0..<k] =
      (concat (map (\<lambda>i. romixBytes r n (take (128 * r) (drop (128 * r * i) b))) [0..<k]) @ drop (128 * r * k) b, m1) \<and> memOK r n m1 \<and>
    length (concat (map (\<lambda>i. romixBytes r n (take (128 * r) (drop (128 * r * i) b))) [0..<k])) = 128 * r * k"
  using assms(6)
proof (induction k)
  case 0
  then show ?case using assms by simp
next
  case (Suc k)
  let ?X = "\<lambda>i. romixBytes r n (take (128 * r) (drop (128 * r * i) b))"
  let ?D = "concat (map ?X [0..<k])"
  obtain m1 where IH: "foldl (mixBlock n r) (b, m) [0..<k] = (?D @ drop (128 * r * k) b, m1)" "memOK r n m1" "length ?D = 128 * r * k"
    using Suc by auto
  obtain m2 where s: "smix (drop (128 * r * k) b) r n m1 = (patch 0 (?X k) (drop (128 * r * k) b), m2)" "memOK r n m2" "length (?X k) = 128 * r"
    using smix_eq [OF assms(1-4) IH(2), of "drop (128 * r * k) b"] blockWords_take [of r "drop (128 * r * k) b"]
    by (auto simp: romixBytes_def)
  have "mixBlock n r (?D @ drop (128 * r * k) b, m1) k = (?D @ ?X k @ drop (128 * r * Suc k) b, m2)"
    using s IH(3) Suc.prems by (simp add: mixBlock_def BlockSize_def patch_def algebra_simps)
  then show ?case using IH s by simp
qed

lemma Mix_eq:
  assumes "0 < r" "isPow2 n" "1 < n" "n < 2 ^ 64" "0 < p" "length b = p * (128 * r)" "WorkSize n r \<le> length work"
  shows "Mix b n r work = Some (concat (map (\<lambda>i. romixBytes r n (take (128 * r) (drop (128 * r * i) b))) [0..<p]))"
proof -
  have w: "WorkSize n r div 4 = 32 * n * r + 64 * r + 16" by (simp add: WorkSize_def algebra_simps)
  have "memOK r n (mixMemory n r work)" by (simp add: memOK_def mixMemory_def w Let_def algebra_simps)
  moreover have "length b div BlockSize r = p" "length b mod BlockSize r = 0" using assms by (simp_all add: BlockSize_def)
  ultimately show ?thesis
    using mix_blocks [OF assms(1-4), of "mixMemory n r work" p b] assms by (auto simp: Mix_def BlockSize_def mult.commute)
qed

section \<open>The derivation is scrypt\<close>

lemma length_PBKDF2: "h \<noteq> hashNone \<Longrightarrow> length (PBKDF2 h P S c n) = n"
proof -
  assume h: "h \<noteq> hashNone"
  have "length (concat (map (\<lambda>k. pbkdf2T h P S c (unat (word_of_nat (Suc k) :: 32 word))) [0..<n])) = hashSize h * n"
    using length_concat_const [of "[0..<n]" "\<lambda>k. pbkdf2T h P S c (unat (word_of_nat (Suc k) :: 32 word))" "hashSize h"] length_pbkdf2T [OF h] by simp
  moreover have "n \<le> hashSize h * n" using hash_bounds [OF h] by simp
  ultimately show ?thesis by (simp add: PBKDF2_def)
qed

lemma pbkdf2RegionSize_mono: "a \<le> b \<Longrightarrow> pbkdf2RegionSize h a \<le> pbkdf2RegionSize h b"
  by (simp add: pbkdf2RegionSize_def Let_def max_def)

lemma scryptCompute_eq:
  assumes "0 < r" "0 < p" "isPow2 n" "1 < n" "n < 2 ^ 64" "scryptRegionSize (length salt) n r p \<le> m"
  shows "scryptCompute dst (zeros m) password salt n r p = Some (SCRYPT password salt n r p (length dst), zeros m)"
proof -
  let ?W = "WorkSize n r" and ?b = "p * (128 * r)"
  let ?s1 = "pbkdf2RegionSize hashSHA256 (length salt)" and ?s2 = "pbkdf2RegionSize hashSHA256 ?b"
  let ?B = "PBKDF2 hashSHA256 password salt 1 ?b"
  let ?M = "concat (map (\<lambda>i. romixBytes r n (take (128 * r) (drop (128 * r * i) ?B))) [0..<p])"
  have m: "?W + ?b + max ?s1 ?s2 \<le> m"
    using assms(6) pbkdf2RegionSize_mono [of "length salt" "max (length salt) ?b" hashSHA256] pbkdf2RegionSize_mono [of ?b "max (length salt) ?b" hashSHA256]
    by (simp add: scryptRegionSize_def BlockSize_def Let_def)
  have B: "length ?B = ?b" by (rule length_PBKDF2) simp
  obtain m1 where "memOK r n m1" using assms(1) by (auto simp: memOK_def intro!: that [of "(replicate (32 * r * n) 0, replicate (32 * r) 0, replicate (32 * r) 0, replicate 16 0)"])
  from mix_blocks [OF assms(1,3-5) this, of p ?B] B have M: "length ?M = ?b" by (auto simp: mult.commute)
  have 1: "pbkdf2Compute hashSHA256 (zeros ?b) (zeros ?s1) password salt 1 = Some (?B, zeros ?s1)"
    using pbkdf2Compute_eq [of hashSHA256 salt ?s1 "zeros ?b" password 1] by simp
  have 2: "Mix ?B n r (zeros ?W) = Some ?M" using Mix_eq [OF assms(1,3-5,2) B] by simp
  have 3: "pbkdf2Compute hashSHA256 dst (zeros ?s2) password ?M 1 = Some (PBKDF2 hashSHA256 password ?M 1 (length dst), zeros ?s2)"
    using pbkdf2Compute_eq [of hashSHA256 ?M ?s2 dst password 1] M by simp
  have z: "patch 0 (zeros k) (zeros j) = zeros j" if "k \<le> j" for k j
    using that by (simp add: patch_def replicate_add [symmetric])
  have "subslice ?W (?W + ?b) (zeros m) = zeros ?b" "take ?s1 (drop (?W + ?b) (zeros m)) = zeros ?s1" "take ?W (zeros m) = zeros ?W"
    "take ?s2 (drop (?W + ?b) (zeros m)) = zeros ?s2" "patch 0 (zeros ?s1) (drop (?W + ?b) (zeros m)) = drop (?W + ?b) (zeros m)"
    "zeros (?W + ?b) @ patch 0 (zeros ?s2) (drop (?W + ?b) (zeros m)) = zeros m"
    using m by (simp_all add: subslice_def z replicate_add [symmetric])
  then show ?thesis using m by (simp only: scryptCompute_def Let_def BlockSize_def length_replicate 1 2 3 bind.bind_lunit prod.case not_less [symmetric])
    (simp add: SCRYPT_def Let_def)
qed

text \<open>
  C0. On a zero region of the size that \<open>scryptRegionSize\<close> gives, \<open>scryptCompute\<close> is the
  scrypt of RFC 7914 and leaves the region zero. The code fills the array and mixes two blocks in one
  turn of each loop, swapping the two working blocks, masks the index where the standard takes a
  remainder, and writes the steps of a block straight to their places.
\<close>

theorem scryptCompute_SCRYPT:
  assumes "0 < r" "0 < p" "isPow2 n" "1 < n" "n < 2 ^ 64" "scryptRegionSize (length salt) n r p \<le> m"
  shows "scryptCompute dst (zeros m) password salt n r p = Some (SCRYPT password salt n r p (length dst), zeros m)"
  using assms by (rule scryptCompute_eq)

theorem scryptCompute_SCRYPT_witness:
  "scryptCompute (zeros 32) (zeros 5000) [1] [2] 16 1 1 = Some (SCRYPT [1] [2] 16 1 1 32, zeros 5000)"
  using scryptCompute_SCRYPT [of 1 1 16 "[2]" 5000 "zeros 32" "[1]"]
  by (simp add: scryptRegionSize_def pbkdf2RegionSize_def hashBlock_def hashSize_def maxHashSize_def WorkSize_def BlockSize_def isPow2_def)

end
