(* ===== verification/Key_Derive.thy ===== *)
theory Key_Derive
  imports Hmac_InPlace Key_Signers
begin

text \<open>
  Key derivation into locked buffers: \<^verbatim>\<open>HMACInto\<close> and \<^verbatim>\<open>HKDFInto\<close> of
  \<^verbatim>\<open>secmem-crypto/kdf.go\<close>, with the recognition of a caller's hash and the choice between a
  working region on the stack and a locked one from \<^verbatim>\<open>hmac_inplace.go\<close>. A caller's hash is
  the function it computes; \<^verbatim>\<open>crypto/hmac\<close> computes HMAC over it, and
  \<^verbatim>\<open>x/crypto/hkdf\<close> is a parameter.
\<close>

section \<open>Which hash a constructor makes\<close>

datatype hashType = sha256Type | sha512Type | sha3Type | otherType string

record hashProbe =
  ptype :: hashType
  psize :: nat
  pblock :: nat
  psum :: "bytes \<Rightarrow> bytes"

record inPlaceHashEntry =
  etyp :: hashType
  esize :: nat
  eid :: inPlaceHash

definition inPlaceHashProbe :: bytes where
  "inPlaceHashProbe = goString ''secmem-crypto: is this constructor the one-shot it looks like?''"

definition candidate :: "hashType \<Rightarrow> nat \<Rightarrow> inPlaceHash" where
  "candidate t n =
     (if t = sha256Type \<and> n = 28 then hashSHA224
      else if t = sha256Type \<and> n = 32 then hashSHA256
      else if t = sha512Type \<and> n = 48 then hashSHA384
      else if t = sha512Type \<and> n = 64 then hashSHA512
      else if t = sha512Type \<and> n = 28 then hashSHA512_224
      else if t = sha512Type \<and> n = 32 then hashSHA512_256
      else if t = sha3Type \<and> n = 28 then hashSHA3_224
      else if t = sha3Type \<and> n = 32 then hashSHA3_256
      else if t = sha3Type \<and> n = 48 then hashSHA3_384
      else if t = sha3Type \<and> n = 64 then hashSHA3_512
      else hashNone)"

text \<open>The cache of positive verdicts is the state.\<close>

definition inPlaceHashOf :: "hashProbe option \<Rightarrow> inPlaceHashEntry list \<Rightarrow> inPlaceHash \<times> inPlaceHashEntry list" where
  "inPlaceHashOf probe seen = (case probe of None \<Rightarrow> (hashNone, seen)
   | Some p \<Rightarrow> (case find (\<lambda>e. etyp e = ptype p \<and> esize e = psize p) seen of
       Some e \<Rightarrow> (eid e, seen)
     | None \<Rightarrow> (let h = candidate (ptype p) (psize p) in
         if h = hashNone then (hashNone, seen)
         else if pblock p = hashBlock h \<and> psum p inPlaceHashProbe = take (psize p) (goCopy 0 (oneShot h inPlaceHashProbe) (zeros maxHashSize))
         then (h, seen @ [\<lparr>etyp = ptype p, esize = psize p, eid = h\<rparr>])
         else (hashNone, seen))))"

section \<open>HMAC and HKDF into a slice\<close>

text \<open>The environment says also what \<^verbatim>\<open>Destroy\<close> of a working buffer reports and what
  \<^verbatim>\<open>x/crypto/hkdf\<close> reads.\<close>

record kdfEnv = keyEnv +
  destroyAnswer :: "nat \<Rightarrow> kerr option"
  hkdfReader :: "hashProbe \<Rightarrow> bytes \<Rightarrow> bytes \<Rightarrow> bytes \<Rightarrow> nat \<Rightarrow> bytes option"

definition joinErr :: "kerr option \<Rightarrow> kerr option \<Rightarrow> kerr option" where
  "joinErr a b = (case a of None \<Rightarrow> b | Some x \<Rightarrow> (case b of None \<Rightarrow> a | Some y \<Rightarrow> Some (errBoth x y)))"

definition hmacIntoInPlace ::
    "'e kdfEnv_scheme \<Rightarrow> inPlaceHash \<Rightarrow> bytes \<Rightarrow> bytes \<Rightarrow> bytes \<Rightarrow> vault \<Rightarrow> ((kerr option \<times> bytes) \<times> vault) option" where
  "hmacIntoInPlace E h dst secret info v = (let n = hmacScratchSize h (length info) in
     if n \<le> hmacStackRegion then do {
       (d, _) \<leftarrow> hmacInPlace h dst (take n (zeros hmacStackRegion)) secret [info];
       Some ((None, d), v)
     }
     else case newEmptyBuffer E n v of
       (Inl e, v1) \<Rightarrow> Some ((Some e, dst), v1)
     | (Inr i, v1) \<Rightarrow> do {
         ((e, d), v2) \<leftarrow> withBuf E dst (\<lambda>region w. do {
           (d, r) \<leftarrow> hmacInPlace h dst region secret [info];
           Some ((None, d, r), w) }) i v1;
         Some ((joinErr e (destroyAnswer E (vtick v2)), d), destroyBuf i v2)
       })"

definition hkdfInPlace ::
    "'e kdfEnv_scheme \<Rightarrow> inPlaceHash \<Rightarrow> bytes \<Rightarrow> bytes \<Rightarrow> bytes \<Rightarrow> bytes \<Rightarrow> vault \<Rightarrow> ((kerr option \<times> bytes) \<times> vault) option" where
  "hkdfInPlace E h dst secret salt info v = (let n = hkdfRegionSize h (length secret) (length info) in
     if n \<le> hmacStackRegion then do {
       (d, _) \<leftarrow> hkdfCompute h dst (take n (zeros hmacStackRegion)) secret salt info;
       Some ((None, d), v)
     }
     else case newEmptyBuffer E n v of
       (Inl e, v1) \<Rightarrow> Some ((Some e, dst), v1)
     | (Inr i, v1) \<Rightarrow> do {
         ((e, d), v2) \<leftarrow> withBuf E dst (\<lambda>region w. do {
           (d, r) \<leftarrow> hkdfCompute h dst region secret salt info;
           Some ((None, d, r), w) }) i v1;
         Some ((joinErr e (destroyAnswer E (vtick v2)), d), destroyBuf i v2)
       })"

section \<open>The entry points\<close>

definition checkHeapTransientsHash :: "'e keyEnv_scheme \<Rightarrow> options \<Rightarrow> kerr option" where
  "checkHeapTransientsHash E opts = (if allowHeapTransients opts \<or> heapErased E then None else Some ErrHeapTransients)"

type_synonym kdfState = "inPlaceHashEntry list \<times> vault"

text \<open>A derivation that writes its result over the output buffer.\<close>

definition deriveInto ::
    "'e keyEnv_scheme \<Rightarrow> (bytes \<Rightarrow> vault \<Rightarrow> ((kerr option \<times> bytes) \<times> vault) option) \<Rightarrow> nat \<Rightarrow> inPlaceHashEntry list \<Rightarrow> vault \<Rightarrow>
     (kerr option \<times> kdfState) option" where
  "deriveInto E f i seen v = do {
     ((e, _), v1) \<leftarrow> withBuf E () (\<lambda>dst w. do { ((e, d), w1) \<leftarrow> f dst w; Some ((e, (), d), w1) }) i v;
     Some (e, seen, v1)
   }"

text \<open>The constructor is an argument: nil, a function that returns nil, or one that makes a hash. The
  digest is appended to the empty prefix of the output, in place when it fits.\<close>

definition HMACInto ::
    "'e kdfEnv_scheme \<Rightarrow> options \<Rightarrow> hashProbe option option \<Rightarrow> bytes \<Rightarrow> bytes \<Rightarrow> nat option \<Rightarrow> kdfState \<Rightarrow> (kerr option \<times> kdfState) option" where
  "HMACInto E opts h secret info out st = (case st of (seen, v) \<Rightarrow>
     (case h of None \<Rightarrow> Some (Some (errText ''nil hash function''), st)
   | Some probe \<Rightarrow> (case out of None \<Rightarrow> Some (Some (errText ''nil output buffer''), st)
     | Some i \<Rightarrow>
        (if bufDestroyed i v then Some (Some (errCore ErrDestroyed), st)
         else case probe of None \<Rightarrow> Some (Some (errText ''hash function returned nil''), st)
         | Some p \<Rightarrow>
            (if bufLen i v \<noteq> psize p then Some (Some (errText ''output buffer is not the fixed size of the hash''), st)
             else case inPlaceHashOf (Some p) seen of (hid, seen1) \<Rightarrow>
               (if hid \<noteq> hashNone then deriveInto E (\<lambda>dst. hmacIntoInPlace E hid dst secret info) i seen1 v
                else case checkHeapTransientsHash E opts of
                  Some e \<Rightarrow> Some (Some e, seen1, v)
                | None \<Rightarrow> deriveInto E (\<lambda>dst w. let m = HMAC (psum p) (pblock p) secret info in
                    Some ((None, if length m \<le> length dst then goCopy 0 m dst else dst), w)) i seen1 v))))))"

definition HKDFInto ::
    "'e kdfEnv_scheme \<Rightarrow> options \<Rightarrow> hashProbe option option \<Rightarrow> bytes \<Rightarrow> bytes \<Rightarrow> bytes \<Rightarrow> nat option \<Rightarrow> kdfState \<Rightarrow> (kerr option \<times> kdfState) option" where
  "HKDFInto E opts h secret salt info out st = (case st of (seen, v) \<Rightarrow>
     (case h of None \<Rightarrow> Some (Some (errText ''nil hash function''), st)
   | Some probe \<Rightarrow> (case out of None \<Rightarrow> Some (Some (errText ''nil output buffer''), st)
     | Some i \<Rightarrow>
        (if bufDestroyed i v then Some (Some (errCore ErrDestroyed), st)
         else if bufLen i v = 0 then Some (Some (errText ''empty output buffer''), st)
         else case probe of None \<Rightarrow> Some (Some (errText ''hash function returned nil''), st)
         | Some p \<Rightarrow>
            (if 255 * psize p < bufLen i v then Some (Some (errText ''output exceeds the RFC 5869 limit''), st)
             else case inPlaceHashOf (Some p) seen of (hid, seen1) \<Rightarrow>
               (if hid \<noteq> hashNone then deriveInto E (\<lambda>dst. hkdfInPlace E hid dst secret salt info) i seen1 v
                else case checkHeapTransientsHash E opts of
                  Some e \<Rightarrow> Some (Some e, seen1, v)
                | None \<Rightarrow> deriveInto E (\<lambda>dst w. Some (case hkdfReader E p secret salt info (length dst) of
                    None \<Rightarrow> ((Some (errText ''EOF''), dst), w) | Some k \<Rightarrow> ((None, goCopy 0 k dst), w))) i seen1 v))))))"

definition HMACSHA256Into :: "'e kdfEnv_scheme \<Rightarrow> options \<Rightarrow> bytes \<Rightarrow> bytes \<Rightarrow> nat option \<Rightarrow> kdfState \<Rightarrow> (kerr option \<times> kdfState) option" where
  "HMACSHA256Into E opts secret info out st =
     HMACInto E opts (Some (Some \<lparr>ptype = sha256Type, psize = 32, pblock = 64, psum = sum256\<rparr>)) secret info out st"

definition HKDFSHA256Into :: "'e kdfEnv_scheme \<Rightarrow> options \<Rightarrow> bytes \<Rightarrow> bytes \<Rightarrow> bytes \<Rightarrow> nat option \<Rightarrow> kdfState \<Rightarrow> (kerr option \<times> kdfState) option" where
  "HKDFSHA256Into E opts secret salt info out st =
     HKDFInto E opts (Some (Some \<lparr>ptype = sha256Type, psize = 32, pblock = 64, psum = sum256\<rparr>)) secret salt info out st"

section \<open>The recognition is sound\<close>

text \<open>An entry of the cache names the one-shot of its type and size. A constructor is plain when, if
  its type is one of the standard library's, it computes the hash of that type and size.\<close>

definition seenOK :: "inPlaceHashEntry list \<Rightarrow> bool" where
  "seenOK seen \<longleftrightarrow> list_all (\<lambda>e. eid e = candidate (etyp e) (esize e) \<and> eid e \<noteq> hashNone) seen"

definition plainHash :: "hashProbe \<Rightarrow> bool" where
  "plainHash p \<longleftrightarrow> (\<forall>m. length (psum p m) = psize p) \<and>
     (let h = candidate (ptype p) (psize p) in h \<noteq> hashNone \<longrightarrow> psum p = oneShot h \<and> pblock p = hashBlock h)"

lemma hashSize_candidate: "candidate t n \<noteq> hashNone \<Longrightarrow> hashSize (candidate t n) = n"
  by (simp add: candidate_def hashSize_def split: if_splits)

lemma inPlaceHashOf_sound:
  assumes "seenOK seen" "inPlaceHashOf (Some p) seen = (hid, seen1)"
  shows "seenOK seen1 \<and> (hid \<noteq> hashNone \<longrightarrow> hid = candidate (ptype p) (psize p))"
  using assms
  by (auto simp: inPlaceHashOf_def seenOK_def list_all_iff find_Some_iff Let_def split: option.splits if_splits)

lemma inPlaceHashOf_plain:
  assumes "seenOK seen" "plainHash p"
  shows "fst (inPlaceHashOf (Some p) seen) = candidate (ptype p) (psize p)"
proof (cases "candidate (ptype p) (psize p) = hashNone")
  case True
  then show ?thesis using inPlaceHashOf_sound [OF assms(1), of p] by (cases "inPlaceHashOf (Some p) seen") auto
next
  case False
  let ?h = "candidate (ptype p) (psize p)"
  have "psum p inPlaceHashProbe = take (psize p) (goCopy 0 (oneShot ?h inPlaceHashProbe) (zeros maxHashSize))"
    using hashedKey [OF False] hashSize_candidate [OF False] assms(2) False by (simp add: plainHash_def Let_def)
  then show ?thesis
    using False assms by (auto simp: inPlaceHashOf_def plainHash_def seenOK_def list_all_iff find_Some_iff Let_def split: option.splits)
qed

section \<open>A borrowed working region\<close>

text \<open>Both derivations take their region from a new locked buffer in the same way.\<close>

lemma lockedRegion:
  assumes "vwf v" "\<not> closedRegions E" "0 < n" and g: "\<And>c. length c = n \<Longrightarrow> \<exists>r. g c = Some (k, r)"
  shows "\<exists>e d v'. (case newEmptyBuffer E n v of
       (Inl e, v1) \<Rightarrow> Some ((Some e, dst), v1)
     | (Inr i, v1) \<Rightarrow> do {
         ((e, d), v2) \<leftarrow> withBuf E dst (\<lambda>region w. do { (d, r) \<leftarrow> g region; Some ((None, d, r), w) }) i v1;
         Some ((joinErr e (answer v2), d), destroyBuf i v2) }) = Some ((e, d), v') \<and>
     moves v {} {} v' \<and> (e = None \<longrightarrow> d = k) \<and> (d = k \<or> d = dst)"
proof (cases "newEmptyBuffer E n v")
  case (Pair a v1)
  show ?thesis
  proof (cases a)
    case (Inl e)
    then show ?thesis using Pair newEmptyBuffer_moves(1) [OF Pair assms(1)] by auto
  next
    case (Inr i)
    have m: "moves v {} {i} v1" "i \<notin> vheld v" "i < vnext v1" "vwf v1"
      using newEmptyBuffer_moves [OF Pair assms(1)] Inr by (auto simp: moves_def)
    have c: "vbufs v1 i = Some (ALive (zeros n) False False)" using Pair Inr by (auto simp: newEmptyBuffer_def split: if_splits option.splits)
    have ft: "fateOf E v1 \<noteq> OpenFails" "fateOf E v1 \<noteq> CloseFails" using assms(2) by (auto simp: fateOf_def split: fate.splits)
    obtain r where r: "g (zeros n) = Some (k, r)" using g [of "zeros n"] by auto
    have reach: "vbufs (reach E i v1) i = Some (if fateOf E v1 = WipedFirst then AWiped else ALive (zeros n) False False)"
      using c by (simp add: reach_def arrives_def)
    obtain e d v2 where w: "withBuf E dst (\<lambda>region w. do { (d, r) \<leftarrow> g region; Some ((None, d, r), w) }) i v1 = Some ((e, d), v2)"
      "e = None \<longrightarrow> d = k" "d = k \<or> d = dst" "moves v1 {} {} v2"
    proof (cases "fateOf E v1 = WipedFirst")
      case True
      then show thesis using that reach m(4) by (auto simp: withBuf_def Let_def moves_def)
    next
      case False
      have "moves v1 {} {} (setBuf i (ALive r False False) (reach E i v1))"
        using m(3,4) live_held [OF c] vwf_setBuf [of "reach E i v1" i] by (auto simp: moves_def held_setBuf)
      then show thesis using that reach False ft r by (auto simp: withBuf_def Let_def)
    qed
    have "i \<in> vheld v2" "vwf v2" using w(4) m(1) by (auto simp: moves_def)
    then have "moves v {} {} (destroyBuf i v2)"
      using m(1,2) w(4) held_less [of v2 i] by (auto simp: moves_def destroyBuf_def held_setBuf vwf_setBuf)
    then show ?thesis using Pair Inr w(1-3) by (auto simp: joinErr_def split: option.splits)
  qed
qed

lemma hmacIntoInPlace_runs:
  assumes "vwf v" "\<not> closedRegions E" "h \<noteq> hashNone" "length dst = hashSize h"
  shows "\<exists>e d v'. hmacIntoInPlace E h dst secret info v = Some ((e, d), v') \<and> moves v {} {} v' \<and>
    (e = None \<longrightarrow> d = HMAC (oneShot h) (hashBlock h) secret info) \<and> (hmacScratchSize h (length info) \<le> hmacStackRegion \<longrightarrow> e = None)"
proof (cases "hmacScratchSize h (length info) \<le> hmacStackRegion")
  case True
  then show ?thesis using assms by (simp add: hmacIntoInPlace_def hmacInPlace_eq Let_def)
next
  case False
  have "\<exists>r. hmacInPlace h dst c secret [info] = Some (HMAC (oneShot h) (hashBlock h) secret info, r)"
    if "length c = hmacScratchSize h (length info)" for c
    using that assms(3,4) by (simp add: hmacInPlace_eq)
  moreover have "0 < hmacScratchSize h (length info)" using False by simp
  ultimately show ?thesis
    using lockedRegion [OF assms(1,2), where g = "\<lambda>c. hmacInPlace h dst c secret [info]" and n = "hmacScratchSize h (length info)"
      and k = "HMAC (oneShot h) (hashBlock h) secret info" and dst = dst and answer = "\<lambda>v. destroyAnswer E (vtick v)"] False
    by (simp add: hmacIntoInPlace_def) blast
qed

lemma hkdfInPlace_runs:
  assumes "vwf v" "\<not> closedRegions E" "h \<noteq> hashNone"
  shows "\<exists>e d v'. hkdfInPlace E h dst secret salt info v = Some ((e, d), v') \<and> moves v {} {} v' \<and>
    (e = None \<longrightarrow> d = HKDF h secret salt info (length dst)) \<and> (hkdfRegionSize h (length secret) (length info) \<le> hmacStackRegion \<longrightarrow> e = None)"
proof (cases "hkdfRegionSize h (length secret) (length info) \<le> hmacStackRegion")
  case True
  then show ?thesis using assms by (simp add: hkdfInPlace_def hkdfCompute_eq Let_def)
next
  case False
  have "\<exists>r. hkdfCompute h dst c secret salt info = Some (HKDF h secret salt info (length dst), r)"
    if "length c = hkdfRegionSize h (length secret) (length info)" for c
    using hkdfCompute_eq [OF assms(3)] that by simp
  moreover have "0 < hkdfRegionSize h (length secret) (length info)" using False by simp
  ultimately show ?thesis
    using lockedRegion [OF assms(1,2), where g = "\<lambda>c. hkdfCompute h dst c secret salt info" and n = "hkdfRegionSize h (length secret) (length info)"
      and k = "HKDF h secret salt info (length dst)" and dst = dst and answer = "\<lambda>v. destroyAnswer E (vtick v)"] False
    by (simp add: hkdfInPlace_def) blast
qed

text \<open>The output buffer: the derivation runs unless an emergency wipe came first, and a success leaves
  the derived key.\<close>

lemma deriveInto_runs:
  assumes "vwf v" "\<not> closedRegions E" "vbufs v i = Some (ALive c False ro)"
    and f: "\<And>w. vwf w \<Longrightarrow> \<exists>e d w'. f c w = Some ((e, d), w') \<and> moves w {} {} w' \<and> (e = None \<longrightarrow> d = key) \<and> (small \<longrightarrow> e = None)"
  shows "\<exists>e v'. deriveInto E f i seen v = Some (e, seen, v') \<and> vheld v' = vheld v \<and>
    (e = None \<longrightarrow> vbufs v' i = Some (ALive key False ro)) \<and> (small \<and> fateOf E v = Fine \<longrightarrow> e = None)"
proof (cases "fateOf E v = WipedFirst")
  case True
  then show ?thesis using assms(3) by (simp add: deriveInto_def withBuf_def reach_def arrives_def held_setBuf Let_def live_held [OF assms(3)] insert_absorb)
next
  case False
  have ft: "fateOf E v = Fine" using False assms(2) by (auto simp: fateOf_def split: fate.splits)
  let ?v = "reach E i v"
  obtain e d w' where w: "f c ?v = Some ((e, d), w')" "moves ?v {} {} w'" "e = None \<longrightarrow> d = key" "small \<longrightarrow> e = None"
    using f [OF vwf_reach [OF assms(1)]] by blast
  have "i \<in> vheld w'" using w(2) live_held [OF assms(3)] by (simp add: moves_def)
  moreover have "vbufs ?v i = Some (ALive c False ro)" using assms(3) ft by (simp add: reach_def arrives_def)
  ultimately show ?thesis using w ft
    by (auto simp: deriveInto_def withBuf_def held_setBuf Let_def moves_def)
qed

section \<open>Properties\<close>

text \<open>
  C0. \<open>HMACInto\<close> returns for every plain hash, key and message, on the stack, in a locked region
  and through \<^verbatim>\<open>crypto/hmac\<close> alike. It holds no buffer afterwards that it did not hold
  before, and when it reports success the output is HMAC of the caller's hash. For a hash with a
  one-shot and a message that fits the stack region it succeeds unless an emergency wipe came first.
\<close>

theorem HMACInto_correct:
  assumes "vwf v" "\<not> closedRegions E" "seenOK seen" "plainHash p" "vbufs v i = Some (ALive c False ro)" "vlen v i = length c" "psize p = length c"
  shows "\<exists>e seen' v'. HMACInto E opts (Some (Some p)) secret info (Some i) (seen, v) = Some (e, seen', v') \<and> seenOK seen' \<and> vheld v' = vheld v \<and>
    (e = None \<longrightarrow> vbufs v' i = Some (ALive (HMAC (psum p) (pblock p) secret info) False ro)) \<and>
    (fateOf E v = Fine \<and> candidate (ptype p) (psize p) \<noteq> hashNone \<and> pblock p + max (length info) (psize p) \<le> hmacStackRegion \<longrightarrow> e = None)"
proof -
  let ?h = "candidate (ptype p) (psize p)"
  obtain seen1 where s: "inPlaceHashOf (Some p) seen = (?h, seen1)" "seenOK seen1"
    using inPlaceHashOf_plain [OF assms(3,4)] inPlaceHashOf_sound [OF assms(3)] by (metis prod.collapse)
  have i: "\<not> bufDestroyed i v" "bufLen i v = psize p" using assms(5-7) by (simp_all add: bufDestroyed_def bufLen_def)
  show ?thesis
  proof (cases "?h = hashNone")
    case True
    have l: "length (HMAC (psum p) (pblock p) secret info) = length c" using assms(4,7) by (simp add: HMAC_def plainHash_def)
    have "\<exists>e v'. deriveInto E (\<lambda>dst w. let m = HMAC (psum p) (pblock p) secret info in
        Some ((None, if length m \<le> length dst then goCopy 0 m dst else dst), w)) i seen1 v = Some (e, seen1, v') \<and> vheld v' = vheld v \<and>
      (e = None \<longrightarrow> vbufs v' i = Some (ALive (HMAC (psum p) (pblock p) secret info) False ro)) \<and> (False \<and> fateOf E v = Fine \<longrightarrow> e = None)"
      by (rule deriveInto_runs [OF assms(1,2,5)]) (use l in \<open>auto simp: goCopy_whole\<close>)
    then show ?thesis using s i True assms(1)
      by (cases "checkHeapTransientsHash E opts") (auto simp: HMACInto_def)
  next
    case False
    have H: "psum p = oneShot ?h" "pblock p = hashBlock ?h" "hashSize ?h = length c"
      using assms(4,7) False hashSize_candidate [OF False] by (simp_all add: plainHash_def Let_def)
    have "\<exists>e v'. deriveInto E (\<lambda>dst. hmacIntoInPlace E ?h dst secret info) i seen1 v = Some (e, seen1, v') \<and> vheld v' = vheld v \<and>
      (e = None \<longrightarrow> vbufs v' i = Some (ALive (HMAC (oneShot ?h) (hashBlock ?h) secret info) False ro)) \<and>
      (hmacScratchSize ?h (length info) \<le> hmacStackRegion \<and> fateOf E v = Fine \<longrightarrow> e = None)"
      by (rule deriveInto_runs [OF assms(1,2,5)]) (use hmacIntoInPlace_runs [OF _ assms(2) False] H(3) in auto)
    then show ?thesis using s i False H assms(7)
      by (auto simp: HMACInto_def hmacScratchSize_def)
  qed
qed

definition ex_kdf :: kdfEnv where
  "ex_kdf = \<lparr>allocAnswer = (\<lambda>_. None), closedRegions = False, accessFate = (\<lambda>_. Fine), randomBytes = (\<lambda>_ n. Some (zeros n)),
     heapErased = False, destroyAnswer = (\<lambda>_. None), hkdfReader = (\<lambda>_ _ _ _ _. None)\<rparr>"

definition ex_out :: vault where
  "ex_out = \<lparr>vbufs = [0 \<mapsto> ALive (zeros 32) False False], vlen = (\<lambda>_. 32), vnext = 1, vtick = 0\<rparr>"

definition ex_sha256 :: hashProbe where
  "ex_sha256 = \<lparr>ptype = sha256Type, psize = 32, pblock = 64, psum = sum256\<rparr>"

lemma ex_kdf_facts: "vwf ex_out" "\<not> closedRegions ex_kdf" "seenOK []" "plainHash ex_sha256" "vbufs ex_out 0 = Some (ALive (zeros 32) False False)"
  "vlen ex_out 0 = 32" "psize ex_sha256 = 32"
  using length_oneShot [of hashSHA256]
  by (simp_all add: vwf_def ex_out_def ex_kdf_def seenOK_def plainHash_def ex_sha256_def candidate_def oneShot_def hashBlock_def hashSize_def)

theorem HMACInto_correct_witness:
  "\<exists>seen' v'. HMACInto ex_kdf \<lparr>allowHeapTransients = False\<rparr> (Some (Some ex_sha256)) [1] [2, 3] (Some 0) ([], ex_out) = Some (None, seen', v') \<and>
     vbufs v' 0 = Some (ALive (HMAC sum256 64 [1] [2, 3]) False False)"
  using HMACInto_correct [of ex_out ex_kdf "[]" ex_sha256 0 "zeros 32" False "\<lparr>allowHeapTransients = False\<rparr>" "[1]" "[2, 3]"] ex_kdf_facts
  by (auto simp: fateOf_def ex_kdf_def ex_sha256_def candidate_def hmacStackRegion_def)

text \<open>
  C0. \<open>HKDFInto\<close> refuses an output longer than 255 digests before it derives anything. Within the
  limit and for a plain hash with a one-shot it returns, holds no buffer it did not hold before, and
  a success leaves HKDF of RFC 5869 in the output. When the working region fits the stack it succeeds
  unless an emergency wipe came first.
\<close>

theorem HKDFInto_correct:
  assumes "vwf v" "\<not> closedRegions E" "seenOK seen" "plainHash p" "vbufs v i = Some (ALive c False ro)" "vlen v i = length c" "c \<noteq> []"
    "candidate (ptype p) (psize p) = h" "h \<noteq> hashNone"
  shows "\<exists>e seen' v'. HKDFInto E opts (Some (Some p)) secret salt info (Some i) (seen, v) = Some (e, seen', v') \<and> seenOK seen' \<and> vheld v' = vheld v \<and>
    (if 255 * hashSize h < length c then e \<noteq> None \<and> v' = v
     else (e = None \<longrightarrow> vbufs v' i = Some (ALive (HKDF h secret salt info (length c)) False ro)) \<and>
       (fateOf E v = Fine \<and> hkdfRegionSize h (length secret) (length info) \<le> hmacStackRegion \<longrightarrow> e = None))"
proof -
  obtain seen1 where s: "inPlaceHashOf (Some p) seen = (h, seen1)" "seenOK seen1"
    using inPlaceHashOf_plain [OF assms(3,4)] inPlaceHashOf_sound [OF assms(3)] assms(8) by (metis prod.collapse)
  have i: "\<not> bufDestroyed i v" "bufLen i v = length c" "psize p = hashSize h"
    using assms(5-) hashSize_candidate by (auto simp: bufDestroyed_def bufLen_def)
  have "\<exists>e v'. deriveInto E (\<lambda>dst. hkdfInPlace E h dst secret salt info) i seen1 v = Some (e, seen1, v') \<and> vheld v' = vheld v \<and>
    (e = None \<longrightarrow> vbufs v' i = Some (ALive (HKDF h secret salt info (length c)) False ro)) \<and>
    (hkdfRegionSize h (length secret) (length info) \<le> hmacStackRegion \<and> fateOf E v = Fine \<longrightarrow> e = None)"
    by (rule deriveInto_runs [OF assms(1,2,5)]) (use hkdfInPlace_runs [OF _ assms(2,9)] in auto)
  then show ?thesis using s i assms(3,7,9) by (auto simp: HKDFInto_def)
qed

theorem HKDFInto_correct_witness:
  "\<exists>seen' v'. HKDFInto ex_kdf \<lparr>allowHeapTransients = False\<rparr> (Some (Some ex_sha256)) [1] [] [2, 3] (Some 0) ([], ex_out) = Some (None, seen', v') \<and>
     vbufs v' 0 = Some (ALive (HKDF hashSHA256 [1] [] [2, 3] 32) False False)"
  using HKDFInto_correct [of ex_out ex_kdf "[]" ex_sha256 0 "zeros 32" False hashSHA256 "\<lparr>allowHeapTransients = False\<rparr>" "[1]" "[]" "[2, 3]"] ex_kdf_facts
  by (auto simp: fateOf_def ex_kdf_def ex_sha256_def candidate_def hmacStackRegion_def hkdfRegionSize_def hashSize_def hashBlock_def maxHashSize_def)

end
