(* ===== verification/Ssh_Crypt.thy ===== *)
theory Ssh_Crypt
  imports Aes_Modes Scrypt_Mix Key_Derive Key_Parse
begin

text \<open>
  The encryption of an OpenSSH private block: \<^verbatim>\<open>opensshCrypt\<close> of
  \<^verbatim>\<open>secmem-crypto/marshal_openssh.go\<close> with the key derivation of
  \<^verbatim>\<open>internal/bcryptpbkdf\<close>, the ChaCha20 of \<^verbatim>\<open>openssh_chacha.go\<close>, and the
  scratch buffer and the ordered borrow of \<^verbatim>\<open>openssh_wire.go\<close>. The salted Blowfish hash and
  Poly1305 are parameters.
\<close>

unbundle bit_operations_syntax

record cryptLib = keyLib +
  bcryptHash :: "bytes \<Rightarrow> bytes \<Rightarrow> bytes"
  poly1305Sum :: "bytes \<Rightarrow> bytes \<Rightarrow> bytes"
  aesWiped :: bool

section \<open>ChaCha20\<close>

definition chachaBlockSize :: nat where "chachaBlockSize = 64"
definition chachaKeyLen :: nat where "chachaKeyLen = 32"

definition chachaQR :: "nat \<Rightarrow> nat \<Rightarrow> nat \<Rightarrow> nat \<Rightarrow> 32 word list \<Rightarrow> 32 word list" where
  "chachaQR a b c d x0 =
     (let x1 = x0[a := x0 ! a + x0 ! b]; x2 = x1[d := word_rotl 16 (x1 ! d XOR x1 ! a)];
          x3 = x2[c := x2 ! c + x2 ! d]; x4 = x3[b := word_rotl 12 (x3 ! b XOR x3 ! c)];
          x5 = x4[a := x4 ! a + x4 ! b]; x6 = x5[d := word_rotl 8 (x5 ! d XOR x5 ! a)];
          x7 = x6[c := x6 ! c + x6 ! d] in x7[b := word_rotl 7 (x7 ! b XOR x7 ! c)])"

definition chachaPass :: "32 word list \<Rightarrow> 32 word list" where
  "chachaPass x = chachaQR 3 4 9 14 (chachaQR 2 7 8 13 (chachaQR 1 6 11 12 (chachaQR 0 5 10 15
     (chachaQR 3 7 11 15 (chachaQR 2 6 10 14 (chachaQR 1 5 9 13 (chachaQR 0 4 8 12 x)))))))"

definition chachaBlock :: "bytes \<Rightarrow> bytes \<Rightarrow> 64 word \<Rightarrow> bytes" where
  "chachaBlock key nonce counter =
     (let s = [0x61707865, 0x3320646e, 0x79622d32, 0x6b206574] @ map (\<lambda>i. leWord (subslice (4 * i) (4 * i + 4) key)) [0..<8] @
            [ucast counter, ucast (drop_bit 32 counter), leWord (subslice 0 4 nonce), leWord (subslice 4 8 nonce)]
      in concat (map2 (\<lambda>x y. leBytes (x + y)) ((chachaPass ^^ 10) s) s))"

function chachaXOR :: "bytes \<Rightarrow> bytes \<Rightarrow> 64 word \<Rightarrow> nat \<Rightarrow> bytes \<Rightarrow> bytes \<Rightarrow> bytes option" where
  "chachaXOR key nonce counter off dst src =
     (if src = [] then Some dst
      else (let n = min (length src) chachaBlockSize in
        if length dst < off + n then None
        else chachaXOR key nonce (counter + 1) (off + n)
          (patch off (map2 (XOR) (take n src) (take n (chachaBlock key nonce counter))) dst) (drop n src)))"
  by pat_completeness auto
termination
  by (relation "measure (\<lambda>(_, _, _, _, _, src). length src)") (auto simp: Let_def chachaBlockSize_def)

declare chachaXOR.simps [simp del]

text \<open>\<open>None\<close> is a panic, \<open>Some None\<close> a tag that does not agree.\<close>

definition opensshChaChaOpen :: "'e cryptLib_scheme \<Rightarrow> bytes \<Rightarrow> bytes \<Rightarrow> bytes \<Rightarrow> bytes \<Rightarrow> bytes option option" where
  "opensshChaChaOpen L dst src tag keyMaterial =
     (if length keyMaterial < chachaKeyLen then None
      else (let key = take chachaKeyLen keyMaterial; nonce = zeros 8; polyKey = take chachaKeyLen (chachaBlock key nonce 0)
        in if poly1305Sum L src polyKey \<noteq> tag then Some None
           else map_option Some (chachaXOR key nonce 1 0 dst src)))"

section \<open>The derivation of bcrypt\<close>

definition bcryptMaxKeyLen :: nat where "bcryptMaxKeyLen = 1024"
definition bcryptMaxSaltLen :: nat where "bcryptMaxSaltLen = 2 ^ 20"
definition bcryptSize :: nat where "bcryptSize = 4 * (18 + 4 * 256) + 64 + 64 + 32 + 32 + 64"

definition bcryptCheck :: "nat \<Rightarrow> bytes \<Rightarrow> bytes \<Rightarrow> int \<Rightarrow> kerr option" where
  "bcryptCheck n password salt rounds =
     (if rounds < 1 then Some (errText ''number of rounds is too small'')
      else if length password = 0 then Some (errText ''empty password'')
      else if length salt = 0 \<or> bcryptMaxSaltLen < length salt then Some (errText ''bad salt length'')
      else if n = 0 then Some (errText ''empty output'')
      else if bcryptMaxKeyLen < n then Some (errText ''keyLen is too large'')
      else None)"

fun bcryptIter :: "(bytes \<Rightarrow> bytes \<Rightarrow> bytes) \<Rightarrow> bytes \<Rightarrow> nat \<Rightarrow> bytes \<Rightarrow> bytes \<Rightarrow> bytes" where
  "bcryptIter h shapass 0 tmp out = out"
| "bcryptIter h shapass (Suc n) tmp out = (let t = h shapass (sum512 tmp) in bcryptIter h shapass n t (map2 (XOR) out t))"

definition bcryptSpread :: "nat \<Rightarrow> nat \<Rightarrow> nat \<Rightarrow> bytes \<Rightarrow> bytes \<Rightarrow> bytes" where
  "bcryptSpread keyLn numBlocks block v out =
     foldl (\<lambda>o1 i. let idx = i * numBlocks + (block - 1) in if idx < keyLn then o1[idx := v ! i] else o1) out [0..<length v]"

definition bcryptDerive :: "'e cryptLib_scheme \<Rightarrow> nat \<Rightarrow> bytes \<Rightarrow> bytes \<Rightarrow> int \<Rightarrow> kerr + bytes" where
  "bcryptDerive L n password salt rounds = (case bcryptCheck n password salt rounds of
     Some e \<Rightarrow> Inl e
   | None \<Rightarrow> (let numBlocks = (n + 31) div 32; shapass = sum512 password in
       Inr (foldl (\<lambda>out block. let t = bcryptHash L shapass (sum512 (salt @ beBytes 4 block))
         in bcryptSpread n numBlocks block (bcryptIter (bcryptHash L) shapass (nat rounds - 1) t t) out) (zeros n) [1..<numBlocks + 1])))"

section \<open>Borrows\<close>

text \<open>The buffers of a vault are numbered in the order of their registration, which is their
  \<^verbatim>\<open>LockOrder\<close>.\<close>

definition borrowOrdered ::
    "'e keyEnv_scheme \<Rightarrow> 'a \<Rightarrow> (bytes \<Rightarrow> bytes \<Rightarrow> vault \<Rightarrow> ((kerr option \<times> 'a \<times> bytes \<times> bytes) \<times> vault) option) \<Rightarrow>
     nat \<Rightarrow> nat \<Rightarrow> vault \<Rightarrow> ((kerr option \<times> 'a) \<times> vault) option" where
  "borrowOrdered E d f a b v =
     (if a \<le> b then withBuf E d (\<lambda>x w. do {
        ((e, r, x1), w1) \<leftarrow> withBuf E (d, x) (\<lambda>y w. do { ((e, r, x1, y1), w1) \<leftarrow> f x y w; Some ((e, (r, x1), y1), w1) }) b w;
        Some ((e, r, x1), w1) }) a v
      else withBuf E d (\<lambda>y w. do {
        ((e, r, y1), w1) \<leftarrow> withBuf E (d, y) (\<lambda>x w. do { ((e, r, x1, y1), w1) \<leftarrow> f x y w; Some ((e, (r, y1), x1), w1) }) a w;
        Some ((e, r, y1), w1) }) b v)"

text \<open>The scratch buffer is zero when the borrow ends, and destroyed on every path.\<close>

definition withScratch ::
    "'e keyEnv_scheme \<Rightarrow> nat \<Rightarrow> 'a \<Rightarrow> (bytes \<Rightarrow> (kerr option \<times> 'a) option) \<Rightarrow> vault \<Rightarrow> ((kerr option \<times> 'a) \<times> vault) option" where
  "withScratch E n d f v = (case newEmptyBuffer E n v of
     (Inl e, v1) \<Rightarrow> Some ((Some e, d), v1)
   | (Inr i, v1) \<Rightarrow> do {
       ((e, r), v2) \<leftarrow> withBuf E d (\<lambda>mem w. do { (e, r) \<leftarrow> f mem; Some ((e, r, zeros (length mem)), w) }) i v1;
       Some ((e, r), destroyBuf i v2)
     })"

section \<open>The private block\<close>

definition scratchKIV :: nat where "scratchKIV = bcryptSize"
definition scratchCipher :: nat where "scratchCipher = scratchKIV + opensshMaxKeyIVLen"
definition scratchSize :: nat where "scratchSize = scratchCipher + cipherScratch"

text \<open>The keys of the AES modes have one of the three sizes, so \<^verbatim>\<open>aes.NewCipher\<close> does not
  fail.\<close>

definition runCipher :: "'e cryptLib_scheme \<Rightarrow> opensshCipher \<Rightarrow> bool \<Rightarrow> bytes \<Rightarrow> bytes \<Rightarrow> bytes \<Rightarrow> bytes \<Rightarrow> (kerr option \<times> bytes) option" where
  "runCipher L mode decrypt kiv dst src cipherMem =
     (let key = take (keyLen mode) kiv; iv = drop (keyLen mode) kiv; wiped = (if aesWiped L then None else Some (errText ''wipe AES key'')) in
      if cbc mode then
        (if \<not> decrypt then Some (joinErr (Some ErrUnsupportedKey) wiped, dst)
         else do { (d, _) \<leftarrow> cbcDecrypt (aesDecrypt key) iv dst src cipherMem; Some (wiped, d) })
      else do { (d, _) \<leftarrow> ctrXOR (aesEncrypt key) iv dst src cipherMem; Some (wiped, d) })"

definition opensshCrypt ::
    "'e cryptLib_scheme \<Rightarrow> bytes \<Rightarrow> bytes \<Rightarrow> bytes \<Rightarrow> bytes \<Rightarrow> bytes \<Rightarrow> int \<Rightarrow> opensshCipher \<Rightarrow> bool \<Rightarrow> vault \<Rightarrow>
     ((kerr option \<times> bytes) \<times> vault) option" where
  "opensshCrypt L dst src tag passphrase salt rounds mode decrypt v = withScratch L scratchSize dst (\<lambda>mem.
     if keyLen mode = 0 then Some (Some ErrUnsupportedKey, dst)
     else case bcryptDerive L (keyLen mode + ivLen mode) passphrase salt rounds of
       Inl e \<Rightarrow> Some (Some e, dst)
     | Inr kiv \<Rightarrow>
        (if mode = cipherChaCha20Poly1305 then
           (if \<not> decrypt then Some (Some ErrUnsupportedKey, dst)
            else do {
              r \<leftarrow> opensshChaChaOpen L dst src tag kiv;
              (case r of None \<Rightarrow> Some (Some IncorrectPasswordError, dst) | Some d \<Rightarrow> Some (None, d))
            })
         else runCipher L mode decrypt kiv dst src (subslice scratchCipher scratchSize mem))) v"

end
