(* ===== verification/Key_Marshal.thy ===== *)
theory Key_Marshal
  imports Ssh_Crypt
begin

text \<open>
  The writer of OpenSSH private-key files, \<^verbatim>\<open>secmem-crypto/marshal_openssh.go\<close>: the
  container of an Ed25519 signer is laid out in a locked buffer, its private block encrypted in place
  when there is a passphrase, and the whole armoured into the buffer that is returned.
\<close>

definition opensshPEMType :: bytes where "opensshPEMType = goString ''OPENSSH PRIVATE KEY''"
definition opensshCipherNone :: bytes where "opensshCipherNone = goString ''none''"
definition opensshKDFNone :: bytes where "opensshKDFNone = goString ''none''"
definition opensshCipherCTR :: bytes where "opensshCipherCTR = goString ''aes256-ctr''"
definition opensshKDFBcrypt :: bytes where "opensshKDFBcrypt = goString ''bcrypt''"
definition opensshKeyEd25519 :: bytes where "opensshKeyEd25519 = goString ''ssh-ed25519''"
definition opensshRounds :: int where "opensshRounds = 16"

lemmas openssh_names = opensshPEMType_def opensshCipherNone_def opensshKDFNone_def opensshCipherCTR_def opensshKDFBcrypt_def
  opensshKeyEd25519_def

section \<open>The container\<close>

fun writePad :: "nat \<Rightarrow> nat \<Rightarrow> sshWriter \<Rightarrow> sshWriter option" where
  "writePad i 0 w = Some w"
| "writePad i (Suc n) w = (if length (wbuf w) \<le> woff w then None
     else writePad (i + 1) n (w\<lparr>wbuf := (wbuf w)[woff w := word_of_nat i], woff := woff w + 1\<rparr>))"

text \<open>The options of the derivation: the salt, random, and the rounds.\<close>

definition writeKDFOpts :: "bytes \<Rightarrow> int \<Rightarrow> (bytes \<times> nat) option" where
  "writeKDFOpts salt rounds = do {
     w \<leftarrow> sshWriter_length opensshSaltLen \<lparr>wbuf = zeros opensshKDFOptsSize, woff = 0\<rparr>;
     w1 \<leftarrow> sshWriter_uint32 (word_of_int rounds) (w\<lparr>wbuf := goCopy (woff w) salt (wbuf w), woff := woff w + opensshSaltLen\<rparr>);
     Some (wbuf w1, woff w1)
   }"

definition writeHead :: "bytes \<Rightarrow> bytes \<Rightarrow> bytes \<Rightarrow> nat \<Rightarrow> bytes \<Rightarrow> nat \<Rightarrow> sshWriter \<Rightarrow> sshWriter option" where
  "writeHead cipherName kdfName kdfOpts pubBlobLen pub privPadded w = do {
     w \<leftarrow> sshWriter_bytes opensshMagic w;
     w \<leftarrow> sshWriter_str cipherName w;
     w \<leftarrow> sshWriter_str kdfName w;
     w \<leftarrow> sshWriter_str kdfOpts w;
     w \<leftarrow> sshWriter_uint32 1 w;
     w \<leftarrow> sshWriter_length pubBlobLen w;
     w \<leftarrow> sshWriter_str opensshKeyEd25519 w;
     w \<leftarrow> sshWriter_str pub w;
     sshWriter_length privPadded w
   }"

definition writeBlock :: "bytes \<Rightarrow> bytes \<Rightarrow> bytes \<Rightarrow> bytes \<Rightarrow> nat \<Rightarrow> sshWriter \<Rightarrow> sshWriter option" where
  "writeBlock check pub seed comment padLen w = do {
     w \<leftarrow> sshWriter_bytes check w;
     w \<leftarrow> sshWriter_bytes check w;
     w \<leftarrow> sshWriter_str opensshKeyEd25519 w;
     w \<leftarrow> sshWriter_str pub w;
     w \<leftarrow> sshWriter_length 64 w;
     w \<leftarrow> sshWriter_bytes seed w;
     w \<leftarrow> sshWriter_bytes pub w;
     w \<leftarrow> sshWriter_str comment w;
     writePad 1 padLen w
   }"

text \<open>The callback that fills the container and encrypts its block in place.\<close>

definition fillContainer ::
    "'e cryptLib_scheme \<Rightarrow> bool \<Rightarrow> bytes \<Rightarrow> bytes \<Rightarrow> int \<Rightarrow> (sshWriter \<Rightarrow> sshWriter option) \<Rightarrow> (bytes \<Rightarrow> sshWriter \<Rightarrow> sshWriter option) \<Rightarrow>
     nat \<Rightarrow> nat \<Rightarrow> bytes \<Rightarrow> bytes \<Rightarrow> vault \<Rightarrow> ((kerr option \<times> unit \<times> bytes \<times> bytes) \<times> vault) option" where
  "fillContainer L encrypted passphrase salt rounds headW blockW privPadded totalLen seed c v = do {
     w \<leftarrow> headW \<lparr>wbuf = c, woff = 0\<rparr>;
     w1 \<leftarrow> blockW seed w;
     (if woff w1 \<noteq> totalLen then Some ((Some (errText ''internal: container layout mismatch''), (), seed, wbuf w1), v)
      else if \<not> encrypted then Some ((None, (), seed, wbuf w1), v)
      else (let start = woff w; blk = subslice start (start + privPadded) (wbuf w1) in do {
        ((e, d), v1) \<leftarrow> opensshCrypt L blk blk [] passphrase salt rounds cipherAES256CTR False v;
        Some ((e, (), seed, patch start d (wbuf w1)), v1)
      }))
   }"

definition fillPEM :: "bytes \<Rightarrow> bytes \<Rightarrow> vault \<Rightarrow> ((kerr option \<times> unit \<times> bytes \<times> bytes) \<times> vault) option" where
  "fillPEM c out v = do {
     (n, out1) \<leftarrow> pemEncode out opensshPEMType c;
     Some ((if n \<noteq> length out then Some (errText ''internal: PEM layout mismatch'') else None, (), c, out1), v)
   }"

text \<open>The armour, and the destruction of the container that the source defers.\<close>

definition armour :: "'e cryptLib_scheme \<Rightarrow> nat \<Rightarrow> nat \<Rightarrow> vault \<Rightarrow> ((kerr + nat) \<times> vault) option" where
  "armour L cont totalLen v = (case newEmptyBuffer L (pemLen opensshPEMType totalLen) v of
     (Inl e, v1) \<Rightarrow> Some (Inl e, destroyBuf cont v1)
   | (Inr out, v1) \<Rightarrow> do {
       ((e, _), v2) \<leftarrow> borrowOrdered L () fillPEM cont out v1;
       (case e of
         Some x \<Rightarrow> Some (Inl x, destroyBuf cont (destroyBuf out v2))
       | None \<Rightarrow> Some (Inr out, destroyBuf cont v2))
     })"

definition marshalOpenSSH ::
    "'e cryptLib_scheme \<Rightarrow> (nat \<times> bytes) option \<Rightarrow> bytes \<Rightarrow> bytes \<Rightarrow> int \<Rightarrow> vault \<Rightarrow> ((kerr + nat) \<times> vault) option" where
  "marshalOpenSSH L s comment passphrase rounds v = (case s of None \<Rightarrow> Some (Inl (errCore ErrDestroyed), v)
   | Some (seedB, pub) \<Rightarrow> (let encrypted = (length passphrase > 0) in
      if encrypted \<and> (rounds < 1 \<or> int opensshMaxRounds < rounds) then Some (Inl (errText ''rounds out of range''), v)
      else do {
        (salt, v1) \<leftarrow> Some (if encrypted then (randomBytes L (vtick v) opensshSaltLen, vstep v) else (Some [], v));
        (case salt of None \<Rightarrow> Some (Inl (errText ''salt''), v1)
         | Some sl \<Rightarrow> do {
            (kdfOpts, kdfOptsLen) \<leftarrow> (if encrypted then writeKDFOpts sl rounds else Some (zeros opensshKDFOptsSize, 0));
            (case randomBytes L (vtick v1) 4 of None \<Rightarrow> Some (Inl (errText ''check bytes''), vstep v1)
             | Some check \<Rightarrow>
                (let v2 = vstep v1;
                     cipherName = (if encrypted then opensshCipherCTR else opensshCipherNone);
                     kdfName = (if encrypted then opensshKDFBcrypt else opensshKDFNone);
                     blockSize = (if encrypted then opensshAESBlock else opensshNoneBlock);
                     pubBlobLen = sshStrLen (length opensshKeyEd25519) + sshStrLen 32;
                     privLen = 4 + 4 + sshStrLen (length opensshKeyEd25519) + sshStrLen 32 + sshStrLen 64 + sshStrLen (length comment);
                     padLen = (blockSize - privLen mod blockSize) mod blockSize;
                     privPadded = privLen + padLen;
                     totalLen = length opensshMagic + sshStrLen (length cipherName) + sshStrLen (length kdfName) + sshStrLen kdfOptsLen + 4 +
                       sshStrLen pubBlobLen + sshStrLen privPadded
                 in case newEmptyBuffer L totalLen v2 of
                   (Inl e, v3) \<Rightarrow> Some (Inl e, v3)
                 | (Inr cont, v3) \<Rightarrow> do {
                     ((e, _), v4) \<leftarrow> borrowOrdered L () (fillContainer L encrypted passphrase (subslice 4 (4 + opensshSaltLen) kdfOpts) rounds
                       (writeHead cipherName kdfName (take kdfOptsLen kdfOpts) pubBlobLen pub privPadded)
                       (\<lambda>seed. writeBlock check pub seed comment padLen) privPadded totalLen) seedB cont v3;
                     (case e of Some x \<Rightarrow> Some (Inl x, destroyBuf cont v4) | None \<Rightarrow> armour L cont totalLen v4)
                   }))
          })
      }))"

definition MarshalOpenSSHPrivateKey :: "'e cryptLib_scheme \<Rightarrow> (nat \<times> bytes) option \<Rightarrow> bytes \<Rightarrow> vault \<Rightarrow> ((kerr + nat) \<times> vault) option" where
  "MarshalOpenSSHPrivateKey L s comment v = marshalOpenSSH L s comment [] opensshRounds v"

definition MarshalOpenSSHPrivateKeyWithPassphraseParams ::
    "'e cryptLib_scheme \<Rightarrow> (nat \<times> bytes) option \<Rightarrow> bytes \<Rightarrow> bytes \<Rightarrow> int \<Rightarrow> vault \<Rightarrow> ((kerr + nat) \<times> vault) option" where
  "MarshalOpenSSHPrivateKeyWithPassphraseParams L s comment passphrase rounds v =
     (if length passphrase = 0 then Some (Inl (errText ''empty passphrase''), v) else marshalOpenSSH L s comment passphrase rounds v)"

definition MarshalOpenSSHPrivateKeyWithPassphrase ::
    "'e cryptLib_scheme \<Rightarrow> (nat \<times> bytes) option \<Rightarrow> bytes \<Rightarrow> bytes \<Rightarrow> vault \<Rightarrow> ((kerr + nat) \<times> vault) option" where
  "MarshalOpenSSHPrivateKeyWithPassphrase L s comment passphrase v =
     MarshalOpenSSHPrivateKeyWithPassphraseParams L s comment passphrase opensshRounds v"

section \<open>What is written\<close>

definition padBytes :: "nat \<Rightarrow> nat \<Rightarrow> bytes" where
  "padBytes i n = map (\<lambda>k. word_of_nat (i + k)) [0..<n]"

definition privateBlock :: "bytes \<Rightarrow> bytes \<Rightarrow> bytes \<Rightarrow> bytes \<Rightarrow> nat \<Rightarrow> bytes" where
  "privateBlock check pub seed comment padLen =
     check @ check @ sshStr opensshKeyEd25519 @ sshStr pub @ sshStr (seed @ pub) @ sshStr comment @ padBytes 1 padLen"

definition containerHead :: "bytes \<Rightarrow> bytes \<Rightarrow> bytes \<Rightarrow> bytes \<Rightarrow> bytes" where
  "containerHead cipherName kdfName kdfOpts pub =
     opensshMagic @ sshStr cipherName @ sshStr kdfName @ sshStr kdfOpts @ beBytes 4 1 @ sshStr (sshStr opensshKeyEd25519 @ sshStr pub)"

lemma padBytes_Suc: "padBytes i (Suc n) = word_of_nat i # padBytes (i + 1) n"
  by (simp add: padBytes_def map_upt_Suc del: upt_Suc)

lemma emits_writePad [emits_intros]: "emits (writePad i n) (padBytes i n)"
proof (induction n arbitrary: i)
  case 0
  then show ?case by (simp add: padBytes_def emits_def)
next
  case (Suc n)
  let ?f = "\<lambda>w. if length (wbuf w) \<le> woff w then None
      else Some (w\<lparr>wbuf := (wbuf w)[woff w := word_of_nat i], woff := woff w + 1\<rparr>)"
  have "emits ?f [word_of_nat i]"
    by (rule emitsI) (auto simp: list_update_append neq_Nil_conv Suc_le_eq)
  moreover have "writePad i (Suc n) = (\<lambda>w. ?f w \<bind> writePad (i + 1) n)" by (simp add: fun_eq_iff)
  ultimately show ?case using emits_bind [OF _ Suc.IH [of "i + 1"], of ?f "[word_of_nat i]"] by (simp add: padBytes_Suc)
qed

lemma emits_writeHead:
  assumes "length cipherName < 2 ^ 32" "length kdfName < 2 ^ 32" "length kdfOpts < 2 ^ 32" "length pub = 32" "privPadded < 2 ^ 32"
  shows "emits (writeHead cipherName kdfName kdfOpts 51 pub privPadded) (containerHead cipherName kdfName kdfOpts pub @ beBytes 4 privPadded)"
proof -
  have k: "length opensshKeyEd25519 = 11" by (simp add: openssh_names goString_def)
  have "emits (writeHead cipherName kdfName kdfOpts 51 pub privPadded)
      (opensshMagic @ sshStr cipherName @ sshStr kdfName @ sshStr kdfOpts @ beBytes 4 (unat (1 :: 32 word)) @ beBytes 4 51 @
        sshStr opensshKeyEd25519 @ sshStr pub @ beBytes 4 privPadded)"
    unfolding writeHead_def by (intro emits_intros) (use assms k in simp_all)
  then show ?thesis using k assms(4) by (simp add: containerHead_def sshStr_def)
qed

lemma emits_writeBlock:
  assumes "length pub = 32" "length seed = 32" "length comment < 2 ^ 32"
  shows "emits (writeBlock check pub seed comment padLen) (privateBlock check pub seed comment padLen)"
proof -
  have k: "length opensshKeyEd25519 = 11" by (simp add: openssh_names goString_def)
  have "emits (writeBlock check pub seed comment padLen)
      (check @ check @ sshStr opensshKeyEd25519 @ sshStr pub @ beBytes 4 64 @ seed @ pub @ sshStr comment @ padBytes 1 padLen)"
    unfolding writeBlock_def by (intro emits_intros) (use assms k in simp_all)
  then show ?thesis using assms by (simp add: privateBlock_def sshStr_def)
qed

end
