(* ===== verification/Key_Unlock.thy ===== *)
theory Key_Unlock
  imports Key_Marshal
begin

text \<open>
  The parser of passphrase-protected private-key files: \<^verbatim>\<open>ParsePrivateKeyWithPassphrase\<close> of
  \<^verbatim>\<open>secmem-crypto/parse_encrypted.go\<close> with the encrypted OpenSSH container, and the PBES2
  form of PKCS#8 of \<^verbatim>\<open>pbes2.go\<close>.
\<close>

unbundle bit_operations_syntax

section \<open>The encrypted OpenSSH container\<close>

definition errOpenSSHDecrypt :: kerr where
  "errOpenSSHDecrypt = errBoth (errText ''OpenSSH private block did not decrypt to a valid key'') IncorrectPasswordError"

definition admitOpenSSHKeyType :: "'e keyEnv_scheme \<Rightarrow> options \<Rightarrow> bytes \<Rightarrow> kerr option" where
  "admitOpenSSHKeyType E opts pubBlob = (case sshReader_str pubBlob of (keyType, ok, _) \<Rightarrow>
     if \<not> ok then Some errMalformed
     else if keyType = goString ''ssh-ed25519'' then None
     else if keyType = goString ''ecdsa-sha2-nistp256'' \<or> keyType = goString ''ecdsa-sha2-nistp384'' \<or> keyType = goString ''ecdsa-sha2-nistp521''
       then checkHeapTransients E opts
     else if keyType = goString ''ssh-rsa'' then checkHeapTransients E opts
     else Some (errBoth ErrUnsupportedKey (errText (labelForError keyType))))"

text \<open>What the header must say before anything is derived: the mode, the salt and the rounds.\<close>

definition readOpenSSHKDF :: "'e keyEnv_scheme \<Rightarrow> options \<Rightarrow> opensshHeader \<Rightarrow> kerr + (opensshCipher \<times> bytes \<times> 32 word)" where
  "readOpenSSHKDF E opts h = (let mode = opensshCipherByName (hcipher h) in
     if hcipher h = opensshCipherNone then Inl ErrNotEncrypted
     else if hkdf h \<noteq> opensshKDFBcrypt then Inl (errBoth ErrUnsupportedKey (errText (labelForError (hkdf h))))
     else if mode = cipherUnsupported then Inl (errBoth ErrUnsupportedKey (errText (labelForError (hcipher h))))
     else if length (hrest h) \<noteq> tagLen mode then Inl errMalformed
     else if hnumKeys h \<noteq> 1 then Inl ErrUnsupportedKey
     else case sshReader_str (hkdfOpts h) of (salt, ok1, k1) \<Rightarrow> (case sshReader_uint32 k1 of (rounds, ok2, k2) \<Rightarrow>
       if \<not> ok1 \<or> \<not> ok2 \<or> length k2 \<noteq> 0 \<or> length salt = 0 \<or> rounds = 0 then Inl errMalformed
       else if bcryptMaxSaltLen < length salt then Inl errMalformed
       else if opensshMaxRounds < unat rounds then Inl ErrUnsupportedKey
       else if length (hprivBlock h) = 0 \<or> length (hprivBlock h) mod blockLen mode \<noteq> 0 then Inl errMalformed
       else (case admitOpenSSHKeyType E opts (hpubBlob h) of
         Some e \<Rightarrow> Inl e
       | None \<Rightarrow> Inr (mode, salt, rounds))))"

text \<open>The callback on the plaintext buffer: decrypt, then read. Every failure of the reading is the
  same error.\<close>

definition openBlock ::
    "'e cryptLib_scheme \<Rightarrow> options \<Rightarrow> bytes \<Rightarrow> opensshHeader \<Rightarrow> opensshCipher \<Rightarrow> bytes \<Rightarrow> 32 word \<Rightarrow> bytes \<Rightarrow> vault \<Rightarrow>
     ((kerr option \<times> blockKey option \<times> bytes) \<times> vault) option" where
  "openBlock L opts passphrase h mode salt rounds p v = do {
     ((e, d), v1) \<leftarrow> opensshCrypt L p (hprivBlock h) (hrest h) passphrase salt (int (unat rounds)) mode True v;
     (case e of
       Some x \<Rightarrow> Some ((Some (if kerrIs x IncorrectPasswordError then errOpenSSHDecrypt else x), None, d), v1)
     | None \<Rightarrow> do {
         (r, v2) \<leftarrow> parseOpenSSHPrivateBlock L opts d (hpubBlob h) (blockLen mode) v1;
         (case r of
           Inl _ \<Rightarrow> Some ((Some errOpenSSHDecrypt, None, d), v2)
         | Inr k \<Rightarrow> Some ((None, Some k, d), v2))
       })
   }"

definition openEncrypted ::
    "'e cryptLib_scheme \<Rightarrow> options \<Rightarrow> bytes \<Rightarrow> bytes \<Rightarrow> vault \<Rightarrow> ((kerr option \<times> blockKey option) \<times> vault) option" where
  "openEncrypted L opts passphrase b v = (case readOpenSSHHeader b of
     Inl e \<Rightarrow> Some ((Some e, None), v)
   | Inr h \<Rightarrow> (case readOpenSSHKDF L opts h of
       Inl e \<Rightarrow> Some ((Some e, None), v)
     | Inr (mode, salt, rounds) \<Rightarrow> (case newEmptyBuffer L (length (hprivBlock h)) v of
         (Inl e, v1) \<Rightarrow> Some ((Some e, None), v1)
       | (Inr pl, v1) \<Rightarrow> do {
           ((e, k), v2) \<leftarrow> withBuf L None (openBlock L opts passphrase h mode salt rounds) pl v1;
           Some ((e, k), destroyBuf pl v2)
         })))"

definition parseOpenSSHEncrypted ::
    "'e cryptLib_scheme \<Rightarrow> options \<Rightarrow> bytes \<Rightarrow> nat \<Rightarrow> vault \<Rightarrow> ((kerr + Signer) \<times> vault) option" where
  "parseOpenSSHEncrypted L opts passphrase blob v = do {
     ((e, s), v1) \<leftarrow> withBuf L None (reading (openEncrypted L opts passphrase)) blob v;
     (let v2 = destroyBuf blob v1 in
      case e of
        Some x \<Rightarrow> Some (Inl x, v2)
      | None \<Rightarrow> (case s of
          None \<Rightarrow> None
        | Some (blockDER der) \<Rightarrow> do {
            (r, v3) \<leftarrow> rsaFromDER L opts der v2;
            Some (case r of Inl _ \<Rightarrow> (Inl errOpenSSHDecrypt, v3) | Inr sg \<Rightarrow> (Inr sg, v3)) }
        | Some (blockSigner sg) \<Rightarrow> Some (Inr sg, v2)))
   }"

section \<open>The parameters of PBES2\<close>

definition MaxPBKDF2Iterations :: nat where "MaxPBKDF2Iterations = 2000000"
definition MaxScryptMemory :: nat where "MaxScryptMemory = 64 * 2 ^ 20"
definition MaxScryptWork :: nat where "MaxScryptWork = 2 ^ 22"
definition maxPBES2Salt :: nat where "maxPBES2Salt = 1024"

definition oidPBKDF2 :: "nat list" where "oidPBKDF2 = [1, 2, 840, 113549, 1, 5, 12]"
definition oidScrypt :: "nat list" where "oidScrypt = [1, 3, 6, 1, 4, 1, 11591, 4, 11]"
definition oidHMACArc :: "nat list" where "oidHMACArc = [1, 2, 840, 113549, 2]"
definition oidAES128CBC :: "nat list" where "oidAES128CBC = [2, 16, 840, 1, 101, 3, 4, 1, 2]"
definition oidAES192CBC :: "nat list" where "oidAES192CBC = [2, 16, 840, 1, 101, 3, 4, 1, 22]"
definition oidAES256CBC :: "nat list" where "oidAES256CBC = [2, 16, 840, 1, 101, 3, 4, 1, 42]"
definition gcmSchemes :: "nat list list" where
  "gcmSchemes = [[2, 16, 840, 1, 101, 3, 4, 1, 6], [2, 16, 840, 1, 101, 3, 4, 1, 26], [2, 16, 840, 1, 101, 3, 4, 1, 46]]"

definition errPBES2Decrypt :: kerr where
  "errPBES2Decrypt = errBoth (errText ''PKCS#8 encrypted key did not decrypt to a valid key'') IncorrectPasswordError"
definition errPBES2Unsupported :: kerr where "errPBES2Unsupported = ErrUnsupportedKey"
definition errPBES2HeapTransients :: kerr where "errPBES2HeapTransients = ErrHeapTransients"

record pbes2File =
  fscrypt :: bool
  fprf :: inPlaceHash
  fiter :: nat
  fn :: nat
  fr :: nat
  fp :: nat
  fkeyLen :: nat
  fsalt :: bytes
  fiv :: bytes
  fct :: bytes

text \<open>A count: \<open>None\<close> when it is not a canonical non-negative integer, \<open>None\<close> inside when it does
  not fit 31 bits.\<close>

definition readASN1Count :: "asn1Lib \<Rightarrow> bytes \<Rightarrow> (nat option \<times> bytes) option" where
  "readASN1Count A s = (case readASN1 A tagINTEGER s of
     None \<Rightarrow> None
   | Some (raw, rest) \<Rightarrow>
      (if length raw = 0 \<or> bit (raw ! 0) 7 then None
       else if 1 < length raw \<and> raw ! 0 = 0 \<and> \<not> bit (raw ! 1) 7 then None
       else (let raw1 = (if raw ! 0 = 0 then drop 1 raw else raw) in
         if 4 < length raw1 then Some (None, rest)
         else (let v = foldl (\<lambda>v b. push_bit 8 v OR ucast b) (0 :: 64 word) raw1
           in if 2 ^ 31 - 1 < v then Some (None, rest) else Some (Some (unat v), rest)))))"

definition prfByOID :: "nat list \<Rightarrow> inPlaceHash" where
  "prfByOID oid =
     (if length oid \<noteq> length oidHMACArc + 1 \<or> take (length oidHMACArc) oid \<noteq> oidHMACArc then hashNone
      else (let k = oid ! length oidHMACArc in
        if k = 7 then hashSHA1 else if k = 8 then hashSHA224 else if k = 9 then hashSHA256 else if k = 10 then hashSHA384
        else if k = 11 then hashSHA512 else if k = 12 then hashSHA512_224 else if k = 13 then hashSHA512_256 else hashNone))"

text \<open>The optional length of the key, which must agree with the scheme.\<close>

definition readKeyLength :: "asn1Lib \<Rightarrow> nat \<Rightarrow> bytes \<Rightarrow> kerr + bytes" where
  "readKeyLength A n s =
     (if peekASN1Tag A tagINTEGER s then
        (case readASN1Integer A s of
          None \<Rightarrow> Inl errMalformed
        | Some (k, rest) \<Rightarrow> if k \<noteq> int n then Inl errMalformed else Inr rest)
      else Inr s)"

definition readPBKDF2Params :: "asn1Lib \<Rightarrow> pbes2File \<Rightarrow> bytes \<Rightarrow> kerr + pbes2File" where
  "readPBKDF2Params A f s =
     (if peekASN1Tag A tagSEQUENCE s then Inl ErrUnsupportedKey
      else case readASN1 A tagOCTET_STRING s of
        None \<Rightarrow> Inl errMalformed
      | Some (salt, s1) \<Rightarrow>
         (if length salt = 0 then Inl errMalformed
          else if maxPBES2Salt < length salt then Inl errMalformed
          else case readASN1Count A s1 of
            None \<Rightarrow> Inl errMalformed
          | Some (iter, s2) \<Rightarrow>
             (if iter = Some 0 then Inl errMalformed
              else case iter of None \<Rightarrow> Inl ErrUnsupportedKey
              | Some it \<Rightarrow> (if MaxPBKDF2Iterations < it then Inl ErrUnsupportedKey
                else case readKeyLength A (fkeyLen f) s2 of
                  Inl e \<Rightarrow> Inl e
                | Inr s3 \<Rightarrow> (case readOptionalASN1 A tagSEQUENCE s3 of
                    None \<Rightarrow> Inl errMalformed
                  | Some (prf, s4) \<Rightarrow>
                     (case (case prf of None \<Rightarrow> Inr hashSHA1
                        | Some p \<Rightarrow> (case do {
                              (oid, p1) \<leftarrow> readASN1ObjectIdentifier A p;
                              p2 \<leftarrow> skipOptionalASN1 A tagNULL p1;
                              _ \<leftarrow> need (p2 = []);
                              Some oid } of
                            None \<Rightarrow> Inl errMalformed
                          | Some oid \<Rightarrow> if prfByOID oid = hashNone then Inl (errBoth ErrUnsupportedKey (errText (oidForError oid)))
                              else Inr (prfByOID oid))) of
                        Inl e \<Rightarrow> Inl e
                      | Inr h \<Rightarrow> if s4 \<noteq> [] then Inl errMalformed
                          else Inr (f\<lparr>fsalt := salt, fiter := it, fprf := h\<rparr>)))))))"

text \<open>The arithmetic of the bounds is on 64-bit words, as the source has it.\<close>

definition readScryptParams :: "asn1Lib \<Rightarrow> pbes2File \<Rightarrow> bytes \<Rightarrow> kerr + pbes2File" where
  "readScryptParams A f s = (case readASN1 A tagOCTET_STRING s of
     None \<Rightarrow> Inl errMalformed
   | Some (salt, s1) \<Rightarrow>
      (if length salt = 0 then Inl errMalformed
       else if maxPBES2Salt < length salt then Inl errMalformed
       else case do { (n, s2) \<leftarrow> readASN1Count A s1; (r, s3) \<leftarrow> readASN1Count A s2; (p, s4) \<leftarrow> readASN1Count A s3;
           _ \<leftarrow> need (n \<noteq> Some 0 \<and> r \<noteq> Some 0 \<and> p \<noteq> Some 0); Some (n, r, p, s4) } of
         None \<Rightarrow> Inl errMalformed
       | Some (n, r, p, s4) \<Rightarrow>
          (if n \<noteq> None \<and> (n = Some 1 \<or> \<not> isPow2 (the n)) then Inl errMalformed
           else if n \<noteq> None \<and> r = Some 1 \<and> 2 ^ 16 \<le> the n then Inl errMalformed
           else (let un = word_of_nat (case n of None \<Rightarrow> 0 | Some x \<Rightarrow> x) :: 64 word; ur = word_of_nat (case r of None \<Rightarrow> 0 | Some x \<Rightarrow> x);
                     up = word_of_nat (case p of None \<Rightarrow> 0 | Some x \<Rightarrow> x) in
             if n = None \<or> r = None \<or> p = None \<or> word_of_nat (MaxScryptMemory div 128) < ur
                \<or> word_of_nat MaxScryptMemory < 128 * ur * (un + 2 * up + 2) then Inl ErrUnsupportedKey
             else if word_of_nat MaxScryptWork < un * ur * up then Inl ErrUnsupportedKey
             else case readKeyLength A (fkeyLen f) s4 of
               Inl e \<Rightarrow> Inl e
             | Inr s5 \<Rightarrow> if s5 \<noteq> [] then Inl errMalformed
                 else Inr (f\<lparr>fsalt := salt, fn := the n, fr := the r, fp := the p\<rparr>)))))"

definition schemeKeyLen :: "nat list \<Rightarrow> kerr + nat" where
  "schemeKeyLen oid =
     (if oid = oidAES128CBC then Inr 16 else if oid = oidAES192CBC then Inr 24 else if oid = oidAES256CBC then Inr 32
      else if oid \<in> set gcmSchemes then Inl ErrUnsupportedKey
      else if oid \<in> set retiredCiphers then Inl (errBoth ErrUnsupportedKey errRetiredPBES2Cipher)
      else Inl (errBoth ErrUnsupportedKey (errText (oidForError oid))))"

definition pbes2Empty :: pbes2File where
  "pbes2Empty = \<lparr>fscrypt = False, fprf = hashNone, fiter = 0, fn = 0, fr = 0, fp = 0, fkeyLen = 0, fsalt = [], fiv = [], fct = []\<rparr>"

definition readPBES2Algorithm :: "asn1Lib \<Rightarrow> bytes \<Rightarrow> (nat list \<times> bytes \<times> bytes) option" where
  "readPBES2Algorithm A der = do {
     (seq, rest) \<leftarrow> readASN1 A tagSEQUENCE der;
     _ \<leftarrow> need (rest = []);
     (alg, seq1) \<leftarrow> readASN1 A tagSEQUENCE seq;
     (oid, alg1) \<leftarrow> readASN1ObjectIdentifier A alg;
     (ct, seq2) \<leftarrow> readASN1 A tagOCTET_STRING seq1;
     _ \<leftarrow> need (seq2 = []);
     Some (oid, alg1, ct)
   }"

definition readPBES2 :: "asn1Lib \<Rightarrow> bytes \<Rightarrow> kerr + pbes2File" where
  "readPBES2 A der = (case readPBES2Algorithm A der of
     None \<Rightarrow> Inl errMalformed
   | Some (oid, alg, ct) \<Rightarrow>
      (if oid \<noteq> oidPBES2 then
         (if oidIsRetiredPBE oid then Inl (errBoth ErrUnsupportedKey errRetiredPBE) else Inl (errBoth ErrUnsupportedKey (errText (oidForError oid))))
       else case do {
           (params, alg1) \<leftarrow> readASN1 A tagSEQUENCE alg;
           _ \<leftarrow> need (alg1 = []);
           (kdf, params1) \<leftarrow> readASN1 A tagSEQUENCE params;
           (scheme, params2) \<leftarrow> readASN1 A tagSEQUENCE params1;
           _ \<leftarrow> need (params2 = []);
           (soid, scheme1) \<leftarrow> readASN1ObjectIdentifier A scheme;
           Some (kdf, soid, scheme1) } of
         None \<Rightarrow> Inl errMalformed
       | Some (kdf, soid, scheme) \<Rightarrow> (case schemeKeyLen soid of
           Inl e \<Rightarrow> Inl e
         | Inr keyLn \<Rightarrow> (case do {
               (iv, scheme1) \<leftarrow> readASN1 A tagOCTET_STRING scheme;
               _ \<leftarrow> need (scheme1 = [] \<and> length iv = opensshAESBlock);
               (koid, kdf1) \<leftarrow> readASN1ObjectIdentifier A kdf;
               Some (iv, koid, kdf1) } of
             None \<Rightarrow> Inl errMalformed
           | Some (iv, koid, kdf1) \<Rightarrow>
              (if koid \<noteq> oidPBKDF2 \<and> koid \<noteq> oidScrypt then Inl (errBoth ErrUnsupportedKey (errText (oidForError koid)))
               else case do { (kdfParams, kdf2) \<leftarrow> readASN1 A tagSEQUENCE kdf1; _ \<leftarrow> need (kdf2 = []); Some kdfParams } of
                 None \<Rightarrow> Inl errMalformed
               | Some kdfParams \<Rightarrow>
                  (let f = pbes2Empty\<lparr>fscrypt := (koid = oidScrypt), fkeyLen := keyLn, fiv := iv\<rparr> in
                   case (if fscrypt f then readScryptParams A f kdfParams else readPBKDF2Params A f kdfParams) of
                     Inl e \<Rightarrow> Inl e
                   | Inr f1 \<Rightarrow> if length ct = 0 \<or> length ct mod opensshAESBlock \<noteq> 0 then Inl errMalformed
                       else Inr (f1\<lparr>fct := ct\<rparr>)))))))"

section \<open>Decryption\<close>

definition pbes2Key :: "pbes2File \<Rightarrow> bytes \<Rightarrow> bytes \<Rightarrow> bytes \<Rightarrow> (bytes \<times> bytes) option" where
  "pbes2Key f dst region passphrase =
     (if fscrypt f then scryptCompute dst region passphrase (fsalt f) (fn f) (fr f) (fp f)
      else pbkdf2Compute (fprf f) dst region passphrase (fsalt f) (fiter f))"

definition pbes2Region :: "pbes2File \<Rightarrow> nat" where
  "pbes2Region f = (if fscrypt f then scryptRegionSize (length (fsalt f)) (fn f) (fr f) (fp f) else pbkdf2RegionSize (fprf f) (length (fsalt f)))"

definition pbes2Decrypt :: "'e cryptLib_scheme \<Rightarrow> bytes \<Rightarrow> pbes2File \<Rightarrow> bytes \<Rightarrow> vault \<Rightarrow> ((kerr option \<times> bytes) \<times> vault) option" where
  "pbes2Decrypt L dst f passphrase v = (let kdfRegion = pbes2Region f in
     withScratch L (kdfRegion + fkeyLen f + cipherScratch) dst (\<lambda>mem. do {
       (key, _) \<leftarrow> pbes2Key f (subslice kdfRegion (kdfRegion + fkeyLen f) mem) (take kdfRegion mem) passphrase;
       (d, _) \<leftarrow> cbcDecrypt (aesDecrypt key) (fiv f) dst (fct f) (drop (kdfRegion + fkeyLen f) mem);
       Some (if aesWiped L then None else Some (errText ''wipe AES key''), d)
     }) v)"

text \<open>The bits of the constant-time comparison are Booleans here. \<open>Some None\<close> is a bad pad.\<close>

definition pkcs7Unpad :: "bytes \<Rightarrow> nat option option" where
  "pkcs7Unpad p = (let n = length p in
     if n < opensshAESBlock then None
     else (let padByte = p ! (n - 1); pad = unat padByte;
               good = (1 \<le> pad \<and> pad \<le> opensshAESBlock \<and> list_all (\<lambda>i. p ! (n - i) = padByte \<or> \<not> i \<le> pad) [1..<opensshAESBlock + 1])
       in Some (if \<not> good then None else Some (n - pad))))"

definition openPKCS8Encrypted ::
    "'e cryptLib_scheme \<Rightarrow> bytes \<Rightarrow> bytes \<Rightarrow> vault \<Rightarrow> ((kerr option \<times> nat option \<times> nat) \<times> vault) option" where
  "openPKCS8Encrypted L passphrase b v = (case readPBES2 (asn1 L) b of
     Inl e \<Rightarrow> Some ((Some e, None, 0), v)
   | Inr f \<Rightarrow> (case newEmptyBuffer L (length (fct f)) v of
       (Inl e, v1) \<Rightarrow> Some ((Some e, None, 0), v1)
     | (Inr pl, v1) \<Rightarrow> do {
         ((e, n), v2) \<leftarrow> withBuf L 0 (\<lambda>p w. do {
           ((e, d), w1) \<leftarrow> pbes2Decrypt L p f passphrase w;
           (case e of Some x \<Rightarrow> Some ((Some x, 0, d), w1)
            | None \<Rightarrow> do {
                u \<leftarrow> pkcs7Unpad d;
                Some (case u of None \<Rightarrow> ((Some errPBES2Decrypt, 0, d), w1) | Some n \<Rightarrow> ((None, n, d), w1)) }) }) pl v1;
         Some ((e, Some pl, n), v2)
       }))"

definition parsePKCS8Encrypted ::
    "'e cryptLib_scheme \<Rightarrow> options \<Rightarrow> bytes \<Rightarrow> nat \<Rightarrow> vault \<Rightarrow> ((kerr + Signer) \<times> vault) option" where
  "parsePKCS8Encrypted L opts passphrase blob v = do {
     ((e, pl, n), v1) \<leftarrow> withBuf L (None, 0) (reading (openPKCS8Encrypted L passphrase)) blob v;
     (let v2 = destroyBuf blob v1 in do {
       (e1, v3) \<leftarrow> (case e of Some x \<Rightarrow> Some (Some x, v2) | None \<Rightarrow> (case pl of None \<Rightarrow> None | Some i \<Rightarrow> Some (truncateBuf L (int n) i v2)));
       (case e1 of
         Some x \<Rightarrow> Some (Inl x, case pl of None \<Rightarrow> v3 | Some i \<Rightarrow> destroyBuf i v3)
       | None \<Rightarrow> (case pl of None \<Rightarrow> None
           | Some i \<Rightarrow> do {
               (r, v4) \<leftarrow> parsePKCS8 L opts i v3;
               Some (case r of
                 Inr s \<Rightarrow> (Inr s, v4)
               | Inl x \<Rightarrow> (Inl (if kerrIs x ErrHeapTransients then errPBES2HeapTransients
                   else if kerrIs x ErrUnsupportedKey then errPBES2Unsupported else errPBES2Decrypt), v4)) }))
     })
   }"

section \<open>The entry point\<close>

definition derIsEncrypted :: "asn1Lib \<Rightarrow> bytes \<Rightarrow> kerr option" where
  "derIsEncrypted A d = (case do { (seq, _) \<leftarrow> readASN1 A tagSEQUENCE d; (_, tag, _) \<leftarrow> readAnyASN1Element A seq; Some tag } of
     None \<Rightarrow> Some errMalformed
   | Some tag \<Rightarrow> if tag = tagINTEGER then Some ErrNotEncrypted else if tag = tagSEQUENCE then None else Some errMalformed)"

definition unlockWith ::
    "(nat \<Rightarrow> vault \<Rightarrow> ((kerr + Signer) \<times> vault) option) \<Rightarrow> (kerr + nat) \<times> vault \<Rightarrow> ((kerr + Signer) \<times> vault) option" where
  "unlockWith parse bv = (case bv of (Inl e, v1) \<Rightarrow> Some (Inl e, v1) | (Inr blob, v1) \<Rightarrow> parse blob v1)"

definition parseEncryptedPrivateKey ::
    "'e cryptLib_scheme \<Rightarrow> options \<Rightarrow> bytes \<Rightarrow> bytes \<Rightarrow> vault \<Rightarrow> ((kerr + Signer) \<times> vault) option" where
  "parseEncryptedPrivateKey L opts d passphrase v =
     (if prefix opensshMagic d then unlockWith (parseOpenSSHEncrypted L opts passphrase) (copyToBuffer L d v)
      else if looksLikeDER (asn1 L) d then
        (case derIsEncrypted (asn1 L) d of
          Some e \<Rightarrow> Some (Inl e, v)
        | None \<Rightarrow> unlockWith (parsePKCS8Encrypted L opts passphrase) (copyToBuffer L d v))
      else if containsBegin d then
        (case pemBlock d of
          Inl e \<Rightarrow> Some (Inl (if kerrIs e ErrEncryptedKey then errBoth ErrUnsupportedKey errLegacyPEM else e), v)
        | Inr (label, body) \<Rightarrow>
           (if label = opensshPEMType then decodePEMBody L body v \<bind> unlockWith (parseOpenSSHEncrypted L opts passphrase)
            else if label = goString ''ENCRYPTED PRIVATE KEY'' then decodePEMBody L body v \<bind> unlockWith (parsePKCS8Encrypted L opts passphrase)
            else if label = goString ''PRIVATE KEY'' \<or> label = goString ''EC PRIVATE KEY'' \<or> label = goString ''RSA PRIVATE KEY''
              then Some (Inl ErrNotEncrypted, v)
            else Some (Inl (errBoth ErrUnsupportedKey (errText (labelForError label))), v)))
      else Some (Inl errMalformed, v))"

definition ParsePrivateKeyWithPassphrase ::
    "'e cryptLib_scheme \<Rightarrow> options \<Rightarrow> bytes \<Rightarrow> bytes \<Rightarrow> vault \<Rightarrow> ((kerr + Signer) \<times> vault) option" where
  "ParsePrivateKeyWithPassphrase L opts d passphrase v =
     (if length d = 0 then Some (Inl (errText ''empty input''), v)
      else if length passphrase = 0 then Some (Inl (errText ''empty passphrase''), v)
      else parseEncryptedPrivateKey L opts d passphrase v)"

end
