(* ===== verification/Spec2Isabelle.thy ===== *)
theory Spec2Isabelle
  imports Buf_Lock Buffer_Correct Arena_Correct Parse_Correct Key_Unlock
begin

text \<open>
  A verification development of the Go module \<^verbatim>\<open>secmem\<close>, which keeps secrets in locked,
  guarded memory, and of its package \<^verbatim>\<open>secmem-crypto\<close>, which parses and derives keys without
  leaving copies of them on the heap.

  \<^bold>\<open>The program.\<close> A \<^verbatim>\<open>SecureBuffer\<close> (\<^verbatim>\<open>securebuf.go\<close>,
  \<^verbatim>\<open>securebuf_access.go\<close>, \<^verbatim>\<open>closedatrest.go\<close>) is one region of pages between
  guard pages, obtained from a platform allocator (\<^verbatim>\<open>mlock_*.go\<close>, \<^verbatim>\<open>region.go\<close>)
  and surrounded by a canary (\<^verbatim>\<open>canary.go\<close>). A \<^verbatim>\<open>SecureArena\<close>
  (\<^verbatim>\<open>securearena.go\<close>) cuts one region into slots with a free list. Every method runs under a
  reader-writer lock (\<^verbatim>\<open>buflock.go\<close>). A sealed buffer carries a keyed tag
  (\<^verbatim>\<open>sealauth.go\<close>) and, on Windows, ciphertext. A registry (\<^verbatim>\<open>registry.go\<close>)
  knows every region, so that an emergency wipe can reach all of them, and a quarantine
  (\<^verbatim>\<open>quarantine.go\<close>) keeps destroyed address ranges mapped for a while. The package
  \<^verbatim>\<open>secmem-crypto\<close> is a client: it reaches locked memory through the methods of the buffer
  only, parses key files into signers that own a buffer each, and derives keys into buffers.

  \<^bold>\<open>How it is modelled.\<close> Go values are records and datatypes with the fields of the source;
  machine integers are words where they wrap and naturals or integers where the source bounds them. A
  method is a function that returns its results and the new state; a run-time panic and a memory fault
  are the value \<open>None\<close>, so a theorem that a function returns \<open>Some\<close> says also that it does
  neither. What the program cannot decide is a parameter: the record \<open>kernel\<close> answers every
  system call of the core module, \<open>keyEnv\<close> and its extensions \<open>keyLib\<close> and
  \<open>kdfEnv\<close> stand for the allocator, emergency wipes at any access, the random source, the
  curve arithmetic and the third-party packages \<^verbatim>\<open>cryptobyte\<close> (record \<open>asn1Lib\<close>) and
  \<^verbatim>\<open>x/crypto/hkdf\<close>. No theorem assumes anything of \<^verbatim>\<open>cryptobyte\<close> except the
  one on the acceptance of an assembled RSA key, which names what it relies on.

  \<^bold>\<open>The theories.\<close>
  \<^descr> \<open>Secmem_Prelude\<close>: bytes, slices, Go's \<^verbatim>\<open>copy\<close>, the errors of
  \<^verbatim>\<open>errors.go\<close>, and the list facts every theory uses.
  \<^descr> \<open>Buf_Lock\<close>: \<^verbatim>\<open>buflock.go\<close> as atomic steps of any number of goroutines, with
  the 32-bit reader counter. Mutual exclusion, no lost wake-up, and a refinement of the abstract
  reader-writer lock.
  \<^descr> \<open>Canary\<close>, \<open>Sec_Memory\<close>, \<open>Quarantine\<close>, \<open>Registry\<close>,
  \<open>Seal_Auth\<close> (with \<open>Sha2\<close>): the parts a region is made of. The canary layouts cover
  exactly the bytes outside the secrets; the allocators of the four platforms meet the contract
  \<open>allocator\<close> or give everything back; ranges in quarantine are not reused; the emergency wipe
  zeroes every registered region whose lock can be had; the tag is HMAC.
  \<^descr> \<open>Secure_Buffer\<close> defines every method of the buffer; \<open>Buffer_Inv\<close>,
  \<open>Buffer_Access\<close>, \<open>Buffer_Seal\<close> and \<open>Buffer_Life\<close> prove the invariant and the
  specifications; \<open>Buffer_Correct\<close> states that every method refines the abstract buffer
  \<open>abuf\<close>, with failing system calls, sealed and read-only states and emergency wipes included.
  \<^descr> \<open>Secure_Arena\<close> defines the arena; \<open>Arena_Pool\<close> shows that its links are a
  first-in first-out queue (locale \<open>fifo_pool\<close>), \<open>Arena_Inv\<close> and \<open>Arena_Run\<close> give
  the invariant of every interleaving, and \<open>Arena_Correct\<close> its consequences.
  \<^descr> \<open>Ssh_Wire\<close>, \<open>Pem_Armour\<close>, \<open>Mod_Reduce\<close>, \<open>Der_Writer\<close>: the encodings
  (\<^verbatim>\<open>openssh_wire.go\<close>, \<^verbatim>\<open>modreduce.go\<close>, \<^verbatim>\<open>rsabounds.go\<close>, parts of
  \<^verbatim>\<open>parse.go\<close> and \<^verbatim>\<open>parse_openssh.go\<close>). The armour round-trips; the limb reduction
  is the remainder; \<^verbatim>\<open>pkcs1DER\<close> writes exactly the DER of the nine numbers.
  \<^descr> \<open>Key_Vault\<close>: the buffers as the package uses them, each an \<open>abuf\<close>, with the theorem
  that every access of the vault is one the contract of the core module allows, and the calculus of
  held buffers.
  \<^descr> \<open>Key_Signers\<close>, \<open>Key_Parse\<close>, \<open>Parse_Correct\<close>: the signers and
  \<^verbatim>\<open>ParsePrivateKey\<close> with its containers. It returns on every input and leaks no buffer, but
  for the case the theory exhibits; the text an error repeats is bounded.
  \<^descr> \<open>Hash_Family\<close>, \<open>Hmac_InPlace\<close>, \<open>Key_Derive\<close>: the hashes of the standard
  library as executable functions, HMAC, HKDF and PBKDF2 over one working region
  (\<^verbatim>\<open>hmac_inplace.go\<close>, \<^verbatim>\<open>pbkdf2_inplace.go\<close>) proved equal to the standards, and
  the entry points of \<^verbatim>\<open>kdf.go\<close> over the vault.

  \<^bold>\<open>Bounds and fuel.\<close> Nothing in the model runs on fuel. Loops are structural or have a
  measure; the one loop whose end depends on its callee (\<open>pbkdf2Loop\<close>) is a partial function and
  shown to return. Runs of the lock and of the arena are unbounded; the lock theorems hold for fewer
  than \<open>2 ^ 30\<close> goroutines, where the source's counter is exact.

  \<^bold>\<open>Not modelled.\<close>
  \<^item> Where secrets pass outside the locked regions: registers, stack frames, vector state and the
  garbage-collected heap. \<^verbatim>\<open>Scrub\<close>, the assembly of the wipes and of
  \<^verbatim>\<open>vecclear_*\<close>, \<^verbatim>\<open>secret.go\<close> and the wipes of library objects
  (\<^verbatim>\<open>aeswipe.go\<close>, \<^verbatim>\<open>rsawipe.go\<close>, \<^verbatim>\<open>mlkemwipe.go\<close>) act on a state that a
  functional model does not have; a wipe of a local array is left out where no result depends on it.
  \<^item> Process-wide settings (\<^verbatim>\<open>harden*.go\<close>, \<^verbatim>\<open>capabilities.go\<close>) and signal
  handling (\<^verbatim>\<open>terminationwipe.go\<close>), which are system calls and their reports.
  \<^item> Signing, verification and encryption proper (\<^verbatim>\<open>aead.go\<close>, \<^verbatim>\<open>aesgcm.go\<close>,
  \<^verbatim>\<open>x25519.go\<close>, \<^verbatim>\<open>mlkem.go\<close>, \<^verbatim>\<open>ssh.go\<close>): calls of the standard library and
  of third-party curve arithmetic inside borrows that are modelled.
  \<^item> The copies of Argon2, scrypt, bcrypt and X25519 under \<^verbatim>\<open>secmem-crypto/internal\<close>, and
  with them the containers that need a passphrase (\<^verbatim>\<open>parse_encrypted.go\<close>, most of
  \<^verbatim>\<open>pbes2.go\<close>, \<^verbatim>\<open>marshal_openssh.go\<close>, \<^verbatim>\<open>openssh_cipher.go\<close>,
  \<^verbatim>\<open>openssh_chacha.go\<close>, \<^verbatim>\<open>passphrase.go\<close>).
  \<^item> The log redactor (\<^verbatim>\<open>redact/\<close>), the HTTP transport (\<^verbatim>\<open>httpauth/\<close>), the static
  analyser (\<^verbatim>\<open>secmem-lint/\<close>), the examples and the build tools: reflection, network and
  syntax trees of other libraries.
\<close>

end
